(* ===== verification/QF_Prelude.thy ===== *)
theory QF_Prelude
  imports Main "HOL-Library.Word"
begin

text \<open>
  Shared material of the quiet_flow development: the widths of the C++ integers, the result type
  of an operation that may throw, run into undefined behaviour or never return, folds of
  fallible operations, the arithmetic of ring buffers and the word lemmas used by both queues,
  and the collections the component proofs draw on.
\<close>

section \<open>Integer widths\<close>

type_synonym u64 = "64 word"
type_synonym i64 = "64 word"
type_synonym i32 = "32 word"

text \<open>A \<open>void*\<close> is an address; \<open>nullptr\<close> is address 0.\<close>

type_synonym ptr = nat

abbreviation (input) nullptr :: ptr where "nullptr \<equiv> 0"

section \<open>Results of operations\<close>

text \<open>
  \<open>Assert_Failed\<close> is the \<open>std::runtime_error\<close> thrown by \<open>QuietFlowAssert\<close>
  (head/util.h), \<open>Thrown\<close> any other \<open>throw\<close>, \<open>Undefined\<close> is undefined behaviour of C++ (a null or dangling pointer, an
  index out of range, a shift out of range), \<open>Diverges\<close> is a loop that never exits.
\<close>

datatype fault = Assert_Failed string | Thrown string | Undefined string | Diverges

type_synonym 'a result = "fault + 'a"

definition rbind :: "'a result \<Rightarrow> ('a \<Rightarrow> 'b result) \<Rightarrow> 'b result" where
  "rbind r f = (case r of Inl e \<Rightarrow> Inl e | Inr x \<Rightarrow> f x)"

text \<open>\<open>QuietFlowAssert(x)\<close> of head/util.h: throw when the condition is false.\<close>

definition qf_assert :: "bool \<Rightarrow> string \<Rightarrow> unit result" where
  "qf_assert b msg = (if b then Inr () else Inl (Assert_Failed msg))"

text \<open>A \<open>for\<close> loop over a vector whose body may fail.\<close>

fun rfold :: "('a \<Rightarrow> 's \<Rightarrow> 's result) \<Rightarrow> 'a list \<Rightarrow> 's \<Rightarrow> 's result" where
  "rfold f [] s = Inr s"
| "rfold f (x # xs) s = rbind (f x s) (rfold f xs)"

named_theorems result_simps \<open>evaluation of results\<close>
named_theorems ring_simps \<open>contents of ring buffers under updates\<close>
named_theorems index_simps \<open>masked word indices as remainders\<close>

lemma rbind_Inl [simp, result_simps]: "rbind (Inl e) f = Inl e"
  by (simp add: rbind_def)

lemma rbind_Inr [simp, result_simps]: "rbind (Inr x) f = f x"
  by (simp add: rbind_def)

lemma rbind_eq_Inr [simp]: "rbind r f = Inr y \<longleftrightarrow> (\<exists>x. r = Inr x \<and> f x = Inr y)"
  by (cases r) auto

lemma rbind_assoc: "rbind (rbind r f) g = rbind r (\<lambda>x. rbind (f x) g)"
  by (cases r) auto

lemma qf_assert_Inr [simp, result_simps]: "qf_assert b m = Inr u \<longleftrightarrow> b"
  by (simp add: qf_assert_def)

lemma qf_assert_True [simp, result_simps]: "qf_assert True m = Inr ()"
  by (simp add: qf_assert_def)

lemma qf_assert_False [simp, result_simps]: "qf_assert False m = Inl (Assert_Failed m)"
  by (simp add: qf_assert_def)

text \<open>Reading and writing \<open>vec[i]\<close>: outside the vector both are undefined.\<close>

definition vget :: "'a list \<Rightarrow> nat \<Rightarrow> 'a result" where
  "vget v i = (if i < length v then Inr (v ! i) else Inl (Undefined ''index''))"

definition vset :: "'a list \<Rightarrow> nat \<Rightarrow> 'a \<Rightarrow> 'a list result" where
  "vset v i x = (if i < length v then Inr (v[i := x]) else Inl (Undefined ''index''))"

lemma vget_in [simp, result_simps]: "i < length v \<Longrightarrow> vget v i = Inr (v ! i)"
  by (simp add: vget_def)

lemma vset_in [simp, result_simps]: "i < length v \<Longrightarrow> vset v i x = Inr (v[i := x])"
  by (simp add: vset_def)

lemma rfold_append: "rfold f (xs @ ys) s = rbind (rfold f xs s) (rfold f ys)"
proof (induction xs arbitrary: s)
  case Nil
  then show ?case by simp
next
  case (Cons x xs)
  then have "rfold f (xs @ ys) = (\<lambda>s. rbind (rfold f xs s) (rfold f ys))"
    by (simp add: fun_eq_iff)
  then show ?case by (simp add: rbind_assoc)
qed

text \<open>A property kept by every successful iteration is kept by the loop.\<close>

lemma rfold_invariant:
  assumes "rfold f xs s = Inr t" and "P s"
    and "\<And>x s s'. x \<in> set xs \<Longrightarrow> P s \<Longrightarrow> f x s = Inr s' \<Longrightarrow> P s'"
  shows "P t"
  using assms
proof (induction xs arbitrary: s)
  case Nil
  then show ?case by simp
next
  case (Cons x xs)
  from Cons.prems(1) obtain s' where s': "f x s = Inr s'" "rfold f xs s' = Inr t"
    by auto
  with Cons.prems have "P s'" by auto
  with s' Cons.prems(3) show ?case by (intro Cons.IH) auto
qed

section \<open>Ring buffers over lists\<close>

text \<open>The \<open>n\<close> elements of a circular vector from position \<open>s\<close> on.\<close>

definition ring_span :: "'a list \<Rightarrow> nat \<Rightarrow> nat \<Rightarrow> 'a list" where
  "ring_span v s n = map (\<lambda>i. v ! ((s + i) mod length v)) [0..<n]"

lemma length_ring_span [simp, ring_simps]: "length (ring_span v s n) = n"
  by (simp add: ring_span_def)

lemma ring_span_0 [simp, ring_simps]: "ring_span v s 0 = []"
  by (simp add: ring_span_def)

lemma ring_span_Suc_front:
  "ring_span v s (Suc n) = v ! (s mod length v) # ring_span v (Suc s) n"
  by (simp add: ring_span_def upt_conv_Cons map_Suc_upt [symmetric] del: upt_Suc)

lemma add_mod_inj_le:
  assumes "(s + i) mod L = (s + j) mod L" and "i \<le> j" and "j < L"
  shows "i = (j :: nat)"
proof -
  have "L dvd (s + j) - (s + i)"
    using assms by (subst mod_eq_dvd_iff_nat [symmetric]) auto
  with assms show ?thesis by (auto dest: dvd_imp_le)
qed

lemma add_mod_inj:
  assumes "(s + i) mod L = (s + j) mod L" and "i < L" and "j < L"
  shows "i = (j :: nat)"
  using assms add_mod_inj_le [of s i L j] add_mod_inj_le [of s j L i]
  by (cases "i \<le> j") auto

lemma ring_span_upd_other:
  assumes "n \<le> k" and "k < length v"
  shows "ring_span (v[(s + k) mod length v := x]) s n = ring_span v s n"
proof -
  have "(s + k) mod length v \<noteq> (s + i) mod length v" if "i < n" for i
    using that assms add_mod_inj [of s i "length v" k] by auto
  then show ?thesis by (auto simp: ring_span_def nth_list_update_neq)
qed

lemma ring_span_snoc [ring_simps]:
  assumes "n < length v"
  shows "ring_span (v[(s + n) mod length v := x]) s (Suc n) = ring_span v s n @ [x]"
proof -
  have "(s + n) mod length v < length v" using assms by (intro mod_less_divisor) auto
  then have "ring_span (v[(s + n) mod length v := x]) s (Suc n)
      = ring_span (v[(s + n) mod length v := x]) s n @ [x]"
    by (simp add: ring_span_def)
  then show ?thesis using assms by (simp add: ring_span_upd_other)
qed

text \<open>Overwriting the slot just before the span leaves it as it is.\<close>

lemma ring_span_upd_before [ring_simps]:
  assumes "n < length v"
  shows "ring_span (v[s mod length v := x]) (Suc s) n = ring_span v (Suc s) n"
proof -
  have "(Suc s + (length v - 1)) mod length v = s mod length v"
  proof -
    have "Suc s + (length v - 1) = s + length v" using assms by simp
    then show ?thesis by (simp only: mod_add_self2)
  qed
  with ring_span_upd_other [of n "length v - 1" v "Suc s" x] assms show ?thesis by simp
qed

text \<open>Only the residue of the start position matters.\<close>

lemma ring_span_cong:
  assumes "s mod length v = t mod length v"
  shows "ring_span v s n = ring_span v t n"
  unfolding ring_span_def using assms by (metis (no_types, lifting) map_eq_conv mod_add_left_eq)

section \<open>Words\<close>

lemma unat_and_mask [index_simps]:
  fixes w m :: "64 word"
  assumes "m = 2 ^ k - 1" and "k \<le> 64"
  shows "unat (and w m) = unat w mod 2 ^ k"
proof -
  have "and w m = take_bit k w"
    using assms by (simp add: take_bit_eq_mask mask_eq_decr_exp)
  then show ?thesis by (simp add: unsigned_take_bit_eq take_bit_nat_def)
qed

lemma unat_add_mod_pow2:
  fixes a b :: "64 word"
  assumes "k \<le> 64"
  shows "unat (a + b) mod 2 ^ k = (unat a + unat b) mod 2 ^ k"
proof -
  have "(2::nat) ^ k dvd 2 ^ 64" using assms by (rule le_imp_power_dvd)
  then show ?thesis by (simp add: unat_word_ariths mod_mod_cancel)
qed

text \<open>A counter advanced by \<open>n\<close>, masked: the slot \<open>n\<close> places further.\<close>

lemma unat_slot [index_simps]:
  fixes a m :: "64 word"
  assumes "m = 2 ^ k - 1" and "k \<le> 64"
  shows "unat (and (a + of_nat n) m) = (unat a + n) mod 2 ^ k"
proof -
  have dvd: "(2::nat) ^ k dvd 2 ^ 64" using assms(2) by (rule le_imp_power_dvd)
  have "unat (and (a + of_nat n) m) = (unat a + unat (of_nat n :: 64 word)) mod 2 ^ k"
    using assms by (simp add: unat_and_mask unat_add_mod_pow2)
  also have "\<dots> = (unat a + n mod 2 ^ 64) mod 2 ^ k" by (simp add: unat_of_nat)
  also have "\<dots> = (unat a + n) mod 2 ^ k"
    using dvd by (metis mod_add_right_eq mod_mod_cancel)
  finally show ?thesis .
qed

lemma unat_Suc_mod:
  fixes a :: "64 word"
  assumes "k \<le> 64"
  shows "unat (a + 1) mod 2 ^ k = Suc (unat a) mod 2 ^ k"
  using unat_add_mod_pow2 [OF assms, of a 1] by simp

lemma unat_pow2_word:
  assumes "k < 64"
  shows "unat ((2 :: 64 word) ^ k) = 2 ^ k"
proof -
  have "unat ((2 :: 64 word) ^ k) = unat (of_nat (2 ^ k) :: 64 word)" by simp
  also have "\<dots> = 2 ^ k mod 2 ^ 64" by (simp only: unat_of_nat) simp
  also have "\<dots> = 2 ^ k" using assms by (intro mod_less power_strict_increasing) auto
  finally show ?thesis .
qed

lemma unat_inc:
  fixes i n :: "64 word"
  assumes "i < n"
  shows "unat (i + 1) = Suc (unat i)"
proof -
  have "unat i < unat n" using assms by (simp add: word_less_nat_alt)
  moreover have "unat n < 2 ^ 64" using unsigned_less [of n] by simp
  ultimately show ?thesis by (simp add: unat_word_ariths)
qed

text \<open>The distance of two counters when the upper or the lower one is advanced.\<close>

lemma count_inc:
  fixes t h :: "64 word"
  assumes "unat (t - h) < 2 ^ k" and "k \<le> 30"
  shows "unat (t + 1 - h) = Suc (unat (t - h))"
proof -
  have "(2::nat) ^ k \<le> 2 ^ 30" using assms(2) by (rule power_increasing) simp
  then have "t - h < 2 ^ 30" using assms(1) by (simp add: word_less_nat_alt)
  then have "unat (t - h + 1) = Suc (unat (t - h))" by (rule unat_inc)
  then show ?thesis by (simp add: algebra_simps)
qed

lemma count_dec:
  fixes t h :: "64 word"
  assumes "unat (t - h) = Suc n"
  shows "unat (t - (h + 1)) = n"
proof -
  have "t - h \<noteq> 0" using assms by auto
  then have "unat (t - h - 1) = unat (t - h) - 1" by (rule unat_minus_one)
  with assms show ?thesis by (simp add: algebra_simps)
qed

lemma word_diff_eq_0: "(a :: 'a :: len word) - b = 0 \<longleftrightarrow> a = b"
  by simp

end
