(* ===== verification/Util.thy ===== *)
theory Util
  imports QF_Prelude
begin

text \<open>
  head/util.h, src/util.cpp and head/queue/interface.h: the status of a node, a context or a
  schedule and its order, the bit maps a node keeps of its fast downstream nodes, the rounding of
  queue sizes and the circular comparison of counters.
\<close>

unbundle bit_operations_syntax

section \<open>RunningStatus\<close>

datatype RunningStatus =
  Initing | Ready | Running | Yield | Finish | Fail | Recoverable | Destroy

text \<open>The values of the \<open>enum class\<close>, counted from 0 in the order of declaration.\<close>

fun status_code :: "RunningStatus \<Rightarrow> nat" where
  "status_code Initing = 0"
| "status_code Ready = 1"
| "status_code Running = 2"
| "status_code Yield = 3"
| "status_code Finish = 4"
| "status_code Fail = 5"
| "status_code Recoverable = 6"
| "status_code Destroy = 7"

lemma status_code_inj [simp]: "status_code s = status_code t \<longleftrightarrow> s = t"
  by (cases s; cases t) simp_all

text \<open>The code compares statuses with \<open><\<close> and \<open>>=\<close>: the order of declaration.\<close>

instantiation RunningStatus :: linorder
begin

definition less_eq_RunningStatus :: "RunningStatus \<Rightarrow> RunningStatus \<Rightarrow> bool" where
  "less_eq_RunningStatus s t \<longleftrightarrow> status_code s \<le> status_code t"

definition less_RunningStatus :: "RunningStatus \<Rightarrow> RunningStatus \<Rightarrow> bool" where
  "less_RunningStatus s t \<longleftrightarrow> status_code s < status_code t"

instance
proof
  fix s t u :: RunningStatus
  show "s < t \<longleftrightarrow> s \<le> t \<and> \<not> t \<le> s"
    by (auto simp: less_eq_RunningStatus_def less_RunningStatus_def)
  show "s \<le> s" by (simp add: less_eq_RunningStatus_def)
  show "s \<le> t \<or> t \<le> s" by (auto simp: less_eq_RunningStatus_def)
  show "s \<le> t \<Longrightarrow> t \<le> u \<Longrightarrow> s \<le> u" by (simp add: less_eq_RunningStatus_def)
  show "s \<le> t \<Longrightarrow> t \<le> s \<Longrightarrow> s = t" by (simp add: less_eq_RunningStatus_def)
qed

end

lemmas status_order = less_eq_RunningStatus_def less_RunningStatus_def

section \<open>Bit maps of downstream nodes\<close>

text \<open>The loop of \<open>bit_map_idx\<close>: \<open>bit\<close> is the mask \<open>1 << i\<close>.\<close>

function bit_map_idx_loop :: "i64 \<Rightarrow> u64 \<Rightarrow> u64 \<Rightarrow> i64 \<Rightarrow> u64 list \<Rightarrow> u64 list" where
  "bit_map_idx_loop bm n i b acc =
     (if i < n
      then bit_map_idx_loop bm n (i + 1) (push_bit 1 b)
             (if b AND bm \<noteq> 0 then acc @ [i] else acc)
      else acc)"
  by pat_completeness auto
termination
  by (relation "measure (\<lambda>(bm, n, i, b, acc). unat n - unat i)")
     (auto simp: unat_inc word_less_nat_alt)

declare bit_map_idx_loop.simps [simp del]

definition bit_map_idx :: "i64 \<Rightarrow> u64 \<Rightarrow> u64 list result" where
  "bit_map_idx bm bit_size =
     rbind (qf_assert (bit_size < 64) ''bit_size < 64'')
       (\<lambda>_. Inr (bit_map_idx_loop bm bit_size 0 1 []))"

definition bit_map_set :: "i64 \<Rightarrow> u64 \<Rightarrow> u64 \<Rightarrow> i64 result" where
  "bit_map_set bm b bit_size =
     rbind (qf_assert (bit_size < 64) ''bit_size < 64'')
       (\<lambda>_. if b \<ge> bit_size then Inr bm else Inr (bm OR push_bit (unat b) 1))"

text \<open>The result of \<open>&\<close> is a \<open>long int\<close>: the comparison with 0 is signed.\<close>

definition bit_map_get :: "i64 \<Rightarrow> u64 \<Rightarrow> u64 \<Rightarrow> bool result" where
  "bit_map_get bm b bit_size =
     rbind (qf_assert (bit_size < 64) ''bit_size < 64'')
       (\<lambda>_. if b \<ge> bit_size then Inr False else Inr (sint (bm AND push_bit (unat b) 1) > 0))"

lemma and_pow2: "(w :: 64 word) AND 2 ^ k = (if bit w k then 2 ^ k else 0)"
  by (rule bit_eqI) (auto simp: bit_simps)

lemma pow2_neq_0: "k < 64 \<Longrightarrow> (2 :: 64 word) ^ k \<noteq> 0"
  by (metis unat_pow2_word unat_0 power_not_zero zero_neq_numeral)

lemma uint_pow2:
  assumes "k < LENGTH('a)"
  shows "uint ((2 :: 'a :: len word) ^ k) = 2 ^ k"
proof -
  have "(2 :: int) ^ k < 2 ^ LENGTH('a)" using assms by (intro power_strict_increasing) auto
  moreover have "uint ((2 :: 'a :: len word) ^ k) = take_bit LENGTH('a) (2 ^ k)"
    by transfer (simp add: take_bit_eq_mod power_mod)
  ultimately show ?thesis by (simp add: take_bit_int_eq_self)
qed

lemma sint_pow2:
  assumes "Suc k < LENGTH('a)"
  shows "sint ((2 :: 'a :: len word) ^ k) = 2 ^ k"
proof -
  have "(2 :: int) ^ k < 2 ^ (LENGTH('a) - 1)"
    using assms by (intro power_strict_increasing) auto
  moreover have "- (2 ^ (LENGTH('a) - 1)) \<le> (2 :: int) ^ k"
    by (rule order_trans [of _ 0]) simp_all
  ultimately show ?thesis
    using assms by (simp add: sint_uint uint_pow2 signed_take_bit_int_eq_self_iff)
qed

lemma bit_map_idx_loop_eq:
  assumes "n < 64" and "i \<le> n" and "b = push_bit (unat i) 1"
  shows "bit_map_idx_loop bm n i b acc = acc @ map of_nat (filter (bit bm) [unat i..<unat n])"
  using assms
proof (induction bm n i b acc rule: bit_map_idx_loop.induct)
  case (1 bm n i b acc)
  show ?case
  proof (cases "i < n")
    case True
    then have len: "unat i < unat n" and i64: "unat i < 64"
      using "1.prems"(1) by (auto simp: word_less_nat_alt)
    have nxt: "i + 1 \<le> n" "push_bit 1 b = push_bit (unat (i + 1)) 1"
      using True len "1.prems"(3) by (auto simp: unat_inc word_le_nat_alt push_bit_push_bit)
    have "bit_map_idx_loop bm n i b acc =
        bit_map_idx_loop bm n (i + 1) (push_bit 1 b) (if b AND bm \<noteq> 0 then acc @ [i] else acc)"
      using True by (subst bit_map_idx_loop.simps) simp
    also have "\<dots> = (if b AND bm \<noteq> 0 then acc @ [i] else acc)
        @ map of_nat (filter (bit bm) [Suc (unat i)..<unat n])"
      using "1.IH" [OF True] "1.prems"(1) nxt True by (simp add: unat_inc)
    also have "(b AND bm \<noteq> 0) = bit bm (unat i)"
      using "1.prems"(3) i64 by (simp add: and.commute [of "2 ^ unat i"] and_pow2 pow2_neq_0)
    finally show ?thesis
      using len by (simp add: upt_conv_Cons [of "unat i"])
  next
    case False
    with "1.prems"(2) show ?thesis by (subst bit_map_idx_loop.simps) simp
  qed
qed

text \<open>\<open>bit_map_idx\<close> lists, in increasing order, the positions below \<open>bit_size\<close> that are set.\<close>

lemma bit_map_idx_eq:
  "bit_map_idx bm n = (if n < 64 then Inr (map of_nat (filter (bit bm) [0..<unat n]))
     else Inl (Assert_Failed ''bit_size < 64''))"
  by (simp add: bit_map_idx_def bit_map_idx_loop_eq qf_assert_def)

lemma bit_map_get_eq:
  "n < 64 \<Longrightarrow> bit_map_get bm b n = Inr (b < n \<and> bit bm (unat b))"
  by (auto simp: bit_map_get_def and_pow2 sint_pow2 word_less_nat_alt word_le_nat_alt)

lemma bit_map_set_eq:
  "n < 64 \<Longrightarrow> bit_map_set bm b n = Inr (if b < n then bm OR 2 ^ unat b else bm)"
  by (auto simp: bit_map_set_def)

lemma bit_or_pow2: "unat b < 64 \<Longrightarrow> bit (bm OR 2 ^ unat b :: 64 word) k \<longleftrightarrow> bit bm k \<or> k = unat b"
  by (auto simp: bit_simps)

lemma idx_list:
  fixes n :: u64
  assumes "n < 64"
  shows "sorted_wrt (<) (map (of_nat :: nat \<Rightarrow> u64) (filter (bit bm) [0..<unat n]))"
    and "i \<in> set (map of_nat (filter (bit bm) [0..<unat n])) \<longleftrightarrow> i < n \<and> bit bm (unat i)"
proof -
  let ?ns = "filter (bit bm) [0..<unat n]"
  have n64: "unat n < 64" using assms by (simp add: word_less_nat_alt)
  have "sorted_wrt (<) ?ns" by (intro sorted_wrt_filter) simp
  moreover have "(of_nat i :: u64) < of_nat j" if "i \<in> set ?ns" "j \<in> set ?ns" "i < j" for i j
    using that n64 by (simp add: word_less_nat_alt unat_of_nat)
  ultimately show "sorted_wrt (<) (map (of_nat :: nat \<Rightarrow> u64) ?ns)"
    unfolding sorted_wrt_map by (rule sorted_wrt_mono_rel [rotated]) blast
  show "i \<in> set (map of_nat ?ns) \<longleftrightarrow> i < n \<and> bit bm (unat i)"
  proof
    assume "i \<in> set (map of_nat ?ns)"
    then show "i < n \<and> bit bm (unat i)" using n64 by (auto simp: word_less_nat_alt unat_of_nat)
  next
    assume "i < n \<and> bit bm (unat i)"
    then have "unat i \<in> set ?ns" by (auto simp: word_less_nat_alt)
    then have "(of_nat (unat i) :: u64) \<in> set (map of_nat ?ns)" unfolding set_map by (rule imageI)
    then show "i \<in> set (map of_nat ?ns)" by (simp only: of_nat_unat ucast_id)
  qed
qed

lemma sorted_wrt_distinct: "sorted_wrt (<) (xs :: 'a :: order list) \<Longrightarrow> distinct xs"
  by (induction xs) auto

section \<open>Rounding of sizes\<close>

text \<open>\<open>std::__lg\<close>: the position of the highest set bit; undefined at 0.\<close>

fun lg :: "nat \<Rightarrow> nat" where
  "lg n = (if n < 2 then 0 else Suc (lg (n div 2)))"

declare lg.simps [simp del]

text \<open>
  \<open>1 << k\<close> on \<open>int\<close>: the literal is 32 bits wide, so a shift by 32 or more is
  undefined; a shift by 31 gives the sign bit.
\<close>

definition int_shl1 :: "nat \<Rightarrow> i32 result" where
  "int_shl1 k = (if k < 32 then Inr (push_bit k 1) else Inl (Undefined ''shift''))"

text \<open>An \<open>int\<close> used where a \<open>uint64_t\<close> is expected is sign-extended.\<close>

definition to_u64 :: "i32 \<Rightarrow> u64" where
  "to_u64 x = scast x"

definition align_size :: "u64 \<Rightarrow> u64 result" where
  "align_size sz =
     (if sz = 0 then Inl (Undefined ''__lg(0)'') else
      let first_bit = lg (unat sz) in
      rbind (int_shl1 first_bit) (\<lambda>p.
        if to_u64 p = sz then Inr sz
        else rbind (int_shl1 (first_bit + 1)) (\<lambda>q. Inr (to_u64 q))))"

lemma lg_bounds: "0 < n \<Longrightarrow> 2 ^ lg n \<le> n \<and> n < 2 ^ Suc (lg n)"
proof (induction n rule: lg.induct)
  case (1 n)
  show ?case
  proof (cases "n < 2")
    case True
    with "1.prems" show ?thesis by (simp add: lg.simps [of n])
  next
    case False
    with "1.IH" have "2 ^ lg (n div 2) \<le> n div 2 \<and> n div 2 < 2 ^ Suc (lg (n div 2))" by simp
    with False show ?thesis by (simp add: lg.simps [of n]) linarith
  qed
qed

lemma lg_le: "0 < n \<Longrightarrow> n \<le> 2 ^ k \<Longrightarrow> lg n \<le> k"
  using lg_bounds [of n] by (meson le_trans power_le_imp_le_exp one_less_numeral_iff semiring_norm(76))

lemma to_u64_pow2: "k < 31 \<Longrightarrow> to_u64 (2 ^ k) = 2 ^ k"
  by (simp add: to_u64_def scast_eq sint_pow2)

lemma pow2_eq_iff_unat:
  assumes "k < 64"
  shows "(2 :: u64) ^ k = w \<longleftrightarrow> unat w = 2 ^ k"
  using assms by (metis unat_pow2_word word_unat_eq_iff)

text \<open>Up to \<open>2 ^ 30\<close> the result is the least power of two that is not below the argument.\<close>

lemma align_size_pow2:
  assumes "0 < unat n" and "unat n \<le> 2 ^ 30"
  obtains k where "k \<le> 30" and "align_size n = Inr (2 ^ k)"
    and "unat n \<le> 2 ^ k" and "2 ^ k < 2 * unat n"
proof -
  let ?b = "lg (unat n)"
  have b: "2 ^ ?b \<le> unat n" "unat n < 2 * 2 ^ ?b" "?b \<le> 30"
    using lg_bounds [OF assms(1)] lg_le [OF assms] by auto
  have n0: "n \<noteq> 0" using assms(1) by auto
  show ?thesis
  proof (cases "unat n = 2 ^ ?b")
    case True
    then have "(2 :: u64) ^ ?b = n" using b by (simp add: pow2_eq_iff_unat)
    then have "align_size n = Inr (2 ^ ?b)"
      using n0 b by (simp add: align_size_def int_shl1_def to_u64_pow2)
    with True b assms(1) show ?thesis by (intro that [of ?b]) auto
  next
    case False
    then have ne: "(2 :: u64) ^ ?b \<noteq> n" using b by (simp add: pow2_eq_iff_unat)
    have "?b \<noteq> 30" using False b assms(2) by auto
    then have b29: "?b < 30" using b by simp
    have "align_size n = Inr (2 ^ Suc ?b)"
      using n0 ne b29 to_u64_pow2 [of ?b] to_u64_pow2 [of "Suc ?b"]
      by (simp add: align_size_def int_shl1_def)
    with False b b29 show ?thesis by (intro that [of "Suc ?b"]) auto
  qed
qed

lemma align_size_of_pow2:
  assumes "k \<le> 30"
  shows "align_size (2 ^ k) = Inr (2 ^ k)"
proof -
  have u: "unat ((2::u64) ^ k) = 2 ^ k" using assms by (simp add: unat_pow2_word)
  have "(2::nat) ^ k \<le> 2 ^ 30" using assms by (rule power_increasing) simp
  then obtain l where l: "align_size (2 ^ k) = Inr (2 ^ l)" "(2::nat) ^ k \<le> 2 ^ l"
    "(2::nat) ^ l < 2 ^ Suc k"
    using align_size_pow2 [of "2 ^ k"] u by auto
  then have "l < Suc k" using power_less_imp_less_exp [of 2 l "Suc k"] by simp
  with l(2) have "l = k" by simp
  with l show ?thesis by simp
qed

lemma sint_i32_range: "- (2 ^ 31) \<le> sint (x :: i32) \<and> sint x < 2 ^ 31"
  using sint_range_size [of x] by (simp add: word_size)

lemma to_u64_range:
  "unat (to_u64 x) < 2 ^ 31 \<or> 2 ^ 64 - 2 ^ 31 \<le> unat (to_u64 x)"
proof -
  have u: "uint (to_u64 x) = sint x mod 2 ^ 64"
    unfolding to_u64_def scast_eq uint_word_of_int by simp
  show ?thesis
  proof (cases "0 \<le> sint x")
    case True
    then have "uint (to_u64 x) < 2 ^ 31" using u sint_i32_range [of x] by simp
    then have "int (unat (to_u64 x)) < 2147483648" by simp
    then have "unat (to_u64 x) < 2147483648" by linarith
    then show ?thesis by simp
  next
    case False
    have "sint x mod 2 ^ 64 = (sint x + 2 ^ 64) mod 2 ^ 64" by (simp only: mod_add_self2)
    also have "\<dots> = sint x + 2 ^ 64"
      using sint_i32_range [of x] False by (intro mod_pos_pos_trivial) auto
    finally have "uint (to_u64 x) = sint x + 2 ^ 64" using u by simp
    then have "18446744071562067968 \<le> int (unat (to_u64 x))"
      using sint_i32_range [of x] by simp
    then have "18446744071562067968 \<le> unat (to_u64 x)" by linarith
    then show ?thesis by simp
  qed
qed

lemma to_u64_nonneg: "0 \<le> sint x \<Longrightarrow> unat (to_u64 x) = nat (sint x)"
proof -
  assume "0 \<le> sint x"
  moreover have "uint (to_u64 x) = sint x mod 2 ^ 64" unfolding to_u64_def scast_eq uint_word_of_int by simp
  ultimately have "uint (to_u64 x) = sint x" using sint_i32_range [of x] by simp
  then show ?thesis by (simp add: unat_eq_nat_uint)
qed

lemma bit_unat_small:
  fixes r :: u64
  assumes "unat r < 2 ^ k" and "k \<le> j"
  shows "\<not> bit r j"
proof -
  have "unat r < 2 ^ j" using assms power_increasing [of k j "2::nat"] by linarith
  then have "\<not> bit (unat r) j" by (simp add: bit_iff_odd)
  then show ?thesis by (simp add: bit_unsigned_iff)
qed

text \<open>A number below \<open>2 ^ 31\<close> survives the cut to \<open>int\<close> and the extension back.\<close>

lemma to_u64_cut_small:
  fixes r :: u64
  assumes "unat r < 2 ^ 31"
  shows "to_u64 (ucast r) = r"
  unfolding to_u64_def
proof (rule bit_eqI)
  fix j assume "possible_bit TYPE(u64) j"
  then show "bit (scast (ucast r :: i32) :: u64) j = bit r j"
    using bit_unat_small [OF assms, of j] bit_unat_small [OF assms, of 31]
    by (cases "j < 32") (auto simp: bit_word_scast_iff bit_word_ucast_iff)
qed

lemma to_u64_of_nat:
  assumes "m < 2 ^ 31"
  shows "to_u64 (of_nat m) = of_nat m"
proof -
  have "unat (of_nat m :: u64) = m" using assms by (simp add: unat_of_nat)
  then have "to_u64 (ucast (of_nat m :: u64)) = of_nat m"
    using assms by (intro to_u64_cut_small) simp
  moreover have "(ucast (of_nat m :: u64) :: i32) = of_nat m"
    using assms by (simp add: unsigned_of_nat take_bit_nat_eq_self)
  ultimately show ?thesis by simp
qed

section \<open>Circular comparison\<close>

text \<open>\<open>MAX_CAPACITY\<close> and the macro \<open>circular_less\<close> of head/queue/interface.h.\<close>

definition MAX_CAPACITY :: nat where
  "MAX_CAPACITY = 8 * 8 - 1"

definition circular_less :: "u64 \<Rightarrow> u64 \<Rightarrow> bool" where
  "circular_less a b \<longleftrightarrow> a - b > push_bit MAX_CAPACITY 1"

lemma circular_less_alt: "circular_less a b \<longleftrightarrow> unat (a - b) > 2 ^ 63"
  by (simp add: circular_less_def MAX_CAPACITY_def word_less_nat_alt)

section \<open>Properties\<close>

text \<open>Setting a position of a bit map below the size makes exactly that position readable and
  changes no other one; a position at or above the size is ignored. No call fails for sizes below 64.\<close>

theorem bit_map_set_get:
  assumes "n < 64"
  shows "\<exists>bm'. bit_map_set bm b n = Inr bm'
    \<and> (\<forall>c. bit_map_get bm' c n = Inr (c < n \<and> (c = b \<or> bit bm (unat c))))"
proof -
  have u: "unat c = unat b \<longleftrightarrow> c = b" for c by (rule word_unat_eq_iff [symmetric])
  have "b < n \<Longrightarrow> unat b < 64" using assms by (simp add: word_less_nat_alt)
  then show ?thesis
    using assms by (auto simp: bit_map_set_eq bit_map_get_eq bit_or_pow2 u)
qed

theorem bit_map_set_get_witness:
  "\<exists>bm'. bit_map_set 0 5 63 = Inr bm' \<and> (\<forall>c. bit_map_get bm' c 63 = Inr (c < 63 \<and> (c = 5 \<or> bit (0 :: i64) (unat c))))"
  by (rule bit_map_set_get) simp

text \<open>\<open>bit_map_idx\<close> returns the positions that \<open>bit_map_get\<close> finds set, each once and in
  increasing order, for sizes below 64.\<close>

theorem bit_map_idx_lists_set_bits:
  assumes "n < 64"
  shows "\<exists>xs. bit_map_idx bm n = Inr xs \<and> sorted_wrt (<) xs
    \<and> (\<forall>i. i \<in> set xs \<longleftrightarrow> bit_map_get bm i n = Inr True)"
proof (intro exI conjI allI)
  show "bit_map_idx bm n = Inr (map of_nat (filter (bit bm) [0..<unat n]))"
    using assms by (simp add: bit_map_idx_eq)
  show "sorted_wrt (<) (map (of_nat :: nat \<Rightarrow> u64) (filter (bit bm) [0..<unat n]))"
    by (rule idx_list [OF assms])
  show "i \<in> set (map of_nat (filter (bit bm) [0..<unat n])) \<longleftrightarrow> bit_map_get bm i n = Inr True" for i
    unfolding idx_list(2) [OF assms] using assms by (simp add: bit_map_get_eq)
qed

theorem bit_map_idx_lists_set_bits_witness:
  "\<exists>xs. bit_map_idx 42 63 = Inr xs \<and> sorted_wrt (<) xs
    \<and> (\<forall>i. i \<in> set xs \<longleftrightarrow> bit_map_get 42 i 63 = Inr True)"
  by (rule bit_map_idx_lists_set_bits) simp

text \<open>Up to \<open>2 ^ 30\<close>, \<open>align_size\<close> returns the least power of two that is not below its
  argument.\<close>

theorem align_size_least_power:
  assumes "0 < n" and "n \<le> 2 ^ 30"
  shows "\<exists>k. align_size n = Inr (2 ^ k) \<and> k \<le> 30
    \<and> (\<forall>j. unat n \<le> 2 ^ j \<longleftrightarrow> k \<le> j)"
proof -
  have "0 < unat n" "unat n \<le> 2 ^ 30" using assms by (auto simp: word_less_nat_alt word_le_nat_alt)
  then obtain k where k: "k \<le> 30" "align_size n = Inr (2 ^ k)" "unat n \<le> 2 ^ k" "2 ^ k < 2 * unat n"
    using align_size_pow2 by blast
  have "unat n \<le> 2 ^ j \<longleftrightarrow> k \<le> j" for j
  proof
    assume "unat n \<le> 2 ^ j"
    then have "(2::nat) ^ k < 2 ^ Suc j" using k(4) by simp
    then show "k \<le> j" by (simp only: power_strict_increasing_iff one_less_numeral_iff semiring_norm less_Suc_eq_le)
  next
    assume "k \<le> j"
    then have "(2::nat) ^ k \<le> 2 ^ j" by (intro power_increasing) simp_all
    with k(3) show "unat n \<le> 2 ^ j" by linarith
  qed
  with k(1,2) show ?thesis by blast
qed

theorem align_size_least_power_witness:
  "\<exists>k. align_size 100 = Inr (2 ^ k) \<and> k \<le> 30 \<and> (\<forall>j. unat (100 :: u64) \<le> 2 ^ j \<longleftrightarrow> k \<le> j)"
  by (rule align_size_least_power) simp_all

text \<open>Beyond that range \<open>align_size\<close> breaks down: \<open>2 ^ 30 + 1\<close> is rounded to
  \<open>2 ^ 64 - 2 ^ 31\<close>, and a size with a higher bit than 31 shifts an \<open>int\<close> too far.\<close>

theorem align_size_overflow:
  "align_size (2 ^ 30 + 1) = Inr (- (2 ^ 31)) \<and> align_size 0 = Inl (Undefined ''__lg(0)'')
    \<and> align_size (2 ^ 40) = Inl (Undefined ''shift'')"
proof -
  have lg30: "lg (2 ^ 30 + 1) = 30" and lg40: "lg (2 ^ 40) = 40" by (simp_all add: lg.simps)
  have "to_u64 (2 ^ 31) = - (2 ^ 31)" by (simp add: to_u64_def)
  then show ?thesis
    using lg30 lg40 to_u64_pow2 [of 30] by (simp add: align_size_def int_shl1_def)
qed

end
