(* ===== verification/Queue_Interface.thy ===== *)
theory Queue_Interface
  imports Util
begin

text \<open>
  head/queue/interface.h: what the users of \<open>AbstractQueue\<close> rely on. A queue is described by
  the list of its elements and by the number of elements it can hold (\<open>None\<close> when it is not
  bounded); the locale states the effect of each virtual function on that list for calls that are
  not interleaved with others. A queue whose calls always return extends it.
\<close>

section \<open>The reference queue\<close>

datatype qop = Enq ptr | Deq

datatype qres = Enqueued bool | Dequeued "ptr option"

definition has_room :: "nat option \<Rightarrow> 'a list \<Rightarrow> bool" where
  "has_room lim xs = (case lim of None \<Rightarrow> True | Some c \<Rightarrow> length xs < c)"

fun spec_op :: "nat option \<Rightarrow> qop \<Rightarrow> ptr list \<Rightarrow> ptr list \<times> qres" where
  "spec_op lim (Enq x) xs =
     (if has_room lim xs then (xs @ [x], Enqueued True) else (xs, Enqueued False))"
| "spec_op lim Deq xs =
     (case xs of [] \<Rightarrow> ([], Dequeued None) | x # ys \<Rightarrow> (ys, Dequeued (Some x)))"

fun spec_run :: "nat option \<Rightarrow> qop list \<Rightarrow> ptr list \<Rightarrow> ptr list \<times> qres list" where
  "spec_run lim [] xs = (xs, [])"
| "spec_run lim (p # ps) xs =
     (let (ys, r) = spec_op lim p xs; (zs, rs) = spec_run lim ps ys in (zs, r # rs))"

text \<open>A sequence of calls on an implementation.\<close>

fun impl_run ::
  "('q \<Rightarrow> ptr \<Rightarrow> ('q \<times> bool) result) \<Rightarrow> ('q \<Rightarrow> ('q \<times> ptr option) result) \<Rightarrow>
   qop list \<Rightarrow> 'q \<Rightarrow> ('q \<times> qres list) result" where
  "impl_run enq deq [] q = Inr (q, [])"
| "impl_run enq deq (Enq x # ps) q =
     rbind (enq q x) (\<lambda>(q', b).
       rbind (impl_run enq deq ps q') (\<lambda>(q'', rs). Inr (q'', Enqueued b # rs)))"
| "impl_run enq deq (Deq # ps) q =
     rbind (deq q) (\<lambda>(q', r).
       rbind (impl_run enq deq ps q') (\<lambda>(q'', rs). Inr (q'', Dequeued r # rs)))"

definition valid_ops :: "qop list \<Rightarrow> bool" where
  "valid_ops ps \<longleftrightarrow> Enq nullptr \<notin> set ps"

section \<open>The contract of AbstractQueue\<close>

locale abstract_queue =
  fixes enq :: "'q \<Rightarrow> ptr \<Rightarrow> ('q \<times> bool) result"
    and deq :: "'q \<Rightarrow> ('q \<times> ptr option) result"
    and size_approx :: "'q \<Rightarrow> u64"
    and contents :: "'q \<Rightarrow> ptr list"
    and limit :: "'q \<Rightarrow> nat option"
    and inv :: "'q \<Rightarrow> bool"
  assumes enq_room: "inv q \<Longrightarrow> x \<noteq> nullptr \<Longrightarrow> has_room (limit q) (contents q) \<Longrightarrow>
      \<exists>q'. enq q x = Inr (q', True) \<and> inv q' \<and> contents q' = contents q @ [x] \<and> limit q' = limit q"
    and enq_full: "inv q \<Longrightarrow> \<not> has_room (limit q) (contents q) \<Longrightarrow> enq q x = Inr (q, False)"
    and deq_empty: "inv q \<Longrightarrow> contents q = [] \<Longrightarrow> deq q = Inr (q, None)"
    and deq_item: "inv q \<Longrightarrow> contents q = x # xs \<Longrightarrow> deq q = Inr (q', r) \<Longrightarrow>
      r = Some x \<and> inv q' \<and> contents q' = xs \<and> limit q' = limit q"
    and size_contents: "inv q \<Longrightarrow> size_approx q = of_nat (length (contents q))"
    and no_null: "inv q \<Longrightarrow> nullptr \<notin> set (contents q)"
begin

text \<open>Each call agrees with the reference queue.\<close>

lemma enq_spec:
  assumes "inv q" and "x \<noteq> nullptr"
  shows "\<exists>q' b. enq q x = Inr (q', b) \<and> inv q' \<and> limit q' = limit q
    \<and> spec_op (limit q) (Enq x) (contents q) = (contents q', Enqueued b)"
proof (cases "has_room (limit q) (contents q)")
  case True
  then show ?thesis using enq_room [OF assms] by auto
next
  case False
  then show ?thesis using enq_full [OF assms(1), of x] assms(1) by auto
qed

lemma deq_spec:
  assumes "inv q" and "deq q = Inr (q', r)"
  shows "inv q' \<and> limit q' = limit q
    \<and> spec_op (limit q) Deq (contents q) = (contents q', Dequeued r)"
proof (cases "contents q")
  case Nil
  then show ?thesis using deq_empty [OF assms(1) Nil] assms by simp
next
  case (Cons x xs)
  then show ?thesis using deq_item [OF assms(1) Cons assms(2)] by simp
qed

lemma deq_Some_mset:
  assumes "inv q" and "deq q = Inr (q', Some x)"
  shows "contents q = x # contents q'"
  using deq_spec [OF assms] by (auto split: list.splits)

lemma deq_None_empty:
  assumes "inv q" and "deq q = Inr (q', None)"
  shows "contents q = [] \<and> q' = q"
  using deq_spec [OF assms] deq_empty [of q] assms by (auto split: list.splits)

text \<open>Any sequence of calls that returns gives the answers of the reference queue.\<close>

lemma run_spec:
  assumes "inv q" and "valid_ops ps" and "impl_run enq deq ps q = Inr (q', rs)"
  shows "inv q' \<and> limit q' = limit q
    \<and> spec_run (limit q) ps (contents q) = (contents q', rs)"
  using assms
proof (induction ps arbitrary: q rs)
  case Nil
  then show ?case by simp
next
  case (Cons p ps)
  have vs: "valid_ops ps" using Cons.prems(2) by (simp add: valid_ops_def)
  show ?case
  proof (cases p)
    case (Enq x)
    with Cons.prems(2) have "x \<noteq> nullptr" by (auto simp: valid_ops_def)
    then obtain q1 b where q1: "enq q x = Inr (q1, b)" "inv q1" "limit q1 = limit q"
      "spec_op (limit q) (Enq x) (contents q) = (contents q1, Enqueued b)"
      using enq_spec [OF Cons.prems(1), of x] by blast
    from Cons.prems(3) Enq q1(1) obtain rs' where
      "impl_run enq deq ps q1 = Inr (q', rs')" "rs = Enqueued b # rs'"
      by auto
    with Cons.IH [OF q1(2) vs] q1 Enq show ?thesis by (simp del: spec_op.simps)
  next
    case Deq
    with Cons.prems(3) obtain q1 r rs' where q1: "deq q = Inr (q1, r)"
      "impl_run enq deq ps q1 = Inr (q', rs')" "rs = Dequeued r # rs'"
      by auto
    have d: "inv q1" "limit q1 = limit q"
      "spec_op (limit q) Deq (contents q) = (contents q1, Dequeued r)"
      using deq_spec [OF Cons.prems(1) q1(1)] by auto
    with Cons.IH [OF d(1) vs q1(2)] q1(3) Deq show ?thesis by (simp del: spec_op.simps)
  qed
qed

end

section \<open>Queues whose calls always return\<close>

locale total_queue = abstract_queue +
  assumes deq_returns: "inv q \<Longrightarrow> \<exists>q' r. deq q = Inr (q', r)"
begin

lemma run_returns:
  assumes "inv q" and "valid_ops ps"
  shows "\<exists>q' rs. impl_run enq deq ps q = Inr (q', rs)"
  using assms
proof (induction ps arbitrary: q)
  case Nil
  then show ?case by simp
next
  case (Cons p ps)
  have vs: "valid_ops ps" using Cons.prems(2) by (simp add: valid_ops_def)
  show ?case
  proof (cases p)
    case (Enq x)
    with Cons.prems(2) have "x \<noteq> nullptr" by (auto simp: valid_ops_def)
    then obtain q1 b where "enq q x = Inr (q1, b)" "inv q1"
      using enq_spec [OF Cons.prems(1), of x] by blast
    with Cons.IH [OF _ vs, of q1] Enq show ?thesis by auto
  next
    case Deq
    obtain q1 r where "deq q = Inr (q1, r)" using deq_returns Cons.prems(1) by blast
    moreover have "inv q1" using deq_spec [OF Cons.prems(1)] calculation by blast
    ultimately show ?thesis using Cons.IH [OF _ vs, of q1] Deq by auto
  qed
qed

lemma run_total:
  assumes "inv q" and "valid_ops ps"
  shows "\<exists>q' rs. impl_run enq deq ps q = Inr (q', rs)
    \<and> spec_run (limit q) ps (contents q) = (contents q', rs)"
  using run_returns [OF assms] run_spec [OF assms] by blast

end

end
