(* ===== verification/Lock_Queue.thy ===== *)
theory Lock_Queue
  imports Queue_Interface
begin

text \<open>
  head/queue/lock.h and src/queue/lock.cpp: the bounded ring buffer \<open>lock::LimitQueue\<close> and the
  unbounded \<open>lock::UnLimitQueue\<close>. Every operation runs under the queue's mutex, so a call is one
  atomic step; the counters \<open>head\<close> and \<open>tail\<close> are 64 bits wide and wrap around.
\<close>

section \<open>LimitQueue\<close>

record lock_queue =
  lq_vec :: "ptr list"
  lq_capacity :: u64
  lq_capacity_bitmap :: u64
  lq_head :: u64
  lq_tail :: u64

definition lq_new :: "u64 \<Rightarrow> lock_queue result" where
  "lq_new sz = rbind (align_size sz) (\<lambda>c.
     Inr \<lparr>lq_vec = replicate (unat c) nullptr, lq_capacity = c, lq_capacity_bitmap = c - 1,
          lq_head = 0, lq_tail = 0\<rparr>)"

definition lq_is_empty :: "lock_queue \<Rightarrow> bool" where
  "lq_is_empty q \<longleftrightarrow> lq_head q = lq_tail q"

definition lq_is_full :: "lock_queue \<Rightarrow> bool" where
  "lq_is_full q \<longleftrightarrow> lq_tail q - lq_capacity q = lq_head q"

definition lq_size_approx :: "lock_queue \<Rightarrow> u64" where
  "lq_size_approx q =
     (if lq_is_full q then lq_capacity q
      else (lq_tail q - lq_head q) AND lq_capacity_bitmap q)"

definition lq_size :: "lock_queue \<Rightarrow> u64" where
  "lq_size q = lq_size_approx q"

definition lq_try_dequeue :: "lock_queue \<Rightarrow> (lock_queue \<times> ptr option) result" where
  "lq_try_dequeue q =
     (if lq_is_empty q then Inr (q, None) else
      let q1 = q\<lparr>lq_head := lq_head q + 1\<rparr>;
          idx = unat (lq_head q1 AND lq_capacity_bitmap q1) in
      rbind (vget (lq_vec q1) idx) (\<lambda>item.
      rbind (vset (lq_vec q1) idx nullptr) (\<lambda>v.
        Inr (q1\<lparr>lq_vec := v\<rparr>, Some item))))"

definition lq_try_enqueue :: "lock_queue \<Rightarrow> ptr \<Rightarrow> (lock_queue \<times> bool) result" where
  "lq_try_enqueue q item =
     (if lq_is_full q then Inr (q, False) else
      let q1 = q\<lparr>lq_tail := lq_tail q + 1\<rparr>;
          idx = unat (lq_tail q1 AND lq_capacity_bitmap q1) in
      rbind (vset (lq_vec q1) idx item) (\<lambda>v. Inr (q1\<lparr>lq_vec := v\<rparr>, True)))"

subsection \<open>Contents and invariant\<close>

definition lq_count :: "lock_queue \<Rightarrow> nat" where
  "lq_count q = unat (lq_tail q - lq_head q)"

definition lq_contents :: "lock_queue \<Rightarrow> ptr list" where
  "lq_contents q = ring_span (lq_vec q) (unat (lq_head q + 1)) (lq_count q)"

definition lq_limit :: "lock_queue \<Rightarrow> nat option" where
  "lq_limit q = Some (unat (lq_capacity q))"

definition lq_shape :: "nat \<Rightarrow> lock_queue \<Rightarrow> bool" where
  "lq_shape k q \<longleftrightarrow> k \<le> 30 \<and> lq_capacity q = 2 ^ k \<and> lq_capacity_bitmap q = 2 ^ k - 1
     \<and> length (lq_vec q) = 2 ^ k \<and> lq_count q \<le> 2 ^ k"

definition lq_inv :: "lock_queue \<Rightarrow> bool" where
  "lq_inv q \<longleftrightarrow> (\<exists>k. lq_shape k q) \<and> nullptr \<notin> set (lq_contents q)"

lemma lq_shape_cap: "lq_shape k q \<Longrightarrow> unat (lq_capacity q) = 2 ^ k"
  by (simp add: lq_shape_def unat_pow2_word)

lemma lq_full_count:
  assumes "lq_shape k q"
  shows "lq_is_full q \<longleftrightarrow> lq_count q = 2 ^ k"
proof -
  have "lq_is_full q \<longleftrightarrow> lq_tail q - lq_head q = lq_capacity q"
    by (auto simp: lq_is_full_def algebra_simps)
  also have "\<dots> \<longleftrightarrow> lq_count q = unat (lq_capacity q)"
    by (simp add: lq_count_def word_unat_eq_iff)
  finally show ?thesis using assms by (simp add: lq_shape_cap)
qed

lemma lq_empty_count: "lq_is_empty q \<longleftrightarrow> lq_count q = 0"
  by (auto simp: lq_is_empty_def lq_count_def unat_eq_0)

text \<open>The slot of an enqueue is the one right behind the last element.\<close>

lemma lq_tail_slot:
  assumes "lq_shape k q"
  shows "unat ((lq_tail q + 1) AND lq_capacity_bitmap q)
    = (unat (lq_head q + 1) + lq_count q) mod length (lq_vec q)"
proof -
  have "lq_tail q + 1 = lq_head q + 1 + of_nat (lq_count q)"
    by (simp add: lq_count_def)
  then have "unat ((lq_tail q + 1) AND lq_capacity_bitmap q)
      = unat ((lq_head q + 1 + of_nat (lq_count q)) AND lq_capacity_bitmap q)" by (rule arg_cong)
  also have "\<dots> = (unat (lq_head q + 1) + lq_count q) mod 2 ^ k"
    using assms by (intro unat_slot) (auto simp: lq_shape_def)
  finally show ?thesis using assms by (simp add: lq_shape_def)
qed

lemma lq_head_slot:
  assumes "lq_shape k q"
  shows "unat ((lq_head q + 1) AND lq_capacity_bitmap q)
    = unat (lq_head q + 1) mod length (lq_vec q)"
  using assms by (simp add: lq_shape_def unat_and_mask)

lemma lq_enq_room:
  assumes "lq_inv q" and "x \<noteq> nullptr" and "has_room (lq_limit q) (lq_contents q)"
  shows "\<exists>q'. lq_try_enqueue q x = Inr (q', True) \<and> lq_inv q'
    \<and> lq_contents q' = lq_contents q @ [x] \<and> lq_limit q' = lq_limit q"
proof -
  from assms(1) obtain k where k: "lq_shape k q" and nz: "nullptr \<notin> set (lq_contents q)"
    by (auto simp: lq_inv_def)
  have room: "lq_count q < 2 ^ k"
    using assms(3) k by (simp add: lq_limit_def has_room_def lq_shape_cap lq_contents_def)
  let ?i = "(unat (lq_head q + 1) + lq_count q) mod length (lq_vec q)"
  let ?q = "q\<lparr>lq_tail := lq_tail q + 1, lq_vec := (lq_vec q)[?i := x]\<rparr>"
  have i: "?i < length (lq_vec q)" using k by (intro mod_less_divisor) (simp add: lq_shape_def)
  have run: "lq_try_enqueue q x = Inr (?q, True)"
    using room i lq_full_count [OF k] lq_tail_slot [OF k]
    by (simp add: lq_try_enqueue_def Let_def)
  have cnt: "lq_count ?q = Suc (lq_count q)"
    using room k count_inc [of "lq_tail q" "lq_head q" k] by (simp add: lq_count_def lq_shape_def)
  have con: "lq_contents ?q = lq_contents q @ [x]"
    unfolding lq_contents_def cnt
    using room k ring_span_snoc [of "lq_count q" "lq_vec q" "unat (lq_head q + 1)" x]
    by (simp add: lq_shape_def)
  have "lq_shape k ?q" using k room cnt by (simp add: lq_shape_def)
  with con nz assms(2) have "lq_inv ?q" by (auto simp: lq_inv_def)
  with run con show ?thesis by (auto simp: lq_limit_def)
qed

lemma lq_deq_item:
  assumes "lq_inv q" and "lq_contents q = x # xs"
  shows "\<exists>q'. lq_try_dequeue q = Inr (q', Some x) \<and> lq_inv q' \<and> lq_contents q' = xs
    \<and> lq_limit q' = lq_limit q"
proof -
  from assms(1) obtain k where k: "lq_shape k q" and nz: "nullptr \<notin> set (lq_contents q)"
    by (auto simp: lq_inv_def)
  have "lq_count q = length (lq_contents q)" by (simp add: lq_contents_def)
  then obtain n where n: "lq_count q = Suc n" using assms(2) by auto
  let ?h = "unat (lq_head q + 1)" and ?v = "lq_vec q"
  let ?i = "?h mod length ?v"
  let ?q = "q\<lparr>lq_head := lq_head q + 1, lq_vec := ?v[?i := nullptr]\<rparr>"
  have i: "?i < length ?v" using k by (intro mod_less_divisor) (simp add: lq_shape_def)
  have "x # xs = ?v ! ?i # ring_span ?v (Suc ?h) n"
    using assms(2) n by (simp add: lq_contents_def ring_span_Suc_front)
  then have x: "x = ?v ! ?i" and xs: "xs = ring_span ?v (Suc ?h) n" by auto
  have run: "lq_try_dequeue q = Inr (?q, Some x)"
    using n i x lq_head_slot [OF k] by (simp add: lq_try_dequeue_def lq_empty_count Let_def)
  have cnt: "lq_count ?q = n"
    using n count_dec [of "lq_tail q" "lq_head q" n] by (simp add: lq_count_def)
  have len: "length ?v = 2 ^ k" "k \<le> 64" "n < length ?v" using k n by (auto simp: lq_shape_def)
  have "lq_contents ?q = ring_span (?v[?i := nullptr]) (Suc ?h) n"
    unfolding lq_contents_def cnt
    using unat_Suc_mod [of k "lq_head q + 1"] len by (simp, intro ring_span_cong) simp
  also have "\<dots> = xs" unfolding xs by (rule ring_span_upd_before [OF len(3)])
  finally have con: "lq_contents ?q = xs" .
  have "lq_shape k ?q" using k n cnt by (simp add: lq_shape_def)
  with con nz assms(2) have "lq_inv ?q" by (auto simp: lq_inv_def)
  with run con show ?thesis by (auto simp: lq_limit_def)
qed

lemma lq_size_contents:
  assumes "lq_inv q"
  shows "lq_size_approx q = of_nat (length (lq_contents q))"
proof -
  from assms obtain k where k: "lq_shape k q" by (auto simp: lq_inv_def)
  have "unat (lq_size_approx q) = lq_count q"
  proof (cases "lq_is_full q")
    case True
    with k show ?thesis by (simp add: lq_size_approx_def lq_full_count lq_shape_cap)
  next
    case False
    with k have "lq_count q < 2 ^ k" by (auto simp: lq_full_count lq_shape_def)
    with False k show ?thesis
      by (simp add: lq_size_approx_def unat_and_mask lq_shape_def lq_count_def)
  qed
  then have "of_nat (unat (lq_size_approx q)) = (of_nat (lq_count q) :: u64)" by (rule arg_cong)
  then show ?thesis by (simp add: lq_contents_def)
qed

lemma lq_full_contents:
  assumes "lq_inv q"
  shows "lq_is_full q \<longleftrightarrow> \<not> has_room (lq_limit q) (lq_contents q)"
proof -
  from assms obtain k where k: "lq_shape k q" by (auto simp: lq_inv_def)
  then have "lq_count q \<le> 2 ^ k" by (simp add: lq_shape_def)
  with k show ?thesis
    by (auto simp: lq_full_count lq_limit_def has_room_def lq_shape_cap lq_contents_def)
qed

interpretation lq: total_queue lq_try_enqueue lq_try_dequeue lq_size_approx
    lq_contents lq_limit lq_inv
proof unfold_locales
  fix q x
  show "lq_inv q \<Longrightarrow> x \<noteq> nullptr \<Longrightarrow> has_room (lq_limit q) (lq_contents q) \<Longrightarrow>
      \<exists>q'. lq_try_enqueue q x = Inr (q', True) \<and> lq_inv q' \<and> lq_contents q' = lq_contents q @ [x]
        \<and> lq_limit q' = lq_limit q"
    by (rule lq_enq_room)
  show "lq_inv q \<Longrightarrow> \<not> has_room (lq_limit q) (lq_contents q) \<Longrightarrow>
      lq_try_enqueue q x = Inr (q, False)"
    by (simp add: lq_full_contents lq_try_enqueue_def)
  show "lq_inv q \<Longrightarrow> lq_contents q = [] \<Longrightarrow> lq_try_dequeue q = Inr (q, None)"
    by (metis length_0_conv length_ring_span lq_contents_def lq_empty_count lq_try_dequeue_def)
  show "lq_inv q \<Longrightarrow> lq_size_approx q = of_nat (length (lq_contents q))"
    by (rule lq_size_contents)
  show "lq_inv q \<Longrightarrow> nullptr \<notin> set (lq_contents q)" by (simp add: lq_inv_def)
  show "\<exists>q' r. lq_try_dequeue q = Inr (q', r)" if "lq_inv q"
    using that lq_deq_item [of q]
    by (cases "lq_contents q")
      (metis length_0_conv length_ring_span lq_contents_def lq_empty_count lq_try_dequeue_def, blast)
next
  fix q x xs q' r
  assume "lq_inv q" and "lq_contents q = x # xs" and "lq_try_dequeue q = Inr (q', r)"
  with lq_deq_item [of q x xs]
  show "r = Some x \<and> lq_inv q' \<and> lq_contents q' = xs \<and> lq_limit q' = lq_limit q" by auto
qed

lemma lq_new_inv:
  assumes "0 < unat n" and "unat n \<le> 2 ^ 30"
  obtains q c where "lq_new n = Inr q" and "lq_inv q" and "lq_contents q = []"
    and "lq_limit q = Some c" and "unat n \<le> c" and "c < 2 * unat n"
proof -
  obtain k where k: "k \<le> 30" "align_size n = Inr (2 ^ k)" "unat n \<le> 2 ^ k" "2 ^ k < 2 * unat n"
    using align_size_pow2 [OF assms] by blast
  let ?q = "\<lparr>lq_vec = replicate (unat ((2::u64) ^ k)) nullptr, lq_capacity = 2 ^ k,
      lq_capacity_bitmap = 2 ^ k - 1, lq_head = 0, lq_tail = 0\<rparr>"
  have "lq_inv ?q"
    using k(1) by (auto simp: lq_inv_def lq_shape_def lq_count_def lq_contents_def unat_pow2_word)
  moreover have "lq_new n = Inr ?q" using k(2) by (simp add: lq_new_def)
  moreover have "lq_contents ?q = []" by (simp add: lq_contents_def lq_count_def)
  moreover have "lq_limit ?q = Some (2 ^ k)" using k(1) by (simp add: lq_limit_def unat_pow2_word)
  ultimately show ?thesis using that k(3,4) by blast
qed

section \<open>UnLimitQueue\<close>

record unlimit_queue =
  uq_inner_queue :: "ptr list"
  uq_inner_size :: u64

definition uq_new :: "u64 \<Rightarrow> unlimit_queue" where
  "uq_new sz = \<lparr>uq_inner_queue = [], uq_inner_size = 0\<rparr>"

definition uq_size_approx :: "unlimit_queue \<Rightarrow> u64" where
  "uq_size_approx q = uq_inner_size q"

definition uq_size :: "unlimit_queue \<Rightarrow> u64" where
  "uq_size q = of_nat (length (uq_inner_queue q))"

definition uq_try_dequeue :: "unlimit_queue \<Rightarrow> (unlimit_queue \<times> ptr option) result" where
  "uq_try_dequeue q =
     (case uq_inner_queue q of
        [] \<Rightarrow> Inr (q, None)
      | x # xs \<Rightarrow> Inr (q\<lparr>uq_inner_queue := xs, uq_inner_size := uq_inner_size q + (- 1)\<rparr>, Some x))"

definition uq_try_enqueue :: "unlimit_queue \<Rightarrow> ptr \<Rightarrow> (unlimit_queue \<times> bool) result" where
  "uq_try_enqueue q item =
     Inr (q\<lparr>uq_inner_queue := uq_inner_queue q @ [item], uq_inner_size := uq_inner_size q + 1\<rparr>, True)"

definition uq_limit :: "unlimit_queue \<Rightarrow> nat option" where
  "uq_limit q = None"

definition uq_inv :: "unlimit_queue \<Rightarrow> bool" where
  "uq_inv q \<longleftrightarrow> uq_inner_size q = of_nat (length (uq_inner_queue q))
     \<and> nullptr \<notin> set (uq_inner_queue q)"

interpretation uq: total_queue uq_try_enqueue uq_try_dequeue uq_size_approx
    uq_inner_queue uq_limit uq_inv
  by unfold_locales
    (auto simp: uq_try_enqueue_def uq_try_dequeue_def uq_size_approx_def uq_limit_def uq_inv_def
      has_room_def split: list.splits)

lemma uq_new_inv: "uq_inv (uq_new sz) \<and> uq_inner_queue (uq_new sz) = []"
  by (simp add: uq_new_def uq_inv_def)

section \<open>Properties\<close>

text \<open>C34: a new \<open>LimitQueue\<close> of a size up to \<open>2 ^ 30\<close> answers every sequence of calls as a
  bounded first-in first-out queue does, however often its 64-bit positions wrap around; its
  capacity is the requested size rounded up to a power of two.\<close>

theorem lock_queue_refines_fifo:
  assumes "0 < n" and "n \<le> 2 ^ 30" and "valid_ops ps"
  shows "\<exists>q q' rs c. lq_new n = Inr q \<and> impl_run lq_try_enqueue lq_try_dequeue ps q = Inr (q', rs)
    \<and> unat n \<le> c \<and> c < 2 * unat n \<and> spec_run (Some c) ps [] = (lq_contents q', rs)
    \<and> lq_size_approx q' = of_nat (length (lq_contents q'))"
proof -
  have "0 < unat n" "unat n \<le> 2 ^ 30" using assms by (auto simp: word_less_nat_alt word_le_nat_alt)
  then obtain q c where q: "lq_new n = Inr q" "lq_inv q" "lq_contents q = []" "lq_limit q = Some c"
    "unat n \<le> c" "c < 2 * unat n" using lq_new_inv by blast
  obtain q' rs where r: "impl_run lq_try_enqueue lq_try_dequeue ps q = Inr (q', rs)"
    using lq.run_returns [OF q(2) assms(3)] by blast
  from lq.run_spec [OF q(2) assms(3) r] lq.size_contents have
    "spec_run (Some c) ps [] = (lq_contents q', rs)"
    "lq_size_approx q' = of_nat (length (lq_contents q'))"
    using q(3,4) by auto
  with q r show ?thesis by blast
qed

theorem lock_queue_refines_fifo_witness:
  "\<exists>q q' rs c. lq_new 3 = Inr q
    \<and> impl_run lq_try_enqueue lq_try_dequeue [Enq 7, Deq, Deq] q = Inr (q', rs)
    \<and> unat (3 :: u64) \<le> c \<and> c < 2 * unat (3 :: u64)
    \<and> spec_run (Some c) [Enq 7, Deq, Deq] [] = (lq_contents q', rs)
    \<and> lq_size_approx q' = of_nat (length (lq_contents q'))"
  by (rule lock_queue_refines_fifo) (simp_all add: valid_ops_def)

end
