(* ===== verification/Free_Lock_Queue.thy ===== *)
theory Free_Lock_Queue
  imports Queue_Interface
begin

text \<open>
  head/queue/free_lock.h and src/queue/free_lock.cpp: the lock-free bounded queue, called from one
  thread at a time. Each slot carries a version (\<open>flag_vec\<close>): \<open>w\<close> after the write with ticket
  \<open>w\<close>, \<open>r + 1\<close> after the read with ticket \<open>r\<close>. The waiting loops spin (and sleep in
  \<open>futex\<close>) until another thread changes the version; without another thread a version that does
  not match stays so, and the call diverges. Any number of threads at once: Free_Lock_Conc.
\<close>

section \<open>State and constructor\<close>

record free_queue =
  fq_vec :: "ptr list"
  fq_capacity :: u64
  fq_capacity_bitmap :: u64
  flag_vec :: "u64 list"
  fq_read :: u64
  read_missed :: u64
  read_ahead :: u64
  fq_write :: u64
  write_missed :: u64
  write_ahead :: u64

definition fq_new :: "u64 \<Rightarrow> free_queue result" where
  "fq_new sz = rbind (align_size sz) (\<lambda>c.
     Inr \<lparr>fq_vec = replicate (unat c) nullptr, fq_capacity = c, fq_capacity_bitmap = c - 1,
          flag_vec = map (\<lambda>i. of_nat i - (c - 1)) [0..<unat c],
          fq_read = 0, read_missed = 0, read_ahead = 0,
          fq_write = 0, write_missed = 0, write_ahead = 0\<rparr>)"

definition fq_is_empty :: "u64 \<Rightarrow> u64 \<Rightarrow> bool" where
  "fq_is_empty rd wr \<longleftrightarrow> (let diff = rd - wr in diff \<ge> 0 \<and> diff < 0xffffffff)"

definition fq_is_full :: "free_queue \<Rightarrow> u64 \<Rightarrow> u64 \<Rightarrow> bool" where
  "fq_is_full q rd wr \<longleftrightarrow>
     (let diff = wr - fq_capacity q - rd in diff \<ge> 0 \<and> diff < 0xffffffff)"

definition fq_size :: "free_queue \<Rightarrow> u64 result" where
  "fq_size q = Inl (Thrown ''undefined behavior'')"

definition fq_size_approx :: "free_queue \<Rightarrow> u64" where
  "fq_size_approx q =
     (let wr = fq_write q; rd = fq_read q in
      if fq_is_full q rd wr then fq_capacity q
      else (wr - rd) AND fq_capacity_bitmap q)"

text \<open>
  In \<open>try_dequeue\<close> the variable \<open>cur_version\<close> is declared \<open>auto cur_version = 0\<close>, an
  \<open>int\<close>: the version loaded from the slot is cut to 32 bits, and the comparison with the 64-bit
  ticket extends it with its sign. \<open>try_enqueue\<close> keeps all 64 bits.
\<close>

definition deq_version_ready :: "u64 \<Rightarrow> u64 \<Rightarrow> bool" where
  "deq_version_ready flag rd \<longleftrightarrow> (let cur_version = (ucast flag :: i32) in to_u64 cur_version = rd)"

definition fq_try_dequeue :: "free_queue \<Rightarrow> (free_queue \<times> ptr option) result" where
  "fq_try_dequeue q =
     (let wr = fq_write q; rd_missed = read_missed q; rd_ahead = read_ahead q in
      if fq_is_empty (rd_ahead - rd_missed) wr then Inr (q, None) else
      let rd_ahead1 = read_ahead q; q1 = q\<lparr>read_ahead := read_ahead q + 1\<rparr>;
          wr1 = fq_write q1 in
      if fq_is_empty (rd_ahead1 - rd_missed) wr1
      then Inr (q1\<lparr>read_missed := read_missed q1 + 1\<rparr>, None) else
      let rd = fq_read q1; q2 = q1\<lparr>fq_read := fq_read q1 + 1\<rparr>;
          idx = unat (rd AND fq_capacity_bitmap q2) in
      rbind (vget (flag_vec q2) idx) (\<lambda>cur_version.
        if \<not> deq_version_ready cur_version rd then Inl Diverges else
        rbind (vget (fq_vec q2) idx) (\<lambda>item.
        rbind (qf_assert (item \<noteq> nullptr) ''*item != nullptr'') (\<lambda>_.
        rbind (vset (fq_vec q2) idx nullptr) (\<lambda>v.
        rbind (vset (flag_vec q2) idx (rd + 1)) (\<lambda>f.
          Inr (q2\<lparr>fq_vec := v, flag_vec := f\<rparr>, Some item)))))))"

definition fq_try_enqueue :: "free_queue \<Rightarrow> ptr \<Rightarrow> (free_queue \<times> bool) result" where
  "fq_try_enqueue q item =
     (let rd = fq_read q; wr_missed = write_missed q; wr_ahead = write_ahead q in
      if fq_is_full q rd (wr_ahead - wr_missed) then Inr (q, False) else
      let wr_ahead1 = write_ahead q; q1 = q\<lparr>write_ahead := write_ahead q + 1\<rparr>;
          rd1 = fq_read q1 in
      if fq_is_full q1 rd1 (wr_ahead1 - wr_missed)
      then Inr (q1\<lparr>write_missed := write_missed q1 + 1\<rparr>, False) else
      let wr = fq_write q1; q2 = q1\<lparr>fq_write := fq_write q1 + 1\<rparr>;
          idx = unat (wr AND fq_capacity_bitmap q2);
          target_version = wr - fq_capacity_bitmap q2 in
      rbind (vget (flag_vec q2) idx) (\<lambda>cur_version.
        if cur_version \<noteq> target_version then Inl Diverges else
        rbind (vset (fq_vec q2) idx item) (\<lambda>v.
        rbind (vset (flag_vec q2) idx wr) (\<lambda>f.
          Inr (q2\<lparr>fq_vec := v, flag_vec := f\<rparr>, True)))))"

section \<open>Contents and invariant\<close>

definition fq_count :: "free_queue \<Rightarrow> nat" where
  "fq_count q = unat (fq_write q - fq_read q)"

definition fq_contents :: "free_queue \<Rightarrow> ptr list" where
  "fq_contents q = ring_span (fq_vec q) (unat (fq_read q)) (fq_count q)"

definition fq_limit :: "free_queue \<Rightarrow> nat option" where
  "fq_limit q = Some (unat (fq_capacity q))"

text \<open>The version the \<open>i\<close>-th slot from the read position carries.\<close>

definition expected_flag :: "u64 \<Rightarrow> u64 \<Rightarrow> nat \<Rightarrow> nat \<Rightarrow> u64" where
  "expected_flag r m n i = (if i < n then r + of_nat i else r + of_nat i - m)"

definition fq_shape :: "nat \<Rightarrow> free_queue \<Rightarrow> bool" where
  "fq_shape k q \<longleftrightarrow> k \<le> 30 \<and> fq_capacity q = 2 ^ k \<and> fq_capacity_bitmap q = 2 ^ k - 1
     \<and> length (fq_vec q) = 2 ^ k \<and> length (flag_vec q) = 2 ^ k \<and> fq_count q \<le> 2 ^ k
     \<and> read_ahead q - read_missed q = fq_read q \<and> write_ahead q - write_missed q = fq_write q"

definition fq_flags_ok :: "nat \<Rightarrow> free_queue \<Rightarrow> bool" where
  "fq_flags_ok k q \<longleftrightarrow> (\<forall>i < 2 ^ k. flag_vec q ! ((unat (fq_read q) + i) mod 2 ^ k)
     = expected_flag (fq_read q) (fq_capacity_bitmap q) (fq_count q) i)"

definition fq_inv :: "free_queue \<Rightarrow> bool" where
  "fq_inv q \<longleftrightarrow> (\<exists>k. fq_shape k q \<and> fq_flags_ok k q) \<and> nullptr \<notin> set (fq_contents q)"

text \<open>The tickets a reader can recognise: those that survive the cut to \<open>int\<close>.\<close>

definition fits_int :: "u64 \<Rightarrow> bool" where
  "fits_int r \<longleftrightarrow> deq_version_ready r r"

lemma fq_shape_cap: "fq_shape k q \<Longrightarrow> unat (fq_capacity q) = 2 ^ k"
  by (simp add: fq_shape_def unat_pow2_word)

lemma pow2_le30: "k \<le> 30 \<Longrightarrow> (2::nat) ^ k \<le> 2 ^ 30"
  by (rule power_increasing) simp_all

lemma neg_small:
  fixes a :: u64
  assumes "unat a \<le> 2 ^ 30"
  shows "- a < 0xffffffff \<longleftrightarrow> a = 0"
proof (cases "a = 0")
  case False
  then have "unat (- a) = 2 ^ 64 - unat a"
    using unat_sub_if_size [of 0 a] by (simp add: unat_eq_0 word_size)
  with assms False show ?thesis by (simp add: word_less_nat_alt)
qed simp

lemma fq_is_empty_count:
  assumes "fq_count q \<le> 2 ^ 30"
  shows "fq_is_empty (fq_read q) (fq_write q) \<longleftrightarrow> fq_count q = 0"
proof -
  have "fq_read q - fq_write q = - (fq_write q - fq_read q)" by simp
  then show ?thesis
    using neg_small [of "fq_write q - fq_read q"] assms
    by (simp add: fq_is_empty_def fq_count_def Let_def unat_eq_0)
qed

lemma fq_is_full_count:
  assumes "fq_shape k q"
  shows "fq_is_full q (fq_read q) (fq_write q) \<longleftrightarrow> fq_count q = 2 ^ k"
proof -
  let ?a = "fq_capacity q - (fq_write q - fq_read q)"
  have le: "unat (fq_write q - fq_read q) \<le> unat (fq_capacity q)"
    using assms fq_shape_cap [OF assms] by (simp add: fq_shape_def fq_count_def)
  then have a: "unat ?a = 2 ^ k - fq_count q"
    by (simp add: unat_sub word_le_nat_alt fq_count_def fq_shape_cap [OF assms])
  have "(2::nat) ^ k \<le> 2 ^ 30"
    using assms by (intro pow2_le30) (simp add: fq_shape_def)
  then have a30: "unat ?a \<le> 2 ^ 30" unfolding a by linarith
  have eq: "fq_write q - fq_capacity q - fq_read q = - ?a" by simp
  have "fq_is_full q (fq_read q) (fq_write q) \<longleftrightarrow> - ?a < 0xffffffff"
    unfolding fq_is_full_def Let_def eq by (simp only: word_zero_le simp_thms)
  also have "\<dots> \<longleftrightarrow> ?a = 0" by (rule neg_small [OF a30])
  also have "\<dots> \<longleftrightarrow> 2 ^ k - fq_count q = 0" unfolding a [symmetric] by (simp add: unat_eq_0)
  also have "\<dots> \<longleftrightarrow> fq_count q = 2 ^ k" using assms by (auto simp: fq_shape_def)
  finally show ?thesis .
qed

lemma fq_shape_count30: "fq_shape k q \<Longrightarrow> fq_count q \<le> 2 ^ 30"
  using pow2_le30 [of k] by (auto simp: fq_shape_def)

text \<open>The slot of the next write is \<open>fq_count\<close> places behind the read position.\<close>

lemma fq_write_slot:
  assumes "fq_shape k q"
  shows "unat (fq_write q AND fq_capacity_bitmap q) = (unat (fq_read q) + fq_count q) mod 2 ^ k"
proof -
  have "fq_write q = fq_read q + of_nat (fq_count q)" by (simp add: fq_count_def)
  then have "unat (fq_write q AND fq_capacity_bitmap q)
      = unat ((fq_read q + of_nat (fq_count q)) AND fq_capacity_bitmap q)" by (rule arg_cong)
  also have "\<dots> = (unat (fq_read q) + fq_count q) mod 2 ^ k"
    using assms by (intro unat_slot) (auto simp: fq_shape_def)
  finally show ?thesis .
qed

lemma fq_read_slot:
  assumes "fq_shape k q"
  shows "unat (fq_read q AND fq_capacity_bitmap q) = unat (fq_read q) mod 2 ^ k"
  using assms by (intro unat_and_mask) (auto simp: fq_shape_def)

lemma fq_flag_at:
  assumes "fq_flags_ok k q" and "i < 2 ^ k"
  shows "flag_vec q ! ((unat (fq_read q) + i) mod 2 ^ k)
    = expected_flag (fq_read q) (fq_capacity_bitmap q) (fq_count q) i"
  using assms by (simp add: fq_flags_ok_def)

section \<open>Enqueue\<close>

definition fq_after_enq :: "free_queue \<Rightarrow> nat \<Rightarrow> ptr \<Rightarrow> free_queue" where
  "fq_after_enq q i x = q\<lparr>write_ahead := write_ahead q + 1, fq_write := fq_write q + 1,
     fq_vec := (fq_vec q)[i := x], flag_vec := (flag_vec q)[i := fq_write q]\<rparr>"

lemma fq_enq_step:
  assumes "fq_shape k q" and "fq_flags_ok k q" and "fq_count q < 2 ^ k"
  shows "fq_try_enqueue q x
    = Inr (fq_after_enq q ((unat (fq_read q) + fq_count q) mod 2 ^ k) x, True)"
proof -
  let ?i = "(unat (fq_read q) + fq_count q) mod 2 ^ k"
  have wa: "write_ahead q - write_missed q = fq_write q"
    and len: "length (fq_vec q) = 2 ^ k" "length (flag_vec q) = 2 ^ k"
    using assms(1) by (auto simp: fq_shape_def)
  have nf: "\<not> fq_is_full q (fq_read q) (fq_write q)"
    using fq_is_full_count [OF assms(1)] assms(3) by simp
  have nf1: "\<not> fq_is_full (q\<lparr>write_ahead := w\<rparr>) (fq_read q) (fq_write q)" for w
    using nf by (simp add: fq_is_full_def)
  have fl: "flag_vec q ! ?i = fq_write q - fq_capacity_bitmap q"
    using fq_flag_at [OF assms(2,3)] by (simp add: expected_flag_def fq_count_def)
  have i: "?i < 2 ^ k" by simp
  show ?thesis
    using nf nf1 i len
    by (simp add: fq_try_enqueue_def Let_def wa fq_write_slot [OF assms(1)] fl fq_after_enq_def)
qed

lemma fq_enq_room:
  assumes "fq_inv q" and "x \<noteq> nullptr" and "has_room (fq_limit q) (fq_contents q)"
  shows "\<exists>q'. fq_try_enqueue q x = Inr (q', True) \<and> fq_inv q'
    \<and> fq_contents q' = fq_contents q @ [x] \<and> fq_limit q' = fq_limit q
    \<and> fq_read q' = fq_read q"
proof -
  from assms(1) obtain k where k: "fq_shape k q" "fq_flags_ok k q"
    and nz: "nullptr \<notin> set (fq_contents q)" by (auto simp: fq_inv_def)
  have room: "fq_count q < 2 ^ k"
    using assms(3) k by (simp add: fq_limit_def has_room_def fq_shape_cap fq_contents_def)
  define i where "i = (unat (fq_read q) + fq_count q) mod 2 ^ k"
  define q' where "q' = fq_after_enq q i x"
  have len: "length (fq_vec q) = 2 ^ k" "length (flag_vec q) = 2 ^ k" "k \<le> 30"
    using k(1) by (auto simp: fq_shape_def)
  have run: "fq_try_enqueue q x = Inr (q', True)"
    using fq_enq_step [OF k room] by (simp add: q'_def i_def)
  have cnt: "fq_count q' = Suc (fq_count q)"
    using room len(3) count_inc [of "fq_write q" "fq_read q" k]
    by (simp add: q'_def fq_after_enq_def fq_count_def)
  have rd: "fq_read q' = fq_read q" and m: "fq_capacity_bitmap q' = fq_capacity_bitmap q"
    and v: "fq_vec q' = (fq_vec q)[i := x]" and f: "flag_vec q' = (flag_vec q)[i := fq_write q]"
    by (simp_all add: q'_def fq_after_enq_def)
  have con: "fq_contents q' = fq_contents q @ [x]"
    unfolding fq_contents_def cnt rd v i_def
    using room len ring_span_snoc [of "fq_count q" "fq_vec q" "unat (fq_read q)" x] by simp
  have sh: "fq_shape k q'"
    using k(1) room cnt by (auto simp: fq_shape_def q'_def fq_after_enq_def algebra_simps)
  have "fq_flags_ok k q'"
    unfolding fq_flags_ok_def
  proof (intro allI impI)
    fix j :: nat assume j: "j < 2 ^ k"
    show "flag_vec q' ! ((unat (fq_read q') + j) mod 2 ^ k)
      = expected_flag (fq_read q') (fq_capacity_bitmap q') (fq_count q') j"
    proof (cases "j = fq_count q")
      case True
      then show ?thesis using len
        by (simp add: rd m f cnt i_def expected_flag_def) (simp add: fq_count_def)
    next
      case False
      then have "i \<noteq> (unat (fq_read q) + j) mod 2 ^ k"
        using add_mod_inj [of "unat (fq_read q)" j "2 ^ k" "fq_count q"] j room
        by (auto simp: i_def)
      then show ?thesis
        using fq_flag_at [OF k(2) j] False
        by (simp add: rd m f cnt expected_flag_def less_Suc_eq)
    qed
  qed
  with sh con nz assms(2) have "fq_inv q'" by (auto simp: fq_inv_def)
  with run con rd show ?thesis by (auto simp: fq_limit_def q'_def fq_after_enq_def)
qed

section \<open>Dequeue\<close>

definition fq_after_deq :: "free_queue \<Rightarrow> nat \<Rightarrow> free_queue" where
  "fq_after_deq q i = q\<lparr>read_ahead := read_ahead q + 1, fq_read := fq_read q + 1,
     fq_vec := (fq_vec q)[i := nullptr], flag_vec := (flag_vec q)[i := fq_read q + 1]\<rparr>"

lemma fq_deq_step:
  assumes "fq_shape k q" and "fq_flags_ok k q" and "0 < fq_count q"
  shows "fq_try_dequeue q =
    (if \<not> fits_int (fq_read q) then Inl Diverges
     else if fq_vec q ! (unat (fq_read q) mod 2 ^ k) = nullptr
     then Inl (Assert_Failed ''*item != nullptr'')
     else Inr (fq_after_deq q (unat (fq_read q) mod 2 ^ k),
               Some (fq_vec q ! (unat (fq_read q) mod 2 ^ k))))"
proof -
  let ?i = "unat (fq_read q) mod 2 ^ k"
  have ra: "read_ahead q - read_missed q = fq_read q"
    and len: "length (fq_vec q) = 2 ^ k" "length (flag_vec q) = 2 ^ k"
    using assms(1) by (auto simp: fq_shape_def)
  have ne: "\<not> fq_is_empty (fq_read q) (fq_write q)"
    using fq_is_empty_count [OF fq_shape_count30 [OF assms(1)]] assms(3) by simp
  have fl: "flag_vec q ! ?i = fq_read q"
    using fq_flag_at [OF assms(2), of 0] assms(3) by (simp add: expected_flag_def)
  have i: "?i < 2 ^ k" by simp
  show ?thesis
    using ne i len
    by (simp add: fq_try_dequeue_def Let_def ra fq_read_slot [OF assms(1)] fl fq_after_deq_def
        fits_int_def qf_assert_def)
qed

lemma fq_deq_item:
  assumes "fq_inv q" and "fq_contents q = x # xs" and "fits_int (fq_read q)"
  shows "\<exists>q'. fq_try_dequeue q = Inr (q', Some x) \<and> fq_inv q' \<and> fq_contents q' = xs
    \<and> fq_limit q' = fq_limit q \<and> fq_read q' = fq_read q + 1"
proof -
  from assms(1) obtain k where k: "fq_shape k q" "fq_flags_ok k q"
    and nz: "nullptr \<notin> set (fq_contents q)" by (auto simp: fq_inv_def)
  have "fq_count q = length (fq_contents q)" by (simp add: fq_contents_def)
  then obtain n where n: "fq_count q = Suc n" using assms(2) by auto
  define i where "i = unat (fq_read q) mod 2 ^ k"
  define q' where "q' = fq_after_deq q i"
  have len: "length (fq_vec q) = 2 ^ k" "length (flag_vec q) = 2 ^ k" "k \<le> 30"
    using k(1) by (auto simp: fq_shape_def)
  have "x # xs = fq_vec q ! i # ring_span (fq_vec q) (Suc (unat (fq_read q))) n"
    using assms(2) n len by (simp add: fq_contents_def ring_span_Suc_front i_def)
  then have x: "x = fq_vec q ! i" and xs: "xs = ring_span (fq_vec q) (Suc (unat (fq_read q))) n"
    by auto
  have run: "fq_try_dequeue q = Inr (q', Some x)"
    using fq_deq_step [OF k] n assms(2,3) nz x by (auto simp: q'_def i_def)
  have cnt: "fq_count q' = n"
    using n count_dec [of "fq_write q" "fq_read q" n]
    by (simp add: q'_def fq_after_deq_def fq_count_def)
  have rd: "fq_read q' = fq_read q + 1" and m: "fq_capacity_bitmap q' = fq_capacity_bitmap q"
    and v: "fq_vec q' = (fq_vec q)[i := nullptr]"
    and f: "flag_vec q' = (flag_vec q)[i := fq_read q + 1]"
    by (simp_all add: q'_def fq_after_deq_def)
  have nk: "n < 2 ^ k" using k(1) n by (simp add: fq_shape_def)
  have S: "unat (fq_read q + 1) mod 2 ^ k = Suc (unat (fq_read q)) mod 2 ^ k"
    using len by (intro unat_Suc_mod) simp
  have "fq_contents q' = ring_span ((fq_vec q)[i := nullptr]) (Suc (unat (fq_read q))) n"
    unfolding fq_contents_def cnt rd v using S len by (intro ring_span_cong) simp
  also have "\<dots> = xs"
    unfolding xs i_def len(1) [symmetric] using nk len by (intro ring_span_upd_before) simp
  finally have con: "fq_contents q' = xs" .
  have sh: "fq_shape k q'"
    using k(1) n cnt by (auto simp: fq_shape_def q'_def fq_after_deq_def algebra_simps)
  have "fq_flags_ok k q'"
    unfolding fq_flags_ok_def
  proof (intro allI impI)
    fix j :: nat assume j: "j < 2 ^ k"
    have pos: "(unat (fq_read q') + j) mod 2 ^ k = (unat (fq_read q) + Suc j) mod 2 ^ k"
      unfolding rd using S by (metis add_Suc_shift mod_add_left_eq)
    show "flag_vec q' ! ((unat (fq_read q') + j) mod 2 ^ k)
      = expected_flag (fq_read q') (fq_capacity_bitmap q') (fq_count q') j"
    proof (cases "Suc j = 2 ^ k")
      case True
      then have "of_nat (Suc j) = (2 ^ k :: u64)" by simp
      then have "of_nat j = (2 ^ k - 1 :: u64)" by (simp add: algebra_simps)
      moreover have "(unat (fq_read q) + Suc j) mod 2 ^ k = i" using True by (simp add: i_def)
      moreover have "fq_capacity_bitmap q = 2 ^ k - 1" using k(1) by (simp add: fq_shape_def)
      ultimately show ?thesis
        using nk True len unfolding pos
        by (simp add: rd m f cnt expected_flag_def i_def)
    next
      case False
      with j have sj: "Suc j < 2 ^ k" by simp
      then have "i \<noteq> (unat (fq_read q) + Suc j) mod 2 ^ k"
        using add_mod_inj [of "unat (fq_read q)" "Suc j" "2 ^ k" 0] by (auto simp: i_def)
      then show ?thesis
        unfolding pos using fq_flag_at [OF k(2) sj]
        by (simp add: rd m f cnt n expected_flag_def algebra_simps)
    qed
  qed
  with sh con nz assms(2) have "fq_inv q'" by (auto simp: fq_inv_def)
  with run con rd show ?thesis by (auto simp: fq_limit_def q'_def fq_after_deq_def)
qed

text \<open>A reader whose ticket does not survive the cut never gets past its slot.\<close>

lemma fq_deq_diverges:
  assumes "fq_inv q" and "fq_contents q \<noteq> []" and "\<not> fits_int (fq_read q)"
  shows "fq_try_dequeue q = Inl Diverges"
proof -
  from assms(1) obtain k where k: "fq_shape k q" "fq_flags_ok k q" by (auto simp: fq_inv_def)
  have "0 < length (fq_contents q)" using assms(2) by simp
  then have "0 < fq_count q" by (simp add: fq_contents_def)
  with fq_deq_step [OF k] assms(3) show ?thesis by simp
qed

lemma fq_full_or_empty:
  assumes "fq_inv q"
  shows "\<not> has_room (fq_limit q) (fq_contents q) \<Longrightarrow> fq_try_enqueue q x = Inr (q, False)"
    and "fq_contents q = [] \<Longrightarrow> fq_try_dequeue q = Inr (q, None)"
    and "fq_size_approx q = of_nat (length (fq_contents q))"
proof -
  from assms obtain k where k: "fq_shape k q" by (auto simp: fq_inv_def)
  have full: "fq_is_full q (fq_read q) (fq_write q) \<longleftrightarrow> fq_count q = 2 ^ k"
    by (rule fq_is_full_count [OF k])
  have ah: "write_ahead q - write_missed q = fq_write q" "read_ahead q - read_missed q = fq_read q"
    and le: "fq_count q \<le> 2 ^ k" and lim: "fq_limit q = Some (2 ^ k)"
    using k fq_shape_cap [OF k] by (auto simp: fq_shape_def fq_limit_def)
  show "fq_try_enqueue q x = Inr (q, False)" if "\<not> has_room (fq_limit q) (fq_contents q)"
    using that full le by (simp add: fq_try_enqueue_def ah lim has_room_def fq_contents_def)
  show "fq_try_dequeue q = Inr (q, None)" if "fq_contents q = []"
  proof -
    from that have "fq_count q = 0" by (metis fq_contents_def length_0_conv length_ring_span)
    with fq_is_empty_count [OF fq_shape_count30 [OF k]]
    show ?thesis by (simp add: fq_try_dequeue_def ah)
  qed
  have "unat (fq_size_approx q) = fq_count q"
  proof (cases "fq_count q = 2 ^ k")
    case True
    with full k show ?thesis by (simp add: fq_size_approx_def fq_shape_cap)
  next
    case False
    with le have "fq_count q < 2 ^ k" by simp
    with False full k show ?thesis
      by (simp add: fq_size_approx_def unat_and_mask fq_shape_def fq_count_def)
  qed
  then have "of_nat (unat (fq_size_approx q)) = (of_nat (fq_count q) :: u64)" by (rule arg_cong)
  then show "fq_size_approx q = of_nat (length (fq_contents q))" by (simp add: fq_contents_def)
qed

interpretation fq: abstract_queue fq_try_enqueue fq_try_dequeue fq_size_approx
    fq_contents fq_limit fq_inv
proof unfold_locales
  fix q x
  show "fq_inv q \<Longrightarrow> x \<noteq> nullptr \<Longrightarrow> has_room (fq_limit q) (fq_contents q) \<Longrightarrow>
      \<exists>q'. fq_try_enqueue q x = Inr (q', True) \<and> fq_inv q' \<and> fq_contents q' = fq_contents q @ [x]
        \<and> fq_limit q' = fq_limit q"
    using fq_enq_room by blast
next
  fix q x xs q' r
  assume inv: "fq_inv q" and xs: "fq_contents q = x # xs" and d: "fq_try_dequeue q = Inr (q', r)"
  then have "fits_int (fq_read q)" using fq_deq_diverges [OF inv] by auto
  with fq_deq_item [OF inv xs] d
  show "r = Some x \<and> fq_inv q' \<and> fq_contents q' = xs \<and> fq_limit q' = fq_limit q" by auto
qed (simp_all add: fq_full_or_empty, simp add: fq_inv_def)

section \<open>Fresh queues, and how long they work\<close>

lemma fq_new_inv:
  assumes "0 < unat n" and "unat n \<le> 2 ^ 30"
  obtains q c where "fq_new n = Inr q" and "fq_inv q" and "fq_contents q = []"
    and "fq_limit q = Some c" and "unat n \<le> c" and "c < 2 * unat n" and "fq_read q = 0"
proof -
  obtain k where k: "k \<le> 30" "align_size n = Inr (2 ^ k)" "unat n \<le> 2 ^ k" "2 ^ k < 2 * unat n"
    using align_size_pow2 [OF assms] by blast
  have cap: "unat ((2::u64) ^ k) = 2 ^ k" using k(1) by (simp add: unat_pow2_word)
  let ?q = "\<lparr>fq_vec = replicate (unat ((2::u64) ^ k)) nullptr, fq_capacity = 2 ^ k,
      fq_capacity_bitmap = 2 ^ k - 1,
      flag_vec = map (\<lambda>i. of_nat i - (2 ^ k - 1)) [0..<unat ((2::u64) ^ k)],
      fq_read = 0, read_missed = 0, read_ahead = 0,
      fq_write = 0, write_missed = 0, write_ahead = 0\<rparr>"
  have "fq_shape k ?q" using k(1) by (simp add: fq_shape_def cap fq_count_def)
  moreover have "fq_flags_ok k ?q"
    by (simp add: fq_flags_ok_def cap fq_count_def expected_flag_def)
  ultimately have "fq_inv ?q" by (auto simp: fq_inv_def fq_contents_def fq_count_def)
  moreover have "fq_new n = Inr ?q" using k(2) by (simp add: fq_new_def)
  moreover have "fq_contents ?q = []" by (simp add: fq_contents_def fq_count_def)
  moreover have "fq_limit ?q = Some (2 ^ k)" by (simp add: fq_limit_def cap)
  ultimately show ?thesis using that k(3,4) by auto
qed

lemma fits_int_small: "unat r < 2 ^ 31 \<Longrightarrow> fits_int r"
  by (simp add: fits_int_def deq_version_ready_def to_u64_cut_small)

lemma fits_int_large:
  assumes "2 ^ 31 \<le> unat r" and "unat r < 2 ^ 64 - 2 ^ 31"
  shows "\<not> fits_int r"
  using to_u64_range [of "ucast r"] assms by (auto simp: fits_int_def deq_version_ready_def)

text \<open>\<open>n\<close> rounds of one enqueue and one dequeue on a queue that starts empty.\<close>

definition ping_pong :: "nat \<Rightarrow> ptr \<Rightarrow> qop list" where
  "ping_pong n x = concat (replicate n [Enq x, Deq])"

lemma fq_ping_pong:
  assumes "x \<noteq> nullptr" and "fq_inv q" and "fq_contents q = []" and "fq_limit q = Some (Suc c)"
    and "unat (fq_read q) + n \<le> 2 ^ 31"
  shows "\<exists>q' rs. impl_run fq_try_enqueue fq_try_dequeue (ping_pong n x) q = Inr (q', rs)
    \<and> fq_inv q' \<and> fq_contents q' = [] \<and> fq_limit q' = Some (Suc c)
    \<and> unat (fq_read q') = unat (fq_read q) + n"
  using assms(2-5)
proof (induction n arbitrary: q)
  case 0
  then show ?case by (simp add: ping_pong_def)
next
  case (Suc n)
  from fq_enq_room [OF Suc.prems(1) assms(1)] Suc.prems(2,3)
  obtain q1 where q1: "fq_try_enqueue q x = Inr (q1, True)" "fq_inv q1" "fq_contents q1 = [x]"
    "fq_limit q1 = Some (Suc c)" "fq_read q1 = fq_read q"
    by (auto simp: has_room_def)
  have "unat (fq_read q) < 2 ^ 31" using Suc.prems(4) by simp
  then have fits: "fits_int (fq_read q1)" using q1(5) by (simp add: fits_int_small)
  from fq_deq_item [OF q1(2,3) fits]
  obtain q2 where q2: "fq_try_dequeue q1 = Inr (q2, Some x)" "fq_inv q2" "fq_contents q2 = []"
    "fq_limit q2 = Some (Suc c)" "fq_read q2 = fq_read q + 1"
    using q1(4,5) by auto
  have "fq_read q < 2 ^ 31" using \<open>unat (fq_read q) < 2 ^ 31\<close> by (simp add: word_less_nat_alt)
  then have rd: "unat (fq_read q2) = Suc (unat (fq_read q))" unfolding q2(5) by (rule unat_inc)
  with Suc.prems(4) have "unat (fq_read q2) + n \<le> 2 ^ 31" by simp
  from Suc.IH [OF q2(2-4) this] q1(1) q2(1) rd show ?case
    by (auto simp: ping_pong_def)
qed

text \<open>As long as the read ticket fits an \<open>int\<close>, every sequence of calls returns.\<close>

definition dequeues :: "qop list \<Rightarrow> nat" where
  "dequeues ps = length (filter (\<lambda>p. p = Deq) ps)"

lemma fq_enq_keeps_read:
  assumes "fq_inv q" and "fq_try_enqueue q x = Inr (q', b)"
  shows "fq_read q' = fq_read q"
  using assms by (auto simp: fq_try_enqueue_def Let_def split: if_splits)

lemma fq_run_returns:
  assumes "fq_inv q" and "valid_ops ps" and "unat (fq_read q) + dequeues ps \<le> 2 ^ 31"
  shows "\<exists>q' rs. impl_run fq_try_enqueue fq_try_dequeue ps q = Inr (q', rs)"
  using assms
proof (induction ps arbitrary: q)
  case Nil
  then show ?case by simp
next
  case (Cons p ps)
  have vs: "valid_ops ps" using Cons.prems(2) by (simp add: valid_ops_def)
  show ?case
  proof (cases p)
    case (Enq x)
    with Cons.prems(2) have "x \<noteq> nullptr" by (auto simp: valid_ops_def)
    then obtain q1 b where q1: "fq_try_enqueue q x = Inr (q1, b)" "fq_inv q1"
      using fq.enq_spec [OF Cons.prems(1), of x] by blast
    moreover have "fq_read q1 = fq_read q" using fq_enq_keeps_read [OF Cons.prems(1) q1(1)] .
    ultimately show ?thesis
      using Cons.IH [OF _ vs, of q1] Enq Cons.prems(3) by (auto simp: dequeues_def)
  next
    case Deq
    show ?thesis
    proof (cases "fq_contents q")
      case Nil
      then have "fq_try_dequeue q = Inr (q, None)" by (rule fq.deq_empty [OF Cons.prems(1)])
      then show ?thesis
        using Cons.IH [OF Cons.prems(1) vs] Cons.prems(3) Deq by (auto simp: dequeues_def)
    next
      case (Cons y ys)
      have lt: "unat (fq_read q) < 2 ^ 31" using Cons.prems(3) Deq by (simp add: dequeues_def)
      from fq_deq_item [OF Cons.prems(1) Cons fits_int_small [OF lt]] obtain q1 where
        q1: "fq_try_dequeue q = Inr (q1, Some y)" "fq_inv q1" "fq_read q1 = fq_read q + 1" by blast
      have "fq_read q < 2 ^ 31" using lt by (simp add: word_less_nat_alt)
      then have "unat (fq_read q1) = Suc (unat (fq_read q))" unfolding q1(3) by (rule unat_inc)
      with Cons.prems(3) Deq have "unat (fq_read q1) + dequeues ps \<le> 2 ^ 31"
        by (simp add: dequeues_def)
      with Cons.IH [OF q1(2) vs] q1(1) Deq show ?thesis by auto
    qed
  qed
qed

section \<open>Properties\<close>

text \<open>C37: a new lock-free queue of a size up to \<open>2 ^ 30\<close>, used by one thread, answers every
  sequence of calls with at most \<open>2 ^ 31\<close> dequeues as a bounded first-in first-out queue does:
  no call waits for a slot version, no assertion fails.\<close>

theorem free_queue_refines_fifo:
  assumes "0 < n" and "n \<le> 2 ^ 30" and "valid_ops ps" and "dequeues ps \<le> 2 ^ 31"
  shows "\<exists>q q' rs c. fq_new n = Inr q \<and> impl_run fq_try_enqueue fq_try_dequeue ps q = Inr (q', rs)
    \<and> unat n \<le> c \<and> c < 2 * unat n \<and> spec_run (Some c) ps [] = (fq_contents q', rs)
    \<and> fq_size_approx q' = of_nat (length (fq_contents q'))"
proof -
  have "0 < unat n" "unat n \<le> 2 ^ 30" using assms by (auto simp: word_less_nat_alt word_le_nat_alt)
  then obtain q c where q: "fq_new n = Inr q" "fq_inv q" "fq_contents q = []" "fq_limit q = Some c"
    "unat n \<le> c" "c < 2 * unat n" "fq_read q = 0" using fq_new_inv by blast
  obtain q' rs where r: "impl_run fq_try_enqueue fq_try_dequeue ps q = Inr (q', rs)"
    using fq_run_returns [OF q(2) assms(3)] assms(4) q(7) by auto
  from fq.run_spec [OF q(2) assms(3) r] fq.size_contents have
    "spec_run (Some c) ps [] = (fq_contents q', rs)"
    "fq_size_approx q' = of_nat (length (fq_contents q'))"
    using q(3,4) by auto
  with q r show ?thesis by blast
qed

theorem free_queue_refines_fifo_witness:
  "\<exists>q q' rs c. fq_new 3 = Inr q
    \<and> impl_run fq_try_enqueue fq_try_dequeue [Enq 7, Deq, Deq] q = Inr (q', rs)
    \<and> unat (3 :: u64) \<le> c \<and> c < 2 * unat (3 :: u64)
    \<and> spec_run (Some c) [Enq 7, Deq, Deq] [] = (fq_contents q', rs)
    \<and> fq_size_approx q' = of_nat (length (fq_contents q'))"
  by (rule free_queue_refines_fifo) (simp_all add: valid_ops_def dequeues_def)

text \<open>C38: the bound is sharp. After \<open>2 ^ 31\<close> rounds of enqueue and dequeue, which all succeed, the
  next item can be enqueued but never taken out: \<open>cur_version\<close> in \<open>try_dequeue\<close> is an \<open>int\<close>
  and never equals the read ticket again, so the call spins for ever.\<close>

theorem free_queue_hangs_after_int_max:
  assumes "x \<noteq> nullptr" and "0 < n" and "n \<le> 2 ^ 30"
  shows "\<exists>q q' rs. fq_new n = Inr q
    \<and> impl_run fq_try_enqueue fq_try_dequeue (ping_pong (2 ^ 31) x) q = Inr (q', rs)
    \<and> (\<exists>q''. fq_try_enqueue q' x = Inr (q'', True) \<and> fq_try_dequeue q'' = Inl Diverges)"
proof -
  have "0 < unat n" "unat n \<le> 2 ^ 30"
    using assms by (auto simp: word_less_nat_alt word_le_nat_alt)
  then obtain q c where q: "fq_new n = Inr q" "fq_inv q" "fq_contents q = []" "fq_limit q = Some c"
    "unat n \<le> c" "fq_read q = 0" using fq_new_inv by blast
  then obtain c' where c': "c = Suc c'" using \<open>0 < unat n\<close> by (cases c) auto
  obtain q' rs where q': "impl_run fq_try_enqueue fq_try_dequeue (ping_pong (2 ^ 31) x) q = Inr (q', rs)"
    "fq_inv q'" "fq_contents q' = []" "fq_limit q' = Some c" "unat (fq_read q') = 2 ^ 31"
    using fq_ping_pong [OF assms(1) q(2,3), of c' "2 ^ 31"] q(4,6) c' by auto
  obtain q'' where q'': "fq_try_enqueue q' x = Inr (q'', True)" "fq_inv q''" "fq_contents q'' = [x]"
    using fq.enq_room [OF q'(2) assms(1)] q'(3,4) c' by (auto simp: has_room_def)
  have "fq_read q'' = fq_read q'" by (rule fq_enq_keeps_read [OF q'(2) q''(1)])
  then have "\<not> fits_int (fq_read q'')" using q'(5) by (intro fits_int_large) simp_all
  then have "fq_try_dequeue q'' = Inl Diverges" using q'' by (intro fq_deq_diverges) auto
  with q q' q'' show ?thesis by blast
qed

theorem free_queue_hangs_after_int_max_witness:
  "\<exists>q q' rs. fq_new 4 = Inr q
    \<and> impl_run fq_try_enqueue fq_try_dequeue (ping_pong (2 ^ 31) 9) q = Inr (q', rs)
    \<and> (\<exists>q''. fq_try_enqueue q' 9 = Inr (q'', True) \<and> fq_try_dequeue q'' = Inl Diverges)"
  by (rule free_queue_hangs_after_int_max) simp_all

end
