(* ===== verification/Task_Queue.thy ===== *)
theory Task_Queue
  imports Lock_Queue Free_Lock_Queue "HOL-Library.Multiset"
begin

text \<open>
  head/queue/task.h and src/queue/task.cpp: the queue of ready tasks, a lock-free bounded queue
  backed by an unbounded one, with the counter \<open>m_count\<close> and the futex the idle workers sleep
  on. The functions here are the calls of one thread that runs alone; the futex wakes they
  request are recorded in \<open>tq_wakes\<close>.
\<close>

section \<open>State\<close>

record task_queue =
  tq_limit_queue :: free_queue
  tq_unlimit_queue :: unlimit_queue
  m_count :: i64
  big_spin_count :: i32
  tq_wakes :: "nat list"

definition tq_new :: "u64 \<Rightarrow> task_queue result" where
  "tq_new sz = rbind (fq_new sz) (\<lambda>l.
     Inr \<lparr>tq_limit_queue = l, tq_unlimit_queue = uq_new sz, m_count = 0, big_spin_count = 0,
          tq_wakes = []\<rparr>)"

text \<open>\<open>((int32_t*)(&m_count))[1]\<close>: the upper half of the counter on a little-endian machine.\<close>

definition high_m_count :: "task_queue \<Rightarrow> i32" where
  "high_m_count t = ucast (drop_bit 32 (m_count t))"

definition tq_size :: "task_queue \<Rightarrow> u64" where
  "tq_size t = m_count t"

section \<open>Wake-ups\<close>

definition futex_wake :: "nat \<Rightarrow> task_queue \<Rightarrow> task_queue" where
  "futex_wake n t = t\<lparr>tq_wakes := tq_wakes t @ [n]\<rparr>"

text \<open>\<open>FUTEX_WAIT\<close> with expected value 0: it sleeps while the upper half is 0.\<close>

definition futex_wait :: "task_queue \<Rightarrow> task_queue result" where
  "futex_wait t = (if high_m_count t = 0 then Inl Diverges else Inr t)"

text \<open>\<open>old_count\<close> is an \<open>int32_t\<close>: the lower half of the old counter.\<close>

definition tq_signal :: "task_queue \<Rightarrow> task_queue" where
  "tq_signal t =
     (let old_count = (ucast (m_count t) :: i32);
          t1 = t\<lparr>m_count := m_count t - 1\<rparr>;
          to_release = sint old_count \<le> 0 in
      if to_release \<and> big_spin_count t1 = 0
      then if sint (m_count t1) < 0 then futex_wake 1 t1 else t1
      else t1)"

definition spin_hold :: "task_queue \<Rightarrow> task_queue \<times> bool" where
  "spin_hold t =
     (let t1 = t\<lparr>big_spin_count := big_spin_count t + 1\<rparr>;
          old_count = big_spin_count t1;
          t2 = t1\<lparr>big_spin_count := big_spin_count t1 - 1\<rparr> in
      if old_count = 1
      then let cur_count = (ucast (m_count t2) :: i32) + 1 in
           (if sint cur_count < 0 then futex_wake (nat (- sint cur_count)) t2 else t2, True)
      else (t2, False))"

definition tq_wait :: "task_queue \<Rightarrow> task_queue result" where
  "tq_wait t =
     (let cur_count = m_count t; t1 = t\<lparr>m_count := m_count t - 1\<rparr> in
      if sint cur_count < 0 then Inr (t1\<lparr>m_count := m_count t1 + 1\<rparr>)
      else let (t2, held) = spin_hold t1 in
           rbind (if held then Inr t2 else futex_wait t2)
             (\<lambda>t3. Inr (t3\<lparr>m_count := m_count t3 + 1\<rparr>)))"

section \<open>Items\<close>

definition inner_dequeue :: "task_queue \<Rightarrow> (task_queue \<times> ptr option) result" where
  "inner_dequeue t =
     rbind (fq_try_dequeue (tq_limit_queue t)) (\<lambda>(l, r).
       let t1 = t\<lparr>tq_limit_queue := l\<rparr> in
       case r of
         Some item \<Rightarrow> Inr (t1, Some item)
       | None \<Rightarrow>
           if uq_size_approx (tq_unlimit_queue t1) > 0
           then rbind (uq_try_dequeue (tq_unlimit_queue t1)) (\<lambda>(u, r').
                  Inr (t1\<lparr>tq_unlimit_queue := u\<rparr>, r'))
           else Inr (t1, None))"

definition inner_enqueue :: "task_queue \<Rightarrow> ptr \<Rightarrow> (task_queue \<times> bool) result" where
  "inner_enqueue t item =
     rbind (fq_try_enqueue (tq_limit_queue t) item) (\<lambda>(l, b).
       let t1 = t\<lparr>tq_limit_queue := l\<rparr> in
       if b then Inr (t1, True)
       else rbind (uq_try_enqueue (tq_unlimit_queue t1) item) (\<lambda>(u, b').
              Inr (t1\<lparr>tq_unlimit_queue := u\<rparr>, b')))"

definition tq_enqueue :: "task_queue \<Rightarrow> ptr \<Rightarrow> (task_queue \<times> bool) result" where
  "tq_enqueue t item =
     rbind (inner_enqueue t item) (\<lambda>(t1, b). if b then Inr (tq_signal t1, True) else Inr (t1, False))"

text \<open>\<open>try_get\<close> tries at most \<open>spin\<close> times; \<open>FLAGS_qf_spin_cycle\<close> is 100 by default.\<close>

fun try_get :: "nat \<Rightarrow> task_queue \<Rightarrow> (task_queue \<times> ptr option) result" where
  "try_get 0 t = Inr (t, None)"
| "try_get (Suc spin) t =
     rbind (inner_dequeue t) (\<lambda>(t1, r). case r of Some item \<Rightarrow> Inr (t1, Some item) | None \<Rightarrow> try_get spin t1)"

definition qf_spin_cycle :: nat where
  "qf_spin_cycle = 100"

text \<open>The last loop of \<open>wait_dequeue\<close>, cut after \<open>fuel\<close> rounds.\<close>

fun wait_loop :: "nat \<Rightarrow> task_queue \<Rightarrow> (task_queue \<times> ptr) result" where
  "wait_loop 0 t = Inl Diverges"
| "wait_loop (Suc fuel) t =
     rbind (inner_dequeue t) (\<lambda>(t1, r).
       case r of Some item \<Rightarrow> Inr (t1, item) | None \<Rightarrow> rbind (tq_wait t1) (wait_loop fuel))"

definition wait_dequeue :: "nat \<Rightarrow> task_queue \<Rightarrow> (task_queue \<times> ptr) result" where
  "wait_dequeue fuel t =
     (let t1 = fst (spin_hold t);
          t2 = t1\<lparr>m_count := m_count t1 + 1\<rparr> in
      rbind (try_get qf_spin_cycle t2) (\<lambda>(t3, r).
        case r of Some item \<Rightarrow> Inr (t3, item)
        | None \<Rightarrow> rbind (inner_dequeue t3) (\<lambda>(t4, r').
            case r' of Some item \<Rightarrow> Inr (t4, item)
            | None \<Rightarrow> rbind (tq_wait t4) (wait_loop fuel))))"

section \<open>Contents\<close>

definition tq_contents :: "task_queue \<Rightarrow> ptr list" where
  "tq_contents t = fq_contents (tq_limit_queue t) @ uq_inner_queue (tq_unlimit_queue t)"

definition tq_inv :: "task_queue \<Rightarrow> bool" where
  "tq_inv t \<longleftrightarrow> fq_inv (tq_limit_queue t) \<and> uq_inv (tq_unlimit_queue t)"

text \<open>
  The reader's ticket of the bounded queue can still be recognised, and the size of the unbounded
  queue has not run through all 64 bits.
\<close>

definition tq_live :: "task_queue \<Rightarrow> bool" where
  "tq_live t \<longleftrightarrow> fits_int (fq_read (tq_limit_queue t))
     \<and> length (uq_inner_queue (tq_unlimit_queue t)) < 2 ^ 64"

lemma tq_signal_queues [simp]:
  "tq_limit_queue (tq_signal t) = tq_limit_queue t"
  "tq_unlimit_queue (tq_signal t) = tq_unlimit_queue t"
  "m_count (tq_signal t) = m_count t - 1"
  by (simp_all add: tq_signal_def Let_def futex_wake_def)

lemma tq_contents_cong:
  "tq_limit_queue t = tq_limit_queue t' \<Longrightarrow> tq_unlimit_queue t = tq_unlimit_queue t' \<Longrightarrow>
   tq_contents t = tq_contents t' \<and> tq_inv t = tq_inv t' \<and> tq_live t = tq_live t'"
  by (simp add: tq_contents_def tq_inv_def tq_live_def)

text \<open>An enqueue never fails: what does not fit goes to the unbounded queue.\<close>

lemma inner_enqueue_cases:
  assumes "tq_inv t" and "x \<noteq> nullptr"
  shows "\<exists>t'. inner_enqueue t x = Inr (t', True) \<and> tq_inv t' \<and> m_count t' = m_count t
    \<and> big_spin_count t' = big_spin_count t \<and> tq_wakes t' = tq_wakes t
    \<and> (if has_room (fq_limit (tq_limit_queue t)) (fq_contents (tq_limit_queue t))
       then fq_contents (tq_limit_queue t') = fq_contents (tq_limit_queue t) @ [x]
         \<and> tq_unlimit_queue t' = tq_unlimit_queue t
       else tq_limit_queue t' = tq_limit_queue t
         \<and> uq_inner_queue (tq_unlimit_queue t') = uq_inner_queue (tq_unlimit_queue t) @ [x])"
proof (cases "has_room (fq_limit (tq_limit_queue t)) (fq_contents (tq_limit_queue t))")
  case True
  from assms(1) have "fq_inv (tq_limit_queue t)" by (simp add: tq_inv_def)
  from fq.enq_room [OF this assms(2) True] obtain l where
    l: "fq_try_enqueue (tq_limit_queue t) x = Inr (l, True)" "fq_inv l"
      "fq_contents l = fq_contents (tq_limit_queue t) @ [x]" by blast
  then have "inner_enqueue t x = Inr (t\<lparr>tq_limit_queue := l\<rparr>, True)"
    by (simp add: inner_enqueue_def del: rbind_eq_Inr)
  with l True assms(1) show ?thesis
    by (intro exI [of _ "t\<lparr>tq_limit_queue := l\<rparr>"]) (simp add: tq_inv_def)
next
  case False
  from assms(1) have "fq_inv (tq_limit_queue t)" "uq_inv (tq_unlimit_queue t)"
    by (simp_all add: tq_inv_def)
  note full = fq.enq_full [OF this(1) False, of x] and room = uq.enq_room [OF this(2) assms(2)]
  from room obtain u where
    u: "uq_try_enqueue (tq_unlimit_queue t) x = Inr (u, True)" "uq_inv u"
      "uq_inner_queue u = uq_inner_queue (tq_unlimit_queue t) @ [x]"
    by (auto simp: uq_limit_def has_room_def)
  let ?t = "t\<lparr>tq_limit_queue := tq_limit_queue t, tq_unlimit_queue := u\<rparr>"
  from u full have "inner_enqueue t x = Inr (?t, True)"
    by (simp add: inner_enqueue_def del: rbind_eq_Inr)
  with u False assms(1) show ?thesis
    by (intro exI [of _ ?t]) (simp add: tq_inv_def)
qed

text \<open>A dequeue takes the first item of the bounded queue, else of the unbounded one.\<close>

lemma inner_dequeue_cases:
  assumes "tq_inv t" and "tq_live t"
  shows "\<exists>t'. (case tq_contents t of
      [] \<Rightarrow> inner_dequeue t = Inr (t, None)
    | x # xs \<Rightarrow> inner_dequeue t = Inr (t', Some x) \<and> tq_contents t' = xs \<and> tq_inv t'
        \<and> m_count t' = m_count t \<and> big_spin_count t' = big_spin_count t \<and> tq_wakes t' = tq_wakes t)"
proof -
  let ?l = "tq_limit_queue t" and ?u = "tq_unlimit_queue t"
  have inv: "fq_inv ?l" "uq_inv ?u" "length (uq_inner_queue ?u) < 2 ^ 64" "fits_int (fq_read ?l)"
    using assms by (auto simp: tq_inv_def tq_live_def)
  show ?thesis
  proof (cases "fq_contents ?l")
    case (Cons x xs)
    from fq_deq_item [OF inv(1) Cons inv(4)] obtain l where
      "fq_try_dequeue ?l = Inr (l, Some x)" "fq_inv l" "fq_contents l = xs" by blast
    with Cons inv show ?thesis
      by (intro exI [of _ "t\<lparr>tq_limit_queue := l\<rparr>"])
        (simp add: inner_dequeue_def tq_contents_def tq_inv_def del: rbind_eq_Inr)
  next
    case Nil
    note d = fq.deq_empty [OF inv(1) Nil]
    show ?thesis
    proof (cases "uq_inner_queue ?u")
      case Nil': Nil
      with inv(2) have "uq_size_approx ?u = 0" using uq.size_contents by fastforce
      with d Nil Nil' show ?thesis by (simp add: inner_dequeue_def tq_contents_def)
    next
      case (Cons x xs)
      have "unat (uq_size_approx ?u) = length (uq_inner_queue ?u)"
        using uq.size_contents [OF inv(2)] inv(3) by (simp add: unat_of_nat)
      then have pos: "uq_size_approx ?u > 0" using Cons by (simp add: word_less_nat_alt)
      obtain u r where u: "uq_try_dequeue ?u = Inr (u, r)" using uq.deq_returns [OF inv(2)] by blast
      from uq.deq_item [OF inv(2) Cons u] have "r = Some x" "uq_inv u" "uq_inner_queue u = xs"
        by auto
      with d u pos Nil Cons inv show ?thesis
        by (intro exI [of _ "t\<lparr>tq_limit_queue := ?l, tq_unlimit_queue := u\<rparr>"])
          (simp add: inner_dequeue_def tq_contents_def tq_inv_def del: rbind_eq_Inr)
    qed
  qed
qed

text \<open>In terms of the multiset of waiting items.\<close>

lemma tq_enqueue_mset:
  assumes "tq_inv t" and "x \<noteq> nullptr"
  shows "\<exists>t'. tq_enqueue t x = Inr (t', True) \<and> tq_inv t' \<and> m_count t' = m_count t - 1
    \<and> mset (tq_contents t') = add_mset x (mset (tq_contents t))"
proof -
  obtain t1 where t1: "inner_enqueue t x = Inr (t1, True)" "tq_inv t1" "m_count t1 = m_count t"
    and c: "if has_room (fq_limit (tq_limit_queue t)) (fq_contents (tq_limit_queue t))
       then fq_contents (tq_limit_queue t1) = fq_contents (tq_limit_queue t) @ [x]
         \<and> tq_unlimit_queue t1 = tq_unlimit_queue t
       else tq_limit_queue t1 = tq_limit_queue t
         \<and> uq_inner_queue (tq_unlimit_queue t1) = uq_inner_queue (tq_unlimit_queue t) @ [x]"
    using inner_enqueue_cases [OF assms] by blast
  have "tq_enqueue t x = Inr (tq_signal t1, True)" using t1 by (simp add: tq_enqueue_def)
  moreover have "tq_inv (tq_signal t1)" "tq_contents (tq_signal t1) = tq_contents t1"
    using tq_contents_cong [of "tq_signal t1" t1] t1(2) by auto
  moreover have "mset (tq_contents t1) = add_mset x (mset (tq_contents t))"
    using c by (auto simp: tq_contents_def split: if_splits)
  ultimately show ?thesis using t1(3) by auto
qed

lemma inner_dequeue_item:
  assumes "tq_inv t" and "tq_live t" and "tq_contents t = x # xs"
  shows "\<exists>t'. inner_dequeue t = Inr (t', Some x) \<and> tq_contents t' = xs \<and> tq_inv t'
    \<and> m_count t' = m_count t"
  using inner_dequeue_cases [OF assms(1,2)] assms(3) by auto

lemma inner_dequeue_empty:
  "tq_inv t \<Longrightarrow> tq_live t \<Longrightarrow> tq_contents t = [] \<Longrightarrow> inner_dequeue t = Inr (t, None)"
  using inner_dequeue_cases [of t] by auto

section \<open>Two lanes\<close>

text \<open>
  What the queue is: a bounded lane of \<open>c\<close> places and a backlog. An item goes to the bounded lane
  while it has room, and it is taken from there first.
\<close>

fun lanes_op :: "nat \<Rightarrow> qop \<Rightarrow> ptr list \<times> ptr list \<Rightarrow> (ptr list \<times> ptr list) \<times> qres" where
  "lanes_op c (Enq x) (b, u) =
     ((if length b < c then (b @ [x], u) else (b, u @ [x])), Enqueued True)"
| "lanes_op c Deq (x # b, u) = ((b, u), Dequeued (Some x))"
| "lanes_op c Deq ([], x # u) = (([], u), Dequeued (Some x))"
| "lanes_op c Deq ([], []) = (([], []), Dequeued None)"

fun lanes_run :: "nat \<Rightarrow> qop list \<Rightarrow> ptr list \<times> ptr list \<Rightarrow> (ptr list \<times> ptr list) \<times> qres list" where
  "lanes_run c [] s = (s, [])"
| "lanes_run c (p # ps) s =
     (let (s1, r) = lanes_op c p s; (s2, rs) = lanes_run c ps s1 in (s2, r # rs))"

definition tq_lanes :: "task_queue \<Rightarrow> ptr list \<times> ptr list" where
  "tq_lanes t = (fq_contents (tq_limit_queue t), uq_inner_queue (tq_unlimit_queue t))"

definition tq_cap :: "task_queue \<Rightarrow> nat" where
  "tq_cap t = unat (fq_capacity (tq_limit_queue t))"

definition tq_room :: "nat \<Rightarrow> task_queue \<Rightarrow> bool" where
  "tq_room k t \<longleftrightarrow> tq_inv t \<and> unat (fq_read (tq_limit_queue t)) + k \<le> 2 ^ 31
     \<and> length (uq_inner_queue (tq_unlimit_queue t)) + k < 2 ^ 64"

lemma tq_lanes_signal [simp]:
  "tq_lanes (tq_signal t) = tq_lanes t" "tq_cap (tq_signal t) = tq_cap t"
  "tq_room k (tq_signal t) = tq_room k t"
  by (simp_all add: tq_lanes_def tq_cap_def tq_room_def tq_inv_def)

lemma tq_enqueue_lanes:
  assumes "tq_room (Suc k) t" and "x \<noteq> nullptr"
  shows "\<exists>t'. tq_enqueue t x = Inr (t', True) \<and> tq_room k t' \<and> tq_cap t' = tq_cap t
    \<and> lanes_op (tq_cap t) (Enq x) (tq_lanes t) = (tq_lanes t', Enqueued True)"
proof -
  let ?l = "tq_limit_queue t" and ?u = "tq_unlimit_queue t"
  have inv: "fq_inv ?l" "uq_inv ?u" using assms(1) by (auto simp: tq_room_def tq_inv_def)
  have room: "has_room (fq_limit ?l) (fq_contents ?l) \<longleftrightarrow> length (fq_contents ?l) < tq_cap t"
    by (simp add: has_room_def fq_limit_def tq_cap_def)
  show ?thesis
  proof (cases "length (fq_contents ?l) < tq_cap t")
    case True
    with fq.enq_room [OF inv(1) assms(2)] room obtain l where
      l: "fq_try_enqueue ?l x = Inr (l, True)" "fq_inv l" "fq_contents l = fq_contents ?l @ [x]"
        "fq_limit l = fq_limit ?l" by blast
    have rd: "fq_read l = fq_read ?l" by (rule fq_enq_keeps_read [OF inv(1) l(1)])
    let ?t = "t\<lparr>tq_limit_queue := l\<rparr>"
    have "tq_enqueue t x = Inr (tq_signal ?t, True)"
      using l(1) by (simp add: tq_enqueue_def inner_enqueue_def)
    moreover have "tq_room k ?t" using assms(1) l(2) rd by (simp add: tq_room_def tq_inv_def)
    moreover have "tq_cap ?t = tq_cap t" using l(4) by (simp add: tq_cap_def fq_limit_def)
    moreover have "lanes_op (tq_cap t) (Enq x) (tq_lanes t) = (tq_lanes ?t, Enqueued True)"
      using True l(3) by (simp add: tq_lanes_def)
    ultimately show ?thesis by (intro exI [of _ "tq_signal ?t"]) simp
  next
    case False
    with fq.enq_full [OF inv(1), of x] room have f: "fq_try_enqueue ?l x = Inr (?l, False)" by simp
    from uq.enq_room [OF inv(2) assms(2)] obtain u where
      u: "uq_try_enqueue ?u x = Inr (u, True)" "uq_inv u"
        "uq_inner_queue u = uq_inner_queue ?u @ [x]"
      by (auto simp: uq_limit_def has_room_def)
    let ?t = "t\<lparr>tq_limit_queue := ?l, tq_unlimit_queue := u\<rparr>"
    have "tq_enqueue t x = Inr (tq_signal ?t, True)"
      using f u(1) by (simp add: tq_enqueue_def inner_enqueue_def)
    moreover have "tq_room k ?t" using assms(1) u(2,3) by (simp add: tq_room_def tq_inv_def)
    moreover have "lanes_op (tq_cap t) (Enq x) (tq_lanes t) = (tq_lanes ?t, Enqueued True)"
      using False u(3) by (simp add: tq_lanes_def)
    ultimately show ?thesis by (intro exI [of _ "tq_signal ?t"]) (simp add: tq_cap_def)
  qed
qed

lemma inner_dequeue_lanes:
  assumes "tq_room (Suc k) t"
  shows "\<exists>t' r. inner_dequeue t = Inr (t', r) \<and> tq_room k t' \<and> tq_cap t' = tq_cap t
    \<and> m_count t' = m_count t \<and> lanes_op (tq_cap t) Deq (tq_lanes t) = (tq_lanes t', Dequeued r)"
proof -
  let ?l = "tq_limit_queue t" and ?u = "tq_unlimit_queue t"
  have inv: "fq_inv ?l" "uq_inv ?u" using assms(1) by (auto simp: tq_room_def tq_inv_def)
  have lt: "unat (fq_read ?l) < 2 ^ 31" using assms by (simp add: tq_room_def)
  show ?thesis
  proof (cases "fq_contents ?l")
    case (Cons x xs)
    from fq_deq_item [OF inv(1) Cons fits_int_small [OF lt]] obtain l where
      l: "fq_try_dequeue ?l = Inr (l, Some x)" "fq_inv l" "fq_contents l = xs"
        "fq_limit l = fq_limit ?l" "fq_read l = fq_read ?l + 1" by blast
    have "fq_read ?l < 2 ^ 31" using lt by (simp add: word_less_nat_alt)
    then have "unat (fq_read l) = Suc (unat (fq_read ?l))" unfolding l(5) by (rule unat_inc)
    with assms l Cons show ?thesis
      by (intro exI [of _ "t\<lparr>tq_limit_queue := l\<rparr>"] exI [of _ "Some x"])
        (simp add: inner_dequeue_def tq_room_def tq_inv_def tq_cap_def fq_limit_def tq_lanes_def
          del: rbind_eq_Inr)
  next
    case Nil
    note d = fq.deq_empty [OF inv(1) Nil]
    have len: "unat (uq_size_approx ?u) = length (uq_inner_queue ?u)"
      using uq.size_contents [OF inv(2)] assms by (simp add: tq_room_def unat_of_nat)
    show ?thesis
    proof (cases "uq_inner_queue ?u")
      case Nil': Nil
      with len have "uq_size_approx ?u = 0" by (simp add: word_unat_eq_iff)
      with d Nil Nil' assms show ?thesis
        by (intro exI [of _ t] exI [of _ None])
          (simp add: inner_dequeue_def tq_lanes_def tq_room_def del: rbind_eq_Inr)
    next
      case (Cons x xs)
      with len have pos: "uq_size_approx ?u > 0" by (simp add: word_less_nat_alt)
      obtain u r where u: "uq_try_dequeue ?u = Inr (u, r)" using uq.deq_returns [OF inv(2)] by blast
      from uq.deq_item [OF inv(2) Cons u] have "r = Some x" "uq_inv u" "uq_inner_queue u = xs"
        by auto
      with d u pos Nil Cons assms show ?thesis
        by (intro exI [of _ "t\<lparr>tq_limit_queue := ?l, tq_unlimit_queue := u\<rparr>"] exI [of _ "Some x"])
          (simp add: inner_dequeue_def tq_room_def tq_inv_def tq_cap_def tq_lanes_def
            del: rbind_eq_Inr)
    qed
  qed
qed

lemma tq_run_lanes:
  assumes "tq_room (length ps) t" and "valid_ops ps"
  shows "\<exists>t' rs. impl_run tq_enqueue inner_dequeue ps t = Inr (t', rs) \<and> tq_room 0 t'
    \<and> lanes_run (tq_cap t) ps (tq_lanes t) = (tq_lanes t', rs)"
  using assms
proof (induction ps arbitrary: t)
  case Nil
  then show ?case by simp
next
  case (Cons p ps)
  have vs: "valid_ops ps" using Cons.prems(2) by (simp add: valid_ops_def)
  have room: "tq_room (Suc (length ps)) t" using Cons.prems(1) by simp
  show ?case
  proof (cases p)
    case (Enq x)
    with Cons.prems(2) have "x \<noteq> nullptr" by (auto simp: valid_ops_def)
    from tq_enqueue_lanes [OF room this] obtain t1 where
      t1: "tq_enqueue t x = Inr (t1, True)" "tq_room (length ps) t1" "tq_cap t1 = tq_cap t"
        "lanes_op (tq_cap t) (Enq x) (tq_lanes t) = (tq_lanes t1, Enqueued True)" by blast
    from Cons.IH [OF t1(2) vs] Enq t1 show ?thesis by auto
  next
    case Deq
    from inner_dequeue_lanes [OF room] obtain t1 r where
      t1: "inner_dequeue t = Inr (t1, r)" "tq_room (length ps) t1" "tq_cap t1 = tq_cap t"
        "lanes_op (tq_cap t) Deq (tq_lanes t) = (tq_lanes t1, Dequeued r)" by blast
    from Cons.IH [OF t1(2) vs] Deq t1 show ?thesis by auto
  qed
qed

lemma tq_new_room:
  assumes "0 < n" and "n \<le> 2 ^ 30" and "k \<le> 2 ^ 31"
  shows "\<exists>t. tq_new n = Inr t \<and> tq_room k t \<and> tq_lanes t = ([], []) \<and> m_count t = 0
    \<and> big_spin_count t = 0 \<and> unat n \<le> tq_cap t \<and> tq_cap t < 2 * unat n"
proof -
  have "0 < unat n" "unat n \<le> 2 ^ 30" using assms by (auto simp: word_less_nat_alt word_le_nat_alt)
  then obtain q c where q: "fq_new n = Inr q" "fq_inv q" "fq_contents q = []" "fq_limit q = Some c"
    "unat n \<le> c" "c < 2 * unat n" "fq_read q = 0" using fq_new_inv by blast
  let ?t = "\<lparr>tq_limit_queue = q, tq_unlimit_queue = uq_new n, m_count = 0, big_spin_count = 0,
      tq_wakes = []\<rparr>"
  have "tq_new n = Inr ?t" using q(1) by (simp add: tq_new_def)
  moreover have "tq_room k ?t" using q assms(3) uq_new_inv [of n] by (simp add: tq_room_def tq_inv_def)
  moreover have "tq_lanes ?t = ([], [])" using q(3) uq_new_inv [of n] by (simp add: tq_lanes_def)
  moreover have "tq_cap ?t = c" using q(4) by (simp add: tq_cap_def fq_limit_def)
  ultimately show ?thesis using q(5,6) by (intro exI [of _ ?t]) simp
qed

text \<open>No item is lost or duplicated by the two lanes.\<close>

definition items :: "qop list \<Rightarrow> ptr multiset" where
  "items ps = mset (concat (map (\<lambda>p. case p of Enq x \<Rightarrow> [x] | Deq \<Rightarrow> []) ps))"

definition taken :: "qres list \<Rightarrow> ptr multiset" where
  "taken rs = mset (concat (map (\<lambda>r. case r of Dequeued (Some x) \<Rightarrow> [x] | _ \<Rightarrow> []) rs))"

lemma lanes_run_conserves:
  "lanes_run c ps (b, u) = ((b', u'), rs) \<Longrightarrow>
   mset b + mset u + items ps = mset b' + mset u' + taken rs"
proof (induction ps arbitrary: b u rs)
  case Nil
  then show ?case by (simp add: items_def taken_def)
next
  case (Cons p ps)
  obtain b1 u1 r rs' where o1: "lanes_op c p (b, u) = ((b1, u1), r)"
    and o2: "lanes_run c ps (b1, u1) = ((b', u'), rs')" and rs: "rs = r # rs'"
    using Cons.prems by (auto split: prod.splits)
  from Cons.IH [OF o2] have ih: "mset b1 + mset u1 + items ps = mset b' + mset u' + taken rs'" .
  show ?case
  proof (cases p)
    case (Enq x)
    with o1 ih rs show ?thesis by (auto simp: items_def taken_def split: if_splits)
  next
    case Deq
    have "mset b + mset u = mset b1 + mset u1 + taken [r]"
      using o1 Deq by (cases b; cases u) (auto simp: taken_def)
    moreover have "items (p # ps) = items ps" "taken rs = taken [r] + taken rs'"
      using Deq rs by (simp_all add: items_def taken_def)
    ultimately have "mset b + mset u + items (p # ps) = mset b1 + mset u1 + items ps + taken [r]"
      by (simp add: ac_simps)
    then show ?thesis unfolding ih \<open>taken rs = taken [r] + taken rs'\<close> by (simp add: ac_simps)
  qed
qed


text \<open>A call that changes only the counters; a waiting consumer makes no other change.\<close>

lemma spin_hold_fields [simp]:
  "tq_limit_queue (fst (spin_hold t)) = tq_limit_queue t"
  "tq_unlimit_queue (fst (spin_hold t)) = tq_unlimit_queue t"
  "m_count (fst (spin_hold t)) = m_count t"
  by (simp_all add: spin_hold_def Let_def futex_wake_def)

lemma tq_room_lanes_cong:
  "tq_limit_queue t = tq_limit_queue t' \<Longrightarrow> tq_unlimit_queue t = tq_unlimit_queue t' \<Longrightarrow>
   tq_lanes t = tq_lanes t' \<and> tq_room k t = tq_room k t' \<and> tq_cap t = tq_cap t'"
  by (simp add: tq_lanes_def tq_room_def tq_inv_def tq_cap_def)

lemma tq_wait_queues:
  assumes "tq_wait t = Inr t'"
  shows "tq_limit_queue t' = tq_limit_queue t \<and> tq_unlimit_queue t' = tq_unlimit_queue t"
proof -
  have "tq_limit_queue t2 = tq_limit_queue t1 \<and> tq_unlimit_queue t2 = tq_unlimit_queue t1"
    if "spin_hold t1 = (t2, held)" for t1 t2 held
    using spin_hold_fields [of t1] that by simp
  then show ?thesis
    using assms by (fastforce simp: tq_wait_def Let_def futex_wait_def split: if_splits prod.splits)
qed

lemma inner_dequeue_none:
  assumes "tq_room 1 t" and "tq_lanes t = ([], [])"
  shows "inner_dequeue t = Inr (t, None)"
proof -
  have e: "fq_contents (tq_limit_queue t) = []" "uq_inner_queue (tq_unlimit_queue t) = []"
    and i: "fq_inv (tq_limit_queue t)" "uq_inv (tq_unlimit_queue t)"
    using assms by (auto simp: tq_lanes_def tq_room_def tq_inv_def)
  have "uq_size_approx (tq_unlimit_queue t) = 0" using uq.size_contents [OF i(2)] e(2) by simp
  with fq.deq_empty [OF i(1) e(1)] show ?thesis by (simp add: inner_dequeue_def)
qed

lemma wait_loop_blocks:
  assumes "tq_room 1 t" and "tq_lanes t = ([], [])"
  shows "wait_loop fuel t = Inl Diverges"
  using assms
proof (induction fuel arbitrary: t)
  case (Suc fuel)
  show ?case
  proof (cases "tq_wait t")
    case (Inl e)
    then have "e = Diverges"
      by (auto simp: tq_wait_def Let_def futex_wait_def rbind_def split: if_splits prod.splits)
    with Inl inner_dequeue_none [OF Suc.prems] show ?thesis by simp
  next
    case (Inr t')
    with tq_wait_queues [OF Inr] have "tq_room 1 t'" "tq_lanes t' = ([], [])"
      using Suc.prems tq_room_lanes_cong [of t' t 1] by auto
    with Suc.IH Inr inner_dequeue_none [OF Suc.prems] show ?thesis by simp
  qed
qed simp

lemma qf_spin_cycle_Suc: "qf_spin_cycle = Suc 99"
  by (simp add: qf_spin_cycle_def)

lemma try_get_none:
  assumes "tq_room 1 t" and "tq_lanes t = ([], [])"
  shows "try_get k t = Inr (t, None)"
  by (induction k) (simp_all add: inner_dequeue_none [OF assms])

text \<open>A consumer takes the first item without sleeping.\<close>

lemma wait_dequeue_item:
  assumes room: "tq_room (Suc k) t" and x: "tq_contents t = x # xs"
  shows "\<exists>t'. wait_dequeue fuel t = Inr (t', x) \<and> tq_contents t' = xs \<and> tq_room k t'
    \<and> m_count t' = m_count t + 1"
proof -
  let ?t = "(fst (spin_hold t))\<lparr>m_count := m_count (fst (spin_hold t)) + 1\<rparr>"
  have same: "tq_lanes ?t = tq_lanes t" "tq_room (Suc k) ?t" "tq_cap ?t = tq_cap t"
    using tq_room_lanes_cong [of ?t t "Suc k"] room by auto
  from inner_dequeue_lanes [OF same(2)] obtain t' r where t': "inner_dequeue ?t = Inr (t', r)"
    "m_count t' = m_count ?t" "lanes_op (tq_cap ?t) Deq (tq_lanes ?t) = (tq_lanes t', Dequeued r)" "tq_room k t'"
    by blast
  have r: "r = Some x \<and> tq_contents t' = xs"
    using t'(3) x unfolding same tq_lanes_def tq_contents_def
    by (cases "fq_contents (tq_limit_queue t)"; cases "uq_inner_queue (tq_unlimit_queue t)") auto
  have "try_get qf_spin_cycle ?t = rbind (inner_dequeue ?t)
      (\<lambda>(t1, r). case r of Some item \<Rightarrow> Inr (t1, Some item) | None \<Rightarrow> try_get 99 t1)"
    unfolding qf_spin_cycle_Suc try_get.simps ..
  then have "wait_dequeue fuel t = Inr (t', x)" using t'(1) r by (simp add: wait_dequeue_def)
  with t'(2,4) r show ?thesis by simp
qed

section \<open>Properties\<close>

text \<open>C39: from an empty task queue, any sequence of enqueues and (non-waiting) dequeues gives the
  answers of a bounded lane backed by an unbounded one: every enqueue succeeds, the bounded lane
  is filled and emptied first.\<close>

theorem task_queue_refines_lanes:
  assumes "0 < n" and "n \<le> 2 ^ 30" and "valid_ops ps" and "length ps \<le> 2 ^ 31"
  shows "\<exists>t t' rs c. tq_new n = Inr t \<and> impl_run tq_enqueue inner_dequeue ps t = Inr (t', rs)
    \<and> unat n \<le> c \<and> c < 2 * unat n \<and> lanes_run c ps ([], []) = (tq_lanes t', rs)"
proof -
  obtain t where t: "tq_new n = Inr t" "tq_room (length ps) t" "tq_lanes t = ([], [])"
    "unat n \<le> tq_cap t" "tq_cap t < 2 * unat n"
    using tq_new_room [OF assms(1,2,4)] by blast
  with tq_run_lanes [OF t(2) assms(3)] show ?thesis by fastforce
qed

theorem task_queue_refines_lanes_witness:
  "\<exists>t t' rs c. tq_new 1 = Inr t
    \<and> impl_run tq_enqueue inner_dequeue [Enq 4, Enq 5, Deq, Enq 6, Deq, Deq, Deq] t = Inr (t', rs)
    \<and> unat (1 :: u64) \<le> c \<and> c < 2 * unat (1 :: u64)
    \<and> lanes_run c [Enq 4, Enq 5, Deq, Enq 6, Deq, Deq, Deq] ([], []) = (tq_lanes t', rs)"
  by (rule task_queue_refines_lanes) (simp_all add: valid_ops_def)

text \<open>No task is lost or handed out twice: after any sequence of calls the tasks taken out and
  the tasks still waiting are together exactly the tasks enqueued.\<close>

theorem task_queue_conserves_tasks:
  assumes "0 < n" and "n \<le> 2 ^ 30" and "valid_ops ps" and "length ps \<le> 2 ^ 31"
  shows "\<exists>t t' rs. tq_new n = Inr t \<and> impl_run tq_enqueue inner_dequeue ps t = Inr (t', rs)
    \<and> items ps = mset (tq_contents t') + taken rs"
proof -
  obtain t where t: "tq_new n = Inr t" "tq_room (length ps) t" "tq_lanes t = ([], [])"
    using tq_new_room [OF assms(1,2,4)] by blast
  obtain t' rs where r: "impl_run tq_enqueue inner_dequeue ps t = Inr (t', rs)"
    "lanes_run (tq_cap t) ps ([], []) = (tq_lanes t', rs)"
    using tq_run_lanes [OF t(2) assms(3)] t(3) by auto
  from lanes_run_conserves [OF r(2) [unfolded tq_lanes_def]] have
    "items ps = mset (tq_contents t') + taken rs" by (simp add: tq_contents_def)
  with t(1) r(1) show ?thesis by blast
qed

theorem task_queue_conserves_tasks_witness:
  "\<exists>t t' rs. tq_new 1 = Inr t
    \<and> impl_run tq_enqueue inner_dequeue [Enq 4, Enq 5, Deq, Enq 6] t = Inr (t', rs)
    \<and> items [Enq 4, Enq 5, Deq, Enq 6] = mset (tq_contents t') + taken rs"
  by (rule task_queue_conserves_tasks) (simp_all add: valid_ops_def)

text \<open>A consumer that finds tasks waiting returns the first of them without sleeping; one that
  finds none, with no producer running, never returns, however many rounds it is given.\<close>

theorem wait_dequeue_takes_or_blocks:
  assumes "tq_room 1 t"
  shows "case tq_contents t of
      [] \<Rightarrow> wait_dequeue fuel t = Inl Diverges
    | x # xs \<Rightarrow> \<exists>t'. wait_dequeue fuel t = Inr (t', x) \<and> tq_contents t' = xs
        \<and> m_count t' = m_count t + 1"
proof -
  let ?t = "(fst (spin_hold t))\<lparr>m_count := m_count (fst (spin_hold t)) + 1\<rparr>"
  have same: "tq_lanes ?t = tq_lanes t" "tq_room 1 ?t" "tq_cap ?t = tq_cap t"
    using tq_room_lanes_cong [of ?t t 1] assms by auto
  show ?thesis
  proof (cases "tq_contents t")
    case Nil
    then have e: "tq_lanes ?t = ([], [])" unfolding same(1) by (auto simp: tq_contents_def tq_lanes_def)
    have "wait_dequeue fuel t = rbind (tq_wait ?t) (wait_loop fuel)"
      using try_get_none [OF same(2) e] inner_dequeue_none [OF same(2) e]
      by (simp add: wait_dequeue_def)
    also have "\<dots> = Inl Diverges"
    proof (cases "tq_wait ?t")
      case (Inl x)
      then have "x = Diverges"
        by (auto simp: tq_wait_def Let_def futex_wait_def rbind_def split: if_splits prod.splits)
      with Inl show ?thesis by simp
    next
      case (Inr t')
      with tq_wait_queues [OF Inr] have "tq_room 1 t'" "tq_lanes t' = ([], [])"
        using same(2) e tq_room_lanes_cong [of t' ?t 1] by auto
      with Inr wait_loop_blocks show ?thesis by simp
    qed
    finally show ?thesis using Nil by simp
  next
    case (Cons x xs)
    have "tq_room (Suc 0) t" using assms by simp
    from wait_dequeue_item [OF this Cons] Cons show ?thesis by auto
  qed
qed

theorem wait_dequeue_takes_or_blocks_witness:
  "\<exists>t t1 t2. tq_new 4 = Inr t \<and> tq_enqueue t 9 = Inr (t1, True) \<and> wait_dequeue 3 t1 = Inr (t2, 9)
    \<and> tq_contents t2 = []"
proof -
  obtain t where t: "tq_new 4 = Inr t" "tq_room (Suc 1) t" "tq_lanes t = ([], [])"
    "unat (4 :: u64) \<le> tq_cap t"
    using tq_new_room [of 4 "Suc 1"] by auto
  from tq_enqueue_lanes [OF t(2), of 9] obtain t1 where
    t1: "tq_enqueue t 9 = Inr (t1, True)" "tq_room 1 t1" "tq_lanes t1 = ([9], [])"
    using t(3,4) by auto
  from t1(3) have "tq_contents t1 = [9]" by (simp add: tq_lanes_def tq_contents_def)
  with wait_dequeue_takes_or_blocks [OF t1(2), of 3] t t1 show ?thesis by auto
qed

text \<open>\<open>m_count\<close> runs downwards: with no consumer waiting it is minus the number of tasks, so
  that after one enqueue \<open>size()\<close> answers \<open>2 ^ 64 - 1\<close>, where the unit test expects 1.\<close>

theorem task_queue_size_is_negated:
  assumes "x \<noteq> nullptr"
  shows "\<exists>t t'. tq_new 16 = Inr t \<and> tq_size t = 0
    \<and> tq_enqueue t x = Inr (t', True) \<and> tq_contents t' = [x] \<and> tq_size t' = 2 ^ 64 - 1"
proof -
  obtain t where t: "tq_new 16 = Inr t" "tq_room (Suc 0) t" "tq_lanes t = ([], [])" "m_count t = 0"
    "unat (16 :: u64) \<le> tq_cap t"
    using tq_new_room [of 16 "Suc 0"] by auto
  from tq_enqueue_lanes [OF t(2) assms] obtain t' where
    t': "tq_enqueue t x = Inr (t', True)" "tq_lanes t' = ([x], [])" using t(3,5) by auto
  have "tq_inv t" using t(2) by (simp add: tq_room_def)
  from tq_enqueue_mset [OF this assms] t' have "m_count t' = m_count t - 1" by auto
  with t t' show ?thesis by (simp add: tq_size_def tq_lanes_def tq_contents_def)
qed

theorem task_queue_size_is_negated_witness:
  "\<exists>t t'. tq_new 16 = Inr t \<and> tq_size t = 0
    \<and> tq_enqueue t 5 = Inr (t', True) \<and> tq_contents t' = [5] \<and> tq_size t' = 2 ^ 64 - 1"
  by (rule task_queue_size_is_negated) simp

end
