(* ===== verification/Idle_Workers.thy ===== *)
theory Idle_Workers
  imports Task_Queue
begin

text \<open>
  src/queue/task.cpp with any number of threads inside \<open>enqueue\<close> and \<open>wait_dequeue\<close> at once: how idle workers fall
  asleep on the futex and how tasks wake them. One access to \<open>m_count\<close> or \<open>big_spin_count\<close>, one system call, or one call
  of \<open>inner_enqueue\<close> or \<open>inner_dequeue\<close> is one step, under sequential consistency. Of the inner queues only what is in
  them counts here, and an \<open>inner_dequeue\<close> may come back empty-handed at any time, as one of a queue that others use may.
\<close>

section \<open>A call, access by access\<close>

record idle =
  tasks :: "ptr multiset"
  idle_count :: i64
  idle_spin :: i32

text \<open>
  Where a thread is, named after the access that comes next: \<open>P_\<close> in \<open>enqueue\<close> and \<open>signal\<close>, \<open>H_\<close> in \<open>spin_hold\<close>
  (\<open>True\<close> when \<open>wait\<close> called it, \<open>False\<close> when \<open>wait_dequeue\<close> did), \<open>C_\<close> in \<open>wait_dequeue\<close> and \<open>wait\<close>.
\<close>

datatype idle_pc =
    P_put ptr
  | P_count
  | P_spin
  | P_look
  | P_wake
  | H_in bool
  | H_sleep bool
  | H_out bool
  | H_look bool
  | H_wake bool nat
  | C_count
  | C_try nat
  | C_wait
  | C_futex
  | C_asleep
  | C_up
  | C_loop

text \<open>What follows \<open>spin_hold\<close>: \<open>wait_dequeue\<close> ignores its result, \<open>wait\<close> goes to sleep when it is false.\<close>

definition after_hold :: "bool \<Rightarrow> bool \<Rightarrow> idle_pc" where
  "after_hold waiting held = (if \<not> waiting then C_count else if held then C_up else C_futex)"

text \<open>
  The next access of a thread: the new state, where the thread is then (\<open>None\<close> when its call returns) and how many
  sleepers it asks the kernel to wake. \<open>r\<close> is the answer of \<open>inner_dequeue\<close> where that is called. A thread that sleeps
  has no step.
\<close>

fun idle_act :: "ptr option \<Rightarrow> idle_pc \<Rightarrow> idle \<Rightarrow> (idle \<times> idle_pc option \<times> nat) option" where
  "idle_act r (P_put item) s = Some (s\<lparr>tasks := add_mset item (tasks s)\<rparr>, Some P_count, 0)"
| "idle_act r P_count s =
     (let old_count = (ucast (idle_count s) :: i32); to_release = sint old_count \<le> 0 in
      Some (s\<lparr>idle_count := idle_count s - 1\<rparr>, if to_release then Some P_spin else None, 0))"
| "idle_act r P_spin s = Some (s, if idle_spin s = 0 then Some P_look else None, 0)"
| "idle_act r P_look s = Some (s, if sint (idle_count s) < 0 then Some P_wake else None, 0)"
| "idle_act r P_wake s = Some (s, None, 1)"
| "idle_act r (H_in l) s =
     Some (s\<lparr>idle_spin := idle_spin s + 1\<rparr>, Some (if idle_spin s = 0 then H_sleep l else H_out l), 0)"
| "idle_act r (H_sleep l) s = Some (s, Some (H_out l), 0)"
| "idle_act r (H_out l) s =
     Some (s\<lparr>idle_spin := idle_spin s - 1\<rparr>, Some (if idle_spin s = 1 then H_look l else after_hold l False), 0)"
| "idle_act r (H_look l) s =
     (let cur_count = (ucast (idle_count s) :: i32) + 1 in
      Some (s, Some (if sint cur_count < 0 then H_wake l (nat (- sint cur_count)) else after_hold l True), 0))"
| "idle_act r (H_wake l n) s = Some (s, Some (after_hold l True), n)"
| "idle_act r C_count s = Some (s\<lparr>idle_count := idle_count s + 1\<rparr>, Some (C_try qf_spin_cycle), 0)"
| "idle_act r (C_try n) s =
     (case r of
        Some x \<Rightarrow> if x \<in># tasks s then Some (s\<lparr>tasks := tasks s - {#x#}\<rparr>, None, 0) else None
      | None \<Rightarrow> Some (s, Some (case n of 0 \<Rightarrow> C_wait | Suc m \<Rightarrow> C_try m), 0))"
| "idle_act r C_wait s =
     Some (s\<lparr>idle_count := idle_count s - 1\<rparr>, Some (if sint (idle_count s) < 0 then C_up else H_in True), 0)"
| "idle_act r C_futex s =
     Some (s, Some (if (ucast (drop_bit 32 (idle_count s)) :: i32) = 0 then C_asleep else C_up), 0)"
| "idle_act r C_asleep s = None"
| "idle_act r C_up s = Some (s\<lparr>idle_count := idle_count s + 1\<rparr>, Some C_loop, 0)"
| "idle_act r C_loop s =
     (case r of
        Some x \<Rightarrow> if x \<in># tasks s then Some (s\<lparr>tasks := tasks s - {#x#}\<rparr>, None, 0) else None
      | None \<Rightarrow> Some (s, Some C_wait, 0))"

section \<open>Any number of threads\<close>

text \<open>The threads inside a call are a multiset of places. \<open>FUTEX_WAKE\<close> wakes \<open>n\<close> of those that sleep, or all.\<close>

definition wake_up :: "nat \<Rightarrow> idle_pc multiset \<Rightarrow> idle_pc multiset" where
  "wake_up n M = (let j = min n (count M C_asleep) in M - replicate_mset j C_asleep + replicate_mset j C_up)"

definition stay :: "idle_pc option \<Rightarrow> idle_pc multiset" where
  "stay p = (case p of None \<Rightarrow> {#} | Some q \<Rightarrow> {#q#})"

definition num :: "(idle_pc \<Rightarrow> bool) \<Rightarrow> idle_pc multiset \<Rightarrow> nat" where
  "num P M = size (filter_mset P M)"

definition putting :: "idle_pc \<Rightarrow> bool" where
  "putting p = (case p of P_put _ \<Rightarrow> True | _ \<Rightarrow> False)"

text \<open>At most \<open>n\<close> threads are inside, and at most \<open>c\<close> tasks in the queue or about to be put there. A sleeper may wake up
  without being woken.\<close>

inductive idle_step :: "nat \<Rightarrow> nat \<Rightarrow> idle \<times> idle_pc multiset \<Rightarrow> idle \<times> idle_pc multiset \<Rightarrow> bool" for n c where
  enqueue: "size M < n \<Longrightarrow> size (tasks s) + num putting M < c \<Longrightarrow> idle_step n c (s, M) (s, add_mset (P_put item) M)"
| wait_dequeue: "size M < n \<Longrightarrow> idle_step n c (s, M) (s, add_mset (H_in False) M)"
| act: "idle_act r p s = Some (s', p', k) \<Longrightarrow> idle_step n c (s, add_mset p M) (s', wake_up k M + stay p')"
| spurious: "idle_step n c (s, add_mset C_asleep M) (s, add_mset C_up M)"

definition idle_new :: idle where
  "idle_new = \<lparr>tasks = {#}, idle_count = 0, idle_spin = 0\<rparr>"

inductive idle_reach :: "nat \<Rightarrow> nat \<Rightarrow> idle \<times> idle_pc multiset \<Rightarrow> bool" for n c where
  start: "idle_reach n c (idle_new, {#})"
| more: "idle_reach n c s \<Longrightarrow> idle_step n c s s' \<Longrightarrow> idle_reach n c s'"

section \<open>The invariant\<close>

text \<open>Threads counted by \<open>m_count\<close>, by \<open>big_spin_count\<close>, those that will yet raise \<open>m_count\<close>, and the wakes still owed.\<close>

definition active :: "idle_pc \<Rightarrow> bool" where
  "active p = (case p of C_try _ \<Rightarrow> True | C_wait \<Rightarrow> True | C_loop \<Rightarrow> True | _ \<Rightarrow> False)"

definition spinning :: "idle_pc \<Rightarrow> bool" where
  "spinning p = (case p of H_sleep _ \<Rightarrow> True | H_out _ \<Rightarrow> True | _ \<Rightarrow> False)"

definition looking :: "idle_pc \<Rightarrow> bool" where
  "looking p = (case p of H_look _ \<Rightarrow> True | _ \<Rightarrow> False)"

definition rising :: "idle_pc \<Rightarrow> bool" where
  "rising p = (case p of H_in _ \<Rightarrow> True | H_wake _ _ \<Rightarrow> True | C_count \<Rightarrow> True | C_futex \<Rightarrow> True | C_up \<Rightarrow> True | _ \<Rightarrow> False)"

definition owes :: "idle_pc \<Rightarrow> nat" where
  "owes p = (case p of P_spin \<Rightarrow> 1 | P_look \<Rightarrow> 1 | P_wake \<Rightarrow> 1 | H_wake _ k \<Rightarrow> k | _ \<Rightarrow> 0)"

definition debt :: "idle_pc multiset \<Rightarrow> nat" where
  "debt M = (\<Sum>p \<in># M. owes p)"

lemmas idle_kinds = active_def spinning_def looking_def rising_def owes_def putting_def

lemma num_simps [simp]:
  "num P {#} = 0" "num P (add_mset p M) = (if P p then Suc (num P M) else num P M)" "num P (M + N) = num P M + num P N"
  by (simp_all add: num_def)

lemma num_replicate [simp]: "num P (replicate_mset j p) = (if P p then j else 0)"
  by (induction j) simp_all

lemma debt_simps [simp]:
  "debt {#} = 0" "debt (add_mset p M) = owes p + debt M" "debt (M + N) = debt M + debt N" "debt (replicate_mset j p) = j * owes p"
proof -
  show "debt (replicate_mset j p) = j * owes p" by (induction j) (simp_all add: debt_def)
qed (simp_all add: debt_def)

text \<open>The value of \<open>m_count\<close>.\<close>

definition balance :: "idle \<Rightarrow> idle_pc multiset \<Rightarrow> int" where
  "balance s M = int (num active M) + int (num (\<lambda>p. p = P_count) M) - int (size (tasks s))"

definition idle_inv :: "nat \<Rightarrow> nat \<Rightarrow> idle \<Rightarrow> idle_pc multiset \<Rightarrow> bool" where
  "idle_inv n c s M \<longleftrightarrow> size M \<le> n \<and> size (tasks s) + num putting M \<le> c
     \<and> idle_count s = word_of_int (balance s M) \<and> idle_spin s = word_of_nat (num spinning M)
     \<and> (C_asleep \<in># M \<longrightarrow> num spinning M = 0 \<longrightarrow> num looking M = 0 \<longrightarrow>
          - balance s M \<le> int (num rising M) + int (debt M))"

lemma wake_up_split:
  obtains j R where "M = R + replicate_mset j C_asleep" "wake_up k M = R + replicate_mset j C_up" "C_asleep \<in># R \<Longrightarrow> j = k"
proof -
  define j where "j = min k (count M C_asleep)"
  have sub: "replicate_mset j C_asleep \<subseteq># M" using count_le_replicate_mset_subset_eq [of j M C_asleep] by (simp add: j_def)
  show thesis
  proof (rule that)
    show "M = (M - replicate_mset j C_asleep) + replicate_mset j C_asleep" using sub by (rule subset_mset.diff_add [symmetric])
    show "wake_up k M = (M - replicate_mset j C_asleep) + replicate_mset j C_up" by (simp only: wake_up_def j_def Let_def)
    show "j = k" if "C_asleep \<in># M - replicate_mset j C_asleep"
    proof -
      have "0 < count M C_asleep - j" using that by (simp add: in_diff_count)
      then show ?thesis by (simp add: j_def)
    qed
  qed
qed

lemma num_wake_up [simp]:
  assumes "P C_up = P C_asleep"
  shows "num P (wake_up k M) = num P M"
proof -
  obtain j R where "M = R + replicate_mset j C_asleep" "wake_up k M = R + replicate_mset j C_up" by (rule wake_up_split [of M k])
  then show ?thesis using assms by simp
qed

lemma size_wake_up [simp]: "size (wake_up k M) = size M"
proof -
  obtain j R where "M = R + replicate_mset j C_asleep" "wake_up k M = R + replicate_mset j C_up" by (rule wake_up_split [of M k])
  then show ?thesis by simp
qed

text \<open>Whoever still sleeps after \<open>k\<close> have been woken: then all \<open>k\<close> are on their way.\<close>

lemma wake_up_pays:
  assumes "C_asleep \<in># wake_up k M"
  shows "C_asleep \<in># M" and "num rising (wake_up k M) = num rising M + k" and "debt (wake_up k M) = debt M"
proof -
  obtain j R where R: "M = R + replicate_mset j C_asleep" "wake_up k M = R + replicate_mset j C_up" "C_asleep \<in># R \<Longrightarrow> j = k"
    by (rule wake_up_split [of M k]) blast
  have a: "C_asleep \<in># R" using assms R(2) by (auto split: if_splits)
  then show "C_asleep \<in># M" "num rising (wake_up k M) = num rising M + k" using R by (simp_all add: idle_kinds)
  have "debt M = debt R" by (subst R(1)) (simp add: idle_kinds)
  then show "debt (wake_up k M) = debt M" by (simp add: R(2) idle_kinds)
qed

text \<open>Reading \<open>m_count\<close>, its lower and its upper half.\<close>

lemma small_words:
  assumes "- (2 ^ 31) < v" "v < 2 ^ 31 - 1"
  shows "sint (word_of_int v :: i64) = v" and "sint (word_of_int v :: i32) = v" and "sint (word_of_int (v + 1) :: i32) = v + 1"
    and "(ucast (word_of_int v :: i64) :: i32) = word_of_int v" and "drop_bit 32 (word_of_int v :: i64) = 0 \<longleftrightarrow> 0 \<le> v"
    and "(ucast (drop_bit 32 (word_of_int v :: i64)) :: i32) = 0 \<longleftrightarrow> 0 \<le> v"
proof -
  show "sint (word_of_int v :: i64) = v" "sint (word_of_int v :: i32) = v" "sint (word_of_int (v + 1) :: i32) = v + 1"
    using assms unfolding sint_sbintrunc' by (simp_all add: signed_take_bit_int_eq_self)
  show "(ucast (word_of_int v :: i64) :: i32) = word_of_int v"
    by (rule bit_word_eqI) (simp add: bit_ucast_iff bit_word_of_int_iff)
  have u: "uint (word_of_int v :: i64) = (if 0 \<le> v then v else v + 2 ^ 64)"
  proof (cases "0 \<le> v")
    case True
    then show ?thesis using assms by (simp add: uint_word_of_int mod_pos_pos_trivial)
  next
    case False
    have "v mod 2 ^ 64 = (v + 2 ^ 64) mod 2 ^ 64" by simp
    also have "\<dots> = v + 2 ^ 64" by (rule mod_pos_pos_trivial) (use assms False in simp_all)
    finally have "v mod 2 ^ 64 = v + 2 ^ 64" .
    then show ?thesis using False by (simp add: uint_word_of_int)
  qed
  have "uint (drop_bit 32 w) = uint w div 2 ^ 32" for w :: i64 by (simp add: drop_bit_eq_div uint_div)
  moreover have "(v + 2 ^ 64) div 2 ^ 32 = 2 ^ 32 - 1" if "v < 0"
  proof -
    have "(v + 2 ^ 64) div 2 ^ 32 = ((v + 2 ^ 32) + (2 ^ 32 - 1) * 2 ^ 32) div 2 ^ 32" by simp
    also have "\<dots> = (v + 2 ^ 32) div 2 ^ 32 + (2 ^ 32 - 1)" by (rule div_mult_self1 [THEN trans]) simp_all
    also have "(v + 2 ^ 32) div 2 ^ 32 = 0" by (rule div_pos_pos_trivial) (use assms that in simp_all)
    finally show ?thesis by simp
  qed
  ultimately have d: "uint (drop_bit 32 (word_of_int v :: i64)) = (if 0 \<le> v then 0 else 2 ^ 32 - 1)"
    using assms by (simp add: u div_pos_pos_trivial)
  show "drop_bit 32 (word_of_int v :: i64) = 0 \<longleftrightarrow> 0 \<le> v" using d by (auto simp: word_uint_eq_iff split: if_splits)
  have "uint (ucast (drop_bit 32 (word_of_int v :: i64)) :: i32) = (if 0 \<le> v then 0 else 2 ^ 32 - 1)"
    using d by (simp add: unsigned_ucast_eq take_bit_eq_mod)
  then show "(ucast (drop_bit 32 (word_of_int v :: i64)) :: i32) = 0 \<longleftrightarrow> 0 \<le> v" by (auto simp: word_uint_eq_iff split: if_splits)
qed

lemma count_reads:
  assumes "idle_inv n c s M" and "n + c < 2 ^ 31 - 1"
  shows "sint (idle_count s) = balance s M" and "sint (ucast (idle_count s) :: i32) = balance s M"
    and "(ucast (drop_bit 32 (idle_count s)) :: i32) = 0 \<longleftrightarrow> 0 \<le> balance s M"
    and "sint ((ucast (idle_count s) :: i32) + 1) = balance s M + 1"
    and "idle_spin s = 0 \<longleftrightarrow> num spinning M = 0" and "idle_spin s = 1 \<longleftrightarrow> num spinning M = 1"
proof -
  have le: "num P M \<le> size M" for P by (simp add: num_def size_filter_mset_lesseq)
  have "num active M \<le> n" "size (tasks s) \<le> c" "num (\<lambda>p. p = P_count) M \<le> n" "num spinning M \<le> n"
    using assms(1) le [of active] le [of "\<lambda>p. p = P_count"] le [of spinning] by (auto simp: idle_inv_def)
  moreover have "num active M + num (\<lambda>p. p = P_count) M \<le> size M"
    by (induction M) (auto simp: idle_kinds split: idle_pc.splits)
  ultimately have b: "- (2 ^ 31) < balance s M" "balance s M < 2 ^ 31 - 1" "num spinning M < 2 ^ 31"
    using assms by (auto simp: balance_def idle_inv_def)
  have w: "idle_count s = word_of_int (balance s M)" "idle_spin s = word_of_nat (num spinning M)" using assms(1) by (simp_all add: idle_inv_def)
  note r = small_words [OF b(1,2)]
  show "sint (idle_count s) = balance s M" "sint (ucast (idle_count s) :: i32) = balance s M"
    "(ucast (drop_bit 32 (idle_count s)) :: i32) = 0 \<longleftrightarrow> 0 \<le> balance s M" unfolding w(1) by (simp_all only: r)
  have "(ucast (idle_count s) :: i32) + 1 = word_of_int (balance s M + 1)" unfolding w(1) r(4) by (simp add: wi_hom_succ)
  then show "sint ((ucast (idle_count s) :: i32) + 1) = balance s M + 1" by (simp only: r(3))
  have "unat (idle_spin s) = num spinning M" unfolding w(2) using b(3) by (simp add: unat_of_nat)
  then show "idle_spin s = 0 \<longleftrightarrow> num spinning M = 0" "idle_spin s = 1 \<longleftrightarrow> num spinning M = 1"
    using unat_eq_zero [of "idle_spin s"] word_unat_eq_iff [of "idle_spin s" 1] by auto
qed


section \<open>Every step keeps the invariant\<close>

text \<open>What a step of one thread must provide; waking keeps it.\<close>

lemma idle_invI:
  assumes "size R < n" and "size (tasks s') + num putting (R + stay p') \<le> c"
    and "idle_count s' = word_of_int (balance s' (R + stay p'))" and "idle_spin s' = word_of_nat (num spinning (R + stay p'))"
    and "C_asleep \<in># R + stay p' \<Longrightarrow> num spinning (R + stay p') = 0 \<Longrightarrow> num looking (R + stay p') = 0 \<Longrightarrow>
      - balance s' (R + stay p') \<le> int (num rising (R + stay p')) + int (debt (R + stay p')) + int k"
    and "p' = Some C_asleep \<Longrightarrow> k = 0"
  shows "idle_inv n c s' (wake_up k R + stay p')"
proof -
  have b: "balance s' (wake_up k R + stay p') = balance s' (R + stay p')" by (simp add: balance_def idle_kinds)
  have "size (stay p') \<le> 1" by (simp add: stay_def split: option.splits)
  then have "size (wake_up k R + stay p') \<le> n" using assms(1) by simp
  moreover have "num putting (wake_up k R + stay p') = num putting (R + stay p')"
    "num spinning (wake_up k R + stay p') = num spinning (R + stay p')" "num looking (wake_up k R + stay p') = num looking (R + stay p')"
    by (simp_all add: idle_kinds)
  moreover have "- balance s' (R + stay p') \<le> int (num rising (wake_up k R + stay p')) + int (debt (wake_up k R + stay p'))"
    if a: "C_asleep \<in># wake_up k R + stay p'" "num spinning (R + stay p') = 0" "num looking (R + stay p') = 0"
  proof (cases "C_asleep \<in># wake_up k R")
    case True
    note w = wake_up_pays [OF True]
    from assms(5) [OF _ a(2,3)] w show ?thesis by simp
  next
    case False
    then have "p' = Some C_asleep" using a(1) by (auto simp: stay_def split: option.splits)
    moreover have "wake_up 0 R = R" by (simp add: wake_up_def)
    ultimately show ?thesis using assms(5) [OF _ a(2,3)] assms(6) by (simp add: stay_def)
  qed
  ultimately show ?thesis using assms(2-4) by (simp add: idle_inv_def b)
qed

lemma stay_simps [simp]: "stay None = {#}" "stay (Some q) = {#q#}"
  by (simp_all add: stay_def)

lemma idle_act_inv:
  assumes inv: "idle_inv n c s (add_mset p R)" and act: "idle_act r p s = Some (s', p', k)" and small: "n + c < 2 ^ 31 - 1"
  shows "idle_inv n c s' (wake_up k R + stay p')"
proof -
  note reads = count_reads [OF inv small]
  have parts: "size R < n" "size (tasks s) + num putting (add_mset p R) \<le> c"
    "idle_count s = word_of_int (balance s (add_mset p R))" "idle_spin s = word_of_nat (num spinning (add_mset p R))"
    and owed: "C_asleep \<in># add_mset p R \<Longrightarrow> num spinning (add_mset p R) = 0 \<Longrightarrow> num looking (add_mset p R) = 0 \<Longrightarrow>
      - balance s (add_mset p R) \<le> int (num rising (add_mset p R)) + int (debt (add_mset p R))"
    using inv by (simp_all add: idle_inv_def)
  show ?thesis
  proof (cases p)
    case (P_put x)
    then show ?thesis using act parts owed by (intro idle_invI) (auto simp: idle_kinds balance_def)
  next
    case P_count
    then have s: "s' = s\<lparr>idle_count := idle_count s - 1\<rparr>" "k = 0" "p' = (if balance s (add_mset p R) \<le> 0 then Some P_spin else None)"
      using act reads(2) by (simp_all add: Let_def)
    show ?thesis using parts owed unfolding s P_count by (intro idle_invI) (auto simp: idle_kinds balance_def)
  next
    case P_spin
    then have s: "s' = s" "k = 0" "p' = (if num spinning R = 0 then Some P_look else None)" using act reads(5) by (auto simp: idle_kinds)
    show ?thesis using parts owed unfolding P_spin s by (intro idle_invI) (auto simp: idle_kinds balance_def)
  next
    case P_look
    then show ?thesis using act parts owed reads by (intro idle_invI) (auto simp: idle_kinds balance_def split: if_splits)
  next
    case P_wake
    then show ?thesis using act parts owed by (intro idle_invI) (auto simp: idle_kinds balance_def)
  next
    case (H_in l)
    then show ?thesis using act parts owed by (intro idle_invI) (auto simp: idle_kinds balance_def split: if_splits)
  next
    case (H_sleep l)
    then show ?thesis using act parts owed by (intro idle_invI) (auto simp: idle_kinds balance_def)
  next
    case (H_out l)
    then have s: "s' = s\<lparr>idle_spin := idle_spin s - 1\<rparr>" "k = 0" "p' = Some (if num spinning R = 0 then H_look l else after_hold l False)"
      using act reads(6) by (auto simp: idle_kinds)
    show ?thesis using parts owed unfolding s H_out by (cases l; intro idle_invI) (auto simp: idle_kinds balance_def after_hold_def)
  next
    case (H_look l)
    have s: "s' = s" "k = 0" "p' = Some (if balance s (add_mset p R) + 1 < 0 then H_wake l (nat (- balance s (add_mset p R) - 1)) else after_hold l True)"
      using act unfolding H_look idle_act.simps Let_def reads(4) [unfolded H_look] by auto
    show ?thesis using parts owed unfolding s H_look by (cases l; intro idle_invI) (auto simp: idle_kinds balance_def after_hold_def)
  next
    case (H_wake l m)
    then show ?thesis using act parts owed by (cases l; intro idle_invI) (auto simp: idle_kinds balance_def after_hold_def)
  next
    case C_count
    then show ?thesis using act parts owed by (intro idle_invI) (auto simp: idle_kinds balance_def)
  next
    case (C_try m)
    then show ?thesis using act parts owed
      by (intro idle_invI) (auto simp: idle_kinds balance_def dest!: multi_member_split split: option.splits if_splits nat.splits)
  next
    case C_wait
    then show ?thesis using act parts owed reads by (intro idle_invI) (auto simp: idle_kinds balance_def split: if_splits)
  next
    case C_futex
    then show ?thesis using act parts owed reads by (intro idle_invI) (auto simp: idle_kinds balance_def split: if_splits)
  next
    case C_asleep
    then show ?thesis using act by simp
  next
    case C_up
    then show ?thesis using act parts owed by (intro idle_invI) (auto simp: idle_kinds balance_def)
  next
    case C_loop
    then show ?thesis using act parts owed
      by (intro idle_invI) (auto simp: idle_kinds balance_def dest!: multi_member_split split: option.splits if_splits)
  qed
qed


lemma idle_step_inv:
  assumes "idle_step n c (s, M) (s', M')" and "idle_inv n c s M" and "n + c < 2 ^ 31 - 1"
  shows "idle_inv n c s' M'"
  using assms(1)
proof cases
  case (enqueue item)
  then show ?thesis using assms(2) by (auto simp: idle_inv_def idle_kinds balance_def)
next
  case wait_dequeue
  then show ?thesis using assms(2) by (auto simp: idle_inv_def idle_kinds balance_def)
next
  case (act r p p' k R)
  then show ?thesis using idle_act_inv [OF _ act(3) assms(3), of R] assms(2) by simp
next
  case (spurious R)
  then show ?thesis using assms(2) by (auto simp: idle_inv_def idle_kinds balance_def)
qed

lemma idle_reach_inv:
  assumes "idle_reach n c x" and "n + c < 2 ^ 31 - 1"
  shows "idle_inv n c (fst x) (snd x)"
  using assms(1)
proof induction
  case start
  then show ?case by (simp add: idle_inv_def idle_new_def balance_def)
next
  case (more x y)
  then show ?case using idle_step_inv [of n c "fst x" "snd x" "fst y" "snd y"] assms(2) by simp
qed

text \<open>Whoever does not sleep has a step.\<close>

lemma idle_act_total: "p \<noteq> C_asleep \<Longrightarrow> \<exists>r y. idle_act r p s = Some y"
  by (cases p) (auto simp: Let_def intro: exI [of _ None])

section \<open>A thread on its own\<close>

text \<open>The calls of a thread nobody interrupts, up to the next access of \<open>wait_dequeue\<close> or \<open>wait\<close>, and the wakes it asks for.\<close>

fun alone :: "nat \<Rightarrow> idle_pc \<Rightarrow> idle \<Rightarrow> idle \<times> idle_pc option \<times> nat list" where
  "alone 0 p s = (s, Some p, [])"
| "alone (Suc f) p s =
     (if p \<in> {C_count, C_futex, C_up} then (s, Some p, [])
      else case idle_act None p s of
        None \<Rightarrow> (s, Some p, [])
      | Some (s', None, k) \<Rightarrow> (s', None, if k = 0 then [] else [k])
      | Some (s', Some q, k) \<Rightarrow> (let (s'', q', ks) = alone f q s' in (s'', q', if k = 0 then ks else k # ks)))"

definition seen :: "task_queue \<Rightarrow> idle" where
  "seen t = \<lparr>tasks = mset (tq_contents t), idle_count = m_count t, idle_spin = big_spin_count t\<rparr>"

section \<open>A run\<close>

lemma wake_up_0 [simp]: "wake_up 0 M = M"
  by (simp add: wake_up_def)

lemma go:
  assumes "idle_reach n c (s, add_mset p R)" and "idle_act r p s = Some (s', p', 0)"
  shows "idle_reach n c (s', R + stay p')"
  using more [OF assms(1) idle_step.act [OF assms(2)]] by simp

lemma go_try: "idle_reach n c (s, add_mset (C_try m) R) \<Longrightarrow> idle_reach n c (s, add_mset C_wait R)"
proof (induction m)
  case 0
  from go [OF this, of None] show ?case by simp
next
  case (Suc m)
  from go [OF Suc.prems, of None] show ?case by (intro Suc.IH) simp
qed

text \<open>A worker sleeps, another one that has just come holds the queue spinning, and a task arrives.\<close>

definition two_workers :: "idle \<times> idle_pc multiset" where
  "two_workers = (\<lparr>tasks = {#7#}, idle_count = -1, idle_spin = 0\<rparr>, {#C_count, C_asleep#})"

lemma minus_one: "(ucast (- 1 :: i64) :: i32) + 1 = 0"
  using small_words(4) [of "- 1"] by simp

lemma two_workers_reached: "idle_reach 3 1 two_workers"
proof -
  let ?s = "\<lambda>T c k. \<lparr>tasks = T, idle_count = c, idle_spin = k\<rparr>"
  have "idle_reach 3 1 (?s {#} 0 0, {#})" using idle_reach.start [of 3 1] by (simp add: idle_new_def)
  from more [OF this wait_dequeue] have "idle_reach 3 1 (?s {#} 0 0, {#H_in False#})" by simp
  from go [OF this, of None] have "idle_reach 3 1 (?s {#} 0 1, {#H_sleep False#})" by simp
  from go [OF this, of None] have "idle_reach 3 1 (?s {#} 0 1, {#H_out False#})" by simp
  from go [OF this, of None] have "idle_reach 3 1 (?s {#} 0 0, {#H_look False#})" by simp
  from go [OF this, of None] have "idle_reach 3 1 (?s {#} 0 0, {#C_count#})" by (simp add: after_hold_def)
  from go [OF this, of None] have "idle_reach 3 1 (?s {#} 1 0, {#C_try qf_spin_cycle#})" by simp
  from go [OF go_try [OF this], of None] have "idle_reach 3 1 (?s {#} 0 0, {#H_in True#})" by simp
  from more [OF this wait_dequeue] have "idle_reach 3 1 (?s {#} 0 0, {#H_in False, H_in True#})" by simp
  from go [OF this, of None] have "idle_reach 3 1 (?s {#} 0 1, {#H_in True, H_sleep False#})" by simp
  from go [OF this, of None] have "idle_reach 3 1 (?s {#} 0 2, {#H_out True, H_sleep False#})" by (simp add: add_mset_commute)
  from go [OF this, of None] have "idle_reach 3 1 (?s {#} 0 1, {#C_futex, H_sleep False#})" by (simp add: after_hold_def add_mset_commute)
  from go [OF this, of None] have "idle_reach 3 1 (?s {#} 0 1, {#C_asleep, H_sleep False#})" by (simp add: add_mset_commute)
  from more [OF this enqueue [where item = 7]] have "idle_reach 3 1 (?s {#} 0 1, {#P_put 7, C_asleep, H_sleep False#})"
    by (simp add: putting_def)
  from go [OF this, of None] have "idle_reach 3 1 (?s {#7#} 0 1, {#P_count, C_asleep, H_sleep False#})" by (simp add: add_mset_commute)
  from go [OF this, of None] have "idle_reach 3 1 (?s {#7#} (-1) 1, {#P_spin, C_asleep, H_sleep False#})" by (simp add: add_mset_commute)
  from go [OF this, of None] have "idle_reach 3 1 (?s {#7#} (-1) 1, {#H_sleep False, C_asleep#})" by (simp add: add_mset_commute)
  from go [OF this, of None] have "idle_reach 3 1 (?s {#7#} (-1) 1, {#H_out False, C_asleep#})" by (simp add: add_mset_commute)
  from go [OF this, of None] have "idle_reach 3 1 (?s {#7#} (-1) 0, {#H_look False, C_asleep#})" by (simp add: add_mset_commute)
  from go [OF this, of None] show ?thesis by (simp add: Let_def minus_one after_hold_def add_mset_commute two_workers_def)
qed

section \<open>Properties\<close>

text \<open>C8: no task is overslept. However the calls of \<open>enqueue\<close> and \<open>wait_dequeue\<close> of up to \<open>n\<close> threads interleave, a
  state in which a task is in the queue and threads are inside is one in which one of them can go on: it never comes
  to pass that all sleep on the futex while there is a task.\<close>

theorem no_task_overslept:
  assumes "idle_reach n c (s, M)" and "n + c < 2 ^ 31 - 1" and "tasks s \<noteq> {#}" and "M \<noteq> {#}"
  shows "\<exists>p r s' p' k. p \<in># M \<and> p \<noteq> C_asleep \<and> idle_act r p s = Some (s', p', k)
    \<and> idle_step n c (s, M) (s', wake_up k (M - {#p#}) + stay p')"
proof -
  have inv: "idle_inv n c s M" using idle_reach_inv [OF assms(1,2)] by simp
  have "\<exists>p. p \<in># M \<and> p \<noteq> C_asleep"
  proof (rule ccontr)
    assume "\<not> ?thesis"
    then have "M = replicate_mset (size M) C_asleep" by (metis set_mset_subset_singletonD subsetI singletonI insertI1)
    then obtain j where j: "M = replicate_mset j C_asleep" by blast
    then have "0 < j" using assms(4) by (cases j) auto
    then show False using inv assms(3) j by (simp add: idle_inv_def idle_kinds balance_def)
  qed
  then obtain p where p: "p \<in># M" "p \<noteq> C_asleep" by blast
  then obtain r s' p' k where "idle_act r p s = Some (s', p', k)" using idle_act_total by (metis prod_cases3)
  moreover from idle_step.act [OF this, of n c "M - {#p#}"] p(1)
  have "idle_step n c (s, M) (s', wake_up k (M - {#p#}) + stay p')" by simp
  ultimately show ?thesis using p by blast
qed

theorem no_task_overslept_witness:
  "\<exists>p r s' p' k. p \<in># snd two_workers \<and> p \<noteq> C_asleep \<and> idle_act r p (fst two_workers) = Some (s', p', k)"
proof -
  have "tasks (fst two_workers) \<noteq> {#}" "snd two_workers \<noteq> {#}" by (simp_all add: two_workers_def)
  then show ?thesis using no_task_overslept [of 3 1 "fst two_workers" "snd two_workers"] two_workers_reached by simp blast
qed

text \<open>C9: tasks do not wait for a worker that sleeps. While nobody is inside \<open>signal\<close> or \<open>spin_hold\<close>, there are as many workers
  awake in \<open>wait_dequeue\<close> as there are tasks in the queue, or nobody sleeps.\<close>

theorem awake_workers_match_tasks:
  assumes "idle_reach n c (s, M)" and "n + c < 2 ^ 31 - 1" and "C_asleep \<in># M"
    and "\<forall>p \<in># M. case p of C_count \<Rightarrow> True | C_try _ \<Rightarrow> True | C_wait \<Rightarrow> True | C_futex \<Rightarrow> True | C_asleep \<Rightarrow> True | C_up \<Rightarrow> True
      | C_loop \<Rightarrow> True | _ \<Rightarrow> False"
  shows "size (tasks s) + count M C_asleep \<le> size M"
proof -
  have inv: "idle_inv n c s M" using idle_reach_inv [OF assms(1,2)] by simp
  have "num spinning M = 0 \<and> num looking M = 0 \<and> debt M = 0 \<and> num (\<lambda>p. p = P_count) M = 0
    \<and> num active M + num rising M + count M C_asleep = size M"
    using assms(4) by (induction M) (auto simp: idle_kinds split: idle_pc.splits)
  then show ?thesis using inv assms(3) by (simp add: idle_inv_def balance_def)
qed

theorem awake_workers_match_tasks_witness:
  "size (tasks (fst two_workers)) + count (snd two_workers) C_asleep \<le> size (snd two_workers)"
  by (rule awake_workers_match_tasks [of 3 1]) (use two_workers_reached in \<open>simp_all add: two_workers_def\<close>)

text \<open>The accesses of a \<open>signal\<close> or \<open>spin_hold\<close> that nobody interrupts amount to the atomic \<open>tq_signal\<close> and
  \<open>spin_hold\<close> of Task_Queue, with the same wakes.\<close>

theorem idle_call_alone:
  "(\<exists>ks. alone 5 P_count (seen t) = (seen (tq_signal t), None, ks) \<and> tq_wakes (tq_signal t) = tq_wakes t @ ks)
    \<and> (\<exists>ks. alone 5 (H_in l) (seen t) = (seen (fst (spin_hold t)), Some (after_hold l (snd (spin_hold t))), ks)
      \<and> tq_wakes (fst (spin_hold t)) = tq_wakes t @ ks)"
proof
  have same: "tq_contents (t\<lparr>m_count := m\<rparr>) = tq_contents t" "tq_contents (t\<lparr>big_spin_count := b\<rparr>) = tq_contents t"
    "tq_contents (t\<lparr>m_count := m, tq_wakes := ws\<rparr>) = tq_contents t" "tq_contents (t\<lparr>big_spin_count := b, tq_wakes := ws\<rparr>) = tq_contents t" for m b ws
    by (simp_all add: tq_contents_def)
  show "\<exists>ks. alone 5 P_count (seen t) = (seen (tq_signal t), None, ks) \<and> tq_wakes (tq_signal t) = tq_wakes t @ ks"
    by (simp add: eval_nat_numeral Let_def seen_def tq_signal_def futex_wake_def same)
  show "\<exists>ks. alone 5 (H_in l) (seen t) = (seen (fst (spin_hold t)), Some (after_hold l (snd (spin_hold t))), ks)
      \<and> tq_wakes (fst (spin_hold t)) = tq_wakes t @ ks"
    by (simp add: eval_nat_numeral Let_def seen_def spin_hold_def after_hold_def futex_wake_def same)
qed

end
