(* ===== verification/Coctx.thy ===== *)
theory Coctx
  imports QF_Prelude
begin

unbundle bit_operations_syntax

text \<open>
  cpp3rd/libco for x86-64: \<open>coctx_swap\<close> and \<open>coctx_set\<close> of coctx_swap.S, run by a model of the instructions they use,
  and \<open>coctx_init\<close> and \<open>coctx_make\<close> of coctx.cpp. A switch of contexts is where the functions of Executor end; here is
  what a switch does to the machine.
\<close>

section \<open>The machine\<close>

datatype reg = RAX | RBX | RCX | RDX | RSI | RDI | RBP | RSP | R8 | R9 | R10 | R11 | R12 | R13 | R14 | R15

text \<open>Memory consists of the mapped cells of 8 bytes. Every access of the code is to a cell; one to any other address is
  taken as a fault.\<close>

type_synonym cells = "u64 \<Rightarrow> u64 option"

record cpu =
  regs :: "reg \<Rightarrow> u64"
  cells :: cells
  rip :: u64

definition load :: "u64 \<Rightarrow> cells \<Rightarrow> u64 result" where
  "load p m = (case m p of None \<Rightarrow> Inl (Undefined ''segment'') | Some v \<Rightarrow> Inr v)"

definition store_cell :: "u64 \<Rightarrow> u64 \<Rightarrow> cells \<Rightarrow> cells result" where
  "store_cell p v m = (case m p of None \<Rightarrow> Inl (Undefined ''segment'') | Some _ \<Rightarrow> Inr (m(p \<mapsto> v)))"

text \<open>\<open>leaq d(%b),%r\<close>, \<open>movq %r,d(%b)\<close>, \<open>movq d(%b),%r\<close>, \<open>xorq %r,%r'\<close>, \<open>pushq d(%b)\<close> and \<open>ret\<close>.\<close>

datatype instr = Leaq u64 reg reg | Store reg u64 reg | Load u64 reg reg | Xorq reg reg | Pushq u64 reg | Ret

definition set_reg :: "reg \<Rightarrow> u64 \<Rightarrow> cpu \<Rightarrow> cpu" where
  "set_reg r v s = s\<lparr>regs := (regs s)(r := v)\<rparr>"

fun exec1 :: "instr \<Rightarrow> cpu \<Rightarrow> cpu result" where
  "exec1 (Leaq d b r) s = Inr (set_reg r (regs s b + d) s)"
| "exec1 (Store r d b) s = rbind (store_cell (regs s b + d) (regs s r) (cells s)) (\<lambda>m. Inr (s\<lparr>cells := m\<rparr>))"
| "exec1 (Load d b r) s = rbind (load (regs s b + d) (cells s)) (\<lambda>v. Inr (set_reg r v s))"
| "exec1 (Xorq r r') s = Inr (set_reg r' (xor (regs s r) (regs s r')) s)"
| "exec1 (Pushq d b) s =
     rbind (load (regs s b + d) (cells s)) (\<lambda>v. let s1 = set_reg RSP (regs s RSP - 8) s in
     rbind (store_cell (regs s1 RSP) v (cells s1)) (\<lambda>m. Inr (s1\<lparr>cells := m\<rparr>)))"
| "exec1 Ret s = rbind (load (regs s RSP) (cells s)) (\<lambda>v. Inr (set_reg RSP (regs s RSP + 8) s\<lparr>rip := v\<rparr>))"

definition exec :: "instr list \<Rightarrow> cpu \<Rightarrow> cpu result" where
  "exec = rfold exec1"

section \<open>The code\<close>

text \<open>\<open>coctx_swap(out, into)\<close> saves the registers in the first context, which \<open>rdi\<close> points to, and loads those of the second.\<close>

definition save_regs :: "instr list" where
  "save_regs =
    [Leaq 0 RSP RAX,
     Store RAX 104 RDI,
     Store RBX 96 RDI,
     Store RCX 88 RDI,
     Store RDX 80 RDI,
     Load 0 RAX RAX,
     Store RAX 72 RDI,
     Store RSI 64 RDI,
     Store RDI 56 RDI,
     Store RBP 48 RDI,
     Store R8 40 RDI,
     Store R9 32 RDI,
     Store R12 24 RDI,
     Store R13 16 RDI,
     Store R14 8 RDI,
     Store R15 0 RDI,
     Xorq RAX RAX]"

definition load_regs :: "instr list" where
  "load_regs =
    [Load 48 RSI RBP,
     Load 104 RSI RSP,
     Load 0 RSI R15,
     Load 8 RSI R14,
     Load 16 RSI R13,
     Load 24 RSI R12,
     Load 32 RSI R9,
     Load 40 RSI R8,
     Load 56 RSI RDI,
     Load 80 RSI RDX,
     Load 88 RSI RCX,
     Load 96 RSI RBX,
     Leaq 8 RSP RSP,
     Pushq 72 RSI,
     Load 64 RSI RSI,
     Ret]"

definition coctx_swap :: "instr list" where
  "coctx_swap = save_regs @ load_regs"

definition coctx_set :: "instr list" where
  "coctx_set = Leaq 0 RSP RAX # load_regs"

text \<open>The members of a \<open>coctx_t\<close>: \<open>regs[i]\<close>, \<open>ss_size\<close>, \<open>ss_sp\<close>; and the names of the indices.\<close>

definition reg_at :: "u64 \<Rightarrow> nat \<Rightarrow> u64" where
  "reg_at ctx i = ctx + of_nat (8 * i)"

definition ss_size_at :: "u64 \<Rightarrow> u64" where
  "ss_size_at ctx = ctx + 112"

definition ss_sp_at :: "u64 \<Rightarrow> u64" where
  "ss_sp_at ctx = ctx + 120"

definition kRDI :: nat where "kRDI = 7"
definition kRSI :: nat where "kRSI = 8"
definition kRETAddr :: nat where "kRETAddr = 9"
definition kRSP :: nat where "kRSP = 13"

text \<open>\<open>memset(p, 0, 8 * n)\<close>.\<close>

definition zero_cells :: "u64 \<Rightarrow> nat \<Rightarrow> cells \<Rightarrow> cells result" where
  "zero_cells p n = rfold (\<lambda>i. store_cell (p + of_nat (8 * i)) 0) [0..<n]"

definition coctx_init :: "u64 \<Rightarrow> cells \<Rightarrow> cells result" where
  "coctx_init ctx m = zero_cells ctx 16 m"

definition coctx_make :: "u64 \<Rightarrow> u64 \<Rightarrow> u64 \<Rightarrow> u64 \<Rightarrow> cells \<Rightarrow> cells result" where
  "coctx_make ctx pfn s s1 m =
     rbind (load (ss_sp_at ctx) m) (\<lambda>ss_sp.
     rbind (load (ss_size_at ctx) m) (\<lambda>ss_size.
     let sp = (ss_sp + ss_size - 8) AND (-16) in
     rbind (zero_cells ctx 14 m) (\<lambda>m1.
     rbind (store_cell sp pfn m1) (\<lambda>m2.
     rbind (store_cell (reg_at ctx kRSP) sp m2) (\<lambda>m3.
     rbind (store_cell (reg_at ctx kRETAddr) pfn m3) (\<lambda>m4.
     rbind (store_cell (reg_at ctx kRDI) s m4) (\<lambda>m5.
       store_cell (reg_at ctx kRSI) s1 m5)))))))"

text \<open>The lines of \<open>Thread::swap_new_context\<close> that prepare the new context.\<close>

definition prepare_context :: "u64 \<Rightarrow> u64 \<Rightarrow> u64 \<Rightarrow> u64 \<Rightarrow> cells \<Rightarrow> cells result" where
  "prepare_context ctx stack_base stack_size func m =
     rbind (coctx_init ctx m) (\<lambda>m1.
     rbind (store_cell (ss_sp_at ctx) stack_base m1) (\<lambda>m2.
     rbind (store_cell (ss_size_at ctx) stack_size m2) (\<lambda>m3.
       coctx_make ctx func 0 0 m3)))"

section \<open>What the code does\<close>

definition ctx_cells :: "u64 \<Rightarrow> u64 set" where
  "ctx_cells ctx = {ctx, ctx + 8, ctx + 16, ctx + 24, ctx + 32, ctx + 40, ctx + 48, ctx + 56, ctx + 64, ctx + 72, ctx + 80,
     ctx + 88, ctx + 96, ctx + 104, ctx + 112, ctx + 120}"

text \<open>The registers of a context in memory.\<close>

definition saved :: "cells \<Rightarrow> u64 \<Rightarrow> (reg \<Rightarrow> u64) \<Rightarrow> u64 \<Rightarrow> bool" where
  "saved m ctx f ret \<longleftrightarrow> m ctx = Some (f R15) \<and> m (ctx + 8) = Some (f R14) \<and> m (ctx + 16) = Some (f R13) \<and> m (ctx + 24) = Some (f R12)
     \<and> m (ctx + 32) = Some (f R9) \<and> m (ctx + 40) = Some (f R8) \<and> m (ctx + 48) = Some (f RBP) \<and> m (ctx + 56) = Some (f RDI)
     \<and> m (ctx + 64) = Some (f RSI) \<and> m (ctx + 72) = Some ret \<and> m (ctx + 80) = Some (f RDX) \<and> m (ctx + 88) = Some (f RCX)
     \<and> m (ctx + 96) = Some (f RBX) \<and> m (ctx + 104) = Some (f RSP)"

lemma store_mapped [simp]: "m p = Some v \<Longrightarrow> store_cell p x m = Inr (m(p \<mapsto> x))"
  by (simp add: store_cell_def)

lemma load_mapped [simp]: "m p = Some v \<Longrightarrow> load p m = Inr v"
  by (simp add: load_def)

lemma exec_append: "exec (is @ js) s = rbind (exec is s) (exec js)"
  by (simp add: exec_def rfold_append)

lemma store_in: "p \<in> dom m \<Longrightarrow> store_cell p x m = Inr (m(p \<mapsto> x))"
  by (auto simp: store_cell_def)

lemma save_regs_run:
  assumes "ctx_cells (regs s RDI) \<subseteq> dom (cells s)" and "cells s (regs s RSP) = Some ret" and "regs s RSP \<notin> ctx_cells (regs s RDI)"
  shows "\<exists>m. exec save_regs s = Inr (s\<lparr>regs := (regs s)(RAX := 0), cells := m\<rparr>) \<and> saved m (regs s RDI) (regs s) ret
    \<and> (\<forall>p. p \<notin> ctx_cells (regs s RDI) \<longrightarrow> m p = cells s p) \<and> dom m = dom (cells s)"
proof -
  let ?d = "regs s RDI"
  let ?m = "(cells s)(?d + 104 \<mapsto> regs s RSP, ?d + 96 \<mapsto> regs s RBX, ?d + 88 \<mapsto> regs s RCX, ?d + 80 \<mapsto> regs s RDX, ?d + 72 \<mapsto> ret,
    ?d + 64 \<mapsto> regs s RSI, ?d + 56 \<mapsto> ?d, ?d + 48 \<mapsto> regs s RBP, ?d + 40 \<mapsto> regs s R8, ?d + 32 \<mapsto> regs s R9, ?d + 24 \<mapsto> regs s R12,
    ?d + 16 \<mapsto> regs s R13, ?d + 8 \<mapsto> regs s R14, ?d \<mapsto> regs s R15)"
  have d: "?d \<in> dom (cells s)" "?d + 8 \<in> dom (cells s)" "?d + 16 \<in> dom (cells s)" "?d + 24 \<in> dom (cells s)" "?d + 32 \<in> dom (cells s)"
    "?d + 40 \<in> dom (cells s)" "?d + 48 \<in> dom (cells s)" "?d + 56 \<in> dom (cells s)" "?d + 64 \<in> dom (cells s)" "?d + 72 \<in> dom (cells s)"
    "?d + 80 \<in> dom (cells s)" "?d + 88 \<in> dom (cells s)" "?d + 96 \<in> dom (cells s)" "?d + 104 \<in> dom (cells s)"
    using assms(1) unfolding ctx_cells_def by blast+
  have "exec save_regs s = Inr (s\<lparr>regs := (regs s)(RAX := 0), cells := ?m\<rparr>)"
    using d assms(2,3) unfolding exec_def save_regs_def ctx_cells_def by (simp add: set_reg_def store_in)
  moreover have "saved ?m ?d (regs s) ret" by (simp add: saved_def)
  moreover have "\<forall>p. p \<notin> ctx_cells ?d \<longrightarrow> ?m p = cells s p" by (simp add: ctx_cells_def)
  moreover have "dom ?m = dom (cells s)" using d by auto
  ultimately show ?thesis by blast
qed

text \<open>The registers a context is entered with.\<close>

definition entered :: "(reg \<Rightarrow> u64) \<Rightarrow> (reg \<Rightarrow> u64) \<Rightarrow> reg \<Rightarrow> u64" where
  "entered now f = now(RBP := f RBP, RSP := f RSP + 8, R15 := f R15, R14 := f R14, R13 := f R13, R12 := f R12, R9 := f R9, R8 := f R8,
     RDI := f RDI, RDX := f RDX, RCX := f RCX, RBX := f RBX, RSI := f RSI)"

lemma load_regs_run:
  assumes "saved (cells s) (regs s RSI) f ret" and "f RSP \<in> dom (cells s)" and "f RSP \<notin> ctx_cells (regs s RSI)"
  shows "exec load_regs s = Inr (s\<lparr>regs := entered (regs s) f, cells := (cells s)(f RSP \<mapsto> ret), rip := ret\<rparr>)"
proof -
  have "(regs s)(RBP := f RBP, R15 := f R15, R14 := f R14, R13 := f R13, R12 := f R12, R9 := f R9, R8 := f R8,
     RDI := f RDI, RDX := f RDX, RCX := f RCX, RBX := f RBX, RSI := f RSI, RSP := f RSP + 8) = entered (regs s) f"
    by (rule ext) (simp add: entered_def)
  moreover have "regs s RSI + 64 \<noteq> f RSP" using assms(3) by (auto simp: ctx_cells_def)
  ultimately show ?thesis
    using assms unfolding exec_def load_regs_def saved_def ctx_cells_def by (simp add: set_reg_def store_in del: rbind_eq_Inr)
qed


section \<open>A switch\<close>

text \<open>The machine is about to switch from the context \<open>rdi\<close> points to, whose stack \<open>rsp\<close> points to the return address \<open>ret\<close>,
  to the one \<open>rsi\<close> points to, which holds the registers \<open>f\<close> and the address \<open>into\<close>.\<close>

definition can_switch :: "cpu \<Rightarrow> u64 \<Rightarrow> (reg \<Rightarrow> u64) \<Rightarrow> u64 \<Rightarrow> bool" where
  "can_switch s ret f into \<longleftrightarrow> ctx_cells (regs s RDI) \<subseteq> dom (cells s) \<and> cells s (regs s RSP) = Some ret
     \<and> saved (cells s) (regs s RSI) f into \<and> f RSP \<in> dom (cells s)
     \<and> ctx_cells (regs s RDI) \<inter> ctx_cells (regs s RSI) = {}
     \<and> {regs s RSP, f RSP} \<inter> (ctx_cells (regs s RDI) \<union> ctx_cells (regs s RSI)) = {}"

lemma saved_cong:
  "saved m ctx f ret \<Longrightarrow> \<forall>p \<in> ctx_cells ctx. m' p = m p \<Longrightarrow> saved m' ctx f ret"
  by (simp add: saved_def ctx_cells_def)

lemma swap_run:
  assumes "can_switch s ret f into"
  shows "\<exists>m. exec coctx_swap s = Inr (s\<lparr>regs := entered ((regs s)(RAX := 0)) f, cells := m, rip := into\<rparr>)
    \<and> saved m (regs s RDI) (regs s) ret \<and> dom m = dom (cells s)
    \<and> (\<forall>p. p \<notin> ctx_cells (regs s RDI) \<longrightarrow> p \<noteq> f RSP \<longrightarrow> m p = cells s p)"
proof -
  from assms have a: "ctx_cells (regs s RDI) \<subseteq> dom (cells s)" "cells s (regs s RSP) = Some ret" "regs s RSP \<notin> ctx_cells (regs s RDI)"
    "saved (cells s) (regs s RSI) f into" "f RSP \<in> dom (cells s)" "f RSP \<notin> ctx_cells (regs s RSI)" "f RSP \<notin> ctx_cells (regs s RDI)"
    and dis: "\<forall>p \<in> ctx_cells (regs s RSI). p \<notin> ctx_cells (regs s RDI)"
    by (auto simp: can_switch_def)
  obtain m where m: "exec save_regs s = Inr (s\<lparr>regs := (regs s)(RAX := 0), cells := m\<rparr>)" "saved m (regs s RDI) (regs s) ret"
    "\<forall>p. p \<notin> ctx_cells (regs s RDI) \<longrightarrow> m p = cells s p" "dom m = dom (cells s)"
    using save_regs_run [OF a(1-3)] by blast
  let ?s = "s\<lparr>regs := (regs s)(RAX := 0), cells := m\<rparr>"
  have "saved (cells ?s) (regs ?s RSI) f into" using saved_cong [OF a(4)] m(3) dis by simp
  then have "exec load_regs ?s = Inr (?s\<lparr>regs := entered (regs ?s) f, cells := (cells ?s)(f RSP \<mapsto> into), rip := into\<rparr>)"
    by (rule load_regs_run) (use a m in simp_all)
  then have "exec coctx_swap s = Inr (s\<lparr>regs := entered ((regs s)(RAX := 0)) f, cells := m(f RSP \<mapsto> into), rip := into\<rparr>)"
    by (simp add: coctx_swap_def exec_append m(1) del: rbind_eq_Inr)
  moreover have "saved (m(f RSP \<mapsto> into)) (regs s RDI) (regs s) ret" using saved_cong [OF m(2)] a(7) by auto
  moreover have "dom (m(f RSP \<mapsto> into)) = dom (cells s)" using a(5) m(4) by auto
  ultimately show ?thesis using m(3) by (intro exI [of _ "m(f RSP \<mapsto> into)"]) simp
qed

lemma set_run:
  assumes "saved (cells s) (regs s RSI) f ret" and "f RSP \<in> dom (cells s)" and "f RSP \<notin> ctx_cells (regs s RSI)"
  shows "exec coctx_set s = Inr (s\<lparr>regs := entered ((regs s)(RAX := regs s RSP)) f, cells := (cells s)(f RSP \<mapsto> ret), rip := ret\<rparr>)"
proof -
  let ?s = "set_reg RAX (regs s RSP) s"
  have "exec coctx_set s = exec load_regs ?s" by (simp add: coctx_set_def exec_def)
  also have "\<dots> = Inr (?s\<lparr>regs := entered (regs ?s) f, cells := (cells ?s)(f RSP \<mapsto> ret), rip := ret\<rparr>)"
    by (rule load_regs_run) (use assms in \<open>simp_all add: set_reg_def\<close>)
  finally show ?thesis by (simp add: set_reg_def)
qed

text \<open>C16: a context that is switched away from comes back as it was. \<open>coctx_swap\<close> ends where the other context wants it; when
  later, on whatever machine state, \<open>coctx_set\<close> is called with the first context, whose cells nobody has written, it
  continues behind the call of \<open>coctx_swap\<close> with every register the calling convention wants kept, the stack pointer as
  \<open>ret\<close> leaves it, and no cell of memory changed but that of the return address, which gets its old value.\<close>

theorem switch_round_trip:
  assumes "can_switch s ret f into"
  shows "\<exists>s1. exec coctx_swap s = Inr s1 \<and> rip s1 = into \<and> regs s1 RSP = f RSP + 8
    \<and> (\<forall>s2. regs s2 RSI = regs s RDI \<and> (\<forall>p \<in> ctx_cells (regs s RDI). cells s2 p = cells s1 p) \<and> regs s RSP \<in> dom (cells s2) \<longrightarrow>
        (\<exists>s3. exec coctx_set s2 = Inr s3 \<and> rip s3 = ret \<and> regs s3 RSP = regs s RSP + 8
          \<and> (\<forall>r \<in> {RBX, RBP, R12, R13, R14, R15}. regs s3 r = regs s r) \<and> cells s3 = (cells s2)(regs s RSP \<mapsto> ret)))"
proof -
  obtain m where m: "exec coctx_swap s = Inr (s\<lparr>regs := entered ((regs s)(RAX := 0)) f, cells := m, rip := into\<rparr>)"
    "saved m (regs s RDI) (regs s) ret"
    using swap_run [OF assms] by blast
  have slot: "regs s RSP \<notin> ctx_cells (regs s RDI)" using assms by (auto simp: can_switch_def)
  have "\<exists>s3. exec coctx_set s2 = Inr s3 \<and> rip s3 = ret \<and> regs s3 RSP = regs s RSP + 8
      \<and> (\<forall>r \<in> {RBX, RBP, R12, R13, R14, R15}. regs s3 r = regs s r) \<and> cells s3 = (cells s2)(regs s RSP \<mapsto> ret)"
    if "regs s2 RSI = regs s RDI" "\<forall>p \<in> ctx_cells (regs s RDI). cells s2 p = m p" "regs s RSP \<in> dom (cells s2)" for s2
    using set_run [of s2 "regs s" ret] saved_cong [OF m(2) that(2)] that(1,3) slot by (simp add: entered_def)
  then show ?thesis using m(1) by (simp add: entered_def)
qed

definition idle_cpu :: cpu where
  "idle_cpu = \<lparr>regs = (\<lambda>_. 0)(RSI := 128, RSP := 8192), cells = (\<lambda>_. Some 4096), rip = 0\<rparr>"

lemma idle_cpu_switch: "can_switch idle_cpu 4096 (\<lambda>_. 4096) 4096"
  by (simp add: can_switch_def idle_cpu_def saved_def ctx_cells_def)

theorem switch_round_trip_witness:
  "\<exists>s1. exec coctx_swap idle_cpu = Inr s1 \<and> rip s1 = 4096 \<and> regs s1 RSP = 4104"
  using switch_round_trip [OF idle_cpu_switch] by auto

section \<open>A new context\<close>

lemma store_cell_dom: "store_cell p x m = Inr m' \<Longrightarrow> dom m' = dom m"
  by (cases "m p") (simp_all add: store_cell_def, metis domI dom_fun_upd insert_absorb option.distinct(1))

lemma zero_cells_dom:
  assumes "zero_cells p n m = Inr m'"
  shows "dom m' = dom m"
  by (rule rfold_invariant [OF assms [unfolded zero_cells_def], of "\<lambda>m'. dom m' = dom m"]) (simp_all add: store_cell_dom)

lemma ctx_dom:
  assumes "ctx_cells d \<subseteq> dom m"
  shows "d \<in> dom m" "d + 8 \<in> dom m" "d + 16 \<in> dom m" "d + 24 \<in> dom m" "d + 32 \<in> dom m" "d + 40 \<in> dom m" "d + 48 \<in> dom m" "d + 56 \<in> dom m"
    "d + 64 \<in> dom m" "d + 72 \<in> dom m" "d + 80 \<in> dom m" "d + 88 \<in> dom m" "d + 96 \<in> dom m" "d + 104 \<in> dom m" "d + 112 \<in> dom m" "d + 120 \<in> dom m"
  using assms unfolding ctx_cells_def by blast+

lemma zero_regs:
  assumes "ctx_cells d \<subseteq> dom m"
  shows "zero_cells d 14 m = Inr (m(d \<mapsto> 0, d + 8 \<mapsto> 0, d + 16 \<mapsto> 0, d + 24 \<mapsto> 0, d + 32 \<mapsto> 0, d + 40 \<mapsto> 0, d + 48 \<mapsto> 0, d + 56 \<mapsto> 0,
    d + 64 \<mapsto> 0, d + 72 \<mapsto> 0, d + 80 \<mapsto> 0, d + 88 \<mapsto> 0, d + 96 \<mapsto> 0, d + 104 \<mapsto> 0))"
  using ctx_dom [OF assms] by (simp add: zero_cells_def upt_conv_Cons store_in del: rbind_eq_Inr)

lemma zero_all:
  assumes "ctx_cells d \<subseteq> dom m"
  shows "\<exists>m'. zero_cells d 16 m = Inr m' \<and> dom m' = dom m \<and> (\<forall>p. p \<notin> ctx_cells d \<longrightarrow> m' p = m p)"
proof -
  let ?m = "m(d \<mapsto> 0, d + 8 \<mapsto> 0, d + 16 \<mapsto> 0, d + 24 \<mapsto> 0, d + 32 \<mapsto> 0, d + 40 \<mapsto> 0, d + 48 \<mapsto> 0, d + 56 \<mapsto> 0,
    d + 64 \<mapsto> 0, d + 72 \<mapsto> 0, d + 80 \<mapsto> 0, d + 88 \<mapsto> 0, d + 96 \<mapsto> 0, d + 104 \<mapsto> 0, d + 112 \<mapsto> 0, d + 120 \<mapsto> 0)"
  have z: "zero_cells d 16 m = Inr ?m" using ctx_dom [OF assms] by (simp add: zero_cells_def upt_conv_Cons store_in del: rbind_eq_Inr)
  show ?thesis using z zero_cells_dom [OF z] by (intro exI [of _ ?m]) (simp add: ctx_cells_def)
qed

text \<open>Rounding down to a multiple of 16.\<close>

lemma unat_take4: "unat (take_bit 4 x) = unat (x :: u64) mod 16"
  by (simp add: take_bit_eq_mod unat_mod)

lemma round_down:
  fixes x :: u64
  shows "unat (x AND (-16)) = unat x - unat x mod 16" and "(x AND (-16)) AND 15 = 0"
proof -
  have m: "(-16 :: u64) = NOT (mask 4)" "(15 :: u64) = mask 4" by (simp_all add: mask_eq_exp_minus_1)
  have "x AND NOT (mask 4) = push_bit 4 (drop_bit 4 x)" by (rule bit_eqI) (auto simp: bit_simps)
  moreover have "push_bit 4 (drop_bit 4 x) + take_bit 4 x = x" by (rule bits_ident)
  ultimately have "x AND (-16) = x - take_bit 4 x" unfolding m by (simp add: eq_diff_eq)
  moreover note t = unat_take4 [of x]
  then have "take_bit 4 x \<le> x" by (simp add: word_le_nat_alt)
  ultimately show "unat (x AND (-16)) = unat x - unat x mod 16" using t by (simp add: unat_sub)
  show "(x AND (-16)) AND 15 = 0" unfolding m by (simp add: and.assoc)
qed


definition stack_cells :: "u64 \<Rightarrow> u64 \<Rightarrow> u64 set" where
  "stack_cells base sz = {p. unat base \<le> unat p \<and> unat p < unat base + unat sz \<and> p AND 7 = 0}"

definition stack_top :: "u64 \<Rightarrow> u64 \<Rightarrow> u64" where
  "stack_top base sz = (base + sz - 8) AND (-16)"

lemma stack_top_in:
  assumes "base AND 15 = 0" and "16 \<le> unat sz" and "unat base + unat sz < 2 ^ 64"
  shows "stack_top base sz \<in> stack_cells base sz" and "(stack_top base sz) AND 15 = 0"
    and "unat base \<le> unat (stack_top base sz)" and "unat (stack_top base sz) + 8 \<le> unat base + unat sz"
proof -
  let ?x = "base + sz - 8"
  have "unat (base + sz) = unat base + unat sz" using assms(3) by (simp add: unat_word_ariths)
  moreover have "8 \<le> base + sz" using assms(2) calculation by (simp add: word_le_nat_alt)
  ultimately have x: "unat ?x = unat base + unat sz - 8" by (simp add: unat_sub)
  have "base AND 15 = take_bit 4 base" by (simp add: take_bit_eq_mask mask_eq_exp_minus_1)
  then have b: "unat base mod 16 = 0" using assms(1) unat_take4 [of base] by simp
  show a: "(stack_top base sz) AND 15 = 0" unfolding stack_top_def by (rule round_down)
  have u: "unat (stack_top base sz) = unat ?x - unat ?x mod 16" unfolding stack_top_def by (rule round_down)
  have "unat base + 8 \<le> unat ?x" using x assms(2) by simp
  moreover have "unat ?x - unat ?x mod 16 = 16 * (unat ?x div 16)" by (simp add: minus_mod_eq_mult_div)
  moreover have "unat base = 16 * (unat base div 16)" using b by (simp add: mod_0_imp_dvd)
  ultimately show le: "unat base \<le> unat (stack_top base sz)" unfolding u by (metis add_leD1 div_le_mono mult_le_mono2)
  show top: "unat (stack_top base sz) + 8 \<le> unat base + unat sz" unfolding u x using assms(2) by simp
  have "(stack_top base sz) AND 7 = ((stack_top base sz) AND 15) AND 7" by (simp add: and.assoc)
  then show "stack_top base sz \<in> stack_cells base sz" using a le top by (simp add: stack_cells_def)
qed

lemma not_sym_ctx: "p \<notin> ctx_cells d \<Longrightarrow> d \<noteq> p \<and> d + 8 \<noteq> p \<and> d + 16 \<noteq> p \<and> d + 24 \<noteq> p \<and> d + 32 \<noteq> p \<and> d + 40 \<noteq> p \<and> d + 48 \<noteq> p
    \<and> d + 56 \<noteq> p \<and> d + 64 \<noteq> p \<and> d + 72 \<noteq> p \<and> d + 80 \<noteq> p \<and> d + 88 \<noteq> p \<and> d + 96 \<noteq> p \<and> d + 104 \<noteq> p"
  by (auto simp: ctx_cells_def)

lemma prepare_run:
  assumes ctx: "ctx_cells ctx \<subseteq> dom m" and top: "stack_top base sz \<in> dom m" "stack_top base sz \<notin> ctx_cells ctx"
  shows "\<exists>m1. prepare_context ctx base sz func m = Inr m1 \<and> dom m1 = dom m
    \<and> saved m1 ctx ((\<lambda>_. 0)(RSP := stack_top base sz)) func
    \<and> (\<forall>p. p \<notin> insert (stack_top base sz) (ctx_cells ctx) \<longrightarrow> m1 p = m p)"
proof -
  obtain n where n: "coctx_init ctx m = Inr n" "dom n = dom m" "\<forall>p. p \<notin> ctx_cells ctx \<longrightarrow> n p = m p"
    using zero_all [OF ctx] by (auto simp: coctx_init_def)
  let ?n = "n(ctx + 120 \<mapsto> base, ctx + 112 \<mapsto> sz)"
  note d = ctx_dom [OF ctx, folded n(2)]
  have dn: "dom ?n = dom n" using d by auto
  have z: "zero_cells ctx 14 ?n = Inr (?n(ctx \<mapsto> 0, ctx + 8 \<mapsto> 0, ctx + 16 \<mapsto> 0, ctx + 24 \<mapsto> 0, ctx + 32 \<mapsto> 0, ctx + 40 \<mapsto> 0, ctx + 48 \<mapsto> 0,
    ctx + 56 \<mapsto> 0, ctx + 64 \<mapsto> 0, ctx + 72 \<mapsto> 0, ctx + 80 \<mapsto> 0, ctx + 88 \<mapsto> 0, ctx + 96 \<mapsto> 0, ctx + 104 \<mapsto> 0))" (is "_ = Inr ?z")
    by (rule zero_regs) (use ctx n(2) dn in simp)
  let ?m1 = "?z(stack_top base sz \<mapsto> func, ctx + 104 \<mapsto> stack_top base sz, ctx + 72 \<mapsto> func, ctx + 56 \<mapsto> 0, ctx + 64 \<mapsto> 0)"
  have t: "stack_top base sz \<in> dom n" "stack_top base sz \<noteq> ctx + 56" "stack_top base sz \<noteq> ctx + 64" "stack_top base sz \<noteq> ctx + 72"
    "stack_top base sz \<noteq> ctx + 104" using top n(2) by (auto simp: ctx_cells_def)
  have run: "prepare_context ctx base sz func m = Inr ?m1"
    using d t n(1) z
    by (simp add: prepare_context_def coctx_make_def ss_sp_at_def ss_size_at_def store_in reg_at_def kRSP_def kRETAddr_def kRDI_def
        kRSI_def stack_top_def [symmetric] Let_def del: rbind_eq_Inr)
  moreover have "saved ?m1 ctx ((\<lambda>_. 0)(RSP := stack_top base sz)) func"
    using top(2) top(2) [THEN not_sym_ctx] by (simp add: saved_def ctx_cells_def)
  moreover have "dom ?m1 = dom m" using d t(1) n(2) by auto
  moreover have "\<forall>p. p \<notin> insert (stack_top base sz) (ctx_cells ctx) \<longrightarrow> ?m1 p = m p" using n(3) by (simp add: ctx_cells_def)
  ultimately show ?thesis by blast
qed

text \<open>C17: \<open>prepare_context\<close> writes only the new context and its stack, and the switch to it enters \<open>func\<close>, as a call with two null
  arguments would: the stack pointer is within the stack, and 8 below a multiple of 16 as the calling convention wants at the
  entry of a function. What it was switched from is saved.\<close>

theorem new_context_starts:
  assumes "base AND 15 = 0" and "16 \<le> unat sz" and "unat base + unat sz < 2 ^ 64"
    and "ctx_cells ctx \<subseteq> dom m" and "stack_cells base sz \<subseteq> dom m" and "ctx_cells ctx \<inter> stack_cells base sz = {}"
  shows "\<exists>m1. prepare_context ctx base sz func m = Inr m1 \<and> (\<forall>p. p \<notin> ctx_cells ctx \<union> stack_cells base sz \<longrightarrow> m1 p = m p)
    \<and> (\<forall>s ret. cells s = m1 \<and> regs s RSI = ctx \<and> ctx_cells (regs s RDI) \<subseteq> dom m \<and> m (regs s RSP) = Some ret
          \<and> ctx_cells (regs s RDI) \<inter> (ctx_cells ctx \<union> stack_cells base sz) = {}
          \<and> regs s RSP \<notin> ctx_cells (regs s RDI) \<union> ctx_cells ctx \<union> stack_cells base sz \<longrightarrow>
        (\<exists>s1. exec coctx_swap s = Inr s1 \<and> rip s1 = func \<and> regs s1 RDI = 0 \<and> regs s1 RSI = 0 \<and> (regs s1 RSP + 8) AND 15 = 0
          \<and> unat base < unat (regs s1 RSP) \<and> unat (regs s1 RSP) \<le> unat base + unat sz
          \<and> saved (cells s1) (regs s RDI) (regs s) ret))"
proof -
  note top = stack_top_in [OF assms(1-3)]
  let ?f = "(\<lambda>_. 0)(RSP := stack_top base sz)"
  have t: "stack_top base sz \<in> dom m" "stack_top base sz \<notin> ctx_cells ctx" using assms(5,6) top(1) by auto
  obtain m1 where m1: "prepare_context ctx base sz func m = Inr m1" "dom m1 = dom m" "saved m1 ctx ?f func"
    "\<forall>p. p \<notin> insert (stack_top base sz) (ctx_cells ctx) \<longrightarrow> m1 p = m p"
    using prepare_run [OF assms(4) t] by blast
  have u: "unat (stack_top base sz + 8) = unat (stack_top base sz) + 8"
    using top(4) assms(3) by (simp add: unat_word_ariths)
  have "(stack_top base sz + 8 + 8) AND 15 = take_bit 4 (stack_top base sz + 16)" by (simp add: take_bit_eq_mask mask_eq_exp_minus_1 add.commute)
  also have "\<dots> = take_bit 4 (stack_top base sz)"
    by (rule word_unat_eq_iff [THEN iffD2]) (simp add: unat_take4 unat_word_ariths mod_mod_cancel)
  also have "\<dots> = 0" using top(2) by (simp add: take_bit_eq_mask mask_eq_exp_minus_1)
  finally have al: "(stack_top base sz + 8 + 8) AND 15 = 0" .
  have "\<exists>s1. exec coctx_swap s = Inr s1 \<and> rip s1 = func \<and> regs s1 RDI = 0 \<and> regs s1 RSI = 0 \<and> (regs s1 RSP + 8) AND 15 = 0
      \<and> unat base < unat (regs s1 RSP) \<and> unat (regs s1 RSP) \<le> unat base + unat sz \<and> saved (cells s1) (regs s RDI) (regs s) ret"
    if s: "cells s = m1" "regs s RSI = ctx" "ctx_cells (regs s RDI) \<subseteq> dom m" "m (regs s RSP) = Some ret"
      "ctx_cells (regs s RDI) \<inter> (ctx_cells ctx \<union> stack_cells base sz) = {}"
      "regs s RSP \<notin> ctx_cells (regs s RDI) \<union> ctx_cells ctx \<union> stack_cells base sz" for s ret
  proof -
    have "regs s RSP \<notin> insert (stack_top base sz) (ctx_cells ctx)" using s(6) top(1) by (metis UnCI insertE)
    then have "m1 (regs s RSP) = Some ret" using m1(4) s(4) by simp
    then have "can_switch s ret ?f func" using s m1(2,3) t top(1) by (auto simp: can_switch_def)
    from swap_run [OF this] obtain m2 where
      "exec coctx_swap s = Inr (s\<lparr>regs := entered ((regs s)(RAX := 0)) ?f, cells := m2, rip := func\<rparr>)"
      "saved m2 (regs s RDI) (regs s) ret" by blast
    then show ?thesis using al u top(3,4) by (simp add: entered_def)
  qed
  moreover have "\<forall>p. p \<notin> ctx_cells ctx \<union> stack_cells base sz \<longrightarrow> m1 p = m p" using m1(4) top(1) by (metis UnCI insertE)
  ultimately show ?thesis using m1(1) by blast
qed

theorem new_context_starts_witness:
  "\<exists>m1 s1. prepare_context 128 65536 8388608 4096 (\<lambda>_. Some 7) = Inr m1
    \<and> exec coctx_swap \<lparr>regs = (\<lambda>_. 0)(RSI := 128, RSP := 8192), cells = m1, rip = 0\<rparr> = Inr s1 \<and> rip s1 = 4096"
proof -
  have dis: "ctx_cells 128 \<inter> stack_cells 65536 8388608 = {}" "ctx_cells 0 \<inter> (ctx_cells 128 \<union> stack_cells 65536 8388608) = {}"
    "8192 \<notin> ctx_cells 0 \<union> ctx_cells 128 \<union> stack_cells 65536 8388608"
    by (auto simp: ctx_cells_def stack_cells_def)
  let ?s = "\<lambda>m1. \<lparr>regs = (\<lambda>_. 0)(RSI := 128, RSP := 8192), cells = m1, rip = 0\<rparr>"
  obtain m1 where m1: "prepare_context 128 65536 8388608 4096 (\<lambda>_. Some 7) = Inr m1"
    and starts: "\<And>s. cells s = m1 \<Longrightarrow> regs s RSI = 128 \<Longrightarrow> regs s RDI = 0 \<Longrightarrow> regs s RSP = 8192 \<Longrightarrow>
      \<exists>s1. exec coctx_swap s = Inr s1 \<and> rip s1 = 4096"
    using new_context_starts [of 65536 8388608 128 "\<lambda>_. Some 7" 4096] dis by (fastforce simp: dom_def)
  then show ?thesis using starts [of "?s m1"] by auto
qed

end
