(* ===== verification/Self_Queue.thy ===== *)
theory Self_Queue
  imports Free_Lock_Queue
begin

text \<open>
  Class \<open>SelfQueue\<close> of src/graph.cpp: the admission control of a graph with limited
  parallelism. \<open>m_count\<close> starts at \<open>- parallel\<close>; a node that arrives while it is negative runs
  at once, every other one waits in a bounded queue until a node of the graph finishes.
\<close>

record self_queue =
  sq_limit_queue :: free_queue
  sq_m_count :: i32

text \<open>\<open>-1 * parallel\<close> is computed in 64 bits and cut to an \<open>int32_t\<close>.\<close>

definition sq_new :: "u64 \<Rightarrow> u64 \<Rightarrow> self_queue result" where
  "sq_new parallel queue_size =
     rbind (fq_new queue_size) (\<lambda>l. Inr \<lparr>sq_limit_queue = l, sq_m_count = ucast (- 1 * parallel)\<rparr>)"

definition sq_try_enqueue :: "self_queue \<Rightarrow> ptr \<Rightarrow> (self_queue \<times> bool) result" where
  "sq_try_enqueue s node =
     (let old_count = sq_m_count s; s1 = s\<lparr>sq_m_count := sq_m_count s + 1\<rparr> in
      if sint old_count \<ge> 0
      then rbind (fq_try_enqueue (sq_limit_queue s1) node) (\<lambda>(l, b).
             rbind (qf_assert b ''limit_queue.try_enqueue(node)'') (\<lambda>_.
               Inr (s1\<lparr>sq_limit_queue := l\<rparr>, True)))
      else Inr (s1, False))"

text \<open>
  \<open>while(!limit_queue.try_dequeue(node));\<close> waits for an item another thread is about to add:
  alone, it never returns when there is none.
\<close>

definition sq_try_dequeue :: "self_queue \<Rightarrow> (self_queue \<times> ptr option) result" where
  "sq_try_dequeue s =
     (let old_count = sq_m_count s; s1 = s\<lparr>sq_m_count := sq_m_count s - 1\<rparr> in
      if sint old_count > 0
      then rbind (fq_try_dequeue (sq_limit_queue s1)) (\<lambda>(l, r).
             case r of None \<Rightarrow> Inl Diverges | Some x \<Rightarrow> Inr (s1\<lparr>sq_limit_queue := l\<rparr>, Some x))
      else Inr (s1, None))"

section \<open>Slots\<close>

definition sq_queued :: "self_queue \<Rightarrow> ptr list" where
  "sq_queued s = fq_contents (sq_limit_queue s)"

text \<open>The slots in use when \<open>p\<close> of them exist: \<open>p\<close> as soon as a node waits.\<close>

definition sq_active :: "nat \<Rightarrow> self_queue \<Rightarrow> int" where
  "sq_active p s = int p + min 0 (sint (sq_m_count s))"

definition sq_inv :: "nat \<Rightarrow> self_queue \<Rightarrow> bool" where
  "sq_inv p s \<longleftrightarrow> fq_inv (sq_limit_queue s) \<and> p < 30
     \<and> - int p \<le> sint (sq_m_count s) \<and> sint (sq_m_count s) < 2 ^ 31 - 1
     \<and> int (length (sq_queued s)) = max 0 (sint (sq_m_count s))"

lemma sint_i32_inc: "sint (c :: i32) < 2 ^ 31 - 1 \<Longrightarrow> sint (c + 1) = sint c + 1"
  using sint_i32_range [of c] by (simp add: sint_word_add signed_take_bit_int_eq_self)

lemma sint_i32_dec: "- (2 ^ 31) < sint (c :: i32) \<Longrightarrow> sint (c - 1) = sint c - 1"
  using sint_i32_range [of c] by (simp add: sint_word_diff signed_take_bit_int_eq_self)

lemma sq_queued_None:
  assumes "sq_inv p s"
  shows "sq_queued s = [] \<longleftrightarrow> sint (sq_m_count s) \<le> 0"
  using assms by (auto simp: sq_inv_def)

text \<open>While a slot is free, an arriving node takes it.\<close>

lemma sq_enq_free:
  assumes "sq_inv p s" and "sq_active p s < int p"
  shows "\<exists>s'. sq_try_enqueue s x = Inr (s', False) \<and> sq_inv p s'
    \<and> sq_active p s' = sq_active p s + 1 \<and> sq_queued s' = sq_queued s"
proof -
  let ?s = "s\<lparr>sq_m_count := sq_m_count s + 1\<rparr>"
  have neg: "sint (sq_m_count s) < 0" using assms(2) by (auto simp: sq_active_def)
  then have c: "sint (sq_m_count s + 1) = sint (sq_m_count s) + 1" by (intro sint_i32_inc) simp
  have "sq_try_enqueue s x = Inr (?s, False)" using neg by (simp add: sq_try_enqueue_def Let_def)
  moreover have "sq_inv p ?s" using assms(1) c neg by (simp add: sq_inv_def sq_queued_def)
  moreover have "sq_active p ?s = sq_active p s + 1" using c neg by (simp add: sq_active_def)
  moreover have "sq_queued ?s = sq_queued s" by (simp add: sq_queued_def)
  ultimately show ?thesis by blast
qed

text \<open>With all slots taken it waits, if the queue has room; the assertion fails if not.\<close>

lemma sq_enq_busy:
  assumes "sq_inv p s" and "sq_active p s = int p" and "x \<noteq> nullptr"
    and "has_room (fq_limit (sq_limit_queue s)) (sq_queued s)"
    and "sint (sq_m_count s) < 2 ^ 31 - 2"
  shows "\<exists>s'. sq_try_enqueue s x = Inr (s', True) \<and> sq_inv p s'
    \<and> sq_active p s' = int p \<and> sq_queued s' = sq_queued s @ [x]"
proof -
  have pos: "0 \<le> sint (sq_m_count s)" using assms(2) by (auto simp: sq_active_def)
  have c: "sint (sq_m_count s + 1) = sint (sq_m_count s) + 1"
    using assms(5) by (intro sint_i32_inc) simp
  have "fq_inv (sq_limit_queue s)" using assms(1) by (simp add: sq_inv_def)
  from fq.enq_room [OF this assms(3)] assms(4) obtain l where
    l: "fq_try_enqueue (sq_limit_queue s) x = Inr (l, True)" "fq_inv l"
      "fq_contents l = sq_queued s @ [x]" by (auto simp: sq_queued_def)
  let ?s = "s\<lparr>sq_m_count := sq_m_count s + 1, sq_limit_queue := l\<rparr>"
  have "sq_try_enqueue s x = Inr (?s, True)"
    using pos l(1) by (simp add: sq_try_enqueue_def Let_def del: rbind_eq_Inr)
  moreover have "sq_inv p ?s" using assms(1,5) c pos l by (simp add: sq_inv_def sq_queued_def)
  moreover have "sq_active p ?s = int p" using c pos by (simp add: sq_active_def)
  moreover have "sq_queued ?s = sq_queued s @ [x]" using l(3) by (simp add: sq_queued_def)
  ultimately show ?thesis by blast
qed

lemma sq_enq_overflow:
  assumes "sq_inv p s" and "sq_active p s = int p"
    and "\<not> has_room (fq_limit (sq_limit_queue s)) (sq_queued s)"
  shows "sq_try_enqueue s x = Inl (Assert_Failed ''limit_queue.try_enqueue(node)'')"
proof -
  have pos: "0 \<le> sint (sq_m_count s)" using assms(2) by (auto simp: sq_active_def)
  have "fq_inv (sq_limit_queue s)" using assms(1) by (simp add: sq_inv_def)
  from fq.enq_full [OF this, of x] assms(3) pos show ?thesis
    by (simp add: sq_try_enqueue_def Let_def sq_queued_def)
qed

text \<open>A finishing node hands its slot to the first waiting node, or gives it up.\<close>

lemma sq_deq_waiting:
  assumes "sq_inv p s" and "sq_queued s = x # xs" and "fits_int (fq_read (sq_limit_queue s))"
  shows "\<exists>s'. sq_try_dequeue s = Inr (s', Some x) \<and> sq_inv p s'
    \<and> sq_active p s' = sq_active p s \<and> sq_queued s' = xs"
proof -
  have len: "int (length (sq_queued s)) = max 0 (sint (sq_m_count s))"
    using assms(1) by (simp add: sq_inv_def)
  then have pos: "0 < sint (sq_m_count s)" using assms(2) by simp
  then have c: "sint (sq_m_count s - 1) = sint (sq_m_count s) - 1" by (intro sint_i32_dec) simp
  have "fq_inv (sq_limit_queue s)" using assms(1) by (simp add: sq_inv_def)
  from fq_deq_item [OF this _ assms(3)] assms(2) obtain l where
    l: "fq_try_dequeue (sq_limit_queue s) = Inr (l, Some x)" "fq_inv l" "fq_contents l = xs"
    by (auto simp: sq_queued_def)
  let ?s = "s\<lparr>sq_m_count := sq_m_count s - 1, sq_limit_queue := l\<rparr>"
  have "sq_try_dequeue s = Inr (?s, Some x)"
    using pos l(1) by (simp add: sq_try_dequeue_def Let_def)
  moreover have "sq_inv p ?s"
    using assms(1,2) c pos l len by (simp add: sq_inv_def sq_queued_def)
  moreover have "sq_active p ?s = sq_active p s" using c pos by (simp add: sq_active_def)
  moreover have "sq_queued ?s = xs" using l(3) by (simp add: sq_queued_def)
  ultimately show ?thesis by blast
qed

lemma sq_deq_idle:
  assumes "sq_inv p s" and "sq_queued s = []" and "0 < sq_active p s"
  shows "\<exists>s'. sq_try_dequeue s = Inr (s', None) \<and> sq_inv p s'
    \<and> sq_active p s' = sq_active p s - 1 \<and> sq_queued s' = []"
proof -
  have np: "sint (sq_m_count s) \<le> 0" using assms sq_queued_None by blast
  have gt: "- int p < sint (sq_m_count s)" "p < 30"
    using assms(1,3) np by (auto simp: sq_active_def sq_inv_def)
  then have c: "sint (sq_m_count s - 1) = sint (sq_m_count s) - 1" by (intro sint_i32_dec) simp
  let ?s = "s\<lparr>sq_m_count := sq_m_count s - 1\<rparr>"
  have "sq_try_dequeue s = Inr (?s, None)" using np by (simp add: sq_try_dequeue_def Let_def)
  moreover have "sq_inv p ?s" using assms(1,2) c np gt by (simp add: sq_inv_def sq_queued_def)
  moreover have "sq_active p ?s = sq_active p s - 1" using c np by (simp add: sq_active_def)
  moreover have "sq_queued ?s = []" using assms(2) by (simp add: sq_queued_def)
  ultimately show ?thesis by blast
qed

lemma sq_active_le: "sq_active p s \<le> int p"
  by (simp add: sq_active_def)

text \<open>A fresh queue, in the range the constructor of \<open>Graph\<close> allows.\<close>

lemma neg_parallel_all:
  "\<forall>p \<in> set [0..<30]. sint (ucast (- 1 * (of_nat p :: u64)) :: i32) = - int p"
  by (simp add: upt_rec unsigned_minus_1_eq_mask mask_eq_exp_minus_1)

lemma neg_parallel:
  fixes p :: u64
  assumes "p < 30"
  shows "sint (ucast (- 1 * p) :: i32) = - int (unat p)"
proof -
  have "unat p \<in> set [0..<30]" using assms by (simp add: word_less_nat_alt)
  with neg_parallel_all have "sint (ucast (- 1 * (of_nat (unat p) :: u64)) :: i32) = - int (unat p)"
    by blast
  then show ?thesis by simp
qed

lemma sq_new_inv:
  assumes "parallel < 30" and "0 < queue_size" and "queue_size < 2 ^ 15"
  shows "\<exists>s. sq_new parallel queue_size = Inr s \<and> sq_inv (unat parallel) s
    \<and> sq_active (unat parallel) s = 0 \<and> sq_queued s = []"
proof -
  have q: "0 < unat queue_size" "unat queue_size \<le> 2 ^ 30"
    using assms by (auto simp: word_less_nat_alt)
  from fq_new_inv [OF q] obtain l where
    l: "fq_new queue_size = Inr l" "fq_inv l" "fq_contents l = []" by blast
  have p: "unat parallel < 30" using assms(1) by (simp add: word_less_nat_alt)
  have "- uint parallel < 2147483647" using uint_ge_0 [of parallel] by linarith
  with p l neg_parallel [OF assms(1)] show ?thesis
    by (simp add: sq_new_def sq_inv_def sq_active_def sq_queued_def)
qed


section \<open>Admission control\<close>

text \<open>
  The contract of the class: \<open>active\<close> nodes of at most \<open>p\<close> run, the others wait in order. A node
  that arrives runs at once (\<open>Run\<close>) or is made to wait (\<open>Wait\<close>); a node that leaves hands its
  place to the first waiting node, or gives it up.
\<close>

datatype sq_op = Arrive ptr | Leave

datatype sq_ans = Run | Wait | Hand ptr | Idle

fun admit :: "nat \<Rightarrow> sq_op \<Rightarrow> nat \<times> ptr list \<Rightarrow> (nat \<times> ptr list) \<times> sq_ans" where
  "admit p (Arrive x) (active, waiting) =
     (if active < p then ((active + 1, waiting), Run) else ((active, waiting @ [x]), Wait))"
| "admit p Leave (active, []) = ((active - 1, []), Idle)"
| "admit p Leave (active, x # waiting) = ((active, waiting), Hand x)"

fun admit_run :: "nat \<Rightarrow> sq_op list \<Rightarrow> nat \<times> ptr list \<Rightarrow> (nat \<times> ptr list) \<times> sq_ans list" where
  "admit_run p [] s = (s, [])"
| "admit_run p (o1 # os) s =
     (let (s1, r) = admit p o1 s; (s2, rs) = admit_run p os s1 in (s2, r # rs))"

text \<open>The calls the scheduler may make: a node leaves only while one runs, the waiting nodes
  fit in \<open>c\<close> places.\<close>

fun admissible :: "nat \<Rightarrow> nat \<Rightarrow> sq_op list \<Rightarrow> nat \<times> ptr list \<Rightarrow> bool" where
  "admissible p c [] s \<longleftrightarrow> True"
| "admissible p c (o1 # os) s \<longleftrightarrow>
     (case o1 of Arrive x \<Rightarrow> x \<noteq> nullptr \<and> (fst s < p \<or> length (snd s) < c) | Leave \<Rightarrow> 0 < fst s)
     \<and> admissible p c os (fst (admit p o1 s))"

fun adm_step :: "('q \<Rightarrow> ptr \<Rightarrow> ('q \<times> bool) result) \<Rightarrow> ('q \<Rightarrow> ('q \<times> ptr option) result)
  \<Rightarrow> sq_op \<Rightarrow> 'q \<Rightarrow> ('q \<times> sq_ans) result" where
  "adm_step arrive leave (Arrive x) s =
     rbind (arrive s x) (\<lambda>(s', b). Inr (s', if b then Wait else Run))"
| "adm_step arrive leave Leave s =
     rbind (leave s) (\<lambda>(s', r). Inr (s', case r of None \<Rightarrow> Idle | Some x \<Rightarrow> Hand x))"

fun adm_run :: "('q \<Rightarrow> ptr \<Rightarrow> ('q \<times> bool) result) \<Rightarrow> ('q \<Rightarrow> ('q \<times> ptr option) result)
  \<Rightarrow> sq_op list \<Rightarrow> 'q \<Rightarrow> ('q \<times> sq_ans list) result" where
  "adm_run arrive leave [] s = Inr (s, [])"
| "adm_run arrive leave (o1 # os) s =
     rbind (adm_step arrive leave o1 s) (\<lambda>(s1, r).
     rbind (adm_run arrive leave os s1) (\<lambda>(s2, rs). Inr (s2, r # rs)))"

abbreviation sq_run :: "sq_op list \<Rightarrow> self_queue \<Rightarrow> (self_queue \<times> sq_ans list) result" where
  "sq_run \<equiv> adm_run sq_try_enqueue sq_try_dequeue"

text \<open>
  What a graph relies on: \<open>p\<close> places, room for \<open>c\<close> waiting nodes, \<open>ok k\<close> while at least \<open>k\<close> more nodes
  may leave; the state read as the places in use and the waiting nodes.
\<close>

locale admission =
  fixes arrive :: "'q \<Rightarrow> ptr \<Rightarrow> ('q \<times> bool) result"
    and leave :: "'q \<Rightarrow> ('q \<times> ptr option) result"
    and admitted :: "'q \<Rightarrow> nat \<times> ptr list"
    and ok :: "nat \<Rightarrow> 'q \<Rightarrow> bool"
    and p :: nat and c :: nat
  assumes arrive_admits: "ok k s \<Longrightarrow> x \<noteq> nullptr \<Longrightarrow> fst (admitted s) < p \<or> length (snd (admitted s)) < c \<Longrightarrow>
      \<exists>s' b. arrive s x = Inr (s', b) \<and> ok k s' \<and> admit p (Arrive x) (admitted s) = (admitted s', if b then Wait else Run)"
    and leave_admits: "ok (Suc k) s \<Longrightarrow> 0 < fst (admitted s) \<Longrightarrow>
      \<exists>s' r. leave s = Inr (s', r) \<and> ok k s' \<and> admit p Leave (admitted s) = (admitted s', case r of None \<Rightarrow> Idle | Some x \<Rightarrow> Hand x)"
    and ok_weaken: "ok (Suc k) s \<Longrightarrow> ok k s"
    and places: "ok k s \<Longrightarrow> fst (admitted s) \<le> p"
    and waits: "ok k s \<Longrightarrow> snd (admitted s) \<noteq> [] \<Longrightarrow> fst (admitted s) = p"
begin

lemma run_admits:
  assumes "ok (length os) s" and "admissible p c os (admitted s)"
  shows "\<exists>s' rs. adm_run arrive leave os s = Inr (s', rs) \<and> ok 0 s'
    \<and> admit_run p os (admitted s) = (admitted s', rs)"
  using assms
proof (induction os arbitrary: s)
  case Nil
  then show ?case by simp
next
  case (Cons a os)
  have "\<exists>s1 r. adm_step arrive leave a s = Inr (s1, r) \<and> ok (length os) s1 \<and> admit p a (admitted s) = (admitted s1, r)"
  proof (cases a)
    case (Arrive x)
    have "ok (length os) s" using ok_weaken Cons.prems(1) by simp
    from arrive_admits [OF this, of x] Cons.prems(2) Arrive show ?thesis by fastforce
  next
    case Leave
    from leave_admits [of "length os" s] Cons.prems Leave show ?thesis by fastforce
  qed
  then obtain s1 r where s1: "adm_step arrive leave a s = Inr (s1, r)" "ok (length os) s1"
    "admit p a (admitted s) = (admitted s1, r)" by blast
  with Cons.prems(2) have "admissible p c os (admitted s1)" by simp
  from Cons.IH [OF s1(2) this] s1 show ?case by (auto simp del: adm_step.simps)
qed

end

definition sq_abs :: "nat \<Rightarrow> self_queue \<Rightarrow> nat \<times> ptr list" where
  "sq_abs p s = (nat (sq_active p s), sq_queued s)"

definition sq_ok :: "nat \<Rightarrow> nat \<Rightarrow> nat \<Rightarrow> self_queue \<Rightarrow> bool" where
  "sq_ok p c k s \<longleftrightarrow> sq_inv p s \<and> fq_limit (sq_limit_queue s) = Some c \<and> c \<le> 2 ^ 30
     \<and> unat (fq_read (sq_limit_queue s)) + k \<le> 2 ^ 31"

lemma sq_ok_count:
  assumes "sq_ok p c k s"
  shows "length (sq_queued s) \<le> 2 ^ 30" "0 \<le> sq_active p s"
proof -
  have "fq_inv (sq_limit_queue s)" and p: "- int p \<le> sint (sq_m_count s)"
    using assms by (auto simp: sq_ok_def sq_inv_def)
  then obtain j where "fq_shape j (sq_limit_queue s)" by (auto simp: fq_inv_def)
  from fq_shape_count30 [OF this] show "length (sq_queued s) \<le> 2 ^ 30"
    by (simp add: sq_queued_def fq_contents_def)
  show "0 \<le> sq_active p s" using p unfolding sq_active_def by linarith
qed

lemma sq_step_arrive:
  assumes "sq_ok p c k s" and "x \<noteq> nullptr" and "fst (sq_abs p s) < p \<or> length (sq_queued s) < c"
  shows "\<exists>s' b. sq_try_enqueue s x = Inr (s', b) \<and> sq_ok p c k s'
    \<and> admit p (Arrive x) (sq_abs p s) = (sq_abs p s', if b then Wait else Run)"
proof (cases "sq_active p s < int p")
  case True
  have inv: "sq_inv p s" using assms(1) by (simp add: sq_ok_def)
  let ?s = "s\<lparr>sq_m_count := sq_m_count s + 1\<rparr>"
  from sq_enq_free [OF inv True, of x] obtain s' where s': "sq_try_enqueue s x = Inr (s', False)"
    "sq_inv p s'" "sq_active p s' = sq_active p s + 1" "sq_queued s' = sq_queued s" by blast
  have "s' = ?s" using s'(1) by (auto simp: sq_try_enqueue_def Let_def split: if_splits)
  then have "sq_ok p c k s'" using assms(1) s'(2) by (simp add: sq_ok_def)
  moreover have "admit p (Arrive x) (sq_abs p s) = (sq_abs p s', Run)"
    using True s'(3,4) sq_ok_count(2) [OF assms(1)] by (simp add: sq_abs_def nat_add_distrib)
  ultimately show ?thesis using s'(1) by auto
next
  case False
  have inv: "sq_inv p s" using assms(1) by (simp add: sq_ok_def)
  have full: "sq_active p s = int p" using False sq_active_le [of p s] by simp
  then have cs: "length (sq_queued s) < c"
    using assms(3) sq_ok_count(2) [OF assms(1)] by (auto simp: sq_abs_def)
  then have room: "has_room (fq_limit (sq_limit_queue s)) (sq_queued s)"
    using assms(1) by (simp add: sq_ok_def has_room_def)
  have "0 \<le> sint (sq_m_count s)" using full by (auto simp: sq_active_def)
  then have m: "sint (sq_m_count s) < 2 ^ 31 - 2"
    using inv sq_ok_count(1) [OF assms(1)] by (simp add: sq_inv_def)
  have q: "fq_inv (sq_limit_queue s)" using inv by (simp add: sq_inv_def)
  from sq_enq_busy [OF inv full assms(2) room m] obtain s' where
    s': "sq_try_enqueue s x = Inr (s', True)" "sq_inv p s'" "sq_active p s' = int p"
      "sq_queued s' = sq_queued s @ [x]" by blast
  from s'(1) obtain l where l: "fq_try_enqueue (sq_limit_queue s) x = Inr (l, True)"
    "sq_limit_queue s' = l" by (auto simp: sq_try_enqueue_def Let_def split: if_splits)
  have "fq_limit l = fq_limit (sq_limit_queue s)" using fq.enq_spec [OF q assms(2)] l(1) by auto
  then have "sq_ok p c k s'"
    using assms(1) s'(2) l(2) fq_enq_keeps_read [OF q l(1)] by (simp add: sq_ok_def)
  moreover have "admit p (Arrive x) (sq_abs p s) = (sq_abs p s', Wait)"
    using full s'(3,4) by (simp add: sq_abs_def)
  ultimately show ?thesis using s'(1) by auto
qed

lemma sq_step_leave:
  assumes "sq_ok p c (Suc k) s" and "0 < fst (sq_abs p s)"
  shows "\<exists>s' r. sq_try_dequeue s = Inr (s', r) \<and> sq_ok p c k s'
    \<and> admit p Leave (sq_abs p s) = (sq_abs p s', case r of None \<Rightarrow> Idle | Some x \<Rightarrow> Hand x)"
proof (cases "sq_queued s")
  case Nil
  have inv: "sq_inv p s" using assms(1) by (simp add: sq_ok_def)
  have act: "0 < sq_active p s" using assms(2) by (simp add: sq_abs_def)
  from sq_deq_idle [OF inv Nil act] obtain s' where s': "sq_try_dequeue s = Inr (s', None)"
    "sq_inv p s'" "sq_active p s' = sq_active p s - 1" "sq_queued s' = []" by blast
  have "s' = s\<lparr>sq_m_count := sq_m_count s - 1\<rparr>"
    using s'(1) by (auto simp: sq_try_dequeue_def Let_def split: if_splits option.splits)
  then have "sq_ok p c k s'" using assms(1) s'(2) by (simp add: sq_ok_def)
  moreover have "admit p Leave (sq_abs p s) = (sq_abs p s', Idle)"
    using s'(3,4) Nil act by (simp add: sq_abs_def nat_diff_distrib)
  ultimately show ?thesis using s'(1) by auto
next
  case (Cons x xs)
  have inv: "sq_inv p s" using assms(1) by (simp add: sq_ok_def)
  then have q: "fq_inv (sq_limit_queue s)" by (simp add: sq_inv_def)
  have lt: "unat (fq_read (sq_limit_queue s)) < 2 ^ 31" using assms(1) by (simp add: sq_ok_def)
  from sq_deq_waiting [OF inv Cons fits_int_small [OF lt]] obtain s' where
    s': "sq_try_dequeue s = Inr (s', Some x)" "sq_inv p s'" "sq_active p s' = sq_active p s"
      "sq_queued s' = xs" by blast
  from s'(1) obtain l where l: "fq_try_dequeue (sq_limit_queue s) = Inr (l, Some x)"
    "sq_limit_queue s' = l"
    by (auto simp: sq_try_dequeue_def Let_def split: if_splits option.splits)
  from Cons have c: "fq_contents (sq_limit_queue s) = x # xs" by (simp add: sq_queued_def)
  from fq_deq_item [OF q c fits_int_small [OF lt]] l(1) have
    "fq_limit l = fq_limit (sq_limit_queue s)" "fq_read l = fq_read (sq_limit_queue s) + 1" by auto
  moreover have "unat (fq_read (sq_limit_queue s) + 1) = Suc (unat (fq_read (sq_limit_queue s)))"
    using lt unat_inc [of "fq_read (sq_limit_queue s)" "2 ^ 31"] by (simp add: word_less_nat_alt)
  ultimately have "sq_ok p c k s'" using assms(1) s'(2) l(2) by (simp add: sq_ok_def)
  moreover have "admit p Leave (sq_abs p s) = (sq_abs p s', Hand x)"
    using s'(3,4) Cons by (simp add: sq_abs_def)
  ultimately show ?thesis using s'(1) by auto
qed

lemma sq_waits:
  assumes "sq_ok p c k s" and "sq_queued s \<noteq> []"
  shows "sq_active p s = int p"
  using assms sq_queued_None [of p s] by (auto simp: sq_ok_def sq_active_def)

interpretation sq: admission sq_try_enqueue sq_try_dequeue "sq_abs p" "sq_ok p c" p c for p c
proof
  show "\<exists>s' b. sq_try_enqueue s x = Inr (s', b) \<and> sq_ok p c k s'
      \<and> admit p (Arrive x) (sq_abs p s) = (sq_abs p s', if b then Wait else Run)"
    if "sq_ok p c k s" "x \<noteq> nullptr" "fst (sq_abs p s) < p \<or> length (snd (sq_abs p s)) < c" for k s x
    using sq_step_arrive [OF that(1,2)] that(3) by (simp add: sq_abs_def)
  show "\<exists>s' r. sq_try_dequeue s = Inr (s', r) \<and> sq_ok p c k s'
      \<and> admit p Leave (sq_abs p s) = (sq_abs p s', case r of None \<Rightarrow> Idle | Some x \<Rightarrow> Hand x)"
    if "sq_ok p c (Suc k) s" "0 < fst (sq_abs p s)" for k s by (rule sq_step_leave [OF that])
  show "sq_ok p c k s" if "sq_ok p c (Suc k) s" for k s using that by (simp add: sq_ok_def)
  show "fst (sq_abs p s) \<le> p" if "sq_ok p c k s" for k s
    using sq_active_le [of p s] by (simp add: sq_abs_def)
  show "fst (sq_abs p s) = p" if "sq_ok p c k s" "snd (sq_abs p s) \<noteq> []" for k s
    using sq_waits [OF that(1)] that(2) by (simp add: sq_abs_def)
qed

lemma admissible_mono:
  "admissible p c os s \<Longrightarrow> c \<le> c' \<Longrightarrow> admissible p c' os s"
  by (induction os arbitrary: s) (auto split: sq_op.splits)

lemma sq_new_ok:
  assumes "parallel < 30" and "0 < queue_size" and "queue_size < 2 ^ 15" and "k \<le> 2 ^ 31"
  shows "\<exists>s c. sq_new parallel queue_size = Inr s \<and> sq_ok (unat parallel) c k s
    \<and> sq_abs (unat parallel) s = (0, []) \<and> unat queue_size \<le> c \<and> c < 2 * unat queue_size"
proof -
  have q: "0 < unat queue_size" "unat queue_size < 2 ^ 15"
    using assms by (auto simp: word_less_nat_alt)
  then have "unat queue_size \<le> 2 ^ 30" by simp
  from fq_new_inv [OF q(1) this] obtain l c where l: "fq_new queue_size = Inr l"
    "fq_limit l = Some c" "unat queue_size \<le> c" "c < 2 * unat queue_size" "fq_read l = 0" by blast
  from sq_new_inv [OF assms(1-3)] obtain s where s: "sq_new parallel queue_size = Inr s"
    "sq_inv (unat parallel) s" "sq_active (unat parallel) s = 0" "sq_queued s = []" by blast
  then have "sq_limit_queue s = l" using l(1) by (auto simp: sq_new_def)
  then have "sq_ok (unat parallel) c k s" using s(2) l q assms(4) by (simp add: sq_ok_def)
  with s l(3,4) show ?thesis by (auto simp: sq_abs_def)
qed

section \<open>Properties\<close>

text \<open>A graph limited to \<open>p\<close> parallel nodes with a queue for \<open>c\<close> more admits nodes exactly as
  the contract says, over every sequence of arrivals and departures that keeps within them: never
  more than \<open>p\<close> run, nobody waits while a place is free, the waiting nodes are served in order,
  no call fails or blocks.\<close>

theorem self_queue_admits:
  assumes "parallel < 30" and "0 < queue_size" and "queue_size < 2 ^ 15" and "length os \<le> 2 ^ 31"
    and "admissible (unat parallel) (unat queue_size) os (0, [])"
  shows "\<exists>s s' rs. sq_new parallel queue_size = Inr s \<and> sq_run os s = Inr (s', rs)
    \<and> admit_run (unat parallel) os (0, []) = (sq_abs (unat parallel) s', rs)
    \<and> fst (sq_abs (unat parallel) s') \<le> unat parallel"
proof -
  obtain s c where s: "sq_new parallel queue_size = Inr s" "sq_ok (unat parallel) c (length os) s"
    "sq_abs (unat parallel) s = (0, [])" "unat queue_size \<le> c"
    using sq_new_ok [OF assms(1-4)] by blast
  have "admissible (unat parallel) c os (sq_abs (unat parallel) s)"
    using admissible_mono [OF assms(5) s(4)] s(3) by simp
  from sq.run_admits [OF s(2) this] obtain s' rs where "sq_run os s = Inr (s', rs)"
    "admit_run (unat parallel) os (0, []) = (sq_abs (unat parallel) s', rs)" using s(3) by auto
  moreover have "fst (sq_abs (unat parallel) s') \<le> unat parallel"
    using sq_active_le [of "unat parallel" s'] unfolding sq_abs_def fst_conv by linarith
  ultimately show ?thesis using s(1) by blast
qed

theorem self_queue_admits_witness:
  "\<exists>s s' rs. sq_new 2 1 = Inr s
    \<and> sq_run [Arrive 5, Arrive 6, Arrive 7, Leave, Arrive 8, Leave, Leave, Leave] s = Inr (s', rs)
    \<and> admit_run (unat (2 :: u64)) [Arrive 5, Arrive 6, Arrive 7, Leave, Arrive 8, Leave, Leave, Leave] (0, [])
      = (sq_abs (unat (2 :: u64)) s', rs)
    \<and> fst (sq_abs (unat (2 :: u64)) s') \<le> unat (2 :: u64)"
  by (rule self_queue_admits) simp_all

text \<open>A node that arrives when all places are taken and the queue is full is not refused: the
  assertion on \<open>limit_queue.try_enqueue\<close> throws, after \<open>m_count\<close> has been raised.\<close>

theorem self_queue_overflow_throws:
  assumes "sq_inv p s" and "sq_active p s = int p"
    and "fq_limit (sq_limit_queue s) = Some (length (sq_queued s))"
  shows "sq_try_enqueue s x = Inl (Assert_Failed ''limit_queue.try_enqueue(node)'')"
  using sq_enq_overflow [OF assms(1,2)] assms(3) by (simp add: has_room_def)

theorem self_queue_overflow_throws_witness:
  "\<exists>s s' rs. sq_new 1 1 = Inr s \<and> sq_run [Arrive 5, Arrive 6] s = Inr (s', rs)
    \<and> sq_try_enqueue s' 7 = Inl (Assert_Failed ''limit_queue.try_enqueue(node)'')"
proof -
  obtain s where s: "sq_new 1 1 = Inr s" "sq_ok 1 1 2 s" "sq_abs 1 s = (0, [])"
    using sq_new_ok [of 1 1 2] by (auto simp: less_Suc_eq_le dest: le_antisym)
  have "sq_ok 1 1 (length [Arrive 5, Arrive 6]) s" using s(2) by (simp add: numeral_2_eq_2)
  moreover have "admissible 1 1 [Arrive 5, Arrive 6] (sq_abs 1 s)" using s(3) by simp
  ultimately obtain s' rs where r: "sq_run [Arrive 5, Arrive 6] s = Inr (s', rs)" "sq_ok 1 1 0 s'"
    "admit_run 1 [Arrive 5, Arrive 6] (sq_abs 1 s) = (sq_abs 1 s', rs)"
    using sq.run_admits by blast
  from r(3) s(3) have "sq_abs 1 s' = (1, [6])" by simp
  with r(2) have "sq_inv 1 s'" "fq_limit (sq_limit_queue s') = Some (length (sq_queued s'))"
    "sq_active 1 s' = int 1" by (auto simp: sq_ok_def sq_abs_def)
  from self_queue_overflow_throws [OF this(1,3,2)] s r show ?thesis by blast
qed

end
