(* ===== verification/Node_Graph.thy ===== *)
theory Node_Graph
  imports Task_Queue Self_Queue
begin

text \<open>
  head/node.h, src/node.cpp, src/graph.cpp and the part of src/schedule.cpp that hands tasks to the
  task queue: nodes and graphs live in a store, an address may be dangling, and every function is
  a transition of the store. The functions here are the ones the code runs under its mutexes, each
  taken as one step; Edge_Protocol splits the two that run concurrently without a common lock.
\<close>

section \<open>The store\<close>

type_synonym nid = ptr
type_synonym gid = nat

record node =
  n_status :: RunningStatus
  ghost :: bool
  reuse :: bool
  root_node :: nid
  node_id :: u64
  parent_graph :: "gid option"
  sub_graph :: "gid option"
  require_sub_graph :: bool
  up_streams :: "nid list"
  fast_down_strams :: i64
  fast_down_strams_bak :: i64
  wait_count :: i32
  down_streams :: "nid list"

record graph =
  parent_node :: nid
  node_num :: u64
  g_wait_count :: i32
  g_nodes :: "nid list"
  fast_nodes :: "nid list"
  g_down_streams :: "nid list"
  limit_graph :: bool
  g_status :: RunningStatus
  g_self_queue :: "self_queue option"

record schedule =
  root_graph :: "gid option"
  s_status :: RunningStatus
  s_task_queue :: task_queue

record world =
  w_nodes :: "nid \<Rightarrow> node option"
  w_graphs :: "gid \<Rightarrow> graph option"
  inner_schedule :: "schedule option"
  ready_worker_num :: i32
  pending_worker_num :: i32
  enable_qf_check_circle :: bool
  enable_qf_dump_graph :: bool

text \<open>The constants \<open>Graph::fast_node_max_num\<close>, \<open>Node::fast_down_strams_bak_init\<close> and
  the address of \<open>Node::flag_node\<close>.\<close>

definition fast_node_max_num :: u64 where
  "fast_node_max_num = 63"

definition fast_down_strams_bak_init :: i64 where
  "fast_down_strams_bak_init = push_bit 63 1"

definition flag_node :: nid where
  "flag_node = 1"

definition node_at :: "nid \<Rightarrow> world \<Rightarrow> node result" where
  "node_at n w = (case w_nodes w n of None \<Rightarrow> Inl (Undefined ''node'') | Some x \<Rightarrow> Inr x)"

definition graph_at :: "gid \<Rightarrow> world \<Rightarrow> graph result" where
  "graph_at g w = (case w_graphs w g of None \<Rightarrow> Inl (Undefined ''graph'') | Some x \<Rightarrow> Inr x)"

definition deref :: "'a option \<Rightarrow> 'a result" where
  "deref p = (case p of None \<Rightarrow> Inl (Undefined ''null'') | Some x \<Rightarrow> Inr x)"

definition put_node :: "nid \<Rightarrow> node \<Rightarrow> world \<Rightarrow> world" where
  "put_node n x w = w\<lparr>w_nodes := (w_nodes w)(n \<mapsto> x)\<rparr>"

definition put_graph :: "gid \<Rightarrow> graph \<Rightarrow> world \<Rightarrow> world" where
  "put_graph g x w = w\<lparr>w_graphs := (w_graphs w)(g \<mapsto> x)\<rparr>"

definition mod_node :: "nid \<Rightarrow> (node \<Rightarrow> node) \<Rightarrow> world \<Rightarrow> world result" where
  "mod_node n f w = rbind (node_at n w) (\<lambda>x. Inr (put_node n (f x) w))"

definition mod_graph :: "gid \<Rightarrow> (graph \<Rightarrow> graph) \<Rightarrow> world \<Rightarrow> world result" where
  "mod_graph g f w = rbind (graph_at g w) (\<lambda>x. Inr (put_graph g (f x) w))"

section \<open>Construction of nodes and graphs\<close>

text \<open>\<open>Node::create\<close> resets a node; the constructor calls it and counts the node.\<close>

definition node_reset :: "node \<Rightarrow> node" where
  "node_reset x = x\<lparr>sub_graph := None, n_status := Initing, wait_count := 0, parent_graph := None,
     up_streams := [], down_streams := [], fast_down_strams := 0,
     fast_down_strams_bak := fast_down_strams_bak_init\<rparr>"

text \<open>
  The members the constructor leaves uninitialised (\<open>root_node\<close>, \<open>node_id\<close>,
  \<open>require_sub_graph\<close>) are those of the raw memory \<open>raw\<close>.
\<close>

definition node_new :: "nid \<Rightarrow> node \<Rightarrow> world \<Rightarrow> world" where
  "node_new n raw w =
     (put_node n (node_reset (raw\<lparr>ghost := False, reuse := False\<rparr>)) w)
       \<lparr>pending_worker_num := pending_worker_num w + 1\<rparr>"

definition graph_new :: "nid \<Rightarrow> graph" where
  "graph_new p = \<lparr>parent_node = p, node_num = 0, g_wait_count = 0, g_nodes = [], fast_nodes = [],
     g_down_streams = [], limit_graph = False, g_status = Initing, g_self_queue = None\<rparr>"

text \<open>The constructor of a limit graph falls back to a plain graph outside its ranges. (It leaves
  \<open>limit_graph\<close> uninitialised there; the model takes \<open>False\<close>.)\<close>

definition graph_new_limit :: "nid \<Rightarrow> u64 \<Rightarrow> u64 \<Rightarrow> graph result" where
  "graph_new_limit p parallel queue_size =
     (if parallel < 30 \<and> queue_size < push_bit 15 1
      then rbind (sq_new parallel queue_size) (\<lambda>s.
             Inr ((graph_new p)\<lparr>limit_graph := True, g_self_queue := Some s\<rparr>))
      else Inr (graph_new p))"

section \<open>Ready nodes\<close>

text \<open>\<open>Schedule::add_new_task\<close>.\<close>

definition add_new_task :: "nid \<Rightarrow> world \<Rightarrow> world result" where
  "add_new_task new_task w =
     (case inner_schedule w of
        None \<Rightarrow> Inl (Assert_Failed ''inner_schedule != nullptr'')
      | Some s \<Rightarrow>
          rbind (qf_assert (s_status s = Running) ''inner_schedule->status'') (\<lambda>_.
          rbind (if new_task \<noteq> flag_node
                 then rbind (node_at new_task w) (\<lambda>x. qf_assert (n_status x = Initing) ''Initing'')
                 else Inr ()) (\<lambda>_.
          rbind (tq_enqueue (s_task_queue s) new_task) (\<lambda>(q, b).
          rbind (qf_assert b ''enqueue'') (\<lambda>_.
            Inr (w\<lparr>ready_worker_num := ready_worker_num w + 1,
                   inner_schedule := Some (s\<lparr>s_task_queue := q\<rparr>)\<rparr>))))))"

text \<open>\<open>Graph::ready\<close>.\<close>

definition graph_ready :: "gid \<Rightarrow> nid \<Rightarrow> world \<Rightarrow> world result" where
  "graph_ready g n w =
     rbind (graph_at g w) (\<lambda>gr.
       if limit_graph gr
       then rbind (deref (g_self_queue gr)) (\<lambda>s.
            rbind (sq_try_enqueue s n) (\<lambda>(s', b).
              let w' = put_graph g (gr\<lparr>g_self_queue := Some s'\<rparr>) w in
              if b then Inr w' else add_new_task n w'))
       else add_new_task n w)"

text \<open>\<open>node->parent_graph->ready(node)\<close>.\<close>

definition node_ready :: "nid \<Rightarrow> world \<Rightarrow> world result" where
  "node_ready n w =
     rbind (node_at n w) (\<lambda>x. rbind (deref (parent_graph x)) (\<lambda>g. graph_ready g n w))"

definition sub_wait_count :: "nid \<Rightarrow> world \<Rightarrow> (i32 \<times> world) result" where
  "sub_wait_count n w =
     rbind (node_at n w) (\<lambda>x. Inr (wait_count x, put_node n (x\<lparr>wait_count := wait_count x - 1\<rparr>) w))"

definition add_wait_count :: "nid \<Rightarrow> i32 \<Rightarrow> world \<Rightarrow> (i32 \<times> world) result" where
  "add_wait_count n upstream_count w =
     rbind (node_at n w) (\<lambda>x.
       Inr (wait_count x, put_node n (x\<lparr>wait_count := wait_count x + upstream_count\<rparr>) w))"

text \<open>\<open>if (1 == node->sub_wait_count()) node->parent_graph->ready(node);\<close>\<close>

definition notify :: "nid \<Rightarrow> world \<Rightarrow> world result" where
  "notify n w = rbind (sub_wait_count n w) (\<lambda>(old, w'). if old = 1 then node_ready n w' else Inr w')"

section \<open>Edges\<close>

text \<open>\<open>Node::append_upstreams\<close> in a release build.\<close>

definition append_upstreams :: "nid \<Rightarrow> nid \<Rightarrow> world \<Rightarrow> world result" where
  "append_upstreams self n w =
     (if enable_qf_check_circle w \<or> enable_qf_dump_graph w
      then mod_node self (\<lambda>x. x\<lparr>up_streams := up_streams x @ [n]\<rparr>) w
      else Inr w)"

text \<open>
  The part of \<open>Node::add_downstream\<close> for a downstream node of the same graph with a small
  number: the bit in \<open>fast_down_strams\<close>, then the copy that \<open>Node::finish\<close> took, if it has.
\<close>

definition add_fast_downstream :: "nid \<Rightarrow> nid \<Rightarrow> u64 \<Rightarrow> world \<Rightarrow> (i32 \<times> world) result" where
  "add_fast_downstream this n i w =
     rbind (node_at this w) (\<lambda>t.
     rbind (bit_map_get (fast_down_strams t) i fast_node_max_num) (\<lambda>old.
     rbind (if old then notify n w
            else rbind (bit_map_set (fast_down_strams t) i fast_node_max_num) (\<lambda>m.
                   Inr (put_node this (t\<lparr>fast_down_strams := m\<rparr>) w))) (\<lambda>w1.
     rbind (node_at this w1) (\<lambda>t1.
       let f = fast_down_strams_bak t1 in
       if f = fast_down_strams_bak_init then Inr (0, w1)
       else rbind (bit_map_get f i fast_node_max_num) (\<lambda>hit.
              if \<not> hit then rbind (notify n w1) (\<lambda>w2. Inr (- 1, w2)) else Inr (0, w1))))))"

definition add_downstream :: "nid \<Rightarrow> nid \<Rightarrow> world \<Rightarrow> (i32 \<times> world) result" where
  "add_downstream this n w =
     (if this = n then rbind (notify n w) (\<lambda>w'. Inr (- 1, w')) else
      rbind (node_at this w) (\<lambda>t.
      if n_status t \<ge> Finish then rbind (notify n w) (\<lambda>w'. Inr (- 1, w')) else
      rbind (node_at n w) (\<lambda>x.
      if parent_graph t = parent_graph x \<and> node_id x < fast_node_max_num
      then add_fast_downstream this n (node_id x) w
      else if n_status t \<ge> Finish then rbind (notify n w) (\<lambda>w'. Inr (- 1, w'))
      else Inr (0, put_node this (t\<lparr>down_streams := down_streams t @ [n]\<rparr>) w))))"

section \<open>Graph::create_edges\<close>

text \<open>\<open>std::vector::resize\<close> of a vector of pointers.\<close>

definition vec_resize :: "nat \<Rightarrow> ptr list \<Rightarrow> ptr list" where
  "vec_resize k v = take k v @ replicate (k - length v) nullptr"

text \<open>The common head of the two overloads: count the node, number it, store it in the graph.\<close>

definition attach_node :: "gid \<Rightarrow> nid \<Rightarrow> world \<Rightarrow> world result" where
  "attach_node g n w =
     rbind (mod_graph g (\<lambda>gr. gr\<lparr>g_wait_count := g_wait_count gr + 1\<rparr>) w) (\<lambda>w1.
     rbind (graph_at g w1) (\<lambda>gr.
     rbind (if parent_node gr \<noteq> nullptr
            then rbind (node_at (parent_node gr) w1) (\<lambda>p.
                   mod_node n (\<lambda>x. x\<lparr>root_node := root_node p\<rparr>) w1)
            else Inr w1) (\<lambda>w2.
     rbind (mod_node n (\<lambda>x. x\<lparr>parent_graph := Some g, node_id := node_num gr\<rparr>) w2) (\<lambda>w3.
     let fast = (if node_num gr = 0 then vec_resize (unat fast_node_max_num) (fast_nodes gr)
                 else fast_nodes gr) in
     rbind (if node_num gr < fast_node_max_num
            then rbind (vset fast (unat (node_num gr)) n) (\<lambda>v. Inr (gr\<lparr>fast_nodes := v\<rparr>))
            else Inr (gr\<lparr>fast_nodes := fast, g_nodes := g_nodes gr @ [n]\<rparr>)) (\<lambda>gr1.
       Inr (put_graph g (gr1\<lparr>g_status := Running, node_num := node_num gr + 1\<rparr>) w3))))))"

text \<open>One iteration over \<open>required_nodes\<close>; a null pointer counts as finished.\<close>

definition link_required :: "nid \<Rightarrow> nid \<Rightarrow> world \<Rightarrow> world result" where
  "link_required new_node r_node w =
     (if r_node \<noteq> nullptr
      then rbind (append_upstreams new_node r_node w) (\<lambda>w1.
           rbind (add_downstream r_node new_node w1) (\<lambda>(_, w2). Inr w2))
      else notify new_node w)"

definition create_edges :: "gid \<Rightarrow> nid \<Rightarrow> nid list \<Rightarrow> world \<Rightarrow> world result" where
  "create_edges g new_node required_nodes w =
     rbind (attach_node g new_node w) (\<lambda>w1.
     rbind (if length required_nodes > 0
            then rbind (add_wait_count new_node (of_nat (length required_nodes)) w1) (\<lambda>(_, w2).
                   rfold (link_required new_node) required_nodes w2)
            else node_ready new_node w1) (\<lambda>w3.
     append_upstreams new_node flag_node w3))"

text \<open>The overload that waits for a whole graph \<open>d\<close>.\<close>

definition create_edges_graph :: "gid \<Rightarrow> nid \<Rightarrow> gid \<Rightarrow> world \<Rightarrow> world result" where
  "create_edges_graph g new_node d w =
     rbind (attach_node g new_node w) (\<lambda>w1.
     rbind (graph_at d w1) (\<lambda>dg.
       if g_wait_count dg = 0 then node_ready new_node w1
       else rbind (add_wait_count new_node 1 w1) (\<lambda>(_, w2).
              mod_graph d (\<lambda>x. x\<lparr>g_down_streams := g_down_streams x @ [new_node]\<rparr>) w2)))"

section \<open>Nodes of a graph\<close>

definition get_nodes :: "graph \<Rightarrow> nid list" where
  "get_nodes gr = filter (\<lambda>n. n \<noteq> nullptr) (fast_nodes gr) @ g_nodes gr"

definition get_node :: "graph \<Rightarrow> u64 \<Rightarrow> nid result" where
  "get_node gr idx =
     (if idx < fast_node_max_num then vget (fast_nodes gr) (unat idx)
      else vget (g_nodes gr) (unat (idx - fast_node_max_num)))"

section \<open>The end of a node\<close>

text \<open>Count down a downstream node; collect it when it was the last dependency.\<close>

definition count_down :: "nid \<Rightarrow> nid list \<times> world \<Rightarrow> (nid list \<times> world) result" where
  "count_down d = (\<lambda>(notified, w).
     rbind (sub_wait_count d w) (\<lambda>(old, w'). Inr (if old = 1 then notified @ [d] else notified, w')))"

fun ready_all :: "nid list \<Rightarrow> world \<Rightarrow> world result" where
  "ready_all [] w = Inr w"
| "ready_all (n # ns) w = rbind (node_ready n w) (ready_all ns)"

text \<open>The two loops of \<open>Graph::finish\<close>: the first node with the property becomes the next
  task, the others are made ready.\<close>

fun pick_next :: "(graph \<Rightarrow> gid \<Rightarrow> bool) \<Rightarrow> nid list \<Rightarrow> world \<Rightarrow> (nid \<times> world) result" where
  "pick_next p [] w = Inr (nullptr, w)"
| "pick_next p (n # ns) w =
     rbind (node_at n w) (\<lambda>x. rbind (deref (parent_graph x)) (\<lambda>g. rbind (graph_at g w) (\<lambda>gr.
       if p gr g then rbind (ready_all ns w) (\<lambda>w'. Inr (n, w'))
       else rbind (node_ready n w) (pick_next p ns))))"

definition graph_of :: "nid \<Rightarrow> world \<Rightarrow> (gid \<times> graph) result" where
  "graph_of n w =
     rbind (node_at n w) (\<lambda>x. rbind (deref (parent_graph x)) (\<lambda>g. rbind (graph_at g w) (\<lambda>gr. Inr (g, gr))))"

definition graph_try_enqueue :: "gid \<Rightarrow> nid \<Rightarrow> world \<Rightarrow> (bool \<times> world) result" where
  "graph_try_enqueue g n w =
     rbind (graph_at g w) (\<lambda>gr. rbind (deref (g_self_queue gr)) (\<lambda>s.
     rbind (sq_try_enqueue s n) (\<lambda>(s', b). Inr (b, put_graph g (gr\<lparr>g_self_queue := Some s'\<rparr>) w))))"

definition graph_try_dequeue :: "gid \<Rightarrow> world \<Rightarrow> (nid option \<times> world) result" where
  "graph_try_dequeue g w =
     rbind (graph_at g w) (\<lambda>gr. rbind (deref (g_self_queue gr)) (\<lambda>s.
     rbind (sq_try_dequeue s) (\<lambda>(s', r).
       Inr (r, put_graph g (gr\<lparr>g_self_queue := Some s'\<rparr>) w))))"

text \<open>\<open>Graph::finish\<close> of a graph without a limit.\<close>

definition finish_free :: "nid list \<Rightarrow> world \<Rightarrow> (nid \<times> world) result" where
  "finish_free notified w =
     (case notified of
        [] \<Rightarrow> Inr (nullptr, w)
      | temp_node # rest \<Rightarrow>
          rbind (pick_next (\<lambda>gr g. \<not> limit_graph gr) rest w) (\<lambda>(next_task, w1).
            if next_task \<noteq> nullptr then rbind (node_ready temp_node w1) (\<lambda>w2. Inr (next_task, w2))
            else rbind (graph_of temp_node w1) (\<lambda>(tg, tgr).
              if \<not> limit_graph tgr then Inr (temp_node, w1)
              else rbind (graph_try_enqueue tg temp_node w1) (\<lambda>(queued, w2).
                     Inr (if \<not> queued then temp_node else nullptr, w2)))))"

text \<open>\<open>Graph::finish\<close> of a graph with a limit.\<close>

definition finish_limited :: "gid \<Rightarrow> nid list \<Rightarrow> world \<Rightarrow> (nid \<times> world) result" where
  "finish_limited this notified w =
     (case notified of
        [] \<Rightarrow> rbind (graph_try_dequeue this w) (\<lambda>(r, w1).
                Inr (case r of None \<Rightarrow> nullptr | Some next_task \<Rightarrow> next_task, w1))
      | temp_node # rest \<Rightarrow>
          rbind (pick_next (\<lambda>gr g. g = this) rest w) (\<lambda>(next_task, w1).
            if next_task \<noteq> nullptr then rbind (node_ready temp_node w1) (\<lambda>w2. Inr (next_task, w2))
            else rbind (graph_of temp_node w1) (\<lambda>(tg, tgr).
              if tg = this then Inr (temp_node, w1)
              else rbind (graph_try_dequeue this w1) (\<lambda>(r, w2).
                     case r of
                       Some next \<Rightarrow> rbind (node_ready temp_node w2) (\<lambda>w3. Inr (next, w3))
                     | None \<Rightarrow> Inr (temp_node, w2)))))"

definition graph_finish :: "gid \<Rightarrow> nid list \<Rightarrow> world \<Rightarrow> (nid \<times> world) result" where
  "graph_finish this notified w =
     rbind (graph_at this w) (\<lambda>gr.
       let w1 = put_graph this (gr\<lparr>g_wait_count := g_wait_count gr - 1\<rparr>) w in
       rbind (if g_wait_count gr = 1 then rfold count_down (g_down_streams gr) (notified, w1)
              else Inr (notified, w1)) (\<lambda>(notified', w2).
         if \<not> limit_graph gr then finish_free notified' w2 else finish_limited this notified' w2))"

text \<open>\<open>Node::finish2\<close> and \<open>Node::finish\<close>; the result is the next task or null.\<close>

definition node_finish2 :: "nid \<Rightarrow> nid list \<Rightarrow> world \<Rightarrow> (nid \<times> world) result" where
  "node_finish2 this notified w =
     rbind (node_at this w) (\<lambda>t.
     rbind (rfold count_down (down_streams t) (notified, w)) (\<lambda>(notified', w1).
     rbind (deref (parent_graph t)) (\<lambda>g. graph_finish g notified' w1)))"

text \<open>One round of the loop over \<open>idx_vec\<close>: \<open>parent_graph->get_node(idx)\<close>, then count down.\<close>

definition count_down_idx :: "nid \<Rightarrow> u64 \<Rightarrow> nid list \<times> world \<Rightarrow> (nid list \<times> world) result" where
  "count_down_idx this idx = (\<lambda>(notified, w).
     rbind (graph_of this w) (\<lambda>(g, gr).
     rbind (get_node gr idx) (\<lambda>d. count_down d (notified, w))))"

definition node_finish :: "nid \<Rightarrow> world \<Rightarrow> (nid \<times> world) result" where
  "node_finish this w =
     rbind (node_at this w) (\<lambda>t.
     rbind (qf_assert (n_status t = Running) ''status == Running'') (\<lambda>_.
     let t1 = t\<lparr>n_status := Finish, fast_down_strams_bak := fast_down_strams t\<rparr>;
         w1 = put_node this t1 w in
     rbind (bit_map_idx (fast_down_strams_bak t1) fast_node_max_num) (\<lambda>idx_vec.
     rbind (rfold (count_down_idx this) idx_vec ([], w1)) (\<lambda>(notified, w2).
       node_finish2 this notified w2))))"

end
