(* ===== verification/Executor.thy ===== *)
theory Executor
  imports Node_Graph
begin

text \<open>
  head/executor.h, src/executor.cpp, \<open>ExectorItem\<close> of head/schedule.h and the functions of
  src/schedule.cpp that reach the current worker: coroutine contexts, the stacks they run on, the
  pool of stacks of each worker thread. \<open>mmap\<close> and \<open>new\<close> give fresh addresses, which are
  arguments of the functions; the switch of the registers is where a function ends (it is
  modelled in Coctx), and the shrinking of stacks is in Stack_Pages.
\<close>

section \<open>The state\<close>

record exec_context =
  ec_status :: RunningStatus
  ec_stack :: ptr
  ec_size :: i32

record thread =
  context_ptr :: ptr
  context_pre_ptr :: ptr
  thread_context :: ptr
  stack_pool :: lock_queue

record exec_item =
  exec :: thread
  current_task :: nid

text \<open>\<open>stacks\<close> are the mappings of the process with their lengths; \<open>backs\<close> are the members of
  the \<open>BackNode\<close>s: the task and the context a node brings back.\<close>

record runtime =
  mem :: world
  contexts :: "ptr \<Rightarrow> exec_context option"
  stacks :: "ptr \<Rightarrow> i32 option"
  thread_exec_vec :: "exec_item list"
  idle_worker_num :: i32
  pending_context_num :: i32
  backs :: "nid \<Rightarrow> (nid \<times> ptr) option"

definition COROUTINE_STACK_SIZE :: i32 where
  "COROUTINE_STACK_SIZE = 8192 * 1024"

definition context_at :: "ptr \<Rightarrow> runtime \<Rightarrow> exec_context result" where
  "context_at c r = (case contexts r c of None \<Rightarrow> Inl (Undefined ''context'') | Some x \<Rightarrow> Inr x)"

definition put_context :: "ptr \<Rightarrow> exec_context \<Rightarrow> runtime \<Rightarrow> runtime" where
  "put_context c x r = r\<lparr>contexts := (contexts r)(c \<mapsto> x)\<rparr>"

definition free_context :: "ptr \<Rightarrow> runtime \<Rightarrow> runtime" where
  "free_context c r = r\<lparr>contexts := (contexts r)(c := None)\<rparr>"

definition thread_at :: "nat \<Rightarrow> runtime \<Rightarrow> thread result" where
  "thread_at i r = rbind (vget (thread_exec_vec r) i) (\<lambda>x. Inr (exec x))"

definition put_thread :: "nat \<Rightarrow> thread \<Rightarrow> runtime \<Rightarrow> runtime" where
  "put_thread i t r =
     r\<lparr>thread_exec_vec := (thread_exec_vec r)[i := (thread_exec_vec r ! i)\<lparr>exec := t\<rparr>]\<rparr>"

section \<open>The current worker\<close>

text \<open>\<open>Schedule::get_cur_exec\<close>: \<open>me\<close> is the thread's \<open>thread_idx_\<close>, used as an index; past the
  end of the vector it is undefined.\<close>

definition get_cur_exec :: "i32 \<Rightarrow> runtime \<Rightarrow> nat result" where
  "get_cur_exec me r =
     (let i = unat (to_u64 me) in
      if i < length (thread_exec_vec r) then Inr i else Inl (Undefined ''thread_exec_vec''))"

text \<open>\<open>Schedule::safe_get_cur_exec\<close>: the second comparison is unsigned.\<close>

definition safe_get_cur_exec :: "i32 \<Rightarrow> runtime \<Rightarrow> nat option result" where
  "safe_get_cur_exec me r =
     (if sint me < 0 \<or> to_u64 me > of_nat (length (thread_exec_vec r)) then Inr None
      else rbind (get_cur_exec me r) (\<lambda>i. Inr (Some i)))"

section \<open>Stacks\<close>

text \<open>\<open>malloc_stack\<close> and \<open>free_stack\<close>; unmapping another length than was mapped is left
  undefined.\<close>

definition malloc_stack :: "ptr \<Rightarrow> i32 \<Rightarrow> runtime \<Rightarrow> runtime" where
  "malloc_stack m stack_size r = r\<lparr>stacks := (stacks r)(m \<mapsto> stack_size)\<rparr>"

definition free_stack :: "ptr \<Rightarrow> i32 \<Rightarrow> runtime \<Rightarrow> runtime result" where
  "free_stack s stack_size r =
     (if stacks r s = Some stack_size then Inr (r\<lparr>stacks := (stacks r)(s := None)\<rparr>)
      else Inl (Undefined ''munmap''))"

definition get_stack :: "nat \<Rightarrow> runtime \<Rightarrow> (ptr option \<times> runtime) result" where
  "get_stack i r = rbind (thread_at i r) (\<lambda>t. rbind (lq_try_dequeue (stack_pool t)) (\<lambda>(q, s).
     Inr (s, put_thread i (t\<lparr>stack_pool := q\<rparr>) r)))"

definition put_stack :: "nat \<Rightarrow> ptr \<Rightarrow> runtime \<Rightarrow> (bool \<times> runtime) result" where
  "put_stack i s r = rbind (thread_at i r) (\<lambda>t. rbind (lq_try_enqueue (stack_pool t) s) (\<lambda>(q, b).
     Inr (b, put_thread i (t\<lparr>stack_pool := q\<rparr>) r)))"

section \<open>ExecutorContext\<close>

text \<open>The constructor: \<open>c\<close> is the address of the object, \<open>m\<close> that of the mapping if one is made.\<close>

definition context_new :: "i32 \<Rightarrow> i32 \<Rightarrow> ptr \<Rightarrow> ptr \<Rightarrow> runtime \<Rightarrow> runtime result" where
  "context_new me stack_size c m r =
     (let r1 = r\<lparr>pending_context_num := pending_context_num r + 1\<rparr>;
          own = put_context c \<lparr>ec_status = Initing, ec_stack = m, ec_size = stack_size\<rparr>
                  (malloc_stack m stack_size r1) in
      if stack_size \<noteq> COROUTINE_STACK_SIZE then Inr own
      else rbind (safe_get_cur_exec me r1) (\<lambda>cur_exec. case cur_exec of
             None \<Rightarrow> Inr own
           | Some i \<Rightarrow> rbind (get_stack i r1) (\<lambda>(s, r2). case s of
               None \<Rightarrow> Inr (put_context c \<lparr>ec_status = Initing, ec_stack = m, ec_size = stack_size\<rparr>
                              (malloc_stack m stack_size r2))
             | Some st \<Rightarrow>
                 Inr (put_context c \<lparr>ec_status = Initing, ec_stack = st, ec_size = stack_size\<rparr> r2))))"

definition context_delete :: "i32 \<Rightarrow> ptr \<Rightarrow> runtime \<Rightarrow> runtime result" where
  "context_delete me c r =
     rbind (context_at c r) (\<lambda>x.
     let r1 = r\<lparr>pending_context_num := pending_context_num r - 1\<rparr>;
         unmap = (\<lambda>r. rbind (free_stack (ec_stack x) (ec_size x) r) (\<lambda>r'. Inr (free_context c r'))) in
     rbind (safe_get_cur_exec me r1) (\<lambda>cur_exec. case cur_exec of
         None \<Rightarrow> unmap r1
       | Some i \<Rightarrow> rbind (put_stack i (ec_stack x) r1) (\<lambda>(kept, r2).
           if kept then Inr (free_context c r2) else unmap r2)))"

definition context_set_status :: "ptr \<Rightarrow> RunningStatus \<Rightarrow> runtime \<Rightarrow> runtime result" where
  "context_set_status c s r =
     rbind (context_at c r) (\<lambda>x. Inr (put_context c (x\<lparr>ec_status := s\<rparr>) r))"

section \<open>Thread\<close>

text \<open>The constructor fills the pool with mappings at \<open>ms\<close>, one for each of the
  \<open>FLAGS_backup_coroutines\<close>; an element that does not fit is dropped without a trace.\<close>

fun fill_pool :: "ptr list \<Rightarrow> lock_queue \<times> runtime \<Rightarrow> (lock_queue \<times> runtime) result" where
  "fill_pool [] qr = Inr qr"
| "fill_pool (m # ms) (q, r) =
     (let r1 = malloc_stack m COROUTINE_STACK_SIZE r in
      rbind (lq_try_enqueue q m) (\<lambda>(q', b). fill_pool ms (q', r1)))"

definition thread_new :: "ptr list \<Rightarrow> runtime \<Rightarrow> (thread \<times> runtime) result" where
  "thread_new ms r =
     rbind (lq_new (of_nat (length ms))) (\<lambda>q.
     rbind (fill_pool ms (q, r)) (\<lambda>(q', r').
       Inr (\<lparr>context_ptr = nullptr, context_pre_ptr = nullptr, thread_context = nullptr,
              stack_pool = q'\<rparr>, r')))"

text \<open>The loop of the destructor that empties the pool, at most \<open>fuel\<close> times.\<close>

fun drain_pool :: "nat \<Rightarrow> lock_queue \<Rightarrow> runtime \<Rightarrow> runtime result" where
  "drain_pool 0 q r = Inl Diverges"
| "drain_pool (Suc fuel) q r =
     rbind (lq_try_dequeue q) (\<lambda>(q', s). case s of
       None \<Rightarrow> Inr r
     | Some st \<Rightarrow> rbind (free_stack st COROUTINE_STACK_SIZE r) (drain_pool fuel q'))"

definition delete_if :: "i32 \<Rightarrow> ptr \<Rightarrow> runtime \<Rightarrow> runtime result" where
  "delete_if me c r = (if c \<noteq> nullptr then context_delete me c r else Inr r)"

definition thread_delete :: "i32 \<Rightarrow> thread \<Rightarrow> runtime \<Rightarrow> runtime result" where
  "thread_delete me t r =
     rbind (delete_if me (context_ptr t) r) (\<lambda>r1.
     rbind (delete_if me (context_pre_ptr t) r1) (\<lambda>r2.
       drain_pool (Suc (unat (lq_size_approx (stack_pool t)))) (stack_pool t) r2))"

text \<open>\<open>Thread::swap_new_context\<close> up to the switch.\<close>

definition swap_new_context :: "i32 \<Rightarrow> nat \<Rightarrow> ptr \<Rightarrow> ptr \<Rightarrow> ptr \<Rightarrow> runtime \<Rightarrow> runtime result" where
  "swap_new_context me i out_context_ptr c m r =
     rbind (thread_at i r) (\<lambda>t.
     let r1 = put_thread i (t\<lparr>context_pre_ptr := out_context_ptr\<rparr>) r in
     rbind (context_new me COROUTINE_STACK_SIZE c m r1) (\<lambda>r2.
     rbind (thread_at i r2) (\<lambda>t2.
       Inr (put_thread i (t2\<lparr>context_ptr := c\<rparr>) r2))))"

text \<open>\<open>Thread::set_context\<close> up to the switch.\<close>

definition set_context :: "nat \<Rightarrow> ptr \<Rightarrow> runtime \<Rightarrow> runtime result" where
  "set_context i in_context_ptr r =
     rbind (thread_at i r) (\<lambda>t.
     rbind (context_at in_context_ptr r) (\<lambda>x.
       Inr (put_thread i (t\<lparr>context_pre_ptr := context_ptr t, context_ptr := in_context_ptr\<rparr>) r)))"

section \<open>The worker's side of a switch\<close>

text \<open>\<open>Schedule::change_context_status\<close>: the first thing that runs on a new context.\<close>

definition change_context_status :: "nat \<Rightarrow> runtime \<Rightarrow> runtime result" where
  "change_context_status i r =
     rbind (thread_at i r) (\<lambda>t.
     rbind (context_set_status (context_ptr t) Running r) (\<lambda>r1.
       if context_pre_ptr t \<noteq> nullptr
       then rbind (context_set_status (context_pre_ptr t) Yield r1) (\<lambda>r2.
              Inr (put_thread i (t\<lparr>context_pre_ptr := nullptr\<rparr>) r2))
       else Inr r1))"

text \<open>\<open>Schedule::routine\<close>: the new worker takes the next index, makes its thread context and
  switches to a scheduler context.\<close>

definition routine :: "thread \<Rightarrow> ptr \<Rightarrow> ptr \<Rightarrow> ptr \<Rightarrow> ptr \<Rightarrow> runtime \<Rightarrow> runtime result" where
  "routine thread_exec tc m1 c m2 r =
     (let i = length (thread_exec_vec r); me = of_nat i in
      rbind (context_new me 1 tc m1 r) (\<lambda>r1.
      let r2 = r1\<lparr>thread_exec_vec := thread_exec_vec r1
                    @ [\<lparr>exec = thread_exec\<lparr>thread_context := tc\<rparr>, current_task = nullptr\<rparr>]\<rparr> in
      rbind (context_set_status tc Ready r2) (swap_new_context me i tc c m2)))"

text \<open>The end of \<open>jump_in_schedule\<close>, when the worker leaves its loop.\<close>

definition leave_schedule :: "nat \<Rightarrow> runtime \<Rightarrow> runtime result" where
  "leave_schedule i r = rbind (thread_at i r) (\<lambda>t. set_context i (thread_context t) r)"

text \<open>\<open>delete context_pre_ptr; context_pre_ptr = nullptr\<close> when a task has been resumed.\<close>

definition drop_pre :: "i32 \<Rightarrow> nat \<Rightarrow> runtime \<Rightarrow> runtime result" where
  "drop_pre me i r =
     rbind (thread_at i r) (\<lambda>t.
     rbind (delete_if me (context_pre_ptr t) r) (\<lambda>r1.
     rbind (thread_at i r1) (\<lambda>t1. Inr (put_thread i (t1\<lparr>context_pre_ptr := nullptr\<rparr>) r1))))"

text \<open>\<open>BackNode::run\<close> after the node's own status: wait until the context has been left, take
  it over. A context that is not left is waited for, for ever if nobody else runs.\<close>

definition back_switch :: "nat \<Rightarrow> nid \<Rightarrow> ptr \<Rightarrow> runtime \<Rightarrow> runtime result" where
  "back_switch i back_task back_run_context_ptr r =
     rbind (context_at back_run_context_ptr r) (\<lambda>x.
     if ec_status x \<noteq> Yield then Inl Diverges
     else rbind (context_set_status back_run_context_ptr Running r) (\<lambda>r1.
          rbind (vget (thread_exec_vec r1) i) (\<lambda>it.
            set_context i back_run_context_ptr
              (r1\<lparr>thread_exec_vec := (thread_exec_vec r1)[i := it\<lparr>current_task := back_task\<rparr>]\<rparr>))))"

end
