(* ===== verification/Stack_Pages.thy ===== *)
theory Stack_Pages
  imports Executor
begin

unbundle bit_operations_syntax

text \<open>
  The memory of the stacks (src/executor.cpp): which pages \<open>shrink_physical_memory\<close> and \<open>shrink_empty_stack\<close> give back to the
  kernel with \<open>madvise\<close>. What is in a page that has been given back is lost.
\<close>

section \<open>The calls\<close>

definition offset :: i32 where
  "offset = push_bit 12 1"

text \<open>The arguments of \<open>madvise\<close>, if it is called. \<open>addr_i\<close> is the address of the local variable \<open>i\<close>: the function runs in the
  frame it is in, which need not be on the stack \<open>stack_ptr\<close> points to. The size is tested as a signed number.\<close>

definition shrink_physical_memory :: "u64 \<Rightarrow> u64 \<Rightarrow> (u64 \<times> u64) option" where
  "shrink_physical_memory addr_i stack_ptr =
     (let i = (addr_i - scast offset) AND scast (NOT (offset - 1));
          sz = i - stack_ptr in
      if 0 < sint sz then Some (stack_ptr, sz) else None)"

definition shrink_empty_stack :: "u64 \<Rightarrow> u64 \<times> u64" where
  "shrink_empty_stack stack_ptr = (stack_ptr, ucast (COROUTINE_STACK_SIZE - offset))"

text \<open>\<open>madvise(p, len, MADV_DONTNEED)\<close> needs the address of a page and drops whole pages.\<close>

definition dropped :: "u64 \<times> u64 \<Rightarrow> u64 set" where
  "dropped c = (case c of (p, len) \<Rightarrow> if p AND 4095 = 0
     then {x. unat p \<le> unat x \<and> unat x < unat p + (unat len + 4095) div 4096 * 4096} else {})"

definition shrink_dropped :: "u64 \<Rightarrow> u64 \<Rightarrow> u64 set" where
  "shrink_dropped addr_i stack_ptr = (case shrink_physical_memory addr_i stack_ptr of None \<Rightarrow> {} | Some c \<Rightarrow> dropped c)"

section \<open>What is dropped\<close>

lemma offset_words [simp]: "(scast offset :: u64) = 4096" "(scast (NOT (offset - 1)) :: u64) = -4096"
  by (simp_all add: offset_def)

lemma page_down:
  fixes x :: u64
  shows "unat (x AND (-4096)) = unat x div 4096 * 4096" and "x AND 4095 = 0 \<longleftrightarrow> unat x mod 4096 = 0"
proof -
  have m: "(4095 :: u64) = mask 12" "(-4096 :: u64) = NOT (mask 12)"
    using minus_exp_eq_not_mask [where 'a = "64 word", of 12] by (simp_all add: mask_eq_exp_minus_1)
  have t: "unat (take_bit 12 x) = unat x mod 4096" by (simp add: take_bit_eq_mod unat_mod)
  have "x AND NOT (mask 12) = push_bit 12 (drop_bit 12 x)" by (rule bit_eqI) (auto simp: bit_simps)
  moreover have "push_bit 12 (drop_bit 12 x) + take_bit 12 x = x" by (rule bits_ident)
  ultimately have "x AND (-4096) = x - take_bit 12 x" unfolding m by (simp add: eq_diff_eq)
  moreover have "take_bit 12 x \<le> x" using t by (simp add: word_le_nat_alt)
  ultimately show "unat (x AND (-4096)) = unat x div 4096 * 4096" using t by (simp add: unat_sub minus_mod_eq_div_mult)
  show "x AND 4095 = 0 \<longleftrightarrow> unat x mod 4096 = 0" unfolding m using t by (simp add: take_bit_eq_mask [symmetric] unat_eq_0 [symmetric])
qed

lemma whole_pages:
  assumes "(a :: nat) mod 4096 = 0"
  shows "(a + 4095) div 4096 * 4096 = a"
proof -
  obtain q where "a = q * 4096" using assms by (metis add.right_neutral div_mult_mod_eq)
  then show ?thesis by simp
qed

lemma page_below:
  assumes "(b :: nat) + 2 * 4096 \<le> a"
  shows "b \<le> (a - 4096) div 4096 * 4096"
proof -
  have "(a - 4096) div 4096 * 4096 + (a - 4096) mod 4096 = a - 4096" by (rule div_mult_mod_eq)
  moreover have "(a - 4096) mod 4096 < 4096" by simp
  ultimately show ?thesis using assms by linarith
qed

lemma signed_diff: "i < 2 ^ 63 \<Longrightarrow> j < 2 ^ 63 \<Longrightarrow> signed_take_bit 63 (int i - int j) = int i - int j"
  by (rule signed_take_bit_int_eq_self) simp_all

lemma sint_diff:
  fixes a b :: u64
  assumes "unat a < 2 ^ 63" "unat b < 2 ^ 63"
  shows "sint (a - b) = int (unat a) - int (unat b)"
proof -
  have "a - b = word_of_int (int (unat a) - int (unat b))" by simp
  then have "sint (a - b) = signed_take_bit 63 (int (unat a) - int (unat b))" by (simp only: sint_sbintrunc') simp
  also have "\<dots> = int (unat a) - int (unat b)" by (rule signed_diff [OF assms])
  finally show ?thesis .
qed

lemma shrink_dropped_eq:
  assumes "stack_ptr AND 4095 = 0" and "unat stack_ptr < 2 ^ 63" and "4096 \<le> unat addr_i" and "unat addr_i < 2 ^ 63"
  shows "shrink_dropped addr_i stack_ptr = {x. unat stack_ptr \<le> unat x \<and> unat x < (unat addr_i - 4096) div 4096 * 4096}"
proof -
  let ?i = "(addr_i - 4096) AND (-4096)"
  have "4096 \<le> addr_i" using assms(3) by (simp add: word_le_nat_alt)
  then have i: "unat ?i = (unat addr_i - 4096) div 4096 * 4096" by (simp add: page_down unat_sub)
  have lt: "unat ?i < 2 ^ 63" unfolding i using assms(4) by (meson div_times_less_eq_dividend le_less_trans diff_le_self)
  have p: "unat stack_ptr mod 4096 = 0" using assms(1) page_down(2) by blast
  have s: "sint (?i - stack_ptr) = int (unat ?i) - int (unat stack_ptr)" by (rule sint_diff) (use lt assms(2) in simp_all)
  show ?thesis
  proof (cases "unat stack_ptr < unat ?i")
    case True
    then have "stack_ptr \<le> ?i" by (simp add: word_le_nat_alt)
    then have u: "unat (?i - stack_ptr) = unat ?i - unat stack_ptr" by (rule unat_sub)
    have "unat ?i mod 4096 = 0" unfolding i by simp
    then have "(unat ?i - unat stack_ptr) mod 4096 = 0" using p by (metis dvd_diff_nat mod_0_imp_dvd dvd_imp_mod_0)
    note whole_pages [OF this]
    then have "unat stack_ptr + (unat (?i - stack_ptr) + 4095) div 4096 * 4096 = unat ?i" using True u by simp
    moreover have "0 < sint (?i - stack_ptr)" unfolding s using True by linarith
    ultimately show ?thesis using assms(1)
      by (simp add: shrink_dropped_def shrink_physical_memory_def dropped_def Let_def i)
  next
    case False
    then have "\<not> 0 < sint (?i - stack_ptr)" unfolding s by linarith
    then show ?thesis using False i by (auto simp: shrink_dropped_def shrink_physical_memory_def Let_def)
  qed
qed


lemma shrink_empty_dropped:
  assumes "stack_ptr AND 4095 = 0"
  shows "dropped (shrink_empty_stack stack_ptr) = {x. unat stack_ptr \<le> unat x \<and> unat x < unat stack_ptr + (8192 * 1024 - 4096)}"
proof -
  have "(ucast (COROUTINE_STACK_SIZE - offset) :: u64) = 8384512" by (simp add: COROUTINE_STACK_SIZE_def offset_def)
  then show ?thesis using assms by (simp add: shrink_empty_stack_def dropped_def)
qed

section \<open>Properties\<close>

text \<open>On the stack that is running, \<open>shrink_physical_memory\<close> drops exactly the pages more than a page below its own frame: nothing
  of a caller, nothing outside of the stack, and everything else; \<open>shrink_empty_stack\<close> drops all of a stack but its last page.\<close>

theorem shrink_keeps_frames:
  assumes "stack_ptr AND 4095 = 0" and "unat stack_ptr + unat sz < 2 ^ 63"
    and "unat stack_ptr + 4096 \<le> unat addr_i" and "unat addr_i < unat stack_ptr + unat sz" and "x \<in> shrink_dropped addr_i stack_ptr"
  shows "unat stack_ptr \<le> unat x \<and> unat x + 4096 < unat addr_i \<and> unat x < unat stack_ptr + unat sz"
proof -
  have "unat stack_ptr \<le> unat x" "unat x < (unat addr_i - 4096) div 4096 * 4096"
    using shrink_dropped_eq [OF assms(1), of addr_i] assms(2-5) by auto
  moreover have "(unat addr_i - 4096) div 4096 * 4096 \<le> unat addr_i - 4096" by (rule div_times_less_eq_dividend)
  ultimately show ?thesis using assms(4) by linarith
qed

theorem shrink_keeps_frames_witness:
  "(65536 :: u64) \<in> shrink_dropped 131072 65536 \<and> unat (65536 :: u64) + 4096 < unat (131072 :: u64)"
proof -
  have "(65536 :: u64) \<in> shrink_dropped 131072 65536" using shrink_dropped_eq [of 65536 131072] by simp
  then show ?thesis using shrink_keeps_frames [of 65536 1048576 131072 65536] by simp
qed

text \<open>C28: on another stack than the running one \<open>shrink_physical_memory\<close> drops what it does not own. \<open>Schedule::routine\<close> switches away from
  the \<open>thread_context\<close> of a worker, which has a mapping of one page, while the worker runs on the stack of its thread. When the
  mapping lies below that stack, every page between them is dropped, whoever it belongs to: other stacks that were mapped there too.\<close>

theorem shrink_drops_foreign_stacks:
  assumes "stack_ptr AND 4095 = 0" and "unat addr_i < 2 ^ 63"
    and "unat stack_ptr + 4096 \<le> unat other" and "unat other + n + 2 * 4096 \<le> unat addr_i"
  shows "{x. unat other \<le> unat x \<and> unat x < unat other + n} \<subseteq> shrink_dropped addr_i stack_ptr"
proof -
  have le: "unat other + n \<le> (unat addr_i - 4096) div 4096 * 4096" by (rule page_below [OF assms(4)])
  have eq: "shrink_dropped addr_i stack_ptr = {x. unat stack_ptr \<le> unat x \<and> unat x < (unat addr_i - 4096) div 4096 * 4096}"
    by (rule shrink_dropped_eq [OF assms(1)]) (use assms(2-4) in linarith)+
  show ?thesis unfolding eq
  proof
    fix x assume "x \<in> {x. unat other \<le> unat x \<and> unat x < unat other + n}"
    then have "unat stack_ptr \<le> unat x" "unat x < (unat addr_i - 4096) div 4096 * 4096" using assms(3) le by simp_all
    then show "x \<in> {x. unat stack_ptr \<le> unat x \<and> unat x < (unat addr_i - 4096) div 4096 * 4096}" by simp
  qed
qed

theorem shrink_drops_foreign_stacks_witness:
  "{x. 131072 \<le> unat x \<and> unat x < 131072 + 8388608} \<subseteq> shrink_dropped 1073741824 65536"
  using shrink_drops_foreign_stacks [of 65536 1073741824 "131072 :: 64 word" 8388608] by simp

end
