(* ===== verification/Dag_Inv.thy ===== *)
theory Dag_Inv
  imports Node_Graph
begin

text \<open>
  Execution of task graphs: any interleaving of node and graph construction,
  \<open>Graph::create_edges\<close>, workers that take tasks, start them and finish them, over graphs
  without a limit. The invariant relates every node's \<open>wait_count\<close> to the edges that still lead to
  it and says that a node waits in the task queue, or is in a worker's hands, exactly while
  nothing is left to wait for.
\<close>

section \<open>Edges of the store\<close>

text \<open>
  The notifications node \<open>x\<close> still owes to the node \<open>d\<close> with contents \<open>y\<close>: the bit of a fast
  downstream node and the entries of \<open>down_streams\<close>.
\<close>

definition fast_edge :: "node \<Rightarrow> node \<Rightarrow> bool" where
  "fast_edge x y \<longleftrightarrow> parent_graph y \<noteq> None \<and> parent_graph x = parent_graph y
     \<and> node_id y < fast_node_max_num \<and> bit (fast_down_strams x) (unat (node_id y))"

definition edge_count :: "node \<Rightarrow> nid \<Rightarrow> node \<Rightarrow> nat" where
  "edge_count x d y = (if n_status x < Finish
     then (if fast_edge x y then 1 else 0) + count_list (down_streams x) d else 0)"

definition edge :: "world \<Rightarrow> nid \<Rightarrow> nid \<Rightarrow> nat" where
  "edge w r d = (case (w_nodes w r, w_nodes w d) of
     (Some x, Some y) \<Rightarrow> edge_count x d y | _ \<Rightarrow> 0)"

definition pend :: "world \<Rightarrow> nid \<Rightarrow> nat" where
  "pend w d = (\<Sum>r \<in> dom (w_nodes w). edge w r d)"

lemma w_nodes_put [simp]: "w_nodes (put_node n x w) = (w_nodes w)(n \<mapsto> x)"
  and w_graphs_put [simp]: "w_graphs (put_node n x w) = w_graphs w"
  and sched_put [simp]: "inner_schedule (put_node n x w) = inner_schedule w"
  and w_nodes_putg [simp]: "w_nodes (put_graph g gr w) = w_nodes w"
  and w_graphs_putg [simp]: "w_graphs (put_graph g gr w) = (w_graphs w)(g \<mapsto> gr)"
  and sched_putg [simp]: "inner_schedule (put_graph g gr w) = inner_schedule w"
  by (simp_all add: put_node_def put_graph_def)

lemma node_at_Some [simp]: "w_nodes w n = Some x \<Longrightarrow> node_at n w = Inr x"
  by (simp add: node_at_def)

lemma graph_at_Some [simp]: "w_graphs w g = Some x \<Longrightarrow> graph_at g w = Inr x"
  by (simp add: graph_at_def)

lemma deref_Some [simp]: "deref (Some x) = Inr x"
  by (simp add: deref_def)

lemma edge_Some: "w_nodes w r = Some x \<Longrightarrow> w_nodes w d = Some y \<Longrightarrow> edge w r d = edge_count x d y"
  by (simp add: edge_def)

lemma edge_cong: "w_nodes w = w_nodes w' \<Longrightarrow> edge w = edge w'"
  by (simp add: edge_def fun_eq_iff)

lemma pend_cong: "w_nodes w = w_nodes w' \<Longrightarrow> pend w = pend w'"
  by (rule ext) (simp add: pend_def edge_cong [of w w'])

text \<open>The members the edges depend on.\<close>

definition same_links :: "node \<Rightarrow> node \<Rightarrow> bool" where
  "same_links x x' \<longleftrightarrow> (n_status x' < Finish \<longleftrightarrow> n_status x < Finish)
     \<and> parent_graph x' = parent_graph x \<and> node_id x' = node_id x
     \<and> fast_down_strams x' = fast_down_strams x \<and> down_streams x' = down_streams x"

lemma edge_put_same:
  assumes "w_nodes w n = Some x" and "same_links x x'"
  shows "edge (put_node n x' w) = edge w"
  using assms by (auto simp: fun_eq_iff edge_def edge_count_def fast_edge_def same_links_def
      split: option.splits)

lemma pend_put_same:
  assumes "w_nodes w n = Some x" and "same_links x x'"
  shows "pend (put_node n x' w) = pend w"
proof -
  have "dom (w_nodes (put_node n x' w)) = dom (w_nodes w)" using assms(1) by auto
  then show ?thesis by (simp add: fun_eq_iff pend_def edge_put_same [OF assms])
qed

text \<open>A change of the outgoing edges of one node.\<close>

lemma edge_put_out:
  assumes "w_nodes w r = Some x" and "parent_graph x' = parent_graph x" and "node_id x' = node_id x"
    and "w_nodes w d = Some y"
  shows "edge (put_node r x' w) s d = (if s = r then edge_count x' d y else edge w s d)"
  using assms by (auto simp: edge_def edge_count_def fast_edge_def split: option.splits)

lemma pend_put_out:
  assumes "finite (dom (w_nodes w))" and "w_nodes w r = Some x"
    and "parent_graph x' = parent_graph x" and "node_id x' = node_id x" and "w_nodes w d = Some y"
  shows "pend (put_node r x' w) d + edge_count x d y = pend w d + edge_count x' d y"
proof -
  let ?D = "dom (w_nodes w)" and ?w = "put_node r x' w"
  have r: "r \<in> ?D" using assms(2) by auto
  have D: "dom (w_nodes ?w) = ?D" using assms(2) by auto
  have out: "edge ?w s d = (if s = r then edge_count x' d y else edge w s d)" for s
    by (rule edge_put_out [OF assms(2-5)])
  have "pend ?w d = edge ?w r d + (\<Sum>s \<in> ?D - {r}. edge ?w s d)"
    unfolding pend_def D using assms(1) r by (rule sum.remove)
  also have "\<dots> = edge_count x' d y + (\<Sum>s \<in> ?D - {r}. edge w s d)"
    by (simp add: out)
  moreover have "pend w d = edge_count x d y + (\<Sum>s \<in> ?D - {r}. edge w s d)"
    unfolding pend_def using assms sum.remove [OF assms(1) r, of "\<lambda>s. edge w s d"]
    by (simp add: edge_Some)
  ultimately show ?thesis by simp
qed

lemma pend_None: "w_nodes w d = None \<Longrightarrow> pend w d = 0"
  by (auto simp: pend_def edge_def intro!: sum.neutral split: option.splits)

section \<open>The invariant\<close>

definition sched_ok :: "world \<Rightarrow> bool" where
  "sched_ok w \<longleftrightarrow> (\<exists>s. inner_schedule w = Some s \<and> s_status s = Running \<and> tq_inv (s_task_queue s))"

definition queue :: "world \<Rightarrow> nid multiset" where
  "queue w = (case inner_schedule w of None \<Rightarrow> {#} | Some s \<Rightarrow> mset (tq_contents (s_task_queue s)))"

text \<open>The graphs number their nodes and find the first 63 of them by their number.\<close>

definition graph_ok :: "world \<Rightarrow> gid \<Rightarrow> graph \<Rightarrow> bool" where
  "graph_ok w g gr \<longleftrightarrow> \<not> limit_graph gr \<and> g_down_streams gr = []
     \<and> (node_num gr \<noteq> 0 \<longrightarrow> length (fast_nodes gr) = 63)
     \<and> (parent_node gr \<noteq> nullptr \<longrightarrow> parent_node gr \<in> dom (w_nodes w))
     \<and> (\<forall>n x. w_nodes w n = Some x \<longrightarrow> parent_graph x = Some g \<longrightarrow>
          node_id x < node_num gr
          \<and> (node_id x < fast_node_max_num \<longrightarrow> fast_nodes gr ! unat (node_id x) = n))"

text \<open>A node that belongs to no graph is as the constructor left it; the links of the others lead
  to nodes of graphs.\<close>

definition links_ok :: "world \<Rightarrow> node \<Rightarrow> bool" where
  "links_ok w x \<longleftrightarrow>
     (\<forall>i. bit (fast_down_strams x) i \<longrightarrow> i < 63 \<and> (\<exists>g gr y. parent_graph x = Some g
        \<and> w_graphs w g = Some gr \<and> w_nodes w (fast_nodes gr ! i) = Some y
        \<and> parent_graph y = Some g \<and> node_id y = of_nat i))
     \<and> (\<forall>d \<in> set (down_streams x). \<exists>y. w_nodes w d = Some y \<and> parent_graph y \<noteq> None)
     \<and> (n_status x < Finish \<longrightarrow> fast_down_strams_bak x = fast_down_strams_bak_init)
     \<and> (\<forall>g. parent_graph x = Some g \<longrightarrow> g \<in> dom (w_graphs w))
     \<and> (parent_graph x = None \<longrightarrow> n_status x = Initing \<and> wait_count x = 0
          \<and> fast_down_strams x = 0 \<and> down_streams x = [])"

definition store_ok :: "world \<Rightarrow> bool" where
  "store_ok w \<longleftrightarrow> finite (dom (w_nodes w)) \<and> nullptr \<notin> dom (w_nodes w)
     \<and> flag_node \<notin> dom (w_nodes w) \<and> sched_ok w
     \<and> (\<forall>g gr. w_graphs w g = Some gr \<longrightarrow> graph_ok w g gr)
     \<and> (\<forall>n x. w_nodes w n = Some x \<longrightarrow> links_ok w x)"

text \<open>
  \<open>e n\<close> counts notifications of \<open>n\<close> that are in progress (an edge being added, or one its
  finished source is working off), \<open>h\<close> the ready nodes that are in nobody's queue: held by a
  worker, or collected by a node that is finishing.
\<close>

definition owed :: "world \<Rightarrow> (nid \<Rightarrow> nat) \<Rightarrow> nid \<Rightarrow> nat" where
  "owed w e n = e n + pend w n"

definition i32_lim :: nat where
  "i32_lim = 2 ^ 31"

definition waits_ok :: "node \<Rightarrow> nat \<Rightarrow> nat \<Rightarrow> bool" where
  "waits_ok x k c \<longleftrightarrow>
     (if n_status x = Initing \<and> parent_graph x \<noteq> None
      then wait_count x = of_nat k \<and> k < i32_lim \<and> c = (if k = 0 then 1 else 0)
      else k = 0 \<and> c = 0)"

definition counts_ok :: "world \<Rightarrow> (nid \<Rightarrow> nat) \<Rightarrow> nid multiset \<Rightarrow> bool" where
  "counts_ok w e h \<longleftrightarrow> (\<forall>n. case w_nodes w n of
       Some x \<Rightarrow> waits_ok x (owed w e n) (count (queue w + h) n)
     | None \<Rightarrow> e n = 0 \<and> count (queue w + h) n = 0)"

text \<open>\<open>d n\<close> is the set of nodes \<open>n\<close> was made to wait for; they belong to graphs before \<open>n\<close> does.\<close>

definition deps_ok :: "world \<Rightarrow> (nid \<Rightarrow> nid set) \<Rightarrow> bool" where
  "deps_ok w d \<longleftrightarrow> (\<forall>r n. edge w r n > 0 \<longrightarrow> r \<in> d n)
     \<and> (\<forall>n. \<forall>r \<in> d n. \<exists>x. w_nodes w r = Some x \<and> parent_graph x \<noteq> None
          \<and> (n_status x < Finish \<longrightarrow> edge w r n > 0))
     \<and> (\<exists>f :: nid \<Rightarrow> nat. \<forall>n. \<forall>r \<in> d n. f r < f n)"

definition exec_inv :: "world \<Rightarrow> (nid \<Rightarrow> nat) \<Rightarrow> nid multiset \<Rightarrow> (nid \<Rightarrow> nid set) \<Rightarrow> bool" where
  "exec_inv w e h d \<longleftrightarrow> store_ok w \<and> counts_ok w e h \<and> deps_ok w d"

lemma counts_okD:
  "counts_ok w e h \<Longrightarrow> w_nodes w n = Some x \<Longrightarrow> waits_ok x (owed w e n) (count (queue w + h) n)"
  by (auto simp: counts_ok_def split: option.splits)

lemma counts_ok_None:
  "counts_ok w e h \<Longrightarrow> w_nodes w n = None \<Longrightarrow> e n = 0 \<and> count (queue w + h) n = 0"
  unfolding counts_ok_def by (drule spec [of _ n]) simp

lemma waits_ok_pos:
  "waits_ok x k c \<Longrightarrow> 0 < c \<Longrightarrow> n_status x = Initing \<and> parent_graph x \<noteq> None \<and> k = 0 \<and> c = 1"
  by (simp add: waits_ok_def split: if_splits)

text \<open>A node in the queue or held is attached, not started, and nothing is owed to it.\<close>

lemma ready_node:
  assumes "counts_ok w e h" and "0 < count (queue w + h) n"
  obtains x g where "w_nodes w n = Some x" and "n_status x = Initing" and "parent_graph x = Some g"
    and "owed w e n = 0" and "count (queue w + h) n = 1"
proof (cases "w_nodes w n")
  case None
  with counts_ok_None [OF assms(1) None] assms(2) show ?thesis by simp
next
  case (Some x)
  from waits_ok_pos [OF counts_okD [OF assms(1) Some] assms(2)] that [OF Some] show ?thesis by blast
qed

lemma held_node:
  assumes "counts_ok w e (add_mset n h)"
  obtains x g where "w_nodes w n = Some x" and "n_status x = Initing" and "parent_graph x = Some g"
    and "owed w e n = 0" and "n \<notin># queue w" and "n \<notin># h"
proof -
  have "0 < count (queue w + add_mset n h) n" by simp
  then obtain x g where x: "w_nodes w n = Some x" "n_status x = Initing" "parent_graph x = Some g"
    "owed w e n = 0" "count (queue w + add_mset n h) n = 1" using ready_node [OF assms] by blast
  from x(5) have "n \<notin># queue w" "n \<notin># h" by (simp_all add: not_in_iff)
  with x that show ?thesis by blast
qed

lemma counts_ok_upd:
  assumes "counts_ok w e h" and "w_nodes w' = (w_nodes w)(n \<mapsto> x')"
    and "\<And>m. m \<noteq> n \<Longrightarrow> e' m = e m \<and> pend w' m = pend w m
      \<and> count (queue w' + h') m = count (queue w + h) m"
    and "waits_ok x' (owed w' e' n) (count (queue w' + h') n)"
  shows "counts_ok w' e' h'"
  unfolding counts_ok_def
proof
  fix m
  show "case w_nodes w' m of Some z \<Rightarrow> waits_ok z (owed w' e' m) (count (queue w' + h') m)
    | None \<Rightarrow> e' m = 0 \<and> count (queue w' + h') m = 0"
  proof (cases "m = n")
    case True
    then show ?thesis using assms(2,4) by simp
  next
    case False
    have "case w_nodes w m of Some z \<Rightarrow> waits_ok z (owed w e m) (count (queue w + h) m)
      | None \<Rightarrow> e m = 0 \<and> count (queue w + h) m = 0"
      using assms(1) by (simp add: counts_ok_def)
    moreover have "w_nodes w' m = w_nodes w m" using assms(2) False by simp
    ultimately show ?thesis using assms(3) [OF False]
      by (cases "w_nodes w m") (simp_all add: owed_def)
  qed
qed

section \<open>Changes of a node that keep its links\<close>

lemma links_ok_cong:
  assumes "links_ok w y" and "w_graphs w' = w_graphs w"
    and "\<And>m y. w_nodes w m = Some y \<Longrightarrow>
      \<exists>z. w_nodes w' m = Some z \<and> parent_graph z = parent_graph y \<and> node_id z = node_id y"
    and "parent_graph z = parent_graph y" and "down_streams z = down_streams y"
    and "fast_down_strams z = fast_down_strams y"
    and "n_status z < Finish \<Longrightarrow> fast_down_strams_bak z = fast_down_strams_bak_init"
    and "parent_graph z = None \<Longrightarrow> n_status z = Initing \<and> wait_count z = 0"
  shows "links_ok w' z"
proof -
  have "i < 63 \<and> (\<exists>g gr y. parent_graph z = Some g \<and> w_graphs w' g = Some gr
      \<and> w_nodes w' (fast_nodes gr ! i) = Some y \<and> parent_graph y = Some g \<and> node_id y = of_nat i)"
    if "bit (fast_down_strams z) i" for i
  proof -
    have "bit (fast_down_strams y) i" using that assms(6) by simp
    then obtain g gr u where u: "i < 63" "parent_graph y = Some g" "w_graphs w g = Some gr"
      "w_nodes w (fast_nodes gr ! i) = Some u" "parent_graph u = Some g" "node_id u = of_nat i"
      using assms(1) unfolding links_ok_def by blast
    obtain v where "w_nodes w' (fast_nodes gr ! i) = Some v" "parent_graph v = parent_graph u"
      "node_id v = node_id u" using assms(3) [OF u(4)] by blast
    with u assms(2,4) show ?thesis by simp
  qed
  moreover have "\<exists>u. w_nodes w' d = Some u \<and> parent_graph u \<noteq> None" if "d \<in> set (down_streams z)" for d
  proof -
    have "d \<in> set (down_streams y)" using that assms(5) by simp
    then obtain u where u: "w_nodes w d = Some u" "parent_graph u \<noteq> None"
      using assms(1) unfolding links_ok_def by blast
    then show ?thesis using assms(3) [OF u(1)] by auto
  qed
  moreover have "\<forall>g. parent_graph z = Some g \<longrightarrow> g \<in> dom (w_graphs w')"
    using assms(1,2,4) unfolding links_ok_def by simp
  moreover have "parent_graph z = None \<longrightarrow> fast_down_strams z = 0 \<and> down_streams z = []"
    using assms(1,4,5,6) unfolding links_ok_def by simp
  ultimately show ?thesis using assms(7,8) unfolding links_ok_def by blast
qed

lemma graph_ok_cong:
  assumes "graph_ok w g gr" and "dom (w_nodes w') = dom (w_nodes w)"
    and "\<And>m z. w_nodes w' m = Some z \<Longrightarrow>
      \<exists>y. w_nodes w m = Some y \<and> parent_graph y = parent_graph z \<and> node_id y = node_id z"
  shows "graph_ok w' g gr"
proof -
  have "node_id z < node_num gr
      \<and> (node_id z < fast_node_max_num \<longrightarrow> fast_nodes gr ! unat (node_id z) = m)"
    if z: "w_nodes w' m = Some z" "parent_graph z = Some g" for m z
  proof -
    obtain y where y: "w_nodes w m = Some y" "parent_graph y = Some g" "node_id y = node_id z"
      using assms(3) [OF z(1)] z(2) by auto
    then have "node_id y < node_num gr
        \<and> (node_id y < fast_node_max_num \<longrightarrow> fast_nodes gr ! unat (node_id y) = m)"
      using assms(1) unfolding graph_ok_def by blast
    with y(3) show ?thesis by simp
  qed
  with assms(1,2) show ?thesis unfolding graph_ok_def by simp
qed

lemma store_ok_put:
  assumes "store_ok w" and "w_nodes w n = Some x" and "parent_graph x' = parent_graph x"
    and "node_id x' = node_id x" and "links_ok w x'"
  shows "store_ok (put_node n x' w)"
proof -
  have dom: "dom (w_nodes (put_node n x' w)) = dom (w_nodes w)" using assms(2) by auto
  have bwd: "\<exists>y. w_nodes w m = Some y \<and> parent_graph y = parent_graph z \<and> node_id y = node_id z"
    if "w_nodes (put_node n x' w) m = Some z" for m z
    using that assms(2-4) by (auto split: if_splits)
  have fwd: "\<exists>z. w_nodes (put_node n x' w) m = Some z \<and> parent_graph z = parent_graph y
      \<and> node_id z = node_id y" if "w_nodes w m = Some y" for m y
    using that assms(2-4) by auto
  have "links_ok (put_node n x' w) z" if z: "w_nodes (put_node n x' w) m = Some z" for m z
  proof -
    have lz: "links_ok w z" using z assms(1,5) by (auto simp: store_ok_def split: if_splits)
    show ?thesis
    proof (rule links_ok_cong [OF lz w_graphs_put fwd])
      show "n_status z < Finish \<Longrightarrow> fast_down_strams_bak z = fast_down_strams_bak_init"
        and "parent_graph z = None \<Longrightarrow> n_status z = Initing \<and> wait_count z = 0"
        using lz unfolding links_ok_def by blast+
    qed simp_all
  qed
  moreover have "graph_ok (put_node n x' w) g gr" if "w_graphs w g = Some gr" for g gr
  proof -
    have "graph_ok w g gr" using assms(1) that by (simp add: store_ok_def)
    then show ?thesis by (rule graph_ok_cong [OF _ dom]) (use bwd in blast)
  qed
  ultimately show ?thesis
    using assms(1) dom by (auto simp: store_ok_def sched_ok_def)
qed

lemma links_ok_same:
  assumes "links_ok w x" and "same_links x x'"
    and "n_status x' < Finish \<Longrightarrow> fast_down_strams_bak x' = fast_down_strams_bak_init"
    and "parent_graph x' = None \<Longrightarrow> n_status x' = Initing \<and> wait_count x' = 0"
  shows "links_ok w x'"
  by (rule links_ok_cong [OF assms(1) refl]) (use assms in \<open>simp_all add: same_links_def\<close>)

text \<open>The counters are right as long as what is owed, queued and held stays the same.\<close>

lemma counts_ok_cong:
  assumes "counts_ok w e h" and "dom (w_nodes w') = dom (w_nodes w)"
    and "\<And>m x x'. w_nodes w m = Some x \<Longrightarrow> w_nodes w' m = Some x' \<Longrightarrow> waits_ok x' = waits_ok x"
    and "\<And>m. owed w' e' m = owed w e m"
    and "\<And>m. count (queue w' + h') m = count (queue w + h) m"
  shows "counts_ok w' e' h'"
  unfolding counts_ok_def
proof
  fix m
  show "case w_nodes w' m of Some z \<Rightarrow> waits_ok z (owed w' e' m) (count (queue w' + h') m)
    | None \<Rightarrow> e' m = 0 \<and> count (queue w' + h') m = 0"
  proof (cases "w_nodes w' m")
    case None
    then have n: "w_nodes w m = None" using assms(2) by (metis domIff)
    have "e' m = 0"
      using counts_ok_None [OF assms(1) n] assms(4) [of m] pend_None [OF n] by (simp add: owed_def)
    with None counts_ok_None [OF assms(1) n] assms(5) [of m] show ?thesis by simp
  next
    case (Some z)
    then obtain x where x: "w_nodes w m = Some x" using assms(2) by (metis domIff option.exhaust_sel option.simps(3))
    from counts_okD [OF assms(1) x] Some show ?thesis
      by (simp add: assms(3) [OF x Some] assms(4) assms(5) del: count_union)
  qed
qed

lemma deps_ok_put:
  assumes "deps_ok w d" and "w_nodes w n = Some x" and "same_links x x'"
  shows "deps_ok (put_node n x' w) d"
proof -
  have "\<exists>z. w_nodes (put_node n x' w) r = Some z \<and> parent_graph z \<noteq> None
      \<and> (n_status z < Finish \<longrightarrow> 0 < edge w r m)" if r: "r \<in> d m" for r m
  proof -
    obtain y where y: "w_nodes w r = Some y" "parent_graph y \<noteq> None"
      "n_status y < Finish \<longrightarrow> 0 < edge w r m"
      using assms(1) r unfolding deps_ok_def by blast
    show ?thesis
    proof (cases "r = n")
      case True
      with y assms(2,3) show ?thesis by (simp add: same_links_def)
    next
      case False
      with y show ?thesis by simp
    qed
  qed
  with assms(1) show ?thesis by (simp add: deps_ok_def edge_put_same [OF assms(2,3)])
qed

lemma queue_put [simp]: "queue (put_node n x w) = queue w"
  and queue_putg [simp]: "queue (put_graph g gr w) = queue w"
  by (simp_all add: queue_def)

text \<open>The rule for every change of a node that keeps its links.\<close>

lemma exec_inv_put:
  assumes "exec_inv w e h d" and "w_nodes w n = Some x" and "same_links x x'"
    and "n_status x' < Finish \<Longrightarrow> fast_down_strams_bak x' = fast_down_strams_bak_init"
    and "parent_graph x' = None \<Longrightarrow> n_status x' = Initing \<and> wait_count x' = 0"
    and "\<And>m. m \<noteq> n \<Longrightarrow> e' m = e m \<and> count h' m = count h m"
    and "waits_ok x' (owed w e' n) (count (queue w + h') n)"
  shows "exec_inv (put_node n x' w) e' h' d"
proof -
  have inv: "store_ok w" "counts_ok w e h" "deps_ok w d" using assms(1) by (auto simp: exec_inv_def)
  note p = pend_put_same [OF assms(2,3)]
  have "counts_ok (put_node n x' w) e' h'"
  proof (rule counts_ok_upd [OF inv(2)])
    show "w_nodes (put_node n x' w) = (w_nodes w)(n \<mapsto> x')" by simp
    show "m \<noteq> n \<Longrightarrow> e' m = e m \<and> pend (put_node n x' w) m = pend w m
      \<and> count (queue (put_node n x' w) + h') m = count (queue w + h) m" for m
      using assms(6) [of m] by (simp add: p)
    show "waits_ok x' (owed (put_node n x' w) e' n) (count (queue (put_node n x' w) + h') n)"
      using assms(7) by (simp add: owed_def p)
  qed
  moreover have "links_ok w x" using inv(1) assms(2) by (simp add: store_ok_def)
  from links_ok_same [OF this assms(3-5)] have "store_ok (put_node n x' w)"
    using assms(3) by (intro store_ok_put [OF inv(1) assms(2)]) (simp_all add: same_links_def)
  ultimately show ?thesis
    using deps_ok_put [OF inv(3) assms(2,3)] by (simp add: exec_inv_def)
qed

lemma exec_invD:
  assumes "exec_inv w e h d" and "w_nodes w n = Some x"
  shows "links_ok w x" "waits_ok x (owed w e n) (count (queue w + h) n)"
  using assms counts_okD [of w e h n x] by (auto simp: exec_inv_def store_ok_def)

lemma exec_inv_put_same:
  assumes "exec_inv w e h d" and "w_nodes w n = Some x" and "same_links x x'"
    and "n_status x' = n_status x" and "fast_down_strams_bak x' = fast_down_strams_bak x"
    and "wait_count x' = wait_count x"
  shows "exec_inv (put_node n x' w) e h d"
proof (rule exec_inv_put [OF assms(1-3)])
  show "n_status x' < Finish \<Longrightarrow> fast_down_strams_bak x' = fast_down_strams_bak_init"
    using exec_invD(1) [OF assms(1,2)] assms(4,5) by (simp add: links_ok_def)
  show "parent_graph x' = None \<Longrightarrow> n_status x' = Initing \<and> wait_count x' = 0"
    using exec_invD(1) [OF assms(1,2)] assms(3,4,6) by (simp add: links_ok_def same_links_def)
  show "waits_ok x' (owed w e n) (count (queue w + h) n)"
    using exec_invD(2) [OF assms(1,2)] assms(3,4,6) by (simp add: waits_ok_def same_links_def)
qed simp

section \<open>Counting down and making ready\<close>

lemma of_nat_i32_inj: "k < i32_lim \<Longrightarrow> m < i32_lim \<Longrightarrow> (of_nat k :: i32) = of_nat m \<longleftrightarrow> k = m"
  by (simp add: i32_lim_def word_of_nat_eq_iff take_bit_nat_eq_self)

text \<open>A node somebody still owes a notification is attached and not started.\<close>

lemma owed_node:
  assumes "exec_inv w e h d" and "0 < owed w e n"
  obtains y g gr where "w_nodes w n = Some y" and "n_status y = Initing" and "parent_graph y = Some g"
    and "w_graphs w g = Some gr" and "wait_count y = of_nat (owed w e n)" and "owed w e n < i32_lim"
    and "count (queue w + h) n = 0"
proof (cases "w_nodes w n")
  case None
  then have "owed w e n = 0"
    using assms(1) pend_None [of w n] counts_ok_None [of w e h n] by (simp add: exec_inv_def owed_def)
  with assms(2) show ?thesis by simp
next
  case (Some y)
  have wk: "waits_ok y (owed w e n) (count (queue w + h) n)" using exec_invD(2) [OF assms(1) Some] .
  then obtain g where g: "n_status y = Initing" "parent_graph y = Some g"
    using assms(2) by (auto simp: waits_ok_def split: if_splits)
  moreover from g exec_invD(1) [OF assms(1) Some] obtain gr where "w_graphs w g = Some gr"
    by (auto simp: links_ok_def)
  ultimately show ?thesis using that [OF Some] wk assms(2) by (simp add: waits_ok_def)
qed

text \<open>\<open>h\<close> changed at one node.\<close>

lemma sub_wait_count_step:
  assumes "exec_inv w e h d" and "e n = Suc k"
  shows "\<exists>y w'. w_nodes w n = Some y
    \<and> sub_wait_count n w = Inr (of_nat (owed w e n), w')
    \<and> w' = put_node n (y\<lparr>wait_count := of_nat (owed w e n - 1)\<rparr>) w
    \<and> (of_nat (owed w e n) = (1 :: i32) \<longleftrightarrow> owed w e n = 1)
    \<and> exec_inv w' (e(n := k)) (if owed w e n = 1 then add_mset n h else h) d"
proof -
  have pos: "0 < owed w e n" using assms(2) by (simp add: owed_def)
  obtain y g where y: "w_nodes w n = Some y" "n_status y = Initing" "parent_graph y = Some g"
    "wait_count y = of_nat (owed w e n)" "owed w e n < i32_lim" "count (queue w + h) n = 0"
    using owed_node [OF assms(1) pos] by metis
  let ?y = "y\<lparr>wait_count := of_nat (owed w e n - 1)\<rparr>"
  have "(of_nat (owed w e n) :: i32) = of_nat 1 \<longleftrightarrow> owed w e n = 1"
    using y(5) by (intro of_nat_i32_inj) (simp_all add: i32_lim_def)
  moreover have "sub_wait_count n w = Inr (of_nat (owed w e n), put_node n ?y w)"
    using y(1,4) pos by (simp add: sub_wait_count_def of_nat_diff)
  moreover have "exec_inv (put_node n ?y w) (e(n := k)) (if owed w e n = 1 then add_mset n h else h) d"
  proof (rule exec_inv_put [OF assms(1) y(1)])
    show "same_links y ?y" by (simp add: same_links_def)
    show "n_status ?y < Finish \<Longrightarrow> fast_down_strams_bak ?y = fast_down_strams_bak_init"
      using exec_invD(1) [OF assms(1) y(1)] by (simp add: links_ok_def)
    show "parent_graph ?y = None \<Longrightarrow> n_status ?y = Initing \<and> wait_count ?y = 0" using y(3) by simp
    have "owed w (e(n := k)) n = owed w e n - 1" using assms(2) by (simp add: owed_def)
    then show "waits_ok ?y (owed w (e(n := k)) n)
        (count (queue w + (if owed w e n = 1 then add_mset n h else h)) n)"
      using y pos by (simp add: waits_ok_def less_imp_diff_less)
  qed simp
  ultimately show ?thesis using y(1) by auto
qed

text \<open>Putting a ready node into the task queue.\<close>

lemma add_new_task_step:
  assumes "exec_inv w e (add_mset n h) d"
  shows "\<exists>w'. add_new_task n w = Inr w' \<and> exec_inv w' e h d \<and> w_nodes w' = w_nodes w
    \<and> w_graphs w' = w_graphs w"
proof -
  have st: "store_ok w" and cnt: "counts_ok w e (add_mset n h)" and dp: "deps_ok w d"
    using assms by (auto simp: exec_inv_def)
  obtain x where x: "w_nodes w n = Some x" "n_status x = Initing"
    using held_node [OF cnt] by blast
  obtain s where s: "inner_schedule w = Some s" "s_status s = Running" "tq_inv (s_task_queue s)"
    using st by (auto simp: store_ok_def sched_ok_def)
  have n0: "n \<noteq> nullptr" "n \<noteq> flag_node" using st x(1) by (auto simp: store_ok_def)
  obtain q where q: "tq_enqueue (s_task_queue s) n = Inr (q, True)" "tq_inv q"
    "mset (tq_contents q) = add_mset n (mset (tq_contents (s_task_queue s)))"
    using tq_enqueue_mset [OF s(3) n0(1)] by blast
  let ?w = "w\<lparr>ready_worker_num := ready_worker_num w + 1,
      inner_schedule := Some (s\<lparr>s_task_queue := q\<rparr>)\<rparr>"
  have run: "add_new_task n w = Inr ?w" using s q(1) x n0 by (simp add: add_new_task_def)
  have p: "edge ?w = edge w" "pend ?w = pend w" by (simp_all add: edge_cong [of ?w w] pend_cong [of ?w w])
  have qq: "queue ?w + h = queue w + add_mset n h" using s(1) q(3) by (simp add: queue_def)
  have "links_ok ?w y = links_ok w y" "graph_ok ?w g gr = graph_ok w g gr" for y g gr
    by (simp_all add: links_ok_def graph_ok_def)
  then have "store_ok ?w" using st s(2) q(2) by (simp add: store_ok_def sched_ok_def)
  moreover have "counts_ok ?w e h" using cnt unfolding counts_ok_def owed_def p qq by simp
  moreover have "deps_ok ?w d" using dp by (simp add: deps_ok_def p)
  ultimately show ?thesis using run by (auto simp: exec_inv_def)
qed

lemma node_ready_step:
  assumes "exec_inv w e (add_mset n h) d"
  shows "\<exists>w'. node_ready n w = Inr w' \<and> exec_inv w' e h d \<and> w_nodes w' = w_nodes w
    \<and> w_graphs w' = w_graphs w"
proof -
  have cnt: "counts_ok w e (add_mset n h)" and st: "store_ok w" using assms by (auto simp: exec_inv_def)
  obtain x g where x: "w_nodes w n = Some x" "parent_graph x = Some g"
    using held_node [OF cnt] by blast
  then obtain gr where gr: "w_graphs w g = Some gr" "\<not> limit_graph gr"
    using st exec_invD(1) [OF assms x(1)] by (fastforce simp: links_ok_def store_ok_def graph_ok_def)
  have "node_ready n w = add_new_task n w" using x gr by (simp add: node_ready_def graph_ready_def)
  with add_new_task_step [OF assms] show ?thesis by simp
qed

end
