(* ===== verification/Dump.thy ===== *)
theory Dump
  imports Dag_Inv "HOL-Library.AList" "HOL-Library.Char_ord"
begin

text \<open>
  \<open>Graph::dump\<close> (src/graph.cpp) and \<open>Node::node_debug_name\<close> (src/node.cpp): the picture of a graph
  and its sub-graphs in the language of Graphviz. The maps and sets of the code are unordered: the order in which
  they are printed is a parameter, as are the names (\<open>name_for_debug\<close>, and what the C++ runtime calls
  the class of a node). Addresses are printed as \<open>long int\<close>; those of the program are below \<open>2 ^ 63\<close>.
\<close>

section \<open>Numbers\<close>

definition digit :: "nat \<Rightarrow> char" where
  "digit n = char_of (48 + n)"

fun dec :: "nat \<Rightarrow> string" where
  "dec n = (if n < 10 then [digit n] else dec (n div 10) @ [digit (n mod 10)])"

declare dec.simps [simp del]

definition graph_addr :: "gid option \<Rightarrow> nat" where
  "graph_addr p = (case p of None \<Rightarrow> 0 | Some g \<Rightarrow> g)"

text \<open>An edge as it is printed; a node that required nodes itself has a second point, with a 1 at the end.\<close>

definition edge_key :: "bool \<Rightarrow> nat \<Rightarrow> nat \<Rightarrow> string" where
  "edge_key second up_node node = dec up_node @ (if second then ''1'' else []) @ ''->'' @ dec node"

definition wait_edge :: string where "wait_edge = ''[color=black]''"
definition wait_edge1 :: string where "wait_edge1 = ''[color=blue]''"
definition nowait_edge :: string where "nowait_edge = ''[color=gray]''"
definition virtual_edge :: string where "virtual_edge = ''[style=dotted, color=gray]''"

section \<open>Clusters and edges\<close>

record dump_maps =
  sub_graph_map :: "(nat \<times> nid list) list"
  edge_back_flag_map :: "(string \<times> bool) list"
  edge_color_map :: "(string \<times> string) list"

text \<open>\<open>emplace\<close> on a map changes nothing when the key is there.\<close>

definition emplace :: "nat \<Rightarrow> nid list \<Rightarrow> (nat \<times> nid list) list \<Rightarrow> (nat \<times> nid list) list" where
  "emplace k v m = (if map_of m k = None then m @ [(k, v)] else m)"

definition add_member :: "nat \<Rightarrow> nid \<Rightarrow> (nat \<times> nid list) list \<Rightarrow> (nat \<times> nid list) list" where
  "add_member k n m = AList.map_default k [n] (\<lambda>ns. if n \<in> set ns then ns else ns @ [n]) m"

definition classify :: "world \<Rightarrow> nid \<Rightarrow> dump_maps \<Rightarrow> dump_maps result" where
  "classify w node m =
     rbind (node_at node w) (\<lambda>x. let k = graph_addr (parent_graph x) in
       Inr (m\<lparr>sub_graph_map := (if map_of (sub_graph_map m) k = None then emplace k [node] (sub_graph_map m)
                                else add_member k node (sub_graph_map m))\<rparr>))"

definition note_up :: "world \<Rightarrow> nid \<Rightarrow> node \<Rightarrow> nid \<Rightarrow> bool \<times> dump_maps \<Rightarrow> (bool \<times> dump_maps) result" where
  "note_up w node x up_node = (\<lambda>(need_back_node, m).
     if up_node = flag_node then Inr (True, m)
     else rbind (node_at up_node w) (\<lambda>u.
       let k = graph_addr (parent_graph x); e = edge_key (require_sub_graph u) up_node node in
       Inr (need_back_node, m\<lparr>
         sub_graph_map := (if map_of (sub_graph_map m) k = None
           then emplace (graph_addr (parent_graph u)) [up_node] (sub_graph_map m)
           else add_member k up_node (sub_graph_map m)),
         edge_color_map := AList.update e nowait_edge (edge_color_map m),
         edge_back_flag_map := AList.update e need_back_node (edge_back_flag_map m)\<rparr>)))"

definition note_ups :: "world \<Rightarrow> nid \<Rightarrow> dump_maps \<Rightarrow> dump_maps result" where
  "note_ups w node m =
     rbind (node_at node w) (\<lambda>x.
     rbind (rfold (note_up w node x) (up_streams x) (False, m)) (\<lambda>(_, m1). Inr m1))"

definition paint :: "node \<Rightarrow> nid \<Rightarrow> string \<Rightarrow> nid \<Rightarrow> dump_maps \<Rightarrow> dump_maps" where
  "paint x node color d m =
     m\<lparr>edge_color_map := AList.update (edge_key (require_sub_graph x) node d) color (edge_color_map m)\<rparr>"

definition paint_fast :: "world \<Rightarrow> nid \<Rightarrow> node \<Rightarrow> u64 \<Rightarrow> dump_maps \<Rightarrow> dump_maps result" where
  "paint_fast w node x idx m =
     rbind (deref (parent_graph x)) (\<lambda>g. rbind (graph_at g w) (\<lambda>gr. rbind (get_node gr idx) (\<lambda>d.
       Inr (paint x node wait_edge d m))))"

definition paint_down :: "world \<Rightarrow> nid \<Rightarrow> node \<Rightarrow> nid \<Rightarrow> dump_maps \<Rightarrow> dump_maps result" where
  "paint_down w node x d m =
     rbind (node_at d w) (\<lambda>y. Inr (if parent_graph y \<noteq> parent_graph x then m else paint x node wait_edge1 d m))"

definition paint_node :: "world \<Rightarrow> nid \<Rightarrow> dump_maps \<Rightarrow> dump_maps result" where
  "paint_node w node m =
     rbind (node_at node w) (\<lambda>x.
     let m1 = m\<lparr>edge_color_map := AList.update (edge_key False (graph_addr (parent_graph x)) node) virtual_edge
                  (edge_color_map m)\<rparr> in
     rbind (bit_map_idx (fast_down_strams_bak x) fast_node_max_num) (\<lambda>idx_vec.
     rbind (rfold (paint_fast w node x) idx_vec m1) (\<lambda>m2.
       rfold (paint_down w node x) (down_streams x) m2)))"

text \<open>The three loops over the nodes of the graph.\<close>

definition collect_maps :: "world \<Rightarrow> nid list \<Rightarrow> dump_maps result" where
  "collect_maps w required_nodes =
     rbind (rfold (classify w) required_nodes
              \<lparr>sub_graph_map = [], edge_back_flag_map = [], edge_color_map = []\<rparr>) (\<lambda>m1.
     rbind (rfold (note_ups w) required_nodes m1) (\<lambda>m2.
       rfold (paint_node w) required_nodes m2))"

section \<open>The text\<close>








section \<open>Keys of edges\<close>

definition undec :: "string \<Rightarrow> nat" where
  "undec s = foldl (\<lambda>a c. 10 * a + (of_char c - 48)) 0 s"

lemma undigit: "n < 10 \<Longrightarrow> of_char (digit n) - (48 :: nat) = n"
  by (simp add: digit_def)

lemma undec_dec: "undec (dec n) = n"
proof (induction n rule: dec.induct)
  case (1 n)
  then show ?case by (cases "n < 10") (simp_all add: dec.simps [of n] undec_def undigit)
qed

lemma dec_digits: "c \<in> set (dec n) \<Longrightarrow> c \<noteq> CHR ''-''"
proof (induction n rule: dec.induct)
  case (1 n)
  have "digit k \<noteq> CHR ''-''" if "k < 10" for k
  proof
    assume "digit k = CHR ''-''"
    then have "of_char (digit k) = (of_char (CHR ''-'') :: nat)" by simp
    with that show False by (simp add: digit_def)
  qed
  from this [of n] this [of "n mod 10"] 1 show ?case by (cases "n < 10") (auto simp: dec.simps [of n] eq_commute)
qed

lemma undec_one: "undec (dec n @ ''1'') = 10 * n + 1"
  using undec_dec [of n] by (simp add: undec_def)

text \<open>Even addresses keep the keys apart: the second point of a node has an odd number.\<close>

lemma edge_key_inj:
  assumes "even a" "even a'"
  shows "edge_key f a b = edge_key f' a' b' \<longleftrightarrow> f = f' \<and> a = a' \<and> b = b'"
proof
  assume eq: "edge_key f a b = edge_key f' a' b'"
  let ?p = "\<lambda>f a. dec a @ (if f then ''1'' else [])"
  have p: "takeWhile (\<lambda>c. c \<noteq> CHR ''-'') (edge_key f a b) = ?p f a" for f a b
    by (auto simp: edge_key_def takeWhile_append dest: dec_digits)
  have "?p f a = ?p f' a'" using arg_cong [OF eq, of "takeWhile (\<lambda>c. c \<noteq> CHR ''-'')"] unfolding p .
  then have u: "undec (?p f a) = undec (?p f' a')" by simp
  moreover have "undec (?p f a) = (if f then 10 * a + 1 else a)" for f a by (simp add: undec_dec undec_one)
  ultimately have fa: "f = f' \<and> a = a'" using assms by (auto split: if_splits)
  then have "dec b = dec b'" using eq by (simp add: edge_key_def)
  then have "undec (dec b) = undec (dec b')" by simp
  then show "f = f' \<and> a = a' \<and> b = b'" using fa by (simp add: undec_dec)
qed simp

section \<open>The colours of the edges\<close>

text \<open>Addresses: even, of a node or of a graph but not of both, and not null.\<close>

definition aligned :: "world \<Rightarrow> bool" where
  "aligned w \<longleftrightarrow> (\<forall>n x. w_nodes w n = Some x \<longrightarrow> even n \<and> even (graph_addr (parent_graph x))
     \<and> w_nodes w (graph_addr (parent_graph x)) = None)"

abbreviation colour :: "dump_maps \<Rightarrow> bool \<Rightarrow> nid \<Rightarrow> nid \<Rightarrow> string option" where
  "colour m f a b \<equiv> map_of (edge_color_map m) (edge_key f a b)"

text \<open>The node the bit \<open>i\<close> of \<open>fast_down_strams_bak\<close> stands for.\<close>

definition fast_down :: "world \<Rightarrow> node \<Rightarrow> nid \<Rightarrow> bool" where
  "fast_down w x b \<longleftrightarrow> (\<exists>i < 63. bit (fast_down_strams_bak x) i
     \<and> (\<exists>g gr. parent_graph x = Some g \<and> w_graphs w g = Some gr \<and> get_node gr (of_nat i) = Inr b))"

definition slow_down :: "world \<Rightarrow> node \<Rightarrow> nid \<Rightarrow> bool" where
  "slow_down w x b \<longleftrightarrow> b \<in> set (down_streams x) \<and> (\<exists>y. w_nodes w b = Some y \<and> parent_graph y = parent_graph x)"

lemma colour_update:
  "even a \<Longrightarrow> even a' \<Longrightarrow>
     map_of (AList.update (edge_key f' a' b') c al) (edge_key f a b) = (if f = f' \<and> a = a' \<and> b = b' then Some c else map_of al (edge_key f a b))"
  by (auto simp: update_conv' edge_key_inj)

lemma colour_paint:
  assumes "even a" "even node"
  shows "colour (paint x node c d m) f a b = (if f = require_sub_graph x \<and> a = node \<and> b = d then Some c else colour m f a b)"
  by (simp add: paint_def colour_update assms)

lemma node_at_Inr: "node_at n w = Inr x \<longleftrightarrow> w_nodes w n = Some x"
  by (simp add: node_at_def split: option.splits)

lemma paint_fast_fold:
  assumes "rfold (paint_fast w node x) is m = Inr m'" and "even a" "even node"
  shows "colour m' f a b = (if f = require_sub_graph x \<and> a = node
      \<and> (\<exists>i \<in> set is. \<exists>g gr. parent_graph x = Some g \<and> w_graphs w g = Some gr \<and> get_node gr i = Inr b)
    then Some wait_edge else colour m f a b)"
  using assms(1)
proof (induction "is" arbitrary: m)
  case (Cons i "is")
  then obtain m1 where m1: "paint_fast w node x i m = Inr m1" "rfold (paint_fast w node x) is m1 = Inr m'" by auto
  from m1(1) obtain g gr d where g: "parent_graph x = Some g" "w_graphs w g = Some gr" "get_node gr i = Inr d" "m1 = paint x node wait_edge d m"
    by (auto simp: paint_fast_def deref_def graph_at_def split: option.splits)
  from Cons.IH [OF m1(2)] g show ?case by (auto simp: colour_paint assms(2,3))
qed simp

lemma paint_down_fold:
  assumes "rfold (paint_down w node x) ds m = Inr m'" and "even a" "even node"
  shows "colour m' f a b = (if f = require_sub_graph x \<and> a = node \<and> b \<in> set ds
      \<and> (\<exists>y. w_nodes w b = Some y \<and> parent_graph y = parent_graph x)
    then Some wait_edge1 else colour m f a b)"
  using assms(1)
proof (induction ds arbitrary: m)
  case (Cons d ds)
  then obtain m1 where m1: "paint_down w node x d m = Inr m1" "rfold (paint_down w node x) ds m1 = Inr m'" by auto
  from m1(1) obtain y where y: "w_nodes w d = Some y"
    "m1 = (if parent_graph y \<noteq> parent_graph x then m else paint x node wait_edge1 d m)"
    by (auto simp: paint_down_def node_at_Inr)
  from Cons.IH [OF m1(2)] y show ?case by (auto simp: colour_paint assms(2,3))
qed simp

lemma paint_node_colour:
  assumes "paint_node w node m = Inr m'" and "w_nodes w a = Some x" and "aligned w"
  shows "colour m' (require_sub_graph x) a b = (if a = node
    then (if slow_down w x b then Some wait_edge1 else if fast_down w x b then Some wait_edge
          else colour m (require_sub_graph x) a b)
    else colour m (require_sub_graph x) a b)"
proof -
  obtain y m2 where y: "w_nodes w node = Some y"
    "rfold (paint_fast w node y) (map of_nat (filter (bit (fast_down_strams_bak y)) [0..<63]))
       (m\<lparr>edge_color_map := AList.update (edge_key False (graph_addr (parent_graph y)) node) virtual_edge (edge_color_map m)\<rparr>) = Inr m2"
    "rfold (paint_down w node y) (down_streams y) m2 = Inr m'"
    using assms(1) by (auto simp: paint_node_def node_at_Inr Let_def bit_map_idx_eq fast_node_max_num_def)
  have ev: "even a" "even node" "even (graph_addr (parent_graph y))" "a \<noteq> graph_addr (parent_graph y)"
    using assms(2,3) y(1) unfolding aligned_def by force+
  have f: "(\<exists>i \<in> set (map of_nat (filter (bit (fast_down_strams_bak y)) [0..<63])). \<exists>g gr. parent_graph y = Some g
      \<and> w_graphs w g = Some gr \<and> get_node gr i = Inr b) \<longleftrightarrow> fast_down w y b"
    by (auto simp: fast_down_def)
  show ?thesis
    unfolding paint_down_fold [OF y(3) ev(1,2)] paint_fast_fold [OF y(2) ev(1,2)] f
    using y(1) assms(2) ev by (auto simp: slow_down_def colour_update)
qed

lemma paint_nodes_colour:
  assumes "rfold (paint_node w) ns m = Inr m'" and "w_nodes w a = Some x" and "aligned w"
  shows "colour m' (require_sub_graph x) a b = (if a \<in> set ns
    then (if slow_down w x b then Some wait_edge1 else if fast_down w x b then Some wait_edge
          else colour m (require_sub_graph x) a b)
    else colour m (require_sub_graph x) a b)"
  using assms(1)
proof (induction ns arbitrary: m)
  case (Cons n ns)
  then obtain m1 where m1: "paint_node w n m = Inr m1" "rfold (paint_node w) ns m1 = Inr m'" by auto
  show ?case unfolding Cons.IH [OF m1(2)] using paint_node_colour [OF m1(1) assms(2,3), of b] by auto
qed simp

abbreviation back_flag :: "dump_maps \<Rightarrow> bool \<Rightarrow> nid \<Rightarrow> nid \<Rightarrow> bool option" where
  "back_flag m f a b \<equiv> map_of (edge_back_flag_map m) (edge_key f a b)"

lemma paint_keeps_back:
  assumes "paint_node w node m = Inr m'"
  shows "edge_back_flag_map m' = edge_back_flag_map m"
proof -
  have f: "edge_back_flag_map m2 = edge_back_flag_map m1" if "paint_fast w node x i m1 = Inr m2" for x i m1 m2
    using that by (auto simp: paint_fast_def paint_def)
  have d: "edge_back_flag_map m2 = edge_back_flag_map m1" if "paint_down w node x i m1 = Inr m2" for x i m1 m2
    using that by (auto simp: paint_down_def paint_def)
  obtain y "is" m2 where m2: "rfold (paint_fast w node y) is (m\<lparr>edge_color_map :=
      AList.update (edge_key False (graph_addr (parent_graph y)) node) virtual_edge (edge_color_map m)\<rparr>) = Inr m2"
    "rfold (paint_down w node y) (down_streams y) m2 = Inr m'"
    using assms by (auto simp: paint_node_def Let_def)
  have "edge_back_flag_map m2 = edge_back_flag_map m"
    by (rule rfold_invariant [OF m2(1), of "\<lambda>m2. edge_back_flag_map m2 = edge_back_flag_map m"]) (use f in auto)
  then show ?thesis
    by (rule_tac rfold_invariant [OF m2(2), of "\<lambda>m2. edge_back_flag_map m2 = edge_back_flag_map m"]) (use d in auto)
qed

lemma classify_keeps:
  "classify w node m = Inr m' \<Longrightarrow> edge_color_map m' = edge_color_map m \<and> edge_back_flag_map m' = edge_back_flag_map m"
  by (auto simp: classify_def Let_def)

lemma note_up_step:
  assumes "note_up w node y u (nb, m) = Inr (nb1, m1)" and "aligned w" and "w_nodes w a = Some x"
  shows "nb1 = (nb \<or> u = flag_node)"
    and "colour m1 (require_sub_graph x) a b = (if u = a \<and> b = node then Some nowait_edge else colour m (require_sub_graph x) a b)"
    and "back_flag m1 (require_sub_graph x) a b = (if u = a \<and> b = node then Some nb else back_flag m (require_sub_graph x) a b)"
proof -
  have ev: "even a" using assms(2,3) by (auto simp: aligned_def)
  then have f: "a \<noteq> flag_node" by (auto simp: flag_node_def)
  let ?r = "require_sub_graph x"
  have "nb1 = (nb \<or> u = flag_node)
    \<and> colour m1 ?r a b = (if u = a \<and> b = node then Some nowait_edge else colour m ?r a b)
    \<and> back_flag m1 ?r a b = (if u = a \<and> b = node then Some nb else back_flag m ?r a b)"
  proof (cases "u = flag_node")
    case True
    then show ?thesis using assms(1) f by (auto simp: note_up_def)
  next
    case False
    then obtain z where z: "w_nodes w u = Some z" "nb1 = nb"
      "edge_color_map m1 = AList.update (edge_key (require_sub_graph z) u node) nowait_edge (edge_color_map m)"
      "edge_back_flag_map m1 = AList.update (edge_key (require_sub_graph z) u node) nb (edge_back_flag_map m)"
      using assms(1) by (auto simp: note_up_def Let_def node_at_Inr)
    have "even u" using assms(2) z(1) by (auto simp: aligned_def)
    then have "edge_key ?r a b = edge_key (require_sub_graph z) u node \<longleftrightarrow> u = a \<and> b = node"
      using edge_key_inj [OF ev, of u] assms(3) z(1) by auto
    then show ?thesis using False z(2-4) by (simp add: update_conv')
  qed
  then show "nb1 = (nb \<or> u = flag_node)"
    "colour m1 ?r a b = (if u = a \<and> b = node then Some nowait_edge else colour m ?r a b)"
    "back_flag m1 ?r a b = (if u = a \<and> b = node then Some nb else back_flag m ?r a b)" by blast+
qed

lemma note_up_fold:
  assumes "rfold (note_up w node y) us (nb, m) = Inr (nb', m')" and "aligned w" and "w_nodes w a = Some x"
  shows "colour m' (require_sub_graph x) a b
      = (if b = node \<and> a \<in> set us then Some nowait_edge else colour m (require_sub_graph x) a b)"
    and "b \<noteq> node \<or> a \<notin> set us \<Longrightarrow> back_flag m' (require_sub_graph x) a b = back_flag m (require_sub_graph x) a b"
    and "b = node \<Longrightarrow> us = us1 @ a # us2 \<Longrightarrow> a \<notin> set us2 \<Longrightarrow>
      back_flag m' (require_sub_graph x) a b = Some (nb \<or> flag_node \<in> set us1)"
  using assms(1)
proof (induction us arbitrary: nb m us1)
  case (Cons u us)
  {
    case 1
    then obtain nb1 m1 where m1: "note_up w node y u (nb, m) = Inr (nb1, m1)" "rfold (note_up w node y) us (nb1, m1) = Inr (nb', m')"
      by auto
    show ?case using Cons.IH(1) [OF m1(2)] note_up_step(2) [OF m1(1) assms(2,3), of b] by auto
  next
    case 2
    then obtain nb1 m1 where m1: "note_up w node y u (nb, m) = Inr (nb1, m1)" "rfold (note_up w node y) us (nb1, m1) = Inr (nb', m')"
      by auto
    show ?case using Cons.IH(2) [OF _ m1(2)] note_up_step(3) [OF m1(1) assms(2,3), of b] 2(1) by auto
  next
    case 3
    from 3(4) obtain nb1 m1 where m1: "note_up w node y u (nb, m) = Inr (nb1, m1)" "rfold (note_up w node y) us (nb1, m1) = Inr (nb', m')"
      by auto
    show ?case
    proof (cases us1)
      case Nil
      then have "u = a" "us = us2" using 3(2) by auto
      then show ?thesis using Cons.IH(2) [OF _ m1(2)] note_up_step(3) [OF m1(1) assms(2,3), of b] 3(1,3) Nil by auto
    next
      case (Cons v vs)
      then have "u = v" "us = vs @ a # us2" using 3(2) by auto
      then show ?thesis
        using Cons.IH(3) [OF 3(1) _ 3(3) m1(2), of vs] note_up_step(1) [OF m1(1) assms(2,3)] Cons by auto
    qed
  }
qed auto

lemma note_ups_fold:
  assumes "rfold (note_ups w) ns m = Inr m'" and "aligned w" and "w_nodes w a = Some x"
  shows "colour m' (require_sub_graph x) a b
      = (if b \<in> set ns \<and> (\<exists>y. w_nodes w b = Some y \<and> a \<in> set (up_streams y)) then Some nowait_edge
         else colour m (require_sub_graph x) a b)"
    and "b \<in> set ns \<Longrightarrow> w_nodes w b = Some y \<Longrightarrow> up_streams y = us1 @ a # us2 \<Longrightarrow> a \<notin> set us2 \<Longrightarrow>
      back_flag m' (require_sub_graph x) a b = Some (flag_node \<in> set us1)"
    and "b \<notin> set ns \<Longrightarrow> back_flag m' (require_sub_graph x) a b = back_flag m (require_sub_graph x) a b"
  using assms(1)
proof (induction ns arbitrary: m)
  case (Cons n ns)
  have split: "\<exists>m1 z nb. w_nodes w n = Some z \<and> rfold (note_up w n z) (up_streams z) (False, m) = Inr (nb, m1)
      \<and> rfold (note_ups w) ns m1 = Inr m'" if "rfold (note_ups w) (n # ns) m = Inr m'" for m
    using that by (auto simp: note_ups_def node_at_Inr)
  {
    case 1
    then obtain m1 z nb where m1: "w_nodes w n = Some z" "rfold (note_up w n z) (up_streams z) (False, m) = Inr (nb, m1)"
      "rfold (note_ups w) ns m1 = Inr m'" using split by blast
    show ?case using Cons.IH(1) [OF m1(3)] note_up_fold(1) [OF m1(2) assms(2,3), of b] m1(1) by auto
  next
    case 2
    then obtain m1 z nb where m1: "w_nodes w n = Some z" "rfold (note_up w n z) (up_streams z) (False, m) = Inr (nb, m1)"
      "rfold (note_ups w) ns m1 = Inr m'" using split by blast
    show ?case
    proof (cases "b \<in> set ns")
      case True
      then show ?thesis using Cons.IH(2) [OF _ 2(2-4) m1(3)] by blast
    next
      case False
      then have "b = n" using 2(1) by simp
      then show ?thesis
        using Cons.IH(3) [OF False m1(3)] note_up_fold(3) [OF m1(2) assms(2,3) _ _ 2(4), of b us1] m1(1) 2(2,3) by auto
    qed
  next
    case 3
    then obtain m1 z nb where m1: "w_nodes w n = Some z" "rfold (note_up w n z) (up_streams z) (False, m) = Inr (nb, m1)"
      "rfold (note_ups w) ns m1 = Inr m'" using split by blast
    show ?case using Cons.IH(3) [OF _ m1(3)] note_up_fold(2) [OF m1(2) assms(2,3), of b] 3(1) by auto
  }
qed auto

lemma collect_maps_edges:
  assumes m: "collect_maps w ns = Inr m" and w: "aligned w" "w_nodes w a = Some x"
  shows "colour m (require_sub_graph x) a b
      = (if a \<in> set ns \<and> slow_down w x b then Some wait_edge1
         else if a \<in> set ns \<and> fast_down w x b then Some wait_edge
         else if b \<in> set ns \<and> (\<exists>y. w_nodes w b = Some y \<and> a \<in> set (up_streams y)) then Some nowait_edge else None)"
    and "b \<in> set ns \<Longrightarrow> w_nodes w b = Some y \<Longrightarrow> up_streams y = us1 @ a # us2 \<Longrightarrow> a \<notin> set us2 \<Longrightarrow>
      back_flag m (require_sub_graph x) a b = Some (flag_node \<in> set us1)"
    and "b \<notin> set ns \<Longrightarrow> back_flag m (require_sub_graph x) a b = None"
proof -
  let ?m0 = "\<lparr>sub_graph_map = [], edge_back_flag_map = [], edge_color_map = []\<rparr>"
  obtain m1 m2 where c: "rfold (classify w) ns ?m0 = Inr m1" "rfold (note_ups w) ns m1 = Inr m2"
    "rfold (paint_node w) ns m2 = Inr m" using m by (auto simp: collect_maps_def)
  have m1: "edge_color_map m1 = [] \<and> edge_back_flag_map m1 = []"
    by (rule rfold_invariant [OF c(1), of "\<lambda>m. edge_color_map m = [] \<and> edge_back_flag_map m = []"])
      (use classify_keeps in auto)
  have b: "edge_back_flag_map m = edge_back_flag_map m2"
    by (rule rfold_invariant [OF c(3), of "\<lambda>m. edge_back_flag_map m = edge_back_flag_map m2"])
      (use paint_keeps_back in auto)
  show "colour m (require_sub_graph x) a b
      = (if a \<in> set ns \<and> slow_down w x b then Some wait_edge1
         else if a \<in> set ns \<and> fast_down w x b then Some wait_edge
         else if b \<in> set ns \<and> (\<exists>y. w_nodes w b = Some y \<and> a \<in> set (up_streams y)) then Some nowait_edge else None)"
    using paint_nodes_colour [OF c(3) w(2,1), of b] note_ups_fold(1) [OF c(2) w, of b] m1 by auto
  show "b \<in> set ns \<Longrightarrow> w_nodes w b = Some y \<Longrightarrow> up_streams y = us1 @ a # us2 \<Longrightarrow> a \<notin> set us2 \<Longrightarrow>
      back_flag m (require_sub_graph x) a b = Some (flag_node \<in> set us1)"
    using note_ups_fold(2) [OF c(2) w] by (simp add: b)
  show "b \<notin> set ns \<Longrightarrow> back_flag m (require_sub_graph x) a b = None"
    using note_ups_fold(3) [OF c(2) w] m1 by (simp add: b)
qed

section \<open>Which graphs can be drawn\<close>

text \<open>No pointer a dump follows is dangling, apart from the sub-graphs.\<close>

definition drawable :: "world \<Rightarrow> graph \<Rightarrow> bool" where
  "drawable w gr \<longleftrightarrow> (\<forall>n \<in> set (get_nodes gr). \<exists>x. w_nodes w n = Some x
     \<and> (\<forall>u \<in> set (up_streams x). u = flag_node \<or> u \<in> dom (w_nodes w))
     \<and> (\<forall>d \<in> set (down_streams x). d \<in> dom (w_nodes w))
     \<and> (\<forall>i < 63. bit (fast_down_strams_bak x) i \<longrightarrow>
          (\<exists>g gr' b. parent_graph x = Some g \<and> w_graphs w g = Some gr' \<and> get_node gr' (of_nat i) = Inr b)))"


definition members_live :: "world \<Rightarrow> (nat \<times> nid list) list \<Rightarrow> bool" where
  "members_live w ms \<longleftrightarrow> (\<forall>(k, ns) \<in> set ms. set ns \<subseteq> dom (w_nodes w))"

lemma members_live_add:
  assumes "members_live w ms" and "n \<in> dom (w_nodes w)"
  shows "members_live w (emplace k [n] ms)" "members_live w (add_member k n ms)"
proof -
  show "members_live w (emplace k [n] ms)" using assms by (auto simp: members_live_def emplace_def)
  show "members_live w (add_member k n ms)"
    using assms unfolding add_member_def by (induction ms) (auto simp: members_live_def)
qed

lemma rfold_total:
  assumes "\<And>x s. x \<in> set xs \<Longrightarrow> P s \<Longrightarrow> \<exists>t. f x s = Inr t \<and> P t" and "P s"
  shows "\<exists>t. rfold f xs s = Inr t \<and> P t"
  using assms
proof (induction xs arbitrary: s)
  case (Cons x xs)
  obtain t where t: "f x s = Inr t" "P t" using Cons.prems by force
  from Cons.IH [OF _ t(2)] Cons.prems(1) t(1) show ?case by auto
qed auto



lemma collect_maps_total:
  assumes "drawable w gr"
  shows "\<exists>m. collect_maps w (get_nodes gr) = Inr m \<and> members_live w (sub_graph_map m)"
proof -
  let ?ns = "get_nodes gr" and ?P = "\<lambda>m. members_live w (sub_graph_map m)"
  let ?m0 = "\<lparr>sub_graph_map = [], edge_back_flag_map = [], edge_color_map = []\<rparr>"
  have ok: "\<exists>x. w_nodes w n = Some x \<and> (\<forall>u \<in> set (up_streams x). u = flag_node \<or> u \<in> dom (w_nodes w))
     \<and> (\<forall>d \<in> set (down_streams x). d \<in> dom (w_nodes w))
     \<and> (\<forall>i < 63. bit (fast_down_strams_bak x) i \<longrightarrow>
          (\<exists>g gr' b. parent_graph x = Some g \<and> w_graphs w g = Some gr' \<and> get_node gr' (of_nat i) = Inr b))"
    if "n \<in> set ?ns" for n using assms that by (simp add: drawable_def)
  have c: "\<exists>m'. classify w n m = Inr m' \<and> ?P m'" if n: "n \<in> set ?ns" "?P m" for n m
  proof -
    obtain x where x: "w_nodes w n = Some x" using ok [OF n(1)] by blast
    then have "n \<in> dom (w_nodes w)" by blast
    then show ?thesis using x members_live_add [OF n(2)]
      by (simp add: classify_def node_at_def Let_def del: rbind_eq_Inr)
  qed
  have u: "\<exists>s'. note_up w n y u s = Inr s' \<and> ?P (snd s')" if "u = flag_node \<or> u \<in> dom (w_nodes w)" "?P (snd s)" for n y u s
    using that(1) members_live_add [OF that(2), of u] that(2)
    by (cases s; cases "u = flag_node") (auto simp: note_up_def node_at_def Let_def simp del: rbind_eq_Inr)
  have us: "\<exists>m'. note_ups w n m = Inr m' \<and> ?P m'" if n: "n \<in> set ?ns" "?P m" for n m
  proof -
    obtain x where x: "w_nodes w n = Some x" "\<forall>u \<in> set (up_streams x). u = flag_node \<or> u \<in> dom (w_nodes w)"
      using ok [OF n(1)] by blast
    obtain s' where "rfold (note_up w n x) (up_streams x) (False, m) = Inr s' \<and> ?P (snd s')"
      using rfold_total [of "up_streams x" "\<lambda>s. ?P (snd s)" "note_up w n x" "(False, m)"] u x(2) n(2) by auto
    then show ?thesis using x(1) by (cases s') (simp add: note_ups_def node_at_def)
  qed
  have p: "\<exists>m'. paint_node w n m = Inr m' \<and> ?P m'" if n: "n \<in> set ?ns" "?P m" for n m
  proof -
    obtain x where x: "w_nodes w n = Some x" "\<forall>d \<in> set (down_streams x). d \<in> dom (w_nodes w)"
      "\<forall>i < 63. bit (fast_down_strams_bak x) i \<longrightarrow>
          (\<exists>g gr' b. parent_graph x = Some g \<and> w_graphs w g = Some gr' \<and> get_node gr' (of_nat i) = Inr b)"
      using ok [OF n(1)] by blast
    have f: "\<exists>m'. paint_fast w n x i m = Inr m' \<and> ?P m'"
      if "i \<in> set (map of_nat (filter (bit (fast_down_strams_bak x)) [0..<63]))" "?P m" for i m
      using that x(3) by (fastforce simp: paint_fast_def paint_def deref_def graph_at_def simp del: rbind_eq_Inr)
    have d: "\<exists>m'. paint_down w n x d m = Inr m' \<and> ?P m'" if "d \<in> set (down_streams x)" "?P m" for d m
      using that x(2) by (fastforce simp: paint_down_def paint_def node_at_def simp del: rbind_eq_Inr)
    let ?m1 = "m\<lparr>edge_color_map := AList.update (edge_key False (graph_addr (parent_graph x)) n) virtual_edge (edge_color_map m)\<rparr>"
    let ?is = "map of_nat (filter (bit (fast_down_strams_bak x)) [0..<63]) :: u64 list"
    have "?P ?m1" using n(2) by simp
    from rfold_total [of ?is ?P "paint_fast w n x" ?m1, OF f this] obtain m2 where
      m2: "rfold (paint_fast w n x) ?is ?m1 = Inr m2" "?P m2" by blast
    from rfold_total [of "down_streams x" ?P "paint_down w n x" m2, OF d m2(2)] obtain m3 where
      "rfold (paint_down w n x) (down_streams x) m2 = Inr m3" "?P m3" by blast
    then show ?thesis using x(1) m2(1)
      by (auto simp: paint_node_def node_at_def Let_def bit_map_idx_eq fast_node_max_num_def)
  qed
  obtain m1 where m1: "rfold (classify w) ?ns ?m0 = Inr m1" "?P m1"
    using rfold_total [of ?ns ?P "classify w" ?m0, OF c] by (auto simp: members_live_def)
  obtain m2 where m2: "rfold (note_ups w) ?ns m1 = Inr m2" "?P m2" using rfold_total [of ?ns ?P "note_ups w" m1, OF us m1(2)] by auto
  obtain m where "rfold (paint_node w) ?ns m2 = Inr m" "?P m" using rfold_total [of ?ns ?P "paint_node w" m2, OF p m2(2)] by auto
  then show ?thesis using m1(1) m2(1) by (simp add: collect_maps_def)
qed







section \<open>An example\<close>

text \<open>Node 20 before node 22 in graph 4; \<open>p\<close> is the sub-graph of 20.\<close>

definition some_node :: node where
  "some_node = \<lparr>n_status = Recoverable, ghost = False, reuse = False, root_node = 0, node_id = 0, parent_graph = Some 4,
     sub_graph = Some 8, require_sub_graph = False, up_streams = [], fast_down_strams = 0, fast_down_strams_bak = 0,
     wait_count = 0, down_streams = []\<rparr>"

definition picture :: "gid option \<Rightarrow> world" where
  "picture p = \<lparr>w_nodes = [20 \<mapsto> some_node\<lparr>sub_graph := p, down_streams := [22]\<rparr>,
       22 \<mapsto> some_node\<lparr>node_id := 1, up_streams := [20, flag_node]\<rparr>],
     w_graphs = [4 \<mapsto> (graph_new nullptr)\<lparr>fast_nodes := [20, 22], node_num := 2\<rparr>, 6 \<mapsto> graph_new 20, 8 \<mapsto> graph_new 22],
     inner_schedule = None, ready_worker_num = 0, pending_worker_num = 2, enable_qf_check_circle = False,
     enable_qf_dump_graph = True\<rparr>"



lemma picture_graphs:
  "get_nodes (graph_new n) = []" "get_nodes ((graph_new nullptr)\<lparr>fast_nodes := [20, 22], node_num := 2\<rparr>) = [20, 22]"
  by (simp_all add: get_nodes_def graph_new_def)

lemma picture_drawable:
  "drawable (picture p) ((graph_new nullptr)\<lparr>fast_nodes := [20, 22], node_num := 2\<rparr>)" "drawable (picture p) (graph_new n)"
  by (simp_all add: drawable_def picture_graphs picture_def some_node_def)



section \<open>Properties\<close>



text \<open>What the picture says about the edge from \<open>a\<close> to \<open>b\<close>: blue when \<open>b\<close> is in \<open>down_streams\<close> and of the
  same graph, else black when \<open>b\<close> is behind a bit of \<open>fast_down_strams_bak\<close>, else gray when \<open>a\<close> is only among
  the \<open>up_streams\<close> of \<open>b\<close>, and no edge otherwise; and it is drawn as a back edge exactly when \<open>b\<close> required \<open>a\<close> after
  its own \<open>create_edges\<close>. For addresses that are even no two edges share a key, although the second point
  of a node is written as its address with a 1 behind it.\<close>

theorem dump_colours_edges:
  assumes "collect_maps w ns = Inr m" and "aligned w" and "w_nodes w a = Some x"
  shows "map_of (edge_color_map m) (edge_key (require_sub_graph x) a b)
      = (if a \<in> set ns \<and> slow_down w x b then Some wait_edge1
         else if a \<in> set ns \<and> fast_down w x b then Some wait_edge
         else if b \<in> set ns \<and> (\<exists>y. w_nodes w b = Some y \<and> a \<in> set (up_streams y)) then Some nowait_edge else None)
    \<and> (\<forall>y us1 us2. b \<in> set ns \<and> w_nodes w b = Some y \<and> up_streams y = us1 @ a # us2 \<and> a \<notin> set us2 \<longrightarrow>
        map_of (edge_back_flag_map m) (edge_key (require_sub_graph x) a b) = Some (flag_node \<in> set us1))
    \<and> (b \<notin> set ns \<longrightarrow> map_of (edge_back_flag_map m) (edge_key (require_sub_graph x) a b) = None)"
  using collect_maps_edges [OF assms] by blast

theorem dump_colours_edges_witness:
  "\<exists>m. collect_maps (picture None) [20, 22] = Inr m
    \<and> map_of (edge_color_map m) (edge_key False 20 22) = Some wait_edge1
    \<and> map_of (edge_back_flag_map m) (edge_key False 20 22) = Some False"
proof -
  obtain m where m: "collect_maps (picture None) [20, 22] = Inr m"
    using collect_maps_total [OF picture_drawable(1) [of None]] picture_graphs(2) by auto
  have w: "aligned (picture None)"
    by (auto simp: aligned_def graph_addr_def picture_def some_node_def split: if_splits)
  let ?x = "some_node\<lparr>sub_graph := None, down_streams := [22]\<rparr>" and ?y = "some_node\<lparr>node_id := 1, up_streams := [20, flag_node]\<rparr>"
  have x: "w_nodes (picture None) 20 = Some ?x" "\<not> require_sub_graph ?x" "slow_down (picture None) ?x 22"
    and y: "w_nodes (picture None) 22 = Some ?y" "up_streams ?y = [] @ 20 # [flag_node]" "20 \<notin> set [flag_node]"
    by (simp_all add: slow_down_def picture_def some_node_def flag_node_def)
  note t = dump_colours_edges [OF m w x(1), of 22]
  have "map_of (edge_color_map m) (edge_key False 20 22) = Some wait_edge1" using conjunct1 [OF t] x(2,3) by simp
  moreover have "map_of (edge_back_flag_map m) (edge_key (require_sub_graph ?x) 20 22) = Some (flag_node \<in> set [])"
    using conjunct1 [OF conjunct2 [OF t]] y by (meson list.set_intros)
  ultimately show ?thesis using m x(2) by simp
qed

end
