(* ===== verification/Reports.thy ===== *)
theory Reports
  imports Dump Executor
begin

text \<open>
  What the program prints and measures: \<open>StdOut\<close> (head/util.h, src/util.cpp) and \<open>Schedule::record_task_finish\<close>
  (src/schedule.cpp), which hands numbers to \<open>Metrics\<close> (head/cpp3rd/metrics.h, whose functions do nothing but return 1).
\<close>

section \<open>StdOut\<close>

text \<open>The stream collects and its destructor prints. \<open>operator<<\<close> of a variable puts a blank before what \<open>put\<close> prints of it;
  that of an \<open>unsigned long\<close> value does not.\<close>

type_synonym std_out = string

definition so_new :: std_out where
  "so_new = []"

definition so_value :: "('a \<Rightarrow> string) \<Rightarrow> 'a \<Rightarrow> std_out \<Rightarrow> std_out" where
  "so_value put v oss = oss @ '' '' @ put v"

definition so_ulong :: "u64 \<Rightarrow> std_out \<Rightarrow> std_out" where
  "so_ulong i oss = oss @ dec (unat i)"

definition so_delete :: "std_out \<Rightarrow> string \<Rightarrow> string" where
  "so_delete oss cout = cout @ oss @ [CHR 0x0A] @ [CHR 0x0A]"

section \<open>Metrics of finished tasks\<close>

text \<open>The static counter \<open>finish_cnt\<close> and what is emitted, as numbers before they become \<open>double\<close>. Every 4096th call emits.
  The counter is an \<open>int\<close>: counting past its largest value is undefined.\<close>

definition emit_timer :: "string \<Rightarrow> int \<Rightarrow> (string \<times> int) list \<Rightarrow> (string \<times> int) list" where
  "emit_timer name v ms = ms @ [(name, v)]"

definition task_reports :: "runtime \<Rightarrow> (string \<times> int) list \<Rightarrow> (string \<times> int) list result" where
  "task_reports r ms =
     (case inner_schedule (mem r) of
        None \<Rightarrow> Inl (Undefined ''null'')
      | Some s \<Rightarrow> Inr
          (emit_timer ''quiet_flow.status.pending_context_num'' (sint (pending_context_num r))
          (emit_timer ''quiet_flow.status.task_queue_length'' (uint (tq_size (s_task_queue s)))
          (emit_timer ''quiet_flow.status.ready_worker_num'' (sint (ready_worker_num (mem r)))
          (emit_timer ''quiet_flow.status.pending_worker_num'' (sint (pending_worker_num (mem r)))
          (emit_timer ''quiet_flow.status.idle_worker_num'' (sint (idle_worker_num r - 1)) ms))))))"

definition record_task_finish :: "runtime \<Rightarrow> i32 \<times> (string \<times> int) list \<Rightarrow> (i32 \<times> (string \<times> int) list) result" where
  "record_task_finish r c = (case c of (finish_cnt, ms) \<Rightarrow>
     rbind (if sint finish_cnt mod 4096 = 0 then task_reports r ms else Inr ms) (\<lambda>ms'.
       if sint finish_cnt = 2 ^ 31 - 1 then Inl (Undefined ''signed overflow'') else Inr (finish_cnt + 1, ms')))"

text \<open>The reports of \<open>n\<close> tasks.\<close>

fun finish_tasks :: "nat \<Rightarrow> runtime \<Rightarrow> i32 \<times> (string \<times> int) list \<Rightarrow> (i32 \<times> (string \<times> int) list) result" where
  "finish_tasks 0 r c = Inr c"
| "finish_tasks (Suc n) r c = rbind (record_task_finish r c) (finish_tasks n r)"

lemma finish_tasks_Suc: "finish_tasks (Suc n) r c = rbind (finish_tasks n r c) (record_task_finish r)"
proof (induction n arbitrary: c)
  case 0
  show ?case by (cases "record_task_finish r c") simp_all
next
  case (Suc n)
  have "finish_tasks (Suc (Suc n)) r c = rbind (record_task_finish r c) (finish_tasks (Suc n) r)" by (rule finish_tasks.simps(2))
  also have "finish_tasks (Suc n) r = (\<lambda>c'. rbind (finish_tasks n r c') (record_task_finish r))" using Suc.IH by (rule ext)
  finally show ?case by (simp only: finish_tasks.simps(2) rbind_assoc)
qed

lemma task_reports_length: "task_reports r ms = Inr ms' \<Longrightarrow> length ms' = length ms + 5"
  by (auto simp: task_reports_def emit_timer_def split: option.splits)

text \<open>Five numbers for every 4096 tasks begun, from the first task on.\<close>

lemma sint_small: "n < 2 ^ 31 \<Longrightarrow> sint (word_of_nat n :: i32) = int n"
  using sint_sbintrunc' [of "int n", where 'a = 32] by (simp add: signed_take_bit_int_eq_self)

lemma next_report: "(Suc n + 4095) div 4096 = (n + 4095) div 4096 + (if n mod 4096 = 0 then 1 else 0)"
proof -
  define q k where "q = n div 4096" and "k = n mod 4096"
  have n: "n = q * 4096 + k" "k < 4096" by (simp_all add: q_def k_def)
  have "(Suc n + 4095) div 4096 = Suc q" by (rule div_nat_eqI) (use n in simp_all)
  moreover have "(n + 4095) div 4096 = (if k = 0 then q else Suc q)"
    by (rule div_nat_eqI) (use n in \<open>auto split: if_splits\<close>)
  ultimately show ?thesis by (simp add: k_def [symmetric])
qed

lemma finish_tasks_count:
  assumes "inner_schedule (mem r) = Some sc" and "n < 2 ^ 31"
  shows "\<exists>ms. finish_tasks n r (0, []) = Inr (word_of_nat n, ms) \<and> length ms = 5 * ((n + 4095) div 4096)"
  using assms(2)
proof (induction n)
  case (Suc n)
  then obtain ms where ms: "finish_tasks n r (0, []) = Inr (word_of_nat n, ms)" "length ms = 5 * ((n + 4095) div 4096)" by auto
  have s: "sint (word_of_nat n :: i32) = int n" using Suc.prems by (intro sint_small) simp
  have m: "int n mod 4096 = 0 \<longleftrightarrow> n mod 4096 = 0" by presburger
  obtain ms' where "(if n mod 4096 = 0 then task_reports r ms else Inr ms) = Inr ms'"
    "length ms' = length ms + (if n mod 4096 = 0 then 5 else 0)"
    using assms(1) by (cases "n mod 4096 = 0") (auto simp: task_reports_def emit_timer_def)
  then have "finish_tasks (Suc n) r (0, []) = Inr (word_of_nat (Suc n), ms') \<and> length ms' = 5 * ((Suc n + 4095) div 4096)"
    using ms Suc.prems s m unfolding finish_tasks_Suc next_report
    by (auto simp: record_task_finish_def add.commute split: if_splits)
  then show ?case by blast
qed simp

theorem task_counter_overflows:
  assumes "inner_schedule (mem r) = Some sc"
  shows "finish_tasks (2 ^ 31) r (0, []) = Inl (Undefined ''signed overflow'')"
proof -
  obtain ms where ms: "finish_tasks (2 ^ 31 - 1) r (0, []) = Inr (word_of_nat (2 ^ 31 - 1), ms)"
    using finish_tasks_count [OF assms, of "2 ^ 31 - 1"] by auto
  have "finish_tasks (2 ^ 31) r (0, []) = finish_tasks (Suc (2 ^ 31 - 1)) r (0, [])" by simp
  also have "\<dots> = record_task_finish r (word_of_nat (2 ^ 31 - 1), ms)" unfolding finish_tasks_Suc ms by simp
  also have "\<dots> = Inl (Undefined ''signed overflow'')"
    using sint_small [of "2 ^ 31 - 1"] by (simp add: record_task_finish_def)
  finally show ?thesis .
qed

end
