(* ===== verification/Dag_Edges.thy ===== *)
theory Dag_Edges
  imports Dag_Inv
begin

text \<open>
  \<open>Graph::create_edges\<close> and \<open>Node::add_downstream\<close>: attaching a node to a graph and making it
  wait for others keeps the execution invariant and never fails.
\<close>

section \<open>What adding edges leaves alone\<close>

definition keeps :: "world \<Rightarrow> world \<Rightarrow> bool" where
  "keeps w w' \<longleftrightarrow> w_graphs w' = w_graphs w
     \<and> (\<forall>m. map_option (\<lambda>x. (n_status x, parent_graph x, node_id x, ghost x)) (w_nodes w' m)
          = map_option (\<lambda>x. (n_status x, parent_graph x, node_id x, ghost x)) (w_nodes w m))"

lemma keeps_refl [simp]: "keeps w w"
  by (simp add: keeps_def)

lemma keeps_trans: "keeps w w' \<Longrightarrow> keeps w' w'' \<Longrightarrow> keeps w w''"
  by (simp add: keeps_def)

lemma keeps_same: "w_nodes w' = w_nodes w \<Longrightarrow> w_graphs w' = w_graphs w \<Longrightarrow> keeps w w'"
  by (simp add: keeps_def)

lemma keeps_put:
  "w_nodes w n = Some x \<Longrightarrow> n_status x' = n_status x \<Longrightarrow> parent_graph x' = parent_graph x \<Longrightarrow>
   node_id x' = node_id x \<Longrightarrow> ghost x' = ghost x \<Longrightarrow> keeps w (put_node n x' w)"
  by (simp add: keeps_def)

lemma keepsD:
  assumes "keeps w w'" and "w_nodes w m = Some x"
  obtains y where "w_nodes w' m = Some y" and "n_status y = n_status x"
    and "parent_graph y = parent_graph x" and "node_id y = node_id x"
proof -
  have "map_option (\<lambda>x. (n_status x, parent_graph x, node_id x, ghost x)) (w_nodes w' m)
      = Some (n_status x, parent_graph x, node_id x, ghost x)" using assms by (simp add: keeps_def)
  then show ?thesis using that by auto
qed

section \<open>One notification\<close>

lemma notify_step:
  assumes "exec_inv w e h d" and "e n = Suc k"
  shows "\<exists>w'. notify n w = Inr w' \<and> exec_inv w' (e(n := k)) h d \<and> keeps w w'"
proof -
  obtain y w1 where y: "w_nodes w n = Some y"
    "sub_wait_count n w = Inr (of_nat (owed w e n), w1)"
    "w1 = put_node n (y\<lparr>wait_count := of_nat (owed w e n - 1)\<rparr>) w"
    "(of_nat (owed w e n) = (1 :: i32)) = (owed w e n = 1)"
    "exec_inv w1 (e(n := k)) (if owed w e n = 1 then add_mset n h else h) d"
    using sub_wait_count_step [OF assms] by blast
  have k1: "keeps w w1" unfolding y(3) by (rule keeps_put [OF y(1)]) simp_all
  show ?thesis
  proof (cases "owed w e n = 1")
    case True
    with y(5) have "exec_inv w1 (e(n := k)) (add_mset n h) d" by simp
    then obtain w2 where "node_ready n w1 = Inr w2" "exec_inv w2 (e(n := k)) h d"
      "w_nodes w2 = w_nodes w1" "w_graphs w2 = w_graphs w1" using node_ready_step by blast
    moreover from this k1 have "keeps w w2" by (blast intro: keeps_trans keeps_same)
    moreover have "notify n w = node_ready n w1" using y(2,4) True by (simp add: notify_def)
    ultimately show ?thesis by auto
  next
    case False
    then have "notify n w = Inr w1" using y(2,4) by (simp add: notify_def)
    with y(5) False k1 show ?thesis by auto
  qed
qed

section \<open>Registering an edge\<close>

lemma rank_insert:
  assumes "\<exists>f :: nid \<Rightarrow> nat. \<forall>m. \<forall>s \<in> d m. f s < f m" and "\<forall>m. n \<notin> d m" and "r \<noteq> n"
  shows "\<exists>f :: nid \<Rightarrow> nat. \<forall>m. \<forall>s \<in> (d(n := insert r (d n))) m. f s < f m"
proof -
  obtain f :: "nid \<Rightarrow> nat" where f: "\<forall>m. \<forall>s \<in> d m. f s < f m" using assms(1) by blast
  let ?f = "f(n := Suc (f n + f r))"
  have "?f s < ?f m" if "s \<in> (d(n := insert r (d n))) m" for m s
  proof (cases "m = n")
    case True
    with that have "s = r \<or> s \<in> d n" by simp
    moreover have "s \<in> d n \<Longrightarrow> s \<noteq> n \<and> f s < f n" using f assms(2) by blast
    ultimately show ?thesis using True assms(3) by auto
  next
    case False
    with that have "s \<in> d m" by simp
    then have "s \<noteq> n \<and> f s < f m" using f assms(2) by blast
    with False show ?thesis by simp
  qed
  then show ?thesis by blast
qed

lemma register_edge:
  assumes "exec_inv w e h d" and "w_nodes w r = Some x" and "w_nodes w n = Some y" and "r \<noteq> n"
    and "parent_graph x \<noteq> None" and "\<forall>m. n \<notin> d m" and "e n = Suc k"
    and x': "parent_graph x' = parent_graph x" "node_id x' = node_id x" "n_status x' = n_status x"
      "wait_count x' = wait_count x" "links_ok w x'"
    and cnt: "edge_count x' n y = Suc (edge_count x n y)"
      "\<And>m z. m \<noteq> n \<Longrightarrow> w_nodes w m = Some z \<Longrightarrow> edge_count x' m z = edge_count x m z"
  shows "exec_inv (put_node r x' w) (e(n := k)) h (d(n := insert r (d n)))"
proof -
  let ?w = "put_node r x' w" and ?d = "d(n := insert r (d n))"
  have inv: "store_ok w" "counts_ok w e h" "deps_ok w d" using assms(1) by (auto simp: exec_inv_def)
  have dom: "dom (w_nodes ?w) = dom (w_nodes w)" using assms(2) by auto
  have fin: "finite (dom (w_nodes w))" using inv(1) by (simp add: store_ok_def)
  have out: "edge ?w s m = (if s = r then edge_count x' m z else edge w s m)"
    if "w_nodes w m = Some z" for s m z
    by (rule edge_put_out [OF assms(2) x'(1,2) that])
  have edge: "edge ?w s m = (if s = r \<and> m = n then Suc (edge w r n) else edge w s m)" for s m
  proof (cases "w_nodes w m")
    case None
    then have "w_nodes ?w m = None" using assms(2) by auto
    with None assms(3) show ?thesis by (auto simp: edge_def split: option.splits)
  next
    case (Some z)
    show ?thesis
    proof (cases "m = n")
      case True
      with out [OF assms(3)] cnt(1) assms(2,3) show ?thesis by (simp add: edge_Some)
    next
      case False
      with out [OF Some] cnt(2) [OF False Some] assms(2) Some show ?thesis by (simp add: edge_Some)
    qed
  qed
  have pn: "pend ?w n = Suc (pend w n)"
    using pend_put_out [OF fin assms(2) x'(1,2) assms(3)] cnt(1) by simp
  have pm: "pend ?w m = pend w m" if "m \<noteq> n" for m
    unfolding pend_def dom using edge that by simp
  have "store_ok ?w" by (rule store_ok_put [OF inv(1) assms(2) x'(1,2,5)])
  moreover have "counts_ok ?w (e(n := k)) h"
  proof (rule counts_ok_cong [OF inv(2) dom])
    show "waits_ok z' = waits_ok z" if "w_nodes w m = Some z" "w_nodes ?w m = Some z'" for m z z'
      using that assms(2) x' by (cases "m = r") (auto simp: waits_ok_def fun_eq_iff)
    show "owed ?w (e(n := k)) m = owed w e m" for m
      using pn pm [of m] assms(7) by (cases "m = n") (simp_all add: owed_def)
  qed simp
  moreover have "deps_ok ?w ?d"
    unfolding deps_ok_def
  proof (intro conjI allI ballI impI)
    fix s m
    show "s \<in> ?d m" if "0 < edge ?w s m"
      using that inv(3) by (cases "s = r \<and> m = n") (auto simp: edge deps_ok_def)
  next
    fix m s assume s: "s \<in> ?d m"
    show "\<exists>z. w_nodes ?w s = Some z \<and> parent_graph z \<noteq> None
        \<and> (n_status z < Finish \<longrightarrow> 0 < edge ?w s m)"
    proof (cases "s = r \<and> m = n")
      case True
      then show ?thesis using assms(5) x'(1) by (simp add: edge)
    next
      case False
      then have "s \<in> d m" using s by (auto split: if_splits)
      then obtain z where z: "w_nodes w s = Some z" "parent_graph z \<noteq> None"
        "n_status z < Finish \<longrightarrow> 0 < edge w s m" using inv(3) unfolding deps_ok_def by blast
      then show ?thesis using x'(1,3) assms(2) by (cases "s = r") (simp_all add: edge)
    qed
  next
    show "\<exists>f :: nid \<Rightarrow> nat. \<forall>m. \<forall>s \<in> ?d m. f s < f m"
      using inv(3) assms(4,6) by (intro rank_insert) (simp_all add: deps_ok_def)
  qed
  ultimately show ?thesis by (simp add: exec_inv_def)
qed

lemma deps_insert_done:
  assumes "exec_inv w e h d" and "w_nodes w r = Some x" and "parent_graph x \<noteq> None"
    and "Finish \<le> n_status x" and "r \<noteq> n" and "\<forall>m. n \<notin> d m"
  shows "exec_inv w e h (d(n := insert r (d n)))"
proof -
  have dp: "deps_ok w d" using assms(1) by (simp add: exec_inv_def)
  have "deps_ok w (d(n := insert r (d n)))"
    unfolding deps_ok_def
  proof (intro conjI)
    show "\<forall>s m. 0 < edge w s m \<longrightarrow> s \<in> (d(n := insert r (d n))) m"
      using dp by (auto simp: deps_ok_def)
    show "\<forall>m. \<forall>s \<in> (d(n := insert r (d n))) m. \<exists>z. w_nodes w s = Some z \<and> parent_graph z \<noteq> None
        \<and> (n_status z < Finish \<longrightarrow> 0 < edge w s m)"
      using dp assms(2-4) by (auto simp: deps_ok_def)
    show "\<exists>f :: nid \<Rightarrow> nat. \<forall>m. \<forall>s \<in> (d(n := insert r (d n))) m. f s < f m"
      using dp assms(5,6) by (intro rank_insert) (simp_all add: deps_ok_def)
  qed
  with assms(1) show ?thesis by (simp add: exec_inv_def)
qed

section \<open>add_downstream\<close>

lemma register_slow:
  assumes "exec_inv w e h d" and "w_nodes w r = Some x" and "w_nodes w n = Some y" and "r \<noteq> n"
    and "parent_graph x \<noteq> None" and "n_status x < Finish" and "\<forall>m. n \<notin> d m" and "e n = Suc k"
  shows "exec_inv (put_node r (x\<lparr>down_streams := down_streams x @ [n]\<rparr>) w) (e(n := k)) h
    (d(n := insert r (d n)))"
proof (rule register_edge [OF assms(1-5,7,8)])
  have "0 < owed w e n" using assms(8) by (simp add: owed_def)
  then have py: "parent_graph y \<noteq> None" using owed_node [OF assms(1)] assms(3) by (metis option.inject option.simps(3))
  show "links_ok w (x\<lparr>down_streams := down_streams x @ [n]\<rparr>)"
    using exec_invD(1) [OF assms(1,2)] assms(3,5) py unfolding links_ok_def by simp
qed (use assms(6) in \<open>simp_all add: edge_count_def fast_edge_def\<close>)

lemma fast_node_of:
  assumes "exec_inv w e h d" and "w_nodes w n = Some y" and "parent_graph y = Some g"
    and "node_id y < fast_node_max_num"
  obtains gr where "w_graphs w g = Some gr" and "fast_nodes gr ! unat (node_id y) = n"
    and "length (fast_nodes gr) = 63"
proof -
  have st: "store_ok w" using assms(1) by (simp add: exec_inv_def)
  have "links_ok w y" using exec_invD(1) [OF assms(1,2)] .
  then obtain gr where gr: "w_graphs w g = Some gr"
    using assms(3) unfolding links_ok_def by blast
  then have ok: "graph_ok w g gr" using st by (simp add: store_ok_def)
  then have n: "node_id y < node_num gr" "fast_nodes gr ! unat (node_id y) = n"
    using assms(2-4) unfolding graph_ok_def by blast+
  from n(1) have "node_num gr \<noteq> 0" by auto
  with ok have "length (fast_nodes gr) = 63" unfolding graph_ok_def by blast
  with gr n(2) that show ?thesis by blast
qed

lemma fast_num_unat: "i < fast_node_max_num \<longleftrightarrow> unat i < 63"
  by (simp add: fast_node_max_num_def word_less_nat_alt)

lemma register_fast:
  assumes "exec_inv w e h d" and "w_nodes w r = Some x" and "w_nodes w n = Some y" and "r \<noteq> n"
    and "parent_graph x = parent_graph y" and "parent_graph y = Some g" and "n_status x < Finish"
    and "node_id y < fast_node_max_num" and "\<not> bit (fast_down_strams x) (unat (node_id y))"
    and "\<forall>m. n \<notin> d m" and "e n = Suc k"
  shows "exec_inv (put_node r (x\<lparr>fast_down_strams := fast_down_strams x OR 2 ^ unat (node_id y)\<rparr>) w)
    (e(n := k)) h (d(n := insert r (d n)))"
proof -
  let ?x = "x\<lparr>fast_down_strams := fast_down_strams x OR 2 ^ unat (node_id y)\<rparr>"
  have i63: "unat (node_id y) < 63" using assms(8) by (simp add: fast_num_unat)
  then have bit: "bit (fast_down_strams ?x) j \<longleftrightarrow> bit (fast_down_strams x) j \<or> j = unat (node_id y)" for j
    by (simp add: bit_or_pow2)
  obtain gr where gr: "w_graphs w g = Some gr" "fast_nodes gr ! unat (node_id y) = n"
    using fast_node_of [OF assms(1,3,6,8)] by blast
  show ?thesis
  proof (rule register_edge [OF assms(1-4) _ assms(10,11)])
    show "parent_graph x \<noteq> None" using assms(5,6) by simp
    have new: "\<exists>g gr u. parent_graph ?x = Some g \<and> w_graphs w g = Some gr
        \<and> w_nodes w (fast_nodes gr ! unat (node_id y)) = Some u \<and> parent_graph u = Some g
        \<and> node_id u = of_nat (unat (node_id y))"
      using gr assms(3,5,6) by simp
    show "links_ok w ?x"
      using exec_invD(1) [OF assms(1,2)] i63 new assms(5,6) unfolding links_ok_def bit by auto
    have "fast_edge ?x y" using assms(5,6,8) bit by (simp add: fast_edge_def)
    moreover have "\<not> fast_edge x y" using assms(9) by (simp add: fast_edge_def)
    ultimately show "edge_count ?x n y = Suc (edge_count x n y)"
      using assms(7) by (simp add: edge_count_def)
    show "edge_count ?x m z = edge_count x m z" if m: "m \<noteq> n" "w_nodes w m = Some z" for m z
    proof -
      have "fast_edge ?x z = fast_edge x z"
      proof (cases "parent_graph z = Some g \<and> node_id z < fast_node_max_num")
        case True
        then obtain gr' where "w_graphs w g = Some gr'" "fast_nodes gr' ! unat (node_id z) = m"
          using fast_node_of [OF assms(1) m(2)] by blast
        with gr m(1) have "unat (node_id z) \<noteq> unat (node_id y)" by auto
        then show ?thesis using bit by (simp add: fast_edge_def)
      next
        case False
        then show ?thesis using assms(5,6) by (auto simp: fast_edge_def)
      qed
      then show ?thesis by (simp add: edge_count_def)
    qed
  qed simp_all
qed

lemma add_downstream_step:
  assumes "exec_inv w e h d" and "w_nodes w r = Some x" and "parent_graph x \<noteq> None" and "r \<noteq> n"
    and "e n = Suc k" and "\<forall>m. n \<notin> d m"
  shows "\<exists>v w'. add_downstream r n w = Inr (v, w')
    \<and> exec_inv w' (e(n := k)) h (d(n := insert r (d n))) \<and> keeps w w'"
proof -
  have "0 < owed w e n" using assms(5) by (simp add: owed_def)
  then obtain y g where y: "w_nodes w n = Some y" "n_status y = Initing" "parent_graph y = Some g"
    using owed_node [OF assms(1)] by metis
  obtain w1 where w1: "notify n w = Inr w1" "exec_inv w1 (e(n := k)) h d" "keeps w w1"
    using notify_step [OF assms(1,5)] by blast
  obtain x1 where x1: "w_nodes w1 r = Some x1" "n_status x1 = n_status x"
    "parent_graph x1 = parent_graph x" using keepsD [OF w1(3) assms(2)] by blast
  have bak: "n_status x < Finish \<Longrightarrow> fast_down_strams_bak x = fast_down_strams_bak_init"
    using exec_invD(1) [OF assms(1,2)] by (simp add: links_ok_def)
  have bak1: "n_status x < Finish \<Longrightarrow> fast_down_strams_bak x1 = fast_down_strams_bak_init"
    using exec_invD(1) [OF w1(2) x1(1)] x1(2) by (simp add: links_ok_def)
  show ?thesis
  proof (cases "Finish \<le> n_status x")
    case True
    have "exec_inv w1 (e(n := k)) h (d(n := insert r (d n)))"
      using x1 True assms(3,4,6) by (intro deps_insert_done [OF w1(2) x1(1)]) simp_all
    moreover have "add_downstream r n w = Inr (- 1, w1)"
      using True assms(2,4) w1(1) by (simp add: add_downstream_def)
    ultimately show ?thesis using w1(3) by blast
  next
    case False
    then have run: "n_status x < Finish" and nf: "\<not> Finish \<le> n_status x" by simp_all
    show ?thesis
    proof (cases "parent_graph x = parent_graph y \<and> node_id y < fast_node_max_num")
      case True
      then have n63: "node_id y < fast_node_max_num" and m64: "fast_node_max_num < 64"
        by (simp_all add: fast_node_max_num_def)
      have eq: "add_downstream r n w = add_fast_downstream r n (node_id y) w"
        using True False assms(2,4) y(1) by (simp add: add_downstream_def)
      show ?thesis
      proof (cases "bit (fast_down_strams x) (unat (node_id y))")
        case True
        have "fast_edge x y" using True \<open>parent_graph x = parent_graph y \<and> _\<close> y(3)
          by (simp add: fast_edge_def)
        then have "0 < edge w r n" using run assms(2) y(1) by (simp add: edge_Some edge_count_def)
        then have "r \<in> d n" using assms(1) by (simp add: exec_inv_def deps_ok_def)
        then have "d(n := insert r (d n)) = d" by (simp add: fun_eq_iff insert_absorb)
        moreover have "add_fast_downstream r n (node_id y) w = Inr (0, w1)"
          using True n63 assms(2) w1(1) x1(1) bak1 [OF run]
          by (simp add: add_fast_downstream_def bit_map_get_eq [OF m64])
        ultimately show ?thesis using eq w1(2,3) by metis
      next
        case bit: False
        let ?x = "x\<lparr>fast_down_strams := fast_down_strams x OR 2 ^ unat (node_id y)\<rparr>"
        have "add_fast_downstream r n (node_id y) w = Inr (0, put_node r ?x w)"
          using bit n63 assms(2) bak [OF run]
          by (simp add: add_fast_downstream_def bit_map_get_eq [OF m64] bit_map_set_eq [OF m64] Let_def)
        moreover have "exec_inv (put_node r ?x w) (e(n := k)) h (d(n := insert r (d n)))"
          using register_fast [OF assms(1,2) y(1) assms(4) _ y(3) run n63 bit assms(6,5)] True by blast
        moreover have "keeps w (put_node r ?x w)" by (rule keeps_put [OF assms(2)]) simp_all
        ultimately show ?thesis using eq by metis
      qed
    next
      case False
      let ?x = "x\<lparr>down_streams := down_streams x @ [n]\<rparr>"
      have "add_downstream r n w = Inr (0, put_node r ?x w)"
        using False nf assms(2,4) y(1) by (auto simp: add_downstream_def)
      moreover have "exec_inv (put_node r ?x w) (e(n := k)) h (d(n := insert r (d n)))"
        by (rule register_slow [OF assms(1,2) y(1) assms(4,3) run assms(6,5)])
      moreover have "keeps w (put_node r ?x w)" by (rule keeps_put [OF assms(2)]) simp_all
      ultimately show ?thesis by metis
    qed
  qed
qed

section \<open>The loop over the required nodes\<close>

lemma append_upstreams_step:
  assumes "exec_inv w e h d" and "w_nodes w n = Some y"
  shows "\<exists>w'. append_upstreams n m w = Inr w' \<and> exec_inv w' e h d \<and> keeps w w'"
proof -
  let ?y = "y\<lparr>up_streams := up_streams y @ [m]\<rparr>"
  have "exec_inv (put_node n ?y w) e h d"
    by (rule exec_inv_put_same [OF assms]) (simp_all add: same_links_def)
  moreover have "keeps w (put_node n ?y w)" by (rule keeps_put [OF assms(2)]) simp_all
  ultimately show ?thesis
    using assms by (simp add: append_upstreams_def mod_node_def)
qed

definition linkable :: "world \<Rightarrow> nid \<Rightarrow> nid list \<Rightarrow> bool" where
  "linkable w n reqs \<longleftrightarrow> (\<forall>r \<in> set reqs. r = nullptr \<or> r = n
     \<or> (case w_nodes w r of None \<Rightarrow> False | Some x \<Rightarrow> parent_graph x \<noteq> None))"

lemma linkable_iff:
  "linkable w n reqs \<longleftrightarrow> (\<forall>r \<in> set reqs. r = nullptr \<or> r = n
     \<or> (\<exists>x. w_nodes w r = Some x \<and> parent_graph x \<noteq> None))"
proof -
  have "(case w_nodes w r of None \<Rightarrow> False | Some x \<Rightarrow> parent_graph x \<noteq> None)
      \<longleftrightarrow> (\<exists>x. w_nodes w r = Some x \<and> parent_graph x \<noteq> None)" for r
    by (simp split: option.splits)
  then show ?thesis by (simp only: linkable_def)
qed

definition required :: "nid \<Rightarrow> nid list \<Rightarrow> nid set" where
  "required n reqs = {r \<in> set reqs. r \<noteq> nullptr \<and> r \<noteq> n}"

lemma linkable_keeps:
  assumes "keeps w w'" and "linkable w n reqs"
  shows "linkable w' n reqs"
  unfolding linkable_iff
proof
  fix r assume "r \<in> set reqs"
  then consider "r = nullptr \<or> r = n" | x where "w_nodes w r = Some x" "parent_graph x \<noteq> None"
    using assms(2) unfolding linkable_iff by blast
  then show "r = nullptr \<or> r = n \<or> (\<exists>x. w_nodes w' r = Some x \<and> parent_graph x \<noteq> None)"
  proof cases
    case 2
    from keepsD [OF assms(1) this(1)] 2(2) show ?thesis by metis
  qed blast
qed

lemma link_required_step:
  assumes "exec_inv w e h d" and "e n = Suc k" and "linkable w n [r]" and "\<forall>m. n \<notin> d m"
    and "n \<noteq> nullptr"
  shows "\<exists>w'. link_required n r w = Inr w'
    \<and> exec_inv w' (e(n := k)) h (d(n := d n \<union> required n [r])) \<and> keeps w w'"
proof -
  have "0 < owed w e n" using assms(2) by (simp add: owed_def)
  then obtain y where y: "w_nodes w n = Some y" using owed_node [OF assms(1)] by metis
  show ?thesis
  proof (cases "r = nullptr")
    case True
    then have "required n [r] = {}" by (auto simp: required_def)
    then have "d(n := d n \<union> required n [r]) = d" by simp
    with True notify_step [OF assms(1,2)] show ?thesis by (simp add: link_required_def)
  next
    case r0: False
    obtain w1 where w1: "append_upstreams n r w = Inr w1" "exec_inv w1 e h d" "keeps w w1"
      using append_upstreams_step [OF assms(1) y] by blast
    show ?thesis
    proof (cases "r = n")
      case True
      obtain w2 where "notify n w1 = Inr w2" "exec_inv w2 (e(n := k)) h d" "keeps w1 w2"
        using notify_step [OF w1(2) assms(2)] by blast
      moreover have "required n [r] = {}" using True by (auto simp: required_def)
      then have "d(n := d n \<union> required n [r]) = d" by simp
      ultimately show ?thesis using True r0 w1
        by (auto simp: link_required_def add_downstream_def intro: keeps_trans)
    next
      case rn: False
      have "linkable w1 n [r]" by (rule linkable_keeps [OF w1(3) assms(3)])
      then obtain x where x: "w_nodes w1 r = Some x" "parent_graph x \<noteq> None"
        using r0 rn unfolding linkable_iff by auto
      obtain v w2 where w2: "add_downstream r n w1 = Inr (v, w2)"
        "exec_inv w2 (e(n := k)) h (d(n := insert r (d n)))" "keeps w1 w2"
        using add_downstream_step [OF w1(2) x rn assms(2,4)] by blast
      have "required n [r] = {r}" using r0 rn by (auto simp: required_def)
      then have "d n \<union> required n [r] = insert r (d n)" by simp
      moreover have "link_required n r w = Inr w2" using r0 w1(1) w2(1) by (simp add: link_required_def)
      ultimately show ?thesis using w2(2,3) w1(3) by (metis keeps_trans)
    qed
  qed
qed

lemma links_step:
  assumes "exec_inv w e h d" and "e n = length reqs" and "linkable w n reqs" and "\<forall>m. n \<notin> d m"
    and "n \<noteq> nullptr"
  shows "\<exists>w'. rfold (link_required n) reqs w = Inr w'
    \<and> exec_inv w' (e(n := 0)) h (d(n := d n \<union> required n reqs)) \<and> keeps w w'"
  using assms
proof (induction reqs arbitrary: w e d)
  case Nil
  then have "e(n := 0) = e" "d(n := d n \<union> required n []) = d"
    by (auto simp: fun_eq_iff required_def)
  with Nil.prems(1) show ?case by simp
next
  case (Cons r reqs)
  have l: "linkable w n [r]" "linkable w n reqs" using Cons.prems(3) by (auto simp: linkable_iff)
  obtain w1 where w1: "link_required n r w = Inr w1"
    "exec_inv w1 (e(n := length reqs)) h (d(n := d n \<union> required n [r]))" "keeps w w1"
    using link_required_step [OF Cons.prems(1) _ l(1) Cons.prems(4,5)] Cons.prems(2) by auto
  have "linkable w1 n reqs" by (rule linkable_keeps [OF w1(3) l(2)])
  moreover have "\<forall>m. n \<notin> (d(n := d n \<union> required n [r])) m"
    using Cons.prems(4) by (simp add: required_def)
  moreover have "(e(n := length reqs)) n = length reqs" by simp
  ultimately obtain w2 where w2: "rfold (link_required n) reqs w1 = Inr w2"
    "exec_inv w2 ((e(n := length reqs))(n := 0)) h ((d(n := d n \<union> required n [r]))
       (n := (d(n := d n \<union> required n [r])) n \<union> required n reqs))" "keeps w1 w2"
    using Cons.IH [OF w1(2)] Cons.prems(5) by blast
  have "required n (r # reqs) = required n [r] \<union> required n reqs" by (auto simp: required_def)
  then have "exec_inv w2 (e(n := 0)) h (d(n := d n \<union> required n (r # reqs)))"
    using w2(2) by (simp add: Un_assoc)
  moreover have "rfold (link_required n) (r # reqs) w = Inr w2" using w1(1) w2(1) by simp
  ultimately show ?case using keeps_trans [OF w1(3) w2(3)] by blast
qed

lemma add_wait_count_step:
  assumes "exec_inv w e (add_mset n h) d" and "0 < k" and "k < i32_lim"
  shows "\<exists>v w'. add_wait_count n (of_nat k) w = Inr (v, w') \<and> exec_inv w' (e(n := k)) h d
    \<and> keeps w w'"
proof -
  have c: "counts_ok w e (add_mset n h)" using assms(1) by (simp add: exec_inv_def)
  obtain y g where y: "w_nodes w n = Some y" "n_status y = Initing" "parent_graph y = Some g"
    "owed w e n = 0" "n \<notin># queue w" "n \<notin># h"
    using held_node [OF c] by blast
  have "waits_ok y 0 (count (queue w + add_mset n h) n)"
    using exec_invD(2) [OF assms(1) y(1)] y(4) by simp
  then have wc: "wait_count y = 0" using y(2,3) by (simp add: waits_ok_def)
  let ?y = "y\<lparr>wait_count := of_nat k\<rparr>"
  have "exec_inv (put_node n ?y w) (e(n := k)) h d"
  proof (rule exec_inv_put [OF assms(1) y(1)])
    show "waits_ok ?y (owed w (e(n := k)) n) (count (queue w + h) n)"
      using y assms(2,3) by (simp add: waits_ok_def owed_def not_in_iff)
    show "n_status ?y < Finish \<Longrightarrow> fast_down_strams_bak ?y = fast_down_strams_bak_init"
      using exec_invD(1) [OF assms(1) y(1)] by (simp add: links_ok_def)
  qed (use y(3) in \<open>simp_all add: same_links_def\<close>)
  moreover have "keeps w (put_node n ?y w)" by (rule keeps_put [OF y(1)]) simp_all
  ultimately show ?thesis using y(1) wc by (simp add: add_wait_count_def)
qed

section \<open>Attaching a node\<close>

text \<open>The node and the graph after the common head of \<open>create_edges\<close>.\<close>

definition attached_node :: "gid \<Rightarrow> graph \<Rightarrow> nid \<Rightarrow> node \<Rightarrow> node" where
  "attached_node g gr rt x = x\<lparr>root_node := rt, parent_graph := Some g, node_id := node_num gr\<rparr>"

definition grown_graph :: "nid \<Rightarrow> graph \<Rightarrow> graph" where
  "grown_graph n gr =
     (let fast = (if node_num gr = 0 then vec_resize 63 (fast_nodes gr) else fast_nodes gr) in
      if node_num gr < fast_node_max_num
      then gr\<lparr>g_wait_count := g_wait_count gr + 1, fast_nodes := fast[unat (node_num gr) := n],
             g_status := Running, node_num := node_num gr + 1\<rparr>
      else gr\<lparr>g_wait_count := g_wait_count gr + 1, fast_nodes := fast, g_nodes := g_nodes gr @ [n],
             g_status := Running, node_num := node_num gr + 1\<rparr>)"

lemma length_vec_resize [simp]: "length (vec_resize k v) = k"
  by (simp add: vec_resize_def)

lemma grown_fields:
  "node_num (grown_graph n gr) = node_num gr + 1" "limit_graph (grown_graph n gr) = limit_graph gr"
  "g_down_streams (grown_graph n gr) = g_down_streams gr"
  "parent_node (grown_graph n gr) = parent_node gr"
  "g_wait_count (grown_graph n gr) = g_wait_count gr + 1"
  by (simp_all add: grown_graph_def Let_def)

lemma grown_fast:
  assumes "node_num gr \<noteq> 0 \<longrightarrow> length (fast_nodes gr) = 63"
  shows "length (fast_nodes (grown_graph n gr)) = 63"
    and "node_num gr < fast_node_max_num \<Longrightarrow> fast_nodes (grown_graph n gr) ! unat (node_num gr) = n"
    and "node_num gr \<noteq> 0 \<Longrightarrow> i \<noteq> unat (node_num gr) \<Longrightarrow>
      fast_nodes (grown_graph n gr) ! i = fast_nodes gr ! i"
  using assms by (auto simp: grown_graph_def Let_def fast_num_unat)

lemma put_node_put_node [simp]: "put_node n a (put_node n b w) = put_node n a w"
  by (simp add: put_node_def)

lemma put_graph_put_graph [simp]: "put_graph g a (put_graph g b w) = put_graph g a w"
  by (simp add: put_graph_def)

lemma put_graph_put_node: "put_graph g a (put_node n b w) = put_node n b (put_graph g a w)"
  by (simp add: put_graph_def put_node_def)

lemma attach_node_eq:
  assumes "w_nodes w n = Some x" and "w_graphs w g = Some gr"
    and "node_num gr \<noteq> 0 \<longrightarrow> length (fast_nodes gr) = 63"
    and "parent_node gr \<noteq> nullptr \<longrightarrow> parent_node gr \<in> dom (w_nodes w)"
  shows "\<exists>rt. attach_node g n w
    = Inr (put_node n (attached_node g gr rt x) (put_graph g (grown_graph n gr) w))"
proof -
  have m63: "unat fast_node_max_num = 63" by (simp add: fast_node_max_num_def)
  have len: "node_num gr < fast_node_max_num \<Longrightarrow> node_num gr \<noteq> 0 \<Longrightarrow>
      unat (node_num gr) < length (fast_nodes gr)"
    using assms(3) by (simp add: fast_num_unat)
  have pos: "node_num gr < fast_node_max_num \<Longrightarrow> unat (node_num gr) < 63"
    by (simp add: fast_num_unat)
  have z63: "0 < fast_node_max_num" by (simp add: fast_node_max_num_def)
  show ?thesis
  proof (cases "parent_node gr = nullptr")
    case True
    have x: "attached_node g gr (root_node x) x = x\<lparr>parent_graph := Some g, node_id := node_num gr\<rparr>"
      by (simp add: attached_node_def)
    show ?thesis
      by (rule exI [of _ "root_node x"], unfold x)
        (use assms(1,2) True len pos z63 in
          \<open>auto simp: attach_node_def mod_graph_def mod_node_def Let_def grown_graph_def m63
            put_graph_put_node\<close>)
  next
    case False
    then obtain p where p: "w_nodes w (parent_node gr) = Some p" using assms(4) by blast
    show ?thesis
      by (rule exI [of _ "root_node p"])
        (use assms(1,2) False p len pos z63 in
          \<open>auto simp: attach_node_def mod_graph_def mod_node_def Let_def grown_graph_def m63
            put_graph_put_node attached_node_def\<close>)
  qed
qed

lemma num_less_inc: "k + 1 \<noteq> 0 \<Longrightarrow> (i :: u64) < k + 1 \<longleftrightarrow> i < k \<or> i = k"
  using unatSuc [of k] by (auto simp: add.commute word_less_nat_alt word_unat_eq_iff)

lemma bits_below:
  assumes "exec_inv w e h d" and "w_nodes w s = Some z" and "bit (fast_down_strams z) i"
    and "w_graphs w g = Some gr" and "parent_graph z = Some g"
  shows "i < 63" "i < unat (node_num gr)" "\<exists>y. w_nodes w (fast_nodes gr ! i) = Some y
    \<and> parent_graph y = Some g \<and> node_id y = of_nat i"
proof -
  obtain g' gr' y where y: "i < 63" "parent_graph z = Some g'" "w_graphs w g' = Some gr'"
    "w_nodes w (fast_nodes gr' ! i) = Some y" "parent_graph y = Some g'" "node_id y = of_nat i"
    using exec_invD(1) [OF assms(1,2)] assms(3) unfolding links_ok_def by blast
  then have g: "g' = g" "gr' = gr" using assms(4,5) by simp_all
  have "graph_ok w g gr" using assms(1,4) by (simp add: exec_inv_def store_ok_def)
  then have "node_id y < node_num gr" using y(4,5) g unfolding graph_ok_def by blast
  moreover have "unat (of_nat i :: u64) = i" using y(1) by (simp add: unat_of_nat)
  ultimately show "i < unat (node_num gr)" using y(6) by (simp add: word_less_nat_alt)
  show "i < 63" by (rule y(1))
  show "\<exists>y. w_nodes w (fast_nodes gr ! i) = Some y \<and> parent_graph y = Some g \<and> node_id y = of_nat i"
    using y g by blast
qed

text \<open>The store with the node attached, and what it means for the rest of it.\<close>

definition attach_world :: "gid \<Rightarrow> graph \<Rightarrow> nid \<Rightarrow> node \<Rightarrow> nid \<Rightarrow> world \<Rightarrow> world" where
  "attach_world g gr n x rt w =
     put_node n (attached_node g gr rt x) (put_graph g (grown_graph n gr) w)"

lemma attach_graph_ok:
  assumes inv: "exec_inv w e h d" and x: "w_nodes w n = Some x" "parent_graph x = None"
    and gr: "w_graphs w g = Some gr" "node_num gr + 1 \<noteq> 0"
    and g1: "w_graphs (attach_world g gr n x rt w) g1 = Some gr1"
  shows "graph_ok (attach_world g gr n x rt w) g1 gr1"
proof -
  let ?w = "attach_world g gr n x rt w"
  have dom: "dom (w_nodes ?w) = dom (w_nodes w)" using x(1) by (auto simp: attach_world_def)
  have ok: "graph_ok w g0 gr0" if "w_graphs w g0 = Some gr0" for g0 gr0
    using inv that by (simp add: exec_inv_def store_ok_def)
  have other: "w_nodes w m = Some z" if "w_nodes ?w m = Some z" "m \<noteq> n" for m z
    using that by (simp add: attach_world_def)
  have self: "w_nodes ?w n = Some (attached_node g gr rt x)" by (simp add: attach_world_def)
  show ?thesis
  proof (cases "g1 = g")
    case True
    then have gr1: "gr1 = grown_graph n gr" using g1 by (simp add: attach_world_def)
    have f: "node_num gr \<noteq> 0 \<longrightarrow> length (fast_nodes gr) = 63"
      using ok [OF gr(1)] by (simp add: graph_ok_def)
    have "node_id z < node_num gr1
        \<and> (node_id z < fast_node_max_num \<longrightarrow> fast_nodes gr1 ! unat (node_id z) = m)"
      if m: "w_nodes ?w m = Some z" "parent_graph z = Some g" for m z
    proof (cases "m = n")
      case True
      then have "z = attached_node g gr rt x" using m self by simp
      then have "node_id z = node_num gr" by (simp add: attached_node_def)
      then show ?thesis using True gr(2) grown_fast(2) [OF f] by (simp add: gr1 grown_fields num_less_inc)
    next
      case False
      from other [OF m(1) False] m(2) ok [OF gr(1)] have lt: "node_id z < node_num gr"
        and at: "node_id z < fast_node_max_num \<longrightarrow> fast_nodes gr ! unat (node_id z) = m"
        unfolding graph_ok_def by blast+
      have "node_num gr \<noteq> 0" using lt by auto
      moreover have "unat (node_id z) \<noteq> unat (node_num gr)" using lt by (simp add: word_less_nat_alt)
      ultimately have "fast_nodes gr1 ! unat (node_id z) = fast_nodes gr ! unat (node_id z)"
        unfolding gr1 by (rule grown_fast(3) [OF f])
      with lt at gr(2) show ?thesis by (simp add: gr1 grown_fields num_less_inc)
    qed
    then show ?thesis
      using ok [OF gr(1)] True grown_fast(1) [OF f]
      unfolding graph_ok_def dom gr1 by (simp add: grown_fields)
  next
    case False
    then have o: "w_graphs w g1 = Some gr1" using g1 by (simp add: attach_world_def)
    have "node_id z < node_num gr1
        \<and> (node_id z < fast_node_max_num \<longrightarrow> fast_nodes gr1 ! unat (node_id z) = m)"
      if m: "w_nodes ?w m = Some z" "parent_graph z = Some g1" for m z
    proof -
      have "m \<noteq> n" using m self False by (auto simp: attached_node_def)
      from other [OF m(1) this] m(2) ok [OF o] show ?thesis unfolding graph_ok_def by blast
    qed
    then show ?thesis using ok [OF o] unfolding graph_ok_def dom by simp
  qed
qed

lemma attach_links_ok:
  assumes inv: "exec_inv w e h d" and x: "w_nodes w n = Some x" "parent_graph x = None"
    and gr: "w_graphs w g = Some gr"
    and z: "w_nodes (attach_world g gr n x rt w) m = Some z"
  shows "links_ok (attach_world g gr n x rt w) z"
proof -
  let ?w = "attach_world g gr n x rt w"
  have lx: "links_ok w x" using exec_invD(1) [OF inv x(1)] .
  have gdom: "dom (w_graphs ?w) = dom (w_graphs w)" using gr by (auto simp: attach_world_def)
  show ?thesis
  proof (cases "m = n")
    case True
    then have "z = attached_node g gr rt x" using z by (simp add: attach_world_def)
    then show ?thesis using lx x(2) unfolding links_ok_def attached_node_def
      by (simp add: attach_world_def)
  next
    case False
    then have zw: "w_nodes w m = Some z" using z by (simp add: attach_world_def)
    have lz: "links_ok w z" using exec_invD(1) [OF inv zw] .
    have keep: "\<exists>y'. w_nodes ?w t = Some y' \<and> parent_graph y' = parent_graph y \<and> node_id y' = node_id y"
      if "w_nodes w t = Some y" "parent_graph y \<noteq> None" for t y
      using that x by (auto simp: attach_world_def)
    have bits: "\<exists>g2 gr2 y. parent_graph z = Some g2 \<and> w_graphs ?w g2 = Some gr2
        \<and> w_nodes ?w (fast_nodes gr2 ! i) = Some y \<and> parent_graph y = Some g2 \<and> node_id y = of_nat i"
      if i: "bit (fast_down_strams z) i" for i
    proof -
      obtain g2 gr2 y where y: "parent_graph z = Some g2" "w_graphs w g2 = Some gr2"
        "w_nodes w (fast_nodes gr2 ! i) = Some y" "parent_graph y = Some g2" "node_id y = of_nat i"
        using lz i unfolding links_ok_def by blast
      show ?thesis
      proof (cases "g2 = g")
        case True
        with y(1,2) gr have g2: "gr2 = gr" "parent_graph z = Some g" by simp_all
        have lt: "i < unat (node_num gr)" by (rule bits_below(2) [OF inv zw i gr g2(2)])
        then have nz: "node_num gr \<noteq> 0" by auto
        have "graph_ok w g gr" using inv gr by (simp add: exec_inv_def store_ok_def)
        then have f: "node_num gr \<noteq> 0 \<longrightarrow> length (fast_nodes gr) = 63" by (simp add: graph_ok_def)
        have "fast_nodes (grown_graph n gr) ! i = fast_nodes gr ! i"
          using lt by (intro grown_fast(3) [OF f nz]) simp
        then show ?thesis using y True g2(1) keep [OF y(3)] by (auto simp: attach_world_def)
      next
        case False
        then show ?thesis using y keep [OF y(3)] by (auto simp: attach_world_def)
      qed
    qed
    have down: "\<exists>y. w_nodes ?w t = Some y \<and> parent_graph y \<noteq> None"
      if t: "t \<in> set (down_streams z)" for t
    proof -
      obtain y where y: "w_nodes w t = Some y" "parent_graph y \<noteq> None"
        using lz t unfolding links_ok_def by blast
      then obtain y' where "w_nodes ?w t = Some y'" "parent_graph y' = parent_graph y"
        using keep by blast
      with y(2) show ?thesis by simp
    qed
    have rest: "\<forall>i. bit (fast_down_strams z) i \<longrightarrow> i < 63"
      "n_status z < Finish \<longrightarrow> fast_down_strams_bak z = fast_down_strams_bak_init"
      "\<forall>g. parent_graph z = Some g \<longrightarrow> g \<in> dom (w_graphs w)"
      "parent_graph z = None \<longrightarrow> n_status z = Initing \<and> wait_count z = 0
        \<and> fast_down_strams z = 0 \<and> down_streams z = []"
      using lz unfolding links_ok_def by simp_all
    have b: "\<forall>i. bit (fast_down_strams z) i \<longrightarrow> i < 63 \<and> (\<exists>g2 gr2 y. parent_graph z = Some g2
        \<and> w_graphs ?w g2 = Some gr2 \<and> w_nodes ?w (fast_nodes gr2 ! i) = Some y
        \<and> parent_graph y = Some g2 \<and> node_id y = of_nat i)"
    proof (intro allI impI conjI)
      fix i assume i: "bit (fast_down_strams z) i"
      show "i < 63" using rest(1) i by blast
      show "\<exists>g2 gr2 y. parent_graph z = Some g2 \<and> w_graphs ?w g2 = Some gr2
        \<and> w_nodes ?w (fast_nodes gr2 ! i) = Some y \<and> parent_graph y = Some g2 \<and> node_id y = of_nat i"
        by (rule bits [OF i])
    qed
    have dn: "\<forall>t \<in> set (down_streams z). \<exists>y. w_nodes ?w t = Some y \<and> parent_graph y \<noteq> None"
      by (intro ballI, rule down)
    show ?thesis unfolding links_ok_def gdom by (intro conjI b dn rest)
  qed
qed

lemma attach_edges:
  assumes inv: "exec_inv w e h d" and x: "w_nodes w n = Some x" "parent_graph x = None"
    and gr: "w_graphs w g = Some gr"
  shows "edge (attach_world g gr n x rt w) s m = edge w s m"
proof -
  let ?w = "attach_world g gr n x rt w" and ?x = "attached_node g gr rt x"
  have lx: "fast_down_strams x = 0" "down_streams x = []"
    using exec_invD(1) [OF inv x(1)] x(2) by (simp_all add: links_ok_def)
  have n0: "edge w s n = 0" for s
  proof -
    have "waits_ok x (owed w e n) (count (queue w + h) n)" using exec_invD(2) [OF inv x(1)] .
    then have "pend w n = 0" using x(2) by (simp add: waits_ok_def owed_def)
    moreover have "finite (dom (w_nodes w))" using inv by (simp add: exec_inv_def store_ok_def)
    ultimately have "s \<in> dom (w_nodes w) \<Longrightarrow> edge w s n = 0" by (simp add: pend_def)
    then show ?thesis by (cases "s \<in> dom (w_nodes w)") (auto simp: edge_def split: option.splits)
  qed
  show ?thesis
  proof (cases "s = n \<or> m = n")
    case False
    then show ?thesis by (simp add: edge_def attach_world_def)
  next
    case True
    show ?thesis
    proof (cases "s = n")
      case True
      then have "edge ?w s m = 0" "edge w s m = 0"
        using x(1) lx by (auto simp: edge_def attach_world_def edge_count_def fast_edge_def
          attached_node_def split: option.splits)
      then show ?thesis by simp
    next
      case False
      with \<open>s = n \<or> m = n\<close> have m: "m = n" by simp
      have "edge ?w s n = 0"
      proof (cases "w_nodes w s")
        case None
        then show ?thesis using False by (simp add: edge_def attach_world_def)
      next
        case (Some z)
        have lz: "links_ok w z" using exec_invD(1) [OF inv Some] .
        have "n \<notin> set (down_streams z)" using lz x unfolding links_ok_def by fastforce
        then have "count_list (down_streams z) n = 0" by (simp add: count_list_0_iff)
        moreover have "\<not> fast_edge z ?x"
        proof
          assume "fast_edge z ?x"
          then have p: "parent_graph z = Some g" "bit (fast_down_strams z) (unat (node_num gr))"
            by (simp_all add: fast_edge_def attached_node_def)
          from bits_below(2) [OF inv Some p(2) gr p(1)] show False by simp
        qed
        ultimately show ?thesis using Some False by (simp add: edge_def attach_world_def edge_count_def)
      qed
      with m n0 show ?thesis by simp
    qed
  qed
qed

lemma attach_inv:
  assumes inv: "exec_inv w e h d" and x: "w_nodes w n = Some x" "parent_graph x = None"
    and gr: "w_graphs w g = Some gr" "node_num gr + 1 \<noteq> 0"
  shows "exec_inv (attach_world g gr n x rt w) e (add_mset n h) d"
proof -
  let ?w = "attach_world g gr n x rt w" and ?x = "attached_node g gr rt x"
  have parts: "store_ok w" "counts_ok w e h" "deps_ok w d" using inv by (auto simp: exec_inv_def)
  have nodes: "w_nodes ?w = (w_nodes w)(n \<mapsto> ?x)" by (simp add: attach_world_def)
  have dom: "dom (w_nodes ?w) = dom (w_nodes w)" using x(1) by (auto simp: nodes)
  have e: "edge ?w = edge w" by (simp add: fun_eq_iff attach_edges [OF inv x gr(1)])
  have p: "pend ?w = pend w" by (simp add: fun_eq_iff pend_def dom e)
  have q: "queue ?w = queue w" by (simp add: attach_world_def)
  have lx: "links_ok w x" using exec_invD(1) [OF inv x(1)] .
  have wx: "owed w e n = 0" "count (queue w + h) n = 0"
    using exec_invD(2) [OF inv x(1)] x(2) by (simp_all add: waits_ok_def)
  have sc: "sched_ok ?w" using parts(1) by (simp add: store_ok_def sched_ok_def attach_world_def)
  have "store_ok ?w"
    using parts(1) attach_graph_ok [OF inv x gr] attach_links_ok [OF inv x gr(1)] sc
    unfolding store_ok_def dom by blast
  moreover have "counts_ok ?w e (add_mset n h)"
  proof (rule counts_ok_upd [OF parts(2) nodes])
    show "waits_ok ?x (owed ?w e n) (count (queue ?w + add_mset n h) n)"
      using lx wx x(2) by (simp add: waits_ok_def links_ok_def attached_node_def owed_def p q i32_lim_def)
  qed (simp add: p q)
  moreover have "deps_ok ?w d"
    unfolding deps_ok_def e
  proof (intro conjI allI ballI)
    fix m r assume "r \<in> d m"
    then obtain z where z: "w_nodes w r = Some z" "parent_graph z \<noteq> None"
      "n_status z < Finish \<longrightarrow> 0 < edge w r m" using parts(3) unfolding deps_ok_def by blast
    then have "r \<noteq> n" using x by auto
    with z show "\<exists>z. w_nodes ?w r = Some z \<and> parent_graph z \<noteq> None
        \<and> (n_status z < Finish \<longrightarrow> 0 < edge w r m)" by (simp add: nodes)
  qed (use parts(3) in \<open>auto simp: deps_ok_def\<close>)
  ultimately show ?thesis by (simp add: exec_inv_def)
qed

section \<open>create_edges\<close>

text \<open>What \<open>create_edges\<close> changes in the view of the other nodes.\<close>

definition joins :: "world \<Rightarrow> nid \<Rightarrow> gid \<Rightarrow> graph \<Rightarrow> world \<Rightarrow> bool" where
  "joins w n g gr w' \<longleftrightarrow> w_graphs w' = (w_graphs w)(g \<mapsto> grown_graph n gr)
     \<and> (\<forall>m. map_option n_status (w_nodes w' m) = map_option n_status (w_nodes w m))
     \<and> (\<forall>m. m \<noteq> n \<longrightarrow> map_option parent_graph (w_nodes w' m) = map_option parent_graph (w_nodes w m))
     \<and> map_option parent_graph (w_nodes w' n) = Some (Some g)
     \<and> (\<forall>m. map_option ghost (w_nodes w' m) = map_option ghost (w_nodes w m))"

lemma joins_attach:
  "w_nodes w n = Some x \<Longrightarrow> joins w n g gr (attach_world g gr n x rt w)"
  by (simp add: joins_def attach_world_def attached_node_def)

lemma keeps_views:
  assumes "keeps w w'"
  shows "map_option n_status (w_nodes w' m) = map_option n_status (w_nodes w m)"
    and "map_option parent_graph (w_nodes w' m) = map_option parent_graph (w_nodes w m)"
    and "map_option ghost (w_nodes w' m) = map_option ghost (w_nodes w m)"
proof -
  have k: "map_option (\<lambda>x. (n_status x, parent_graph x, node_id x, ghost x)) (w_nodes w' m)
      = map_option (\<lambda>x. (n_status x, parent_graph x, node_id x, ghost x)) (w_nodes w m)"
    using assms by (simp add: keeps_def)
  from arg_cong [OF k, of "map_option fst"]
  show "map_option n_status (w_nodes w' m) = map_option n_status (w_nodes w m)"
    by (simp add: option.map_comp o_def)
  from arg_cong [OF k, of "map_option (\<lambda>p. snd (snd (snd p)))"]
  show "map_option ghost (w_nodes w' m) = map_option ghost (w_nodes w m)"
    by (simp add: option.map_comp o_def)
  from arg_cong [OF k, of "map_option (\<lambda>p. fst (snd p))"]
  show "map_option parent_graph (w_nodes w' m) = map_option parent_graph (w_nodes w m)"
    by (simp add: option.map_comp o_def)
qed

lemma joins_keeps: "joins w n g gr w1 \<Longrightarrow> keeps w1 w2 \<Longrightarrow> joins w n g gr w2"
  unfolding joins_def by (simp add: keeps_views) (simp add: keeps_def)

lemma linkable_joins:
  assumes "linkable w n reqs" and "joins w n g gr w'"
  shows "linkable w' n reqs"
  unfolding linkable_iff
proof
  fix r assume "r \<in> set reqs"
  then consider "r = nullptr \<or> r = n" | x where "r \<noteq> n" "w_nodes w r = Some x" "parent_graph x \<noteq> None"
    using assms(1) unfolding linkable_iff by blast
  then show "r = nullptr \<or> r = n \<or> (\<exists>x. w_nodes w' r = Some x \<and> parent_graph x \<noteq> None)"
  proof cases
    case 2
    with assms(2) have "map_option parent_graph (w_nodes w' r) = Some (parent_graph x)"
      by (simp add: joins_def)
    with 2(3) show ?thesis by auto
  qed blast
qed

lemma create_edges_step:
  assumes inv: "exec_inv w e h d" and x: "w_nodes w n = Some x" "parent_graph x = None"
    and gr: "w_graphs w g = Some gr" "node_num gr + 1 \<noteq> 0"
    and reqs: "linkable w n reqs" "length reqs < i32_lim"
  shows "\<exists>w'. create_edges g n reqs w = Inr w'
    \<and> exec_inv w' e h (d(n := d n \<union> required n reqs)) \<and> joins w n g gr w'"
proof -
  have st: "store_ok w" using inv by (simp add: exec_inv_def)
  then have ok: "graph_ok w g gr" using gr(1) by (simp add: store_ok_def)
  obtain rt where at: "attach_node g n w = Inr (attach_world g gr n x rt w)"
    using attach_node_eq [OF x(1) gr(1)] ok unfolding graph_ok_def attach_world_def by blast
  let ?w1 = "attach_world g gr n x rt w"
  have inv1: "exec_inv ?w1 e (add_mset n h) d" by (rule attach_inv [OF inv x gr])
  have j1: "joins w n g gr ?w1" by (rule joins_attach [OF x(1)])
  have n0: "n \<noteq> nullptr" using st x(1) by (auto simp: store_ok_def)
  have nd: "\<forall>m. n \<notin> d m"
  proof
    fix m
    show "n \<notin> d m" using inv x unfolding exec_inv_def deps_ok_def by fastforce
  qed
  have e0: "e n = 0" using exec_invD(2) [OF inv x(1)] x(2) by (simp add: waits_ok_def owed_def)
  obtain w3 where w3: "(if length reqs > 0
      then rbind (add_wait_count n (of_nat (length reqs)) ?w1) (\<lambda>(_, w2). rfold (link_required n) reqs w2)
      else node_ready n ?w1) = Inr w3"
    "exec_inv w3 e h (d(n := d n \<union> required n reqs))" "joins w n g gr w3"
  proof (cases "reqs = []")
    case True
    obtain w2 where w2: "node_ready n ?w1 = Inr w2" "exec_inv w2 e h d" "w_nodes w2 = w_nodes ?w1"
      "w_graphs w2 = w_graphs ?w1" using node_ready_step [OF inv1] by blast
    have "required n [] = {}" by (simp add: required_def)
    then have "d(n := d n \<union> required n []) = d" by simp
    moreover have "joins w n g gr w2" by (rule joins_keeps [OF j1]) (rule keeps_same [OF w2(3,4)])
    ultimately show ?thesis using that [of w2] w2(1,2) True by simp
  next
    case False
    then have pos: "0 < length reqs" by simp
    obtain v w2 where w2: "add_wait_count n (of_nat (length reqs)) ?w1 = Inr (v, w2)"
      "exec_inv w2 (e(n := length reqs)) h d" "keeps ?w1 w2"
      using add_wait_count_step [OF inv1 pos reqs(2)] by blast
    have j2: "joins w n g gr w2" by (rule joins_keeps [OF j1 w2(3)])
    have en: "(e(n := length reqs)) n = length reqs" by simp
    obtain w3 where w3: "rfold (link_required n) reqs w2 = Inr w3"
      "exec_inv w3 ((e(n := length reqs))(n := 0)) h (d(n := d n \<union> required n reqs))" "keeps w2 w3"
      using links_step [OF w2(2) en linkable_joins [OF reqs(1) j2] nd n0] by blast
    have "(e(n := length reqs))(n := 0) = e" using e0 by (simp add: fun_eq_iff)
    then have i3: "exec_inv w3 e h (d(n := d n \<union> required n reqs))" using w3(2) by simp
    have "joins w n g gr w3" by (rule joins_keeps [OF j2 w3(3)])
    with that [of w3] i3 w3(1) w2(1) pos show ?thesis by simp
  qed
  obtain y where y: "w_nodes w3 n = Some y"
    using w3(3) by (auto simp: joins_def)
  obtain w4 where w4: "append_upstreams n flag_node w3 = Inr w4"
    "exec_inv w4 e h (d(n := d n \<union> required n reqs))" "keeps w3 w4"
    using append_upstreams_step [OF w3(2) y] by blast
  have "create_edges g n reqs w = Inr w4"
    using at w3(1) w4(1) by (simp add: create_edges_def del: rbind_eq_Inr split del: if_split)
  with w4(2) joins_keeps [OF w3(3) w4(3)] show ?thesis by blast
qed

end
