(* ===== verification/Dag_Finish.thy ===== *)
theory Dag_Finish
  imports Dag_Inv
begin

text \<open>
  \<open>Node::finish\<close>, \<open>Node::finish2\<close> and \<open>Graph::finish\<close> over graphs without a limit: the nodes
  that waited for the finished one are counted down, those that waited for nothing else become
  ready, one of them is handed to the worker and the others go to the task queue.
\<close>

section \<open>What counting down leaves alone\<close>

definition only_waits :: "world \<Rightarrow> world \<Rightarrow> bool" where
  "only_waits w w' \<longleftrightarrow> w_graphs w' = w_graphs w
     \<and> (\<forall>m. map_option (\<lambda>x. x\<lparr>wait_count := 0\<rparr>) (w_nodes w' m)
          = map_option (\<lambda>x. x\<lparr>wait_count := 0\<rparr>) (w_nodes w m))"

lemma only_waits_refl [simp]: "only_waits w w"
  by (simp add: only_waits_def)

lemma only_waits_trans: "only_waits w w' \<Longrightarrow> only_waits w' w'' \<Longrightarrow> only_waits w w''"
  by (simp add: only_waits_def)

lemma only_waits_put:
  "w_nodes w n = Some x \<Longrightarrow> only_waits w (put_node n (x\<lparr>wait_count := c\<rparr>) w)"
  by (simp add: only_waits_def)

lemma only_waitsD:
  assumes "only_waits w w'" and "w_nodes w m = Some x"
  shows "\<exists>c. w_nodes w' m = Some (x\<lparr>wait_count := c\<rparr>)"
proof -
  have m: "map_option (\<lambda>x. x\<lparr>wait_count := 0\<rparr>) (w_nodes w' m) = Some (x\<lparr>wait_count := 0\<rparr>)"
    using assms by (simp add: only_waits_def)
  then obtain y where y: "w_nodes w' m = Some y" "y\<lparr>wait_count := 0\<rparr> = x\<lparr>wait_count := 0\<rparr>" by auto
  have "y = y\<lparr>wait_count := 0, wait_count := wait_count y\<rparr>" by simp
  also have "\<dots> = x\<lparr>wait_count := wait_count y\<rparr>" unfolding y(2) by simp
  finally show ?thesis using y(1) by metis
qed

lemma only_waits_status:
  assumes "only_waits w w'"
  shows "map_option n_status (w_nodes w' m) = map_option n_status (w_nodes w m)"
    and "map_option parent_graph (w_nodes w' m) = map_option parent_graph (w_nodes w m)"
    and "map_option ghost (w_nodes w' m) = map_option ghost (w_nodes w m)"
proof -
  have k: "map_option (\<lambda>x. x\<lparr>wait_count := 0\<rparr>) (w_nodes w' m)
      = map_option (\<lambda>x. x\<lparr>wait_count := 0\<rparr>) (w_nodes w m)"
    using assms by (simp add: only_waits_def)
  from arg_cong [OF k, of "map_option n_status"]
  show "map_option n_status (w_nodes w' m) = map_option n_status (w_nodes w m)"
    by (simp add: option.map_comp o_def)
  from arg_cong [OF k, of "map_option ghost"]
  show "map_option ghost (w_nodes w' m) = map_option ghost (w_nodes w m)"
    by (simp add: option.map_comp o_def)
  from arg_cong [OF k, of "map_option parent_graph"]
  show "map_option parent_graph (w_nodes w' m) = map_option parent_graph (w_nodes w m)"
    by (simp add: option.map_comp o_def)
qed

section \<open>Counting down a list of nodes\<close>

lemma count_down_step:
  assumes "exec_inv w e h d" and "e n = Suc k"
  shows "\<exists>ns w'. count_down n (acc, w) = Inr (acc @ ns, w')
    \<and> exec_inv w' (e(n := k)) (h + mset ns) d \<and> only_waits w w' \<and> set ns \<subseteq> {n}"
proof -
  obtain y w1 where y: "w_nodes w n = Some y"
    "sub_wait_count n w = Inr (of_nat (owed w e n), w1)"
    "w1 = put_node n (y\<lparr>wait_count := of_nat (owed w e n - 1)\<rparr>) w"
    "(of_nat (owed w e n) = (1 :: i32)) = (owed w e n = 1)"
    "exec_inv w1 (e(n := k)) (if owed w e n = 1 then add_mset n h else h) d"
    using sub_wait_count_step [OF assms] by blast
  have ow: "only_waits w w1" unfolding y(3) by (rule only_waits_put [OF y(1)])
  let ?ns = "if owed w e n = 1 then [n] else []"
  have "count_down n (acc, w) = Inr (acc @ ?ns, w1)" using y(2,4) by (simp add: count_down_def)
  moreover have "exec_inv w1 (e(n := k)) (h + mset ?ns) d" using y(5) by (simp split: if_splits)
  moreover have "set ?ns \<subseteq> {n}" by auto
  ultimately show ?thesis using ow by blast
qed

lemma count_down_all:
  assumes "exec_inv w e h d" and "\<And>m. count_list ds m \<le> e m"
  shows "\<exists>ns w'. rfold count_down ds (acc, w) = Inr (acc @ ns, w')
    \<and> exec_inv w' (\<lambda>m. e m - count_list ds m) (h + mset ns) d \<and> only_waits w w'"
  using assms
proof (induction ds arbitrary: acc w e h)
  case Nil
  then show ?case by (intro exI [of _ "[]"] exI [of _ w]) simp
next
  case (Cons n ds)
  obtain k where k: "e n = Suc k" using Cons.prems(2) [of n] by (cases "e n") simp_all
  obtain ns w1 where w1: "count_down n (acc, w) = Inr (acc @ ns, w1)"
    "exec_inv w1 (e(n := k)) (h + mset ns) d" "only_waits w w1"
    using count_down_step [OF Cons.prems(1) k] by blast
  have "count_list ds m \<le> (e(n := k)) m" for m
    using Cons.prems(2) [of m] k by (cases "m = n") auto
  then obtain ns2 w2 where w2: "rfold count_down ds (acc @ ns, w1) = Inr ((acc @ ns) @ ns2, w2)"
    "exec_inv w2 (\<lambda>m. (e(n := k)) m - count_list ds m) (h + mset ns + mset ns2) d" "only_waits w1 w2"
    using Cons.IH [OF w1(2)] by blast
  have "(\<lambda>m. (e(n := k)) m - count_list ds m) = (\<lambda>m. e m - count_list (n # ds) m)"
    using k by (auto simp: fun_eq_iff)
  moreover have "rfold count_down (n # ds) (acc, w) = Inr (acc @ (ns @ ns2), w2)"
    using w1(1) w2(1) by simp
  ultimately show ?case
    using w2(2) only_waits_trans [OF w1(3) w2(3)]
    by (intro exI [of _ "ns @ ns2"] exI [of _ w2]) (simp add: add.assoc)
qed

text \<open>The loop over the numbers of the fast downstream nodes does the same.\<close>

lemma count_down_idx_all:
  assumes "exec_inv w e h d" and "w_nodes w n = Some t" and "parent_graph t = Some g"
    and "w_graphs w g = Some gr" and "length (fast_nodes gr) = 63 \<or> is = []"
    and "\<And>i. i \<in> set is \<Longrightarrow> i < 63"
    and "\<And>m. count_list (map (\<lambda>i. fast_nodes gr ! i) is) m \<le> e m"
  shows "\<exists>ns w'. rfold (count_down_idx n) (map of_nat is) (acc, w) = Inr (acc @ ns, w')
    \<and> exec_inv w' (\<lambda>m. e m - count_list (map (\<lambda>i. fast_nodes gr ! i) is) m) (h + mset ns) d
    \<and> only_waits w w'"
  using assms
proof (induction "is" arbitrary: acc w e h t)
  case Nil
  then show ?case by (intro exI [of _ "[]"] exI [of _ w]) simp
next
  case (Cons i "is")
  let ?n = "fast_nodes gr ! i"
  obtain k where k: "e ?n = Suc k" using Cons.prems(7) [of ?n] by (cases "e ?n") simp_all
  obtain ns w1 where w1: "count_down ?n (acc, w) = Inr (acc @ ns, w1)"
    "exec_inv w1 (e(?n := k)) (h + mset ns) d" "only_waits w w1"
    using count_down_step [OF Cons.prems(1) k] by blast
  have i63: "i < 63" "length (fast_nodes gr) = 63" using Cons.prems(5,6) by auto
  then have "(of_nat i :: u64) < fast_node_max_num" "unat (of_nat i :: u64) = i"
    by (simp_all add: fast_node_max_num_def word_less_nat_alt unat_of_nat)
  then have "get_node gr (of_nat i) = Inr ?n" using i63 by (simp add: get_node_def)
  then have step: "count_down_idx n (of_nat i) (acc, w) = Inr (acc @ ns, w1)"
    using Cons.prems(2-4) w1(1) by (simp add: count_down_idx_def graph_of_def)
  obtain c where t1: "w_nodes w1 n = Some (t\<lparr>wait_count := c\<rparr>)"
    using only_waitsD [OF w1(3) Cons.prems(2)] by blast
  have g1: "w_graphs w1 g = Some gr" using w1(3) Cons.prems(4) by (simp add: only_waits_def)
  have le: "count_list (map (\<lambda>i. fast_nodes gr ! i) is) m \<le> (e(?n := k)) m" for m
    using Cons.prems(7) [of m] k by (cases "m = ?n") auto
  have len: "length (fast_nodes gr) = 63 \<or> is = []" and lt: "\<And>i. i \<in> set is \<Longrightarrow> i < 63"
    using Cons.prems(5,6) by auto
  have pt: "parent_graph (t\<lparr>wait_count := c\<rparr>) = Some g" using Cons.prems(3) by simp
  obtain ns2 w2 where w2: "rfold (count_down_idx n) (map of_nat is) (acc @ ns, w1)
      = Inr ((acc @ ns) @ ns2, w2)"
    "exec_inv w2 (\<lambda>m. (e(?n := k)) m - count_list (map (\<lambda>i. fast_nodes gr ! i) is) m)
      (h + mset ns + mset ns2) d" "only_waits w1 w2"
    using Cons.IH [OF w1(2) t1 pt g1 len lt le] by blast
  have "(\<lambda>m. (e(?n := k)) m - count_list (map (\<lambda>i. fast_nodes gr ! i) is) m)
      = (\<lambda>m. e m - count_list (map (\<lambda>i. fast_nodes gr ! i) (i # is)) m)"
    using k by (auto simp: fun_eq_iff)
  moreover have "rfold (count_down_idx n) (map of_nat (i # is)) (acc, w) = Inr (acc @ (ns @ ns2), w2)"
    using step w2(1) by simp
  ultimately show ?case
    using w2(2) only_waits_trans [OF w1(3) w2(3)]
    by (intro exI [of _ "ns @ ns2"] exI [of _ w2]) (simp add: add.assoc)
qed

section \<open>Graph::finish\<close>

lemma exec_inv_putg:
  assumes "exec_inv w e h d" and "w_graphs w g = Some gr" and "limit_graph gr' = limit_graph gr"
    and "g_down_streams gr' = g_down_streams gr" and "node_num gr' = node_num gr"
    and "fast_nodes gr' = fast_nodes gr" and "parent_node gr' = parent_node gr"
  shows "exec_inv (put_graph g gr' w) e h d"
proof -
  let ?w = "put_graph g gr' w"
  have parts: "store_ok w" "counts_ok w e h" "deps_ok w d" using assms(1) by (auto simp: exec_inv_def)
  have e: "edge ?w = edge w" "pend ?w = pend w"
    by (simp_all add: edge_cong [of ?w w] pend_cong [of ?w w])
  have okg: "w_graphs w g0 = Some gr0 \<Longrightarrow> graph_ok w g0 gr0" for g0 gr0
    using parts(1) by (simp add: store_ok_def)
  have "graph_ok ?w g1 gr1" if g1: "w_graphs ?w g1 = Some gr1" for g1 gr1
  proof -
    have "\<exists>gr0. graph_ok w g1 gr0 \<and> limit_graph gr1 = limit_graph gr0
        \<and> g_down_streams gr1 = g_down_streams gr0 \<and> node_num gr1 = node_num gr0
        \<and> fast_nodes gr1 = fast_nodes gr0 \<and> parent_node gr1 = parent_node gr0"
    proof (cases "g1 = g")
      case True
      with g1 assms(3-7) okg [OF assms(2)] show ?thesis by (intro exI [of _ gr]) simp
    next
      case False
      with g1 okg [of g1 gr1] show ?thesis by (intro exI [of _ gr1]) simp
    qed
    then obtain gr0 where "graph_ok w g1 gr0" "limit_graph gr1 = limit_graph gr0"
      "g_down_streams gr1 = g_down_streams gr0" "node_num gr1 = node_num gr0"
      "fast_nodes gr1 = fast_nodes gr0" "parent_node gr1 = parent_node gr0" by blast
    then show ?thesis unfolding graph_ok_def by simp
  qed
  moreover have "links_ok ?w z" if z: "w_nodes w m = Some z" for m z
  proof -
    have lz: "links_ok w z" using exec_invD(1) [OF assms(1) z] .
    have gd: "dom (w_graphs ?w) = dom (w_graphs w)" using assms(2) by auto
    have b: "\<forall>i. bit (fast_down_strams z) i \<longrightarrow> i < 63 \<and> (\<exists>g2 gr2 y. parent_graph z = Some g2
        \<and> w_graphs ?w g2 = Some gr2 \<and> w_nodes ?w (fast_nodes gr2 ! i) = Some y
        \<and> parent_graph y = Some g2 \<and> node_id y = of_nat i)"
    proof (intro allI impI)
      fix i assume "bit (fast_down_strams z) i"
      then obtain g2 gr2 y where y: "i < 63" "parent_graph z = Some g2" "w_graphs w g2 = Some gr2"
        "w_nodes w (fast_nodes gr2 ! i) = Some y" "parent_graph y = Some g2" "node_id y = of_nat i"
        using lz unfolding links_ok_def by blast
      have "\<exists>gr3. w_graphs ?w g2 = Some gr3 \<and> fast_nodes gr3 = fast_nodes gr2"
        using y(3) assms(2,6) by (cases "g2 = g") auto
      with y show "i < 63 \<and> (\<exists>g2 gr2 y. parent_graph z = Some g2
        \<and> w_graphs ?w g2 = Some gr2 \<and> w_nodes ?w (fast_nodes gr2 ! i) = Some y
        \<and> parent_graph y = Some g2 \<and> node_id y = of_nat i)" by auto
    qed
    with lz show ?thesis unfolding links_ok_def gd w_nodes_putg by blast
  qed
  moreover have "sched_ok ?w" using parts(1) by (simp add: store_ok_def sched_ok_def)
  ultimately have "store_ok ?w" using parts(1) unfolding store_ok_def w_nodes_putg by blast
  moreover have "counts_ok ?w e h"
    using parts(2) unfolding counts_ok_def owed_def e queue_putg w_nodes_putg .
  moreover have "deps_ok ?w d" using parts(3) by (simp add: deps_ok_def e)
  ultimately show ?thesis by (simp add: exec_inv_def)
qed

lemma ready_all_step:
  assumes "exec_inv w e (h + mset ns) d"
  shows "\<exists>w'. ready_all ns w = Inr w' \<and> exec_inv w' e h d \<and> w_nodes w' = w_nodes w
    \<and> w_graphs w' = w_graphs w"
  using assms
proof (induction ns arbitrary: w)
  case Nil
  then show ?case by simp
next
  case (Cons n ns)
  then have "exec_inv w e (add_mset n (h + mset ns)) d" by simp
  from node_ready_step [OF this] obtain w1 where w1: "node_ready n w = Inr w1"
    "exec_inv w1 e (h + mset ns) d" "w_nodes w1 = w_nodes w" "w_graphs w1 = w_graphs w" by blast
  with Cons.IH [OF w1(2)] show ?case by auto
qed

lemma held_graph:
  assumes "exec_inv w e (add_mset n h) d"
  shows "\<exists>x g gr. w_nodes w n = Some x \<and> parent_graph x = Some g \<and> w_graphs w g = Some gr
    \<and> \<not> limit_graph gr"
proof -
  have c: "counts_ok w e (add_mset n h)" and st: "store_ok w" using assms by (auto simp: exec_inv_def)
  obtain x g where x: "w_nodes w n = Some x" "parent_graph x = Some g"
    using held_node [OF c] by blast
  have "links_ok w x" using exec_invD(1) [OF assms x(1)] .
  then obtain gr where gr: "w_graphs w g = Some gr" using x(2) unfolding links_ok_def by blast
  then have "\<not> limit_graph gr" using st by (auto simp: store_ok_def graph_ok_def)
  with x gr show ?thesis by blast
qed

lemma finish_free_step:
  assumes "exec_inv w e (h + mset ns) d"
  shows "\<exists>nx w'. finish_free ns w = Inr (nx, w')
    \<and> exec_inv w' e (if nx = nullptr then h else add_mset nx h) d
    \<and> w_nodes w' = w_nodes w \<and> w_graphs w' = w_graphs w"
proof (cases ns)
  case Nil
  with assms show ?thesis by (simp add: finish_free_def)
next
  case (Cons a rest)
  have nz: "m \<noteq> nullptr" if "exec_inv v e (add_mset m k) d" for v m k
    using held_graph [OF that] that by (auto simp: exec_inv_def store_ok_def)
  show ?thesis
  proof (cases rest)
    case Nil
    have i: "exec_inv w e (add_mset a h) d" using assms Cons Nil by simp
    from held_graph [OF i] obtain x g gr where "w_nodes w a = Some x" "parent_graph x = Some g"
      "w_graphs w g = Some gr" "\<not> limit_graph gr" by blast
    then have "finish_free ns w = Inr (a, w)"
      using Cons Nil by (simp add: finish_free_def graph_of_def)
    with i nz [OF i] show ?thesis by (intro exI [of _ a] exI [of _ w]) simp
  next
    case Rest: (Cons b cs)
    have i: "exec_inv w e (add_mset a (add_mset b h) + mset cs) d"
      using assms Cons Rest by (simp add: add_mset_commute)
    have ib: "exec_inv w e (add_mset b (add_mset a h + mset cs)) d"
      using i by (simp add: add_mset_commute)
    from held_graph [OF ib] obtain x g gr where b: "w_nodes w b = Some x" "parent_graph x = Some g"
      "w_graphs w g = Some gr" "\<not> limit_graph gr" by blast
    from ready_all_step [OF i] obtain w1 where w1: "ready_all cs w = Inr w1"
      "exec_inv w1 e (add_mset a (add_mset b h)) d" "w_nodes w1 = w_nodes w" "w_graphs w1 = w_graphs w"
      by blast
    from node_ready_step [OF w1(2)] obtain w2 where w2: "node_ready a w1 = Inr w2"
      "exec_inv w2 e (add_mset b h) d" "w_nodes w2 = w_nodes w1" "w_graphs w2 = w_graphs w1" by blast
    have "finish_free ns w = Inr (b, w2)"
      using Cons Rest b w1(1) w2(1) nz [OF ib] by (simp add: finish_free_def)
    with w1(3,4) w2(2-4) nz [OF ib] show ?thesis by (intro exI [of _ b] exI [of _ w2]) simp
  qed
qed

section \<open>The edges of a finishing node\<close>

definition fast_idx :: "node \<Rightarrow> nat list" where
  "fast_idx t = filter (bit (fast_down_strams t)) [0..<63]"

definition targets :: "graph \<Rightarrow> node \<Rightarrow> nid list" where
  "targets gr t = map (\<lambda>i. fast_nodes gr ! i) (fast_idx t) @ down_streams t"

lemma bit_map_idx_fast: "bit_map_idx (fast_down_strams t) fast_node_max_num = Inr (map of_nat (fast_idx t))"
  by (simp add: bit_map_idx_eq fast_idx_def fast_node_max_num_def)

lemma count_list_map_filter: "count_list (map f xs) m = length (filter (\<lambda>i. f i = m) xs)"
  by (induction xs) auto

lemma distinct_filter_single:
  "distinct xs \<Longrightarrow> a \<in> set xs \<Longrightarrow> (\<And>i. i \<in> set xs \<Longrightarrow> P i \<longleftrightarrow> i = a) \<Longrightarrow> length (filter P xs) = 1"
proof (induction xs)
  case (Cons x xs)
  show ?case
  proof (cases "x = a")
    case True
    with Cons.prems have "filter P xs = []" by (auto simp: filter_empty_conv)
    with True Cons.prems(3) [of x] show ?thesis by simp
  next
    case False
    with Cons.prems have "length (filter P xs) = 1" by (intro Cons.IH) auto
    moreover have "\<not> P x" using Cons.prems(3) [of x] False by simp
    ultimately show ?thesis by simp
  qed
qed simp

lemma count_fast:
  assumes "exec_inv w e h d" and "w_nodes w n = Some t" and "parent_graph t = Some g"
    and "w_graphs w g = Some gr" and "w_nodes w m = Some y"
  shows "count_list (map (\<lambda>i. fast_nodes gr ! i) (fast_idx t)) m = (if fast_edge t y then 1 else 0)"
proof -
  have tgt: "\<exists>z. w_nodes w (fast_nodes gr ! i) = Some z \<and> parent_graph z = Some g \<and> node_id z = of_nat i"
    if "bit (fast_down_strams t) i" for i
  proof -
    from exec_invD(1) [OF assms(1,2)] that assms(3,4) show ?thesis unfolding links_ok_def by fastforce
  qed
  show ?thesis
  proof (cases "fast_edge t y")
    case True
    then have y: "parent_graph y = Some g" "node_id y < fast_node_max_num"
      "bit (fast_down_strams t) (unat (node_id y))" using assms(3) by (auto simp: fast_edge_def)
    have "graph_ok w g gr" using assms(1,4) by (simp add: exec_inv_def store_ok_def)
    then have at: "fast_nodes gr ! unat (node_id y) = m"
      using assms(5) y(1,2) unfolding graph_ok_def by blast
    have "length (filter (\<lambda>i. fast_nodes gr ! i = m) (fast_idx t)) = 1"
    proof (rule distinct_filter_single)
      show "distinct (fast_idx t)" by (simp add: fast_idx_def)
      show "unat (node_id y) \<in> set (fast_idx t)"
        using y by (simp add: fast_idx_def fast_node_max_num_def word_less_nat_alt)
      fix i assume i: "i \<in> set (fast_idx t)"
      show "fast_nodes gr ! i = m \<longleftrightarrow> i = unat (node_id y)"
      proof
        assume "fast_nodes gr ! i = m"
        with i tgt [of i] assms(5) have "node_id y = of_nat i" "i < 63" by (auto simp: fast_idx_def)
        then show "i = unat (node_id y)" by (simp add: unat_of_nat)
      qed (simp add: at)
    qed
    with True show ?thesis by (simp add: count_list_map_filter)
  next
    case False
    have "fast_nodes gr ! i \<noteq> m" if i: "i \<in> set (fast_idx t)" for i
    proof
      assume m: "fast_nodes gr ! i = m"
      have b: "bit (fast_down_strams t) i" "i < 63" using i by (auto simp: fast_idx_def)
      from tgt [OF b(1)] m assms(5) have y: "parent_graph y = Some g" "node_id y = of_nat i" by auto
      then have "unat (node_id y) = i" using b(2) by (simp add: unat_of_nat)
      with y b assms(3) have "fast_edge t y"
        by (simp add: fast_edge_def fast_node_max_num_def word_less_nat_alt)
      with False show False ..
    qed
    then have "filter (\<lambda>i. fast_nodes gr ! i = m) (fast_idx t) = []" by (auto simp: filter_empty_conv)
    with False show ?thesis by (simp add: count_list_map_filter)
  qed
qed

lemma count_targets:
  assumes "exec_inv w e h d" and "w_nodes w n = Some t" and "parent_graph t = Some g"
    and "w_graphs w g = Some gr" and "n_status t < Finish"
  shows "count_list (targets gr t) m = edge w n m"
proof (cases "w_nodes w m")
  case (Some y)
  with assms(2,5) count_fast [OF assms(1-4) Some] show ?thesis
    by (simp add: targets_def edge_Some edge_count_def)
next
  case None
  have lt: "links_ok w t" using exec_invD(1) [OF assms(1,2)] .
  have "fast_nodes gr ! i \<noteq> m" if "i \<in> set (fast_idx t)" for i
  proof -
    have "bit (fast_down_strams t) i" using that by (simp add: fast_idx_def)
    then have "\<exists>z. w_nodes w (fast_nodes gr ! i) = Some z"
      using lt assms(3,4) unfolding links_ok_def by fastforce
    with None show ?thesis by auto
  qed
  moreover have "m \<notin> set (down_streams t)" using lt None unfolding links_ok_def by fastforce
  ultimately have "m \<notin> set (targets gr t)" by (auto simp: targets_def)
  then have "count_list (targets gr t) m = 0" by (simp add: count_list_0_iff)
  with None show ?thesis by (simp add: edge_def split: option.splits)
qed

text \<open>The status change: the edges of the node become notifications in progress.\<close>

lemma finish_start:
  assumes "exec_inv w e h d" and "w_nodes w n = Some t" and "n_status t = Running"
  shows "exec_inv (put_node n (t\<lparr>n_status := Finish, fast_down_strams_bak := b\<rparr>) w)
    (\<lambda>m. e m + edge w n m) h d"
proof -
  let ?t = "t\<lparr>n_status := Finish, fast_down_strams_bak := b\<rparr>"
  let ?w = "put_node n ?t w"
  have parts: "store_ok w" "counts_ok w e h" "deps_ok w d" using assms(1) by (auto simp: exec_inv_def)
  have dom: "dom (w_nodes ?w) = dom (w_nodes w)" using assms(2) by auto
  have fin: "finite (dom (w_nodes w))" using parts(1) by (simp add: store_ok_def)
  have run: "Running < Finish" by (simp add: status_order)
  have t0: "edge_count ?t m y = 0" for m y by (simp add: edge_count_def)
  have edge: "edge ?w s m = (if s = n then 0 else edge w s m)" for s m
  proof (cases "w_nodes w m")
    case None
    then have "w_nodes ?w m = None" using assms(2) by auto
    with None show ?thesis by (simp add: edge_def split: option.splits)
  next
    case (Some y)
    have "edge ?w s m = (if s = n then edge_count ?t m y else edge w s m)"
      by (rule edge_put_out [OF assms(2) _ _ Some]) simp_all
    then show ?thesis by (simp add: t0)
  qed
  have pend: "pend ?w m + edge w n m = pend w m" for m
  proof (cases "w_nodes w m")
    case None
    then have "w_nodes ?w m = None" using assms(2) by auto
    with None show ?thesis by (simp add: pend_None edge_def split: option.splits)
  next
    case (Some y)
    have "pend ?w m + edge_count t m y = pend w m + edge_count ?t m y"
      by (rule pend_put_out [OF fin assms(2) _ _ Some]) simp_all
    with assms(2) Some show ?thesis by (simp add: t0 edge_Some)
  qed
  have "links_ok w ?t"
    using exec_invD(1) [OF assms(1,2)] assms(3) unfolding links_ok_def by simp
  then have "store_ok ?w" by (intro store_ok_put [OF parts(1) assms(2)]) simp_all
  moreover have "counts_ok ?w (\<lambda>m. e m + edge w n m) h"
  proof (rule counts_ok_cong [OF parts(2) dom])
    show "waits_ok z' = waits_ok z" if "w_nodes w m = Some z" "w_nodes ?w m = Some z'" for m z z'
      using that assms(2,3) by (cases "m = n") (auto simp: waits_ok_def fun_eq_iff)
    show "owed ?w (\<lambda>m. e m + edge w n m) m = owed w e m" for m
      using pend [of m] by (simp add: owed_def)
  qed simp
  moreover have "deps_ok ?w d"
    unfolding deps_ok_def
  proof (intro conjI allI ballI impI)
    fix s m assume "0 < edge ?w s m"
    then show "s \<in> d m" using parts(3) by (auto simp: edge deps_ok_def split: if_splits)
  next
    fix m s assume "s \<in> d m"
    then obtain z where z: "w_nodes w s = Some z" "parent_graph z \<noteq> None"
      "n_status z < Finish \<longrightarrow> 0 < edge w s m" using parts(3) unfolding deps_ok_def by blast
    then show "\<exists>z. w_nodes ?w s = Some z \<and> parent_graph z \<noteq> None
        \<and> (n_status z < Finish \<longrightarrow> 0 < edge ?w s m)"
      using assms(2) by (cases "s = n") (simp_all add: edge)
  next
    show "\<exists>f :: nid \<Rightarrow> nat. \<forall>m. \<forall>s \<in> d m. f s < f m" using parts(3) by (simp add: deps_ok_def)
  qed
  ultimately show ?thesis by (simp add: exec_inv_def)
qed

section \<open>Node::finish\<close>

text \<open>What finishing changes in the view of the other nodes.\<close>

definition leaves :: "world \<Rightarrow> nid \<Rightarrow> gid \<Rightarrow> graph \<Rightarrow> world \<Rightarrow> bool" where
  "leaves w n g gr w' \<longleftrightarrow>
     w_graphs w' = (w_graphs w)(g \<mapsto> gr\<lparr>g_wait_count := g_wait_count gr - 1\<rparr>)
     \<and> (\<forall>m. map_option n_status (w_nodes w' m)
          = (if m = n then Some Finish else map_option n_status (w_nodes w m)))
     \<and> (\<forall>m. map_option parent_graph (w_nodes w' m) = map_option parent_graph (w_nodes w m))
     \<and> (\<forall>m. map_option ghost (w_nodes w' m) = map_option ghost (w_nodes w m))"

lemma node_finish_step:
  assumes inv: "exec_inv w (\<lambda>_. 0) h d" and t: "w_nodes w n = Some t" "n_status t = Running"
  shows "\<exists>nx w' g gr. node_finish n w = Inr (nx, w')
    \<and> exec_inv w' (\<lambda>_. 0) (if nx = nullptr then h else add_mset nx h) d
    \<and> parent_graph t = Some g \<and> w_graphs w g = Some gr \<and> leaves w n g gr w'"
proof -
  have lt: "links_ok w t" using exec_invD(1) [OF inv t(1)] .
  have "parent_graph t \<noteq> None" using lt t(2) unfolding links_ok_def by auto
  then obtain g where g: "parent_graph t = Some g" by blast
  then obtain gr where gr: "w_graphs w g = Some gr" using lt unfolding links_ok_def by blast
  then have ok: "graph_ok w g gr" using inv by (simp add: exec_inv_def store_ok_def)
  have run: "n_status t < Finish" using t(2) by (simp add: status_order)
  let ?t = "t\<lparr>n_status := Finish, fast_down_strams_bak := fast_down_strams t\<rparr>"
  let ?w = "put_node n ?t w"
  have i1: "exec_inv ?w (edge w n) h d"
    using finish_start [OF inv t, of "fast_down_strams t"] by simp
  have t1: "w_nodes ?w n = Some ?t" "parent_graph ?t = Some g" "w_graphs ?w g = Some gr" using g gr by simp_all
  have cnt: "count_list (targets gr t) m = edge w n m" for m
    by (rule count_targets [OF inv t(1) g gr run])
  let ?fs = "map (\<lambda>i. fast_nodes gr ! i) (fast_idx t)"
  have split: "edge w n m = count_list ?fs m + count_list (down_streams t) m" for m
    using cnt [of m] by (simp add: targets_def)
  have len: "length (fast_nodes gr) = 63 \<or> fast_idx t = []"
  proof -
    have "node_id t < node_num gr" using ok t(1) g unfolding graph_ok_def by blast
    then have "node_num gr \<noteq> 0" by auto
    then show ?thesis using ok unfolding graph_ok_def by blast
  qed
  have le: "count_list ?fs m \<le> edge w n m" for m using split [of m] by simp
  have lt63: "i < 63" if "i \<in> set (fast_idx t)" for i using that by (simp add: fast_idx_def)
  obtain ns w2 where w2: "rfold (count_down_idx n) (map of_nat (fast_idx t)) ([], ?w) = Inr ([] @ ns, w2)"
    "exec_inv w2 (\<lambda>m. edge w n m - count_list ?fs m) (h + mset ns) d" "only_waits ?w w2"
    using count_down_idx_all [OF i1 t1 len lt63 le] by blast
  have e2: "(\<lambda>m. edge w n m - count_list ?fs m) = count_list (down_streams t)"
    using split by (simp add: fun_eq_iff)
  obtain c where t2: "w_nodes w2 n = Some (?t\<lparr>wait_count := c\<rparr>)"
    using only_waitsD [OF w2(3) t1(1)] by blast
  obtain ns2 w3 where w3: "rfold count_down (down_streams t) (ns, w2) = Inr (ns @ ns2, w3)"
    "exec_inv w3 (\<lambda>m. count_list (down_streams t) m - count_list (down_streams t) m)
      (h + mset ns + mset ns2) d" "only_waits w2 w3"
    using count_down_all [OF w2(2) [unfolded e2], of "down_streams t" ns] by blast
  have ow: "only_waits ?w w3" by (rule only_waits_trans [OF w2(3) w3(3)])
  have gr3: "w_graphs w3 g = Some gr" using ow t1(3) by (simp add: only_waits_def)
  let ?w4 = "put_graph g (gr\<lparr>g_wait_count := g_wait_count gr - 1\<rparr>) w3"
  have "exec_inv w3 (\<lambda>_. 0) (h + mset (ns @ ns2)) d" using w3(2) by (simp add: add.assoc)
  then have i4: "exec_inv ?w4 (\<lambda>_. 0) (h + mset (ns @ ns2)) d"
    by (rule exec_inv_putg [OF _ gr3]) simp_all
  obtain nx w5 where w5: "finish_free (ns @ ns2) ?w4 = Inr (nx, w5)"
    "exec_inv w5 (\<lambda>_. 0) (if nx = nullptr then h else add_mset nx h) d"
    "w_nodes w5 = w_nodes ?w4" "w_graphs w5 = w_graphs ?w4"
    using finish_free_step [OF i4] by blast
  have lim: "\<not> limit_graph gr" "g_down_streams gr = []" using ok by (simp_all add: graph_ok_def)
  have "graph_finish g (ns @ ns2) w3 = Inr (nx, w5)"
    using gr3 lim w5(1) by (cases "g_wait_count gr = 1") (simp_all add: graph_finish_def Let_def)
  then have "node_finish2 n ns w2 = Inr (nx, w5)"
    using t2 w3(1) g by (simp add: node_finish2_def)
  then have "node_finish n w = Inr (nx, w5)"
    using t w2(1) by (simp add: node_finish_def bit_map_idx_fast)
  moreover have "leaves w n g gr w5"
  proof -
    have "w_graphs w3 = w_graphs w" using ow by (simp add: only_waits_def)
    moreover have "map_option n_status (w_nodes w5 m)
        = (if m = n then Some Finish else map_option n_status (w_nodes w m))" for m
      using only_waits_status(1) [OF ow, of m] w5(3) by simp
    moreover have "map_option parent_graph (w_nodes w5 m) = map_option parent_graph (w_nodes w m)" for m
      using only_waits_status(2) [OF ow, of m] w5(3) t(1) by simp
    moreover have "map_option ghost (w_nodes w5 m) = map_option ghost (w_nodes w m)" for m
      using only_waits_status(3) [OF ow, of m] w5(3) t(1) by simp
    ultimately show ?thesis using w5(4) by (simp add: leaves_def)
  qed
  ultimately show ?thesis using w5(2) g gr by blast
qed

end
