(* ===== verification/Lifecycle.thy ===== *)
theory Lifecycle
  imports Node_Graph
begin

text \<open>
  The life of nodes and graphs outside the edges: src/node.cpp (\<open>release\<close>, the destructor,
  \<open>get_graph\<close>, \<open>resume\<close>), src/graph.cpp (\<open>clear_graph\<close>, the
  destructor; the pool of reused nodes is in Node_Pool) and the part of src/schedule.cpp that runs one task. The body of a task is the user's
  and a context switch leaves the function: both are parameters.
\<close>

section \<open>Status\<close>

definition set_status :: "nid \<Rightarrow> RunningStatus \<Rightarrow> world \<Rightarrow> world result" where
  "set_status n s w = mod_node n (\<lambda>x. x\<lparr>n_status := s\<rparr>) w"

text \<open>\<open>Node::resume\<close> up to the call of \<open>run()\<close>.\<close>

definition resume_enter :: "nid \<Rightarrow> world \<Rightarrow> world result" where
  "resume_enter n w =
     rbind (node_at n w) (\<lambda>x. rbind (qf_assert (n_status x = Ready) ''status == Ready'') (\<lambda>_.
       set_status n Running w))"

text \<open>\<open>Schedule::run_task\<close> from the assertion to the call of \<open>run()\<close>.\<close>

definition begin_task :: "nid \<Rightarrow> world \<Rightarrow> world result" where
  "begin_task task w =
     rbind (node_at task w) (\<lambda>x. rbind (qf_assert (n_status x = Initing) ''status == Initing'') (\<lambda>_.
     rbind (set_status task Ready w) (resume_enter task)))"

section \<open>Sub-graphs\<close>

text \<open>\<open>Node::get_graph\<close>: \<open>g\<close> is the address the allocator gives a new graph.\<close>

definition get_graph :: "nid \<Rightarrow> gid \<Rightarrow> world \<Rightarrow> (gid \<times> world) result" where
  "get_graph n g w =
     rbind (node_at n w) (\<lambda>x. case sub_graph x of
       Some s \<Rightarrow> Inr (s, w)
     | None \<Rightarrow> Inr (g, put_node n (x\<lparr>sub_graph := Some g\<rparr>) (put_graph g (graph_new n) w)))"

text \<open>Every node of the list is \<open>Recoverable\<close>; the loops of \<open>clear_graph\<close> and \<open>destroy\<close> wait
  for it.\<close>

fun all_recoverable :: "nid list \<Rightarrow> world \<Rightarrow> bool result" where
  "all_recoverable [] w = Inr True"
| "all_recoverable (n # ns) w =
     rbind (node_at n w) (\<lambda>x. if n_status x \<noteq> Recoverable then Inr False else all_recoverable ns w)"

text \<open>
  \<open>Graph::clear_graph\<close>. \<open>wait_nodes\<close> is \<open>ScheduleAspect::require_node\<close>, used on a worker
  thread (\<open>in_worker\<close>). Without another thread the spinning loop never ends when a node is not
  \<open>Recoverable\<close>.
\<close>

definition clear_graph ::
  "bool \<Rightarrow> (nid list \<Rightarrow> world \<Rightarrow> world result) \<Rightarrow> gid \<Rightarrow> world \<Rightarrow> world result" where
  "clear_graph in_worker wait_nodes g w =
     (if enable_qf_dump_graph w then Inr w else
      rbind (graph_at g w) (\<lambda>gr.
      if g_status gr = Initing then Inr w
      else if g_status gr = Finish then Inr (put_graph g (gr\<lparr>g_nodes := [], fast_nodes := []\<rparr>) w)
      else let required_nodes = get_nodes gr in
        rbind (if in_worker then wait_nodes required_nodes w else Inr w) (\<lambda>w1.
        rbind (mod_graph g (\<lambda>x. x\<lparr>g_status := Finish\<rparr>) w1) (\<lambda>w2.
        rbind (all_recoverable required_nodes w2) (\<lambda>ok.
          if \<not> ok then Inl Diverges
          else mod_graph g (\<lambda>x. x\<lparr>g_nodes := [], fast_nodes := []\<rparr>) w2)))))"

definition free_graph :: "gid \<Rightarrow> world \<Rightarrow> world" where
  "free_graph g w = w\<lparr>w_graphs := (w_graphs w)(g := None)\<rparr>"

definition free_node :: "nid \<Rightarrow> world \<Rightarrow> world" where
  "free_node n w = w\<lparr>w_nodes := (w_nodes w)(n := None)\<rparr>"

text \<open>\<open>Graph::~Graph\<close>.\<close>

definition graph_delete ::
  "bool \<Rightarrow> (nid list \<Rightarrow> world \<Rightarrow> world result) \<Rightarrow> gid \<Rightarrow> world \<Rightarrow> world result" where
  "graph_delete in_worker wait_nodes g w =
     rbind (clear_graph in_worker wait_nodes g w) (\<lambda>w1. Inr (free_graph g w1))"

text \<open>\<open>Node::release\<close>; \<open>wait_graph\<close> is \<open>ScheduleAspect::wait_graph\<close>.\<close>

definition release ::
  "bool \<Rightarrow> (gid \<Rightarrow> world \<Rightarrow> world result) \<Rightarrow> (nid list \<Rightarrow> world \<Rightarrow> world result) \<Rightarrow> nid
   \<Rightarrow> world \<Rightarrow> world result" where
  "release in_worker wait_graph wait_nodes n w =
     rbind (node_at n w) (\<lambda>x. case sub_graph x of
       None \<Rightarrow> Inr w
     | Some s \<Rightarrow>
         rbind (if in_worker then wait_graph s w else Inr w) (\<lambda>w1.
         rbind (clear_graph in_worker wait_nodes s w1) (\<lambda>w2.
         rbind (graph_delete in_worker wait_nodes s w2) (\<lambda>w3.
           mod_node n (\<lambda>y. y\<lparr>sub_graph := None\<rparr>) w3))))"

text \<open>\<open>Node::~Node\<close>: the first loop spins until another thread makes the node \<open>Recoverable\<close>.\<close>

definition node_delete ::
  "bool \<Rightarrow> (gid \<Rightarrow> world \<Rightarrow> world result) \<Rightarrow> (nid list \<Rightarrow> world \<Rightarrow> world result) \<Rightarrow> nid
   \<Rightarrow> world \<Rightarrow> world result" where
  "node_delete in_worker wait_graph wait_nodes n w =
     rbind (node_at n w) (\<lambda>x.
       if n_status x < Recoverable then Inl Diverges else
       rbind (release in_worker wait_graph wait_nodes n
                (w\<lparr>pending_worker_num := pending_worker_num w - 1\<rparr>)) (\<lambda>w1.
       rbind (set_status n Destroy w1) (\<lambda>w2. Inr (free_node n w2))))"

section \<open>The end of a task\<close>

text \<open>\<open>Schedule::run_task\<close> after \<open>resume\<close>: one round of its loop ends here.\<close>

definition end_task ::
  "(gid \<Rightarrow> world \<Rightarrow> world result) \<Rightarrow> (nid list \<Rightarrow> world \<Rightarrow> world result) \<Rightarrow> nid
   \<Rightarrow> world \<Rightarrow> (nid \<times> world) result" where
  "end_task wait_graph wait_nodes task w =
     rbind (node_finish task w) (\<lambda>(next_task, w1).
     rbind (node_at task w1) (\<lambda>x.
     rbind (if ghost x
            then rbind (release True wait_graph wait_nodes task w1)
                   (node_delete True wait_graph wait_nodes task)
            else Inr w1) (\<lambda>w2.
     rbind (node_at task w2) (\<lambda>y.
     rbind (qf_assert (n_status y = Finish) ''status == Finish'') (\<lambda>_.
     rbind (set_status task Recoverable w2) (\<lambda>w3. Inr (next_task, w3)))))))"

text \<open>
  \<open>Schedule::run_task\<close>: \<open>run\<close> is the virtual function \<open>run()\<close>; the loop follows the next
  tasks, at most \<open>fuel\<close> of them.
\<close>

fun run_loop ::
  "(nid \<Rightarrow> world \<Rightarrow> world result) \<Rightarrow> (gid \<Rightarrow> world \<Rightarrow> world result)
   \<Rightarrow> (nid list \<Rightarrow> world \<Rightarrow> world result) \<Rightarrow> nat \<Rightarrow> nid \<Rightarrow> world \<Rightarrow> world result" where
  "run_loop run wait_graph wait_nodes 0 task w =
     (if task = nullptr then Inr w else Inl Diverges)"
| "run_loop run wait_graph wait_nodes (Suc fuel) task w =
     (if task = nullptr then Inr w else
      rbind (begin_task task w) (\<lambda>w1.
      rbind (run task w1) (\<lambda>w2.
      rbind (end_task wait_graph wait_nodes task w2) (\<lambda>(next_task, w3).
        run_loop run wait_graph wait_nodes fuel next_task w3))))"

definition run_task ::
  "(nid \<Rightarrow> world \<Rightarrow> world result) \<Rightarrow> (gid \<Rightarrow> world \<Rightarrow> world result)
   \<Rightarrow> (nid list \<Rightarrow> world \<Rightarrow> world result) \<Rightarrow> nat \<Rightarrow> nid \<Rightarrow> world \<Rightarrow> world result" where
  "run_task run wait_graph wait_nodes fuel task w =
     run_loop run wait_graph wait_nodes fuel task
       (w\<lparr>ready_worker_num := ready_worker_num w - 1\<rparr>)"

section \<open>Properties\<close>

lemma clear_graph_empties:
  assumes "clear_graph in_worker wait_nodes g w = Inr w'" and "\<not> enable_qf_dump_graph w" and "w_graphs w g = Some gr" "g_status gr \<noteq> Initing"
  shows "\<exists>gr'. w_graphs w' g = Some gr' \<and> g_status gr' = Finish \<and> fast_nodes gr' = [] \<and> g_nodes gr' = []"
  using assms
  by (auto simp: clear_graph_def graph_at_def mod_graph_def put_graph_def Let_def split: if_splits option.splits)

text \<open>C27: a graph that has been cleared cannot be used again. \<open>clear_graph\<close> empties \<open>fast_nodes\<close> and leaves \<open>node_num\<close>, so the next
  \<open>create_edges\<close> does not resize the vector and writes past its end, as long as the graph has had fewer than 63 nodes.\<close>

theorem cleared_graph_is_unusable:
  assumes "clear_graph in_worker wait_nodes g w = Inr w'" and "\<not> enable_qf_dump_graph w" and "w_graphs w g = Some gr" "g_status gr \<noteq> Initing"
    and "w_graphs w' g = Some gr'" "0 < node_num gr'" "node_num gr' < fast_node_max_num"
    and "w_nodes w' n = Some x" and "parent_node gr' \<noteq> nullptr \<longrightarrow> parent_node gr' \<in> dom (w_nodes w')"
  shows "create_edges g n required_nodes w' = Inl (Undefined ''index'')"
proof -
  have "fast_nodes gr' = []" using clear_graph_empties [OF assms(1-4)] assms(5) by auto
  moreover obtain p where "parent_node gr' \<noteq> nullptr \<longrightarrow> w_nodes w' (parent_node gr') = Some p" using assms(9) by auto
  ultimately show ?thesis using assms(5-8)
    by (cases "parent_node gr' = nullptr")
      (auto simp: create_edges_def attach_node_def mod_graph_def mod_node_def graph_at_def node_at_def put_graph_def put_node_def vset_def Let_def
        simp del: rbind_eq_Inr)
qed

definition one_node :: world where
  "one_node = \<lparr>w_nodes = [5 \<mapsto> \<lparr>n_status = Recoverable, ghost = False, reuse = False, root_node = 0, node_id = 0,
       parent_graph = Some 1, sub_graph = None, require_sub_graph = False, up_streams = [], fast_down_strams = 0,
       fast_down_strams_bak = 0, wait_count = 0, down_streams = []\<rparr>],
     w_graphs = [1 \<mapsto> (graph_new nullptr)\<lparr>node_num := 1, g_status := Running, fast_nodes := vec_resize 63 [5]\<rparr>],
     inner_schedule = None, ready_worker_num = 0, pending_worker_num = 1, enable_qf_check_circle = False, enable_qf_dump_graph = False\<rparr>"

theorem cleared_graph_is_unusable_witness:
  "\<exists>w'. clear_graph False (\<lambda>ns. Inr) 1 one_node = Inr w' \<and> create_edges 1 5 [] w' = Inl (Undefined ''index'')"
proof -
  let ?w = "put_graph 1 ((graph_new nullptr)\<lparr>node_num := 1, g_status := Finish\<rparr>) one_node"
  have "clear_graph False (\<lambda>ns. Inr) 1 one_node = Inr ?w"
    by (simp add: clear_graph_def one_node_def graph_at_def get_nodes_def graph_new_def node_at_def mod_graph_def put_graph_def Let_def vec_resize_def)
  moreover from cleared_graph_is_unusable [OF this, of _ _ 5] have "create_edges 1 5 [] ?w = Inl (Undefined ''index'')"
    by (simp add: one_node_def graph_new_def put_graph_def fast_node_max_num_def)
  ultimately show ?thesis by blast
qed

end
