(* ===== verification/Dag_Exec.thy ===== *)
theory Dag_Exec
  imports Dag_Edges Dag_Finish Lifecycle
begin

text \<open>
  Execution of task graphs: any interleaving of the construction of nodes and graphs,
  \<open>Graph::create_edges\<close>, and workers that take tasks from the queue, start them and finish them.
  Each of these calls is one step; the bodies of the tasks are the \<open>Create\<close> steps that happen
  between a start and a finish, so a running task may extend the graphs.
\<close>

section \<open>The system\<close>

text \<open>\<open>held\<close> are the tasks workers have in hand and not started, \<open>deps n\<close> the nodes \<open>n\<close> was
  made to wait for; the latter is no state of the program.\<close>

record sys =
  store :: world
  held :: "nid multiset"
  deps :: "nid \<Rightarrow> nid set"

datatype event =
    Alloc nid node
  | New_graph gid nid
  | Create gid nid "nid list"
  | Dequeue nid
  | Start nid
  | Done nid nid

definition no_wait :: "'a \<Rightarrow> world \<Rightarrow> world result" where
  "no_wait g w = Inr w"

definition with_queue :: "world \<Rightarrow> schedule \<Rightarrow> task_queue \<Rightarrow> world" where
  "with_queue w s q = w\<lparr>inner_schedule := Some (s\<lparr>s_task_queue := q\<rparr>)\<rparr>"

text \<open>What a caller of \<open>create_edges\<close> must respect: a new node, an existing graph, required
  nodes that are null, the node itself or attached nodes; fewer than \<open>2 ^ 31\<close> of them, and
  \<open>node_num\<close> does not wrap.\<close>

definition may_create :: "world \<Rightarrow> gid \<Rightarrow> nid \<Rightarrow> nid list \<Rightarrow> bool" where
  "may_create w g n reqs \<longleftrightarrow>
     (case w_nodes w n of None \<Rightarrow> False | Some x \<Rightarrow> parent_graph x = None)
     \<and> (case w_graphs w g of None \<Rightarrow> False | Some gr \<Rightarrow> node_num gr + 1 \<noteq> 0)
     \<and> linkable w n reqs \<and> length reqs < i32_lim"

inductive step :: "sys \<Rightarrow> event \<Rightarrow> sys \<Rightarrow> bool" where
  alloc: "w_nodes (store s) n = None \<Longrightarrow> n \<noteq> nullptr \<Longrightarrow> n \<noteq> flag_node \<Longrightarrow>
    step s (Alloc n raw) (s\<lparr>store := node_new n raw (store s)\<rparr>)"
| new_graph: "w_graphs (store s) g = None \<Longrightarrow> p = nullptr \<or> w_nodes (store s) p \<noteq> None \<Longrightarrow>
    step s (New_graph g p) (s\<lparr>store := put_graph g (graph_new p) (store s)\<rparr>)"
| create: "may_create (store s) g n reqs \<Longrightarrow> create_edges g n reqs (store s) = Inr w \<Longrightarrow>
    step s (Create g n reqs) (s\<lparr>store := w, deps := (deps s)(n := deps s n \<union> required n reqs)\<rparr>)"
| dequeue: "inner_schedule (store s) = Some sc \<Longrightarrow> inner_dequeue (s_task_queue sc) = Inr (q, Some n) \<Longrightarrow>
    step s (Dequeue n) (s\<lparr>store := with_queue (store s) sc q, held := add_mset n (held s)\<rparr>)"
| start: "n \<in># held s \<Longrightarrow> begin_task n (store s) = Inr w \<Longrightarrow>
    step s (Start n) (s\<lparr>store := w, held := held s - {#n#}\<rparr>)"
| finish: "w_nodes (store s) n = Some x \<Longrightarrow> n_status x = Running \<Longrightarrow>
    end_task no_wait no_wait n (store s) = Inr (nx, w) \<Longrightarrow>
    step s (Done n nx) (s\<lparr>store := w, held := (if nx = nullptr then held s else add_mset nx (held s))\<rparr>)"

inductive_cases step_AllocE: "step s (Alloc n raw) s'"
inductive_cases step_New_graphE: "step s (New_graph g p) s'"
inductive_cases step_CreateE: "step s (Create g n reqs) s'"
inductive_cases step_DequeueE: "step s (Dequeue n) s'"
inductive_cases step_StartE: "step s (Start n) s'"
inductive_cases step_DoneE: "step s (Done n nx) s'"

text \<open>A scheduler that runs, with an empty store.\<close>

definition initial :: "sys \<Rightarrow> bool" where
  "initial s \<longleftrightarrow> w_nodes (store s) = Map.empty \<and> w_graphs (store s) = Map.empty
     \<and> (\<exists>sc. inner_schedule (store s) = Some sc \<and> s_status sc = Running
          \<and> tq_inv (s_task_queue sc) \<and> tq_contents (s_task_queue sc) = [])
     \<and> held s = {#} \<and> (\<forall>n. deps s n = {})"

inductive reachable :: "sys \<Rightarrow> bool" where
  init: "initial s \<Longrightarrow> reachable s"
| more: "reachable s \<Longrightarrow> step s ev s' \<Longrightarrow> reachable s'"

section \<open>The invariant of the system\<close>

definition unfinished :: "world \<Rightarrow> gid \<Rightarrow> nid set" where
  "unfinished w g = {n. \<exists>x. w_nodes w n = Some x \<and> parent_graph x = Some g \<and> n_status x < Finish}"

definition counters_ok :: "world \<Rightarrow> bool" where
  "counters_ok w \<longleftrightarrow> (\<forall>g gr. w_graphs w g = Some gr \<longrightarrow>
     g_wait_count gr = of_nat (card (unfinished w g)))"

definition phases_ok :: "world \<Rightarrow> bool" where
  "phases_ok w \<longleftrightarrow> (\<forall>n x. w_nodes w n = Some x \<longrightarrow>
     n_status x \<in> {Initing, Running, Recoverable} \<and> \<not> ghost x)"

definition sys_inv :: "sys \<Rightarrow> bool" where
  "sys_inv s \<longleftrightarrow> exec_inv (store s) (\<lambda>_. 0) (held s) (deps s) \<and> counters_ok (store s)
     \<and> phases_ok (store s)"

section \<open>Every step keeps it\<close>

lemma inner_dequeue_Some:
  assumes "tq_inv t" and "inner_dequeue t = Inr (t', Some n)"
  shows "tq_inv t' \<and> tq_contents t = n # tq_contents t'"
proof -
  let ?l = "tq_limit_queue t" and ?u = "tq_unlimit_queue t"
  have inv: "fq_inv ?l" "uq_inv ?u" using assms(1) by (simp_all add: tq_inv_def)
  from assms(2) obtain l r where l: "fq_try_dequeue ?l = Inr (l, r)" by (auto simp: inner_dequeue_def)
  show ?thesis
  proof (cases r)
    case (Some x)
    then have t': "t' = t\<lparr>tq_limit_queue := l\<rparr>" "x = n" using assms(2) l by (simp_all add: inner_dequeue_def)
    have "fq_inv l" using fq.deq_spec [OF inv(1)] l Some by blast
    moreover have "fq_contents ?l = n # fq_contents l"
      using fq.deq_Some_mset [OF inv(1)] l Some t'(2) by blast
    ultimately show ?thesis using t'(1) inv(2) by (simp add: tq_inv_def tq_contents_def)
  next
    case None
    then have e: "fq_contents ?l = []" "l = ?l" using fq.deq_None_empty [OF inv(1)] l by blast+
    from assms(2) l None obtain u where u: "uq_try_dequeue ?u = Inr (u, Some n)"
      "t' = t\<lparr>tq_limit_queue := ?l, tq_unlimit_queue := u\<rparr>"
      using e(2) by (auto simp: inner_dequeue_def split: if_splits)
    have "uq_inv u" using uq.deq_spec [OF inv(2)] u(1) by blast
    moreover have "uq_inner_queue ?u = n # uq_inner_queue u" using uq.deq_Some_mset [OF inv(2)] u(1) by blast
    ultimately show ?thesis using u(2) inv(1) e(1) by (simp add: tq_inv_def tq_contents_def)
  qed
qed

lemma alloc_inv:
  assumes inv: "exec_inv w e h d" and n: "w_nodes w n = None" "n \<noteq> nullptr" "n \<noteq> flag_node"
  shows "exec_inv (node_new n raw w) e h d"
proof -
  let ?w = "node_new n raw w"
  define x where "x = node_reset (raw\<lparr>ghost := False, reuse := False\<rparr>)"
  have x: "parent_graph x = None" "n_status x = Initing" "wait_count x = 0" "fast_down_strams x = 0"
    "down_streams x = []" "fast_down_strams_bak x = fast_down_strams_bak_init"
    by (simp_all add: x_def node_reset_def)
  have parts: "store_ok w" "counts_ok w e h" "deps_ok w d" using inv by (auto simp: exec_inv_def)
  have nodes: "w_nodes ?w = (w_nodes w)(n \<mapsto> x)" and graphs: "w_graphs ?w = w_graphs w"
    and sched: "inner_schedule ?w = inner_schedule w"
    by (simp_all add: node_new_def x_def)
  have q: "queue ?w = queue w" by (simp add: queue_def sched)
  have links: "n \<notin> set (down_streams z)" if "w_nodes w s = Some z" for s z
    using exec_invD(1) [OF inv that] n(1) unfolding links_ok_def by fastforce
  have edge: "edge ?w s m = edge w s m" for s m
  proof (cases "s = n")
    case True
    then show ?thesis
      using n(1) x by (auto simp: edge_def nodes edge_count_def fast_edge_def split: option.splits)
  next
    case False
    show ?thesis
    proof (cases "m = n")
      case True
      with False n(1) x(1) links show ?thesis
        by (auto simp: edge_def nodes edge_count_def fast_edge_def count_list_0_iff split: option.splits)
    next
      case neq: False
      with False show ?thesis by (simp add: edge_def nodes)
    qed
  qed
  have fin: "finite (dom (w_nodes w))" using parts(1) by (simp add: store_ok_def)
  have pend: "pend ?w m = pend w m" for m
  proof -
    have "dom (w_nodes ?w) = insert n (dom (w_nodes w))" by (auto simp: nodes)
    moreover have "edge w n m = 0" using n(1) by (simp add: edge_def)
    moreover have "n \<notin> dom (w_nodes w)" using n(1) by auto
    ultimately show ?thesis using fin by (simp add: pend_def edge)
  qed
  have lk: "links_ok ?w z" if z: "links_ok w z" for z
  proof (rule links_ok_cong [OF z graphs])
    show "\<exists>z. w_nodes ?w m = Some z \<and> parent_graph z = parent_graph y \<and> node_id z = node_id y"
      if "w_nodes w m = Some y" for m y using that n(1) by (auto simp: nodes)
  qed (use z in \<open>simp_all add: links_ok_def\<close>)
  have "links_ok ?w x" using x unfolding links_ok_def by simp
  then have "links_ok ?w z" if "w_nodes ?w m = Some z" for m z
    using that lk exec_invD(1) [OF inv] by (cases "m = n") (auto simp: nodes)
  moreover have "graph_ok ?w g gr" if g: "w_graphs w g = Some gr" for g gr
  proof -
    have "graph_ok w g gr" using parts(1) g by (simp add: store_ok_def)
    then show ?thesis using x(1) unfolding graph_ok_def by (auto simp: nodes)
  qed
  ultimately have "store_ok ?w"
    using parts(1) n(2,3) unfolding store_ok_def by (simp add: graphs sched sched_ok_def nodes)
  moreover have "counts_ok ?w e h"
  proof (rule counts_ok_upd [OF parts(2) nodes])
    have "e n = 0 \<and> count (queue w + h) n = 0" by (rule counts_ok_None [OF parts(2) n(1)])
    then show "waits_ok x (owed ?w e n) (count (queue ?w + h) n)"
      using x pend [of n] pend_None [OF n(1)] by (simp add: waits_ok_def owed_def q)
  qed (simp add: pend q)
  moreover have "deps_ok ?w d"
    unfolding deps_ok_def edge
  proof (intro conjI allI ballI)
    fix m r assume "r \<in> d m"
    then obtain z where z: "w_nodes w r = Some z" "parent_graph z \<noteq> None"
      "n_status z < Finish \<longrightarrow> 0 < edge w r m" using parts(3) unfolding deps_ok_def by blast
    then show "\<exists>z. w_nodes ?w r = Some z \<and> parent_graph z \<noteq> None
        \<and> (n_status z < Finish \<longrightarrow> 0 < edge w r m)" using n(1) by (auto simp: nodes)
  qed (use parts(3) in \<open>auto simp: deps_ok_def\<close>)
  ultimately show ?thesis by (simp add: exec_inv_def)
qed

lemma new_graph_inv:
  assumes inv: "exec_inv w e h d" and g: "w_graphs w g = None" and p: "p = nullptr \<or> w_nodes w p \<noteq> None"
  shows "exec_inv (put_graph g (graph_new p) w) e h d"
proof -
  let ?w = "put_graph g (graph_new p) w"
  have parts: "store_ok w" "counts_ok w e h" "deps_ok w d" using inv by (auto simp: exec_inv_def)
  have e: "edge ?w = edge w" "pend ?w = pend w"
    by (simp_all add: edge_cong [of ?w w] pend_cong [of ?w w])
  have free: "parent_graph x \<noteq> Some g" if "w_nodes w m = Some x" for m x
    using exec_invD(1) [OF inv that] g unfolding links_ok_def by auto
  have new: "graph_ok ?w g (graph_new p)" using p free unfolding graph_ok_def by (auto simp: graph_new_def)
  have "graph_ok ?w g1 gr1" if g1: "w_graphs ?w g1 = Some gr1" for g1 gr1
  proof (cases "g1 = g")
    case True
    with g1 new show ?thesis by simp
  next
    case False
    with g1 have "graph_ok w g1 gr1" using parts(1) by (simp add: store_ok_def)
    then show ?thesis unfolding graph_ok_def by simp
  qed
  moreover have "links_ok ?w z" if z: "w_nodes w m = Some z" for m z
  proof -
    have lz: "links_ok w z" using exec_invD(1) [OF inv z] .
    have b: "\<forall>i. bit (fast_down_strams z) i \<longrightarrow> i < 63 \<and> (\<exists>g2 gr2 y. parent_graph z = Some g2
        \<and> w_graphs ?w g2 = Some gr2 \<and> w_nodes ?w (fast_nodes gr2 ! i) = Some y
        \<and> parent_graph y = Some g2 \<and> node_id y = of_nat i)"
    proof (intro allI impI)
      fix i assume "bit (fast_down_strams z) i"
      then obtain g2 gr2 y where y: "i < 63" "parent_graph z = Some g2" "w_graphs w g2 = Some gr2"
        "w_nodes w (fast_nodes gr2 ! i) = Some y" "parent_graph y = Some g2" "node_id y = of_nat i"
        using lz unfolding links_ok_def by blast
      moreover have "w_graphs ?w g2 = Some gr2" using y(3) g by auto
      ultimately show "i < 63 \<and> (\<exists>g2 gr2 y. parent_graph z = Some g2
        \<and> w_graphs ?w g2 = Some gr2 \<and> w_nodes ?w (fast_nodes gr2 ! i) = Some y
        \<and> parent_graph y = Some g2 \<and> node_id y = of_nat i)" by auto
    qed
    moreover have "\<forall>g2. parent_graph z = Some g2 \<longrightarrow> g2 \<in> dom (w_graphs ?w)"
      using lz unfolding links_ok_def by simp
    ultimately show ?thesis using lz unfolding links_ok_def w_nodes_putg by blast
  qed
  moreover have "sched_ok ?w" using parts(1) by (simp add: store_ok_def sched_ok_def)
  ultimately have "store_ok ?w" using parts(1) unfolding store_ok_def w_nodes_putg by blast
  moreover have "counts_ok ?w e h"
    using parts(2) unfolding counts_ok_def owed_def e queue_putg w_nodes_putg .
  moreover have "deps_ok ?w d" using parts(3) by (simp add: deps_ok_def e)
  ultimately show ?thesis by (simp add: exec_inv_def)
qed

lemma dequeue_inv:
  assumes inv: "exec_inv w e h d" and s: "inner_schedule w = Some sc"
    and q: "inner_dequeue (s_task_queue sc) = Inr (q, Some n)"
  shows "exec_inv (with_queue w sc q) e (add_mset n h) d"
proof -
  let ?w = "with_queue w sc q"
  have parts: "store_ok w" "counts_ok w e h" "deps_ok w d" using inv by (auto simp: exec_inv_def)
  then have sc: "s_status sc = Running" "tq_inv (s_task_queue sc)"
    using s by (auto simp: store_ok_def sched_ok_def)
  have tq: "tq_inv q" "tq_contents (s_task_queue sc) = n # tq_contents q"
    using inner_dequeue_Some [OF sc(2) q] by blast+
  have same: "w_nodes ?w = w_nodes w" "w_graphs ?w = w_graphs w" by (simp_all add: with_queue_def)
  have e: "edge ?w = edge w" "pend ?w = pend w"
    by (simp_all add: edge_cong [of ?w w] pend_cong [of ?w w] same)
  have qq: "queue ?w + add_mset n h = queue w + h"
    using s tq(2) by (simp add: queue_def with_queue_def)
  have "links_ok ?w y = links_ok w y" "graph_ok ?w g gr = graph_ok w g gr" for y g gr
    by (simp_all add: links_ok_def graph_ok_def same)
  moreover have "sched_ok ?w" using sc(1) tq(1) by (simp add: sched_ok_def with_queue_def)
  ultimately have "store_ok ?w" using parts(1) by (simp add: store_ok_def same)
  moreover have "counts_ok ?w e (add_mset n h)"
    using parts(2) unfolding counts_ok_def owed_def e qq same .
  moreover have "deps_ok ?w d" using parts(3) by (simp add: deps_ok_def e same)
  ultimately show ?thesis by (simp add: exec_inv_def)
qed

lemma begin_task_inv:
  assumes inv: "exec_inv w e (add_mset n h) d"
  shows "\<exists>x. w_nodes w n = Some x \<and> n_status x = Initing \<and> parent_graph x \<noteq> None
    \<and> owed w e n = 0 \<and> begin_task n w = Inr (put_node n (x\<lparr>n_status := Running\<rparr>) w)
    \<and> exec_inv (put_node n (x\<lparr>n_status := Running\<rparr>) w) e h d"
proof -
  have c: "counts_ok w e (add_mset n h)" using inv by (simp add: exec_inv_def)
  obtain x g where x: "w_nodes w n = Some x" "n_status x = Initing" "parent_graph x = Some g"
    "owed w e n = 0" "n \<notin># queue w" "n \<notin># h" using held_node [OF c] by blast
  have run: "begin_task n w = Inr (put_node n (x\<lparr>n_status := Running\<rparr>) w)"
    using x(1,2) by (simp add: begin_task_def set_status_def resume_enter_def mod_node_def)
  have "exec_inv (put_node n (x\<lparr>n_status := Running\<rparr>) w) e h d"
  proof (rule exec_inv_put [OF inv x(1)])
    show "same_links x (x\<lparr>n_status := Running\<rparr>)" using x(2) by (simp add: same_links_def status_order)
    show "fast_down_strams_bak (x\<lparr>n_status := Running\<rparr>) = fast_down_strams_bak_init"
      using exec_invD(1) [OF inv x(1)] x(2) by (simp add: links_ok_def status_order)
    show "waits_ok (x\<lparr>n_status := Running\<rparr>) (owed w e n) (count (queue w + h) n)"
      using x(4-6) by (simp add: waits_ok_def not_in_iff)
  qed (use x(3) in simp_all)
  with x run show ?thesis by blast
qed

text \<open>The nodes a graph still waits for, in terms of the views the steps speak of.\<close>

lemma unfinished_iff:
  "n \<in> unfinished w g \<longleftrightarrow> map_option parent_graph (w_nodes w n) = Some (Some g)
     \<and> (\<exists>s < Finish. map_option n_status (w_nodes w n) = Some s)"
  by (cases "w_nodes w n") (simp_all add: unfinished_def)

lemma phases_iff:
  "phases_ok w \<longleftrightarrow>
     (\<forall>n. map_option n_status (w_nodes w n) \<in> {None, Some Initing, Some Running, Some Recoverable}
        \<and> map_option ghost (w_nodes w n) \<in> {None, Some False})"
proof -
  have "(\<forall>x. w_nodes w n = Some x \<longrightarrow> n_status x \<in> {Initing, Running, Recoverable} \<and> \<not> ghost x) \<longleftrightarrow>
      map_option n_status (w_nodes w n) \<in> {None, Some Initing, Some Running, Some Recoverable}
      \<and> map_option ghost (w_nodes w n) \<in> {None, Some False}" for n
    by (cases "w_nodes w n") auto
  then show ?thesis unfolding phases_ok_def by simp
qed

lemma phase_cases:
  "s \<in> {Initing, Running, Recoverable} \<Longrightarrow> s < Finish \<longleftrightarrow> s \<noteq> Recoverable"
  by (auto simp: status_order)

lemma unfinished_finite: "exec_inv w e h d \<Longrightarrow> finite (unfinished w g)"
proof -
  assume "exec_inv w e h d"
  then have "finite (dom (w_nodes w))" by (simp add: exec_inv_def store_ok_def)
  moreover have "unfinished w g \<subseteq> dom (w_nodes w)" by (auto simp: unfinished_def)
  ultimately show ?thesis by (rule rev_finite_subset)
qed

lemma counters_okD: "counters_ok w \<Longrightarrow> w_graphs w g = Some gr \<Longrightarrow>
    g_wait_count gr = of_nat (card (unfinished w g))"
  by (simp add: counters_ok_def)

lemma end_task_step:
  assumes inv: "exec_inv w (\<lambda>_. 0) h d" and x: "w_nodes w n = Some x" "n_status x = Running"
    and gh: "\<not> ghost x"
  shows "\<exists>nx w' g gr. end_task no_wait no_wait n w = Inr (nx, w')
    \<and> exec_inv w' (\<lambda>_. 0) (if nx = nullptr then h else add_mset nx h) d
    \<and> parent_graph x = Some g \<and> w_graphs w g = Some gr
    \<and> w_graphs w' = (w_graphs w)(g \<mapsto> gr\<lparr>g_wait_count := g_wait_count gr - 1\<rparr>)
    \<and> (\<forall>m. map_option n_status (w_nodes w' m)
          = (if m = n then Some Recoverable else map_option n_status (w_nodes w m)))
    \<and> (\<forall>m. map_option parent_graph (w_nodes w' m) = map_option parent_graph (w_nodes w m))
    \<and> (\<forall>m. map_option ghost (w_nodes w' m) = map_option ghost (w_nodes w m))"
proof -
  obtain nx w1 g gr where f: "node_finish n w = Inr (nx, w1)"
    "exec_inv w1 (\<lambda>_. 0) (if nx = nullptr then h else add_mset nx h) d"
    "parent_graph x = Some g" "w_graphs w g = Some gr" "leaves w n g gr w1"
    using node_finish_step [OF inv x] by blast
  let ?h = "if nx = nullptr then h else add_mset nx h"
  have "map_option n_status (w_nodes w1 n) = Some Finish" using f(5) by (simp add: leaves_def)
  then obtain y where y: "w_nodes w1 n = Some y" "n_status y = Finish" by auto
  have yg: "\<not> ghost y" using f(5) x(1) gh y(1) by (auto simp: leaves_def dest: spec [of _ n])
  let ?w = "put_node n (y\<lparr>n_status := Recoverable\<rparr>) w1"
  have run: "end_task no_wait no_wait n w = Inr (nx, ?w)"
    using f(1) y yg by (simp add: end_task_def set_status_def mod_node_def)
  have "exec_inv ?w (\<lambda>_. 0) ?h d"
  proof (rule exec_inv_put [OF f(2) y(1)])
    show "same_links y (y\<lparr>n_status := Recoverable\<rparr>)" using y(2) by (simp add: same_links_def status_order)
    show "waits_ok (y\<lparr>n_status := Recoverable\<rparr>) (owed w1 (\<lambda>_. 0) n) (count (queue w1 + ?h) n)"
      using exec_invD(2) [OF f(2) y(1)] y(2) by (simp add: waits_ok_def)
    show "parent_graph (y\<lparr>n_status := Recoverable\<rparr>) = None \<Longrightarrow>
        n_status (y\<lparr>n_status := Recoverable\<rparr>) = Initing \<and> wait_count (y\<lparr>n_status := Recoverable\<rparr>) = 0"
      using exec_invD(1) [OF f(2) y(1)] y(2) by (simp add: links_ok_def)
  qed (simp_all add: status_order)
  moreover have "map_option parent_graph (w_nodes w n) = Some (parent_graph y)"
    "map_option ghost (w_nodes w n) = Some (ghost y)"
    using f(5) y(1) unfolding leaves_def by (metis option.map(2))+
  then have "w_graphs ?w = (w_graphs w)(g \<mapsto> gr\<lparr>g_wait_count := g_wait_count gr - 1\<rparr>)
    \<and> (\<forall>m. map_option n_status (w_nodes ?w m)
          = (if m = n then Some Recoverable else map_option n_status (w_nodes w m)))
    \<and> (\<forall>m. map_option parent_graph (w_nodes ?w m) = map_option parent_graph (w_nodes w m))
    \<and> (\<forall>m. map_option ghost (w_nodes ?w m) = map_option ghost (w_nodes w m))"
    using f(5) unfolding leaves_def by (simp del: map_option_eq_Some)
  ultimately show ?thesis using run f(3,4) by blast
qed

lemma step_inv:
  assumes "step s ev s'" and "sys_inv s"
  shows "sys_inv s'"
  using assms
proof (induction rule: step.induct)
  case (alloc s n raw)
  let ?w = "store s" and ?w' = "node_new n raw (store s)"
  have inv: "exec_inv ?w (\<lambda>_. 0) (held s) (deps s)" "counters_ok ?w" "phases_ok ?w"
    using alloc.prems by (simp_all add: sys_inv_def)
  have g: "w_graphs ?w' = w_graphs ?w" by (simp add: node_new_def)
  have "unfinished ?w' g = unfinished ?w g" for g
    using alloc.hyps(1) by (auto simp: unfinished_def node_new_def node_reset_def split: if_splits)
  then have "counters_ok ?w'" using inv(2) by (simp add: counters_ok_def g)
  moreover have "phases_ok ?w'" using inv(3) by (simp add: phases_ok_def node_new_def node_reset_def)
  ultimately show ?case using alloc_inv [OF inv(1) alloc.hyps] by (simp add: sys_inv_def)
next
  case (new_graph s g p)
  let ?w = "store s" and ?w' = "put_graph g (graph_new p) (store s)"
  have inv: "exec_inv ?w (\<lambda>_. 0) (held s) (deps s)" "counters_ok ?w" "phases_ok ?w"
    using new_graph.prems by (simp_all add: sys_inv_def)
  have u: "unfinished ?w' g1 = unfinished ?w g1" for g1 by (simp add: unfinished_def)
  have "unfinished ?w g = {}"
  proof -
    have "parent_graph x \<noteq> Some g" if "w_nodes ?w m = Some x" for m x
      using exec_invD(1) [OF inv(1) that] new_graph.hyps(1) unfolding links_ok_def by auto
    then show ?thesis by (auto simp: unfinished_def)
  qed
  moreover have "g_wait_count (graph_new p) = 0" by (simp add: graph_new_def)
  ultimately have "counters_ok ?w'" using inv(2) by (simp add: counters_ok_def u)
  moreover have "phases_ok ?w'" using inv(3) by (simp add: phases_ok_def)
  ultimately show ?case using new_graph_inv [OF inv(1) new_graph.hyps] by (simp add: sys_inv_def)
next
  case (create s g n reqs w)
  let ?w = "store s"
  have inv: "exec_inv ?w (\<lambda>_. 0) (held s) (deps s)" "counters_ok ?w" "phases_ok ?w"
    using create.prems by (simp_all add: sys_inv_def)
  obtain x gr where x: "w_nodes ?w n = Some x" "parent_graph x = None"
    "w_graphs ?w g = Some gr" "node_num gr + 1 \<noteq> 0" "linkable ?w n reqs" "length reqs < i32_lim"
    using create.hyps(1) by (auto simp: may_create_def split: option.splits)
  from create_edges_step [OF inv(1) x] create.hyps(2) have
    c: "exec_inv w (\<lambda>_. 0) (held s) ((deps s)(n := deps s n \<union> required n reqs))"
      "joins ?w n g gr w" by auto
  have j: "w_graphs w = (w_graphs ?w)(g \<mapsto> grown_graph n gr)"
    "\<And>m. map_option n_status (w_nodes w m) = map_option n_status (w_nodes ?w m)"
    "\<And>m. m \<noteq> n \<Longrightarrow> map_option parent_graph (w_nodes w m) = map_option parent_graph (w_nodes ?w m)"
    "map_option parent_graph (w_nodes w n) = Some (Some g)"
    "\<And>m. map_option ghost (w_nodes w m) = map_option ghost (w_nodes ?w m)"
    using c(2) by (simp_all add: joins_def)
  have st: "n_status x = Initing" using exec_invD(1) [OF inv(1) x(1)] x(2) by (simp add: links_ok_def)
  have u: "unfinished w g1 = (if g1 = g then insert n (unfinished ?w g) else unfinished ?w g1)" for g1
  proof (rule set_eqI)
    fix m
    show "m \<in> unfinished w g1 \<longleftrightarrow> m \<in> (if g1 = g then insert n (unfinished ?w g) else unfinished ?w g1)"
      using j(2-4) x(1,2) st by (cases "m = n") (auto simp: unfinished_iff status_order)
  qed
  have "n \<notin> unfinished ?w g" using x(1,2) by (simp add: unfinished_def)
  then have "card (unfinished w g) = Suc (card (unfinished ?w g))"
    using unfinished_finite [OF inv(1)] by (simp add: u)
  then have "counters_ok w"
    using inv(2) counters_okD [OF inv(2) x(3)]
    by (auto simp: counters_ok_def j(1) u grown_fields add.commute split: if_splits)
  moreover have "phases_ok w" using inv(3) unfolding phases_iff by (simp add: j(2,5))
  ultimately show ?case using c(1) by (simp add: sys_inv_def)
next
  case (dequeue s sc q n)
  let ?w = "store s" and ?w' = "with_queue (store s) sc q"
  have inv: "exec_inv ?w (\<lambda>_. 0) (held s) (deps s)" "counters_ok ?w" "phases_ok ?w"
    using dequeue.prems by (simp_all add: sys_inv_def)
  have "counters_ok ?w'" "phases_ok ?w'"
    using inv(2,3) by (simp_all add: counters_ok_def phases_ok_def unfinished_def with_queue_def)
  then show ?case using dequeue_inv [OF inv(1) dequeue.hyps] by (simp add: sys_inv_def)
next
  case (start n s w)
  let ?w = "store s"
  have inv: "exec_inv ?w (\<lambda>_. 0) (add_mset n (held s - {#n#})) (deps s)" "counters_ok ?w" "phases_ok ?w"
    using start.prems start.hyps(1) by (simp_all add: sys_inv_def)
  obtain x where x: "w_nodes ?w n = Some x" "n_status x = Initing"
    "w = put_node n (x\<lparr>n_status := Running\<rparr>) ?w" "exec_inv w (\<lambda>_. 0) (held s - {#n#}) (deps s)"
    using begin_task_inv [OF inv(1)] start.hyps(2) by auto
  have "unfinished w g = unfinished ?w g" for g
    using x(1,2) unfolding x(3) by (auto simp: unfinished_def status_order)
  then have "counters_ok w" using inv(2) by (simp add: counters_ok_def x(3))
  moreover have "phases_ok w" using inv(3) x(1) by (simp add: phases_ok_def x(3))
  ultimately show ?case using x(4) by (simp add: sys_inv_def)
next
  case (finish s n x nx w)
  let ?w = "store s"
  have inv: "exec_inv ?w (\<lambda>_. 0) (held s) (deps s)" "counters_ok ?w" "phases_ok ?w"
    using finish.prems by (simp_all add: sys_inv_def)
  have gh: "\<not> ghost x" using inv(3) finish.hyps(1) by (simp add: phases_ok_def)
  obtain g gr where f: "exec_inv w (\<lambda>_. 0) (if nx = nullptr then held s else add_mset nx (held s)) (deps s)"
    "parent_graph x = Some g" "w_graphs ?w g = Some gr"
    "w_graphs w = (w_graphs ?w)(g \<mapsto> gr\<lparr>g_wait_count := g_wait_count gr - 1\<rparr>)"
    "\<And>m. map_option n_status (w_nodes w m)
      = (if m = n then Some Recoverable else map_option n_status (w_nodes ?w m))"
    "\<And>m. map_option parent_graph (w_nodes w m) = map_option parent_graph (w_nodes ?w m)"
    "\<And>m. map_option ghost (w_nodes w m) = map_option ghost (w_nodes ?w m)"
    using end_task_step [OF inv(1) finish.hyps(1,2) gh] finish.hyps(3) by auto
  have u: "unfinished w g1 = unfinished ?w g1 - {n}" for g1
    by (rule set_eqI) (auto simp: unfinished_iff f(5,6) status_order)
  have n: "n \<in> unfinished ?w g" using finish.hyps(1,2) f(2) by (simp add: unfinished_def status_order)
  have other: "n \<notin> unfinished ?w g1" if "g1 \<noteq> g" for g1
    using that finish.hyps(1) f(2) by (simp add: unfinished_def)
  have "card (unfinished ?w g) = Suc (card (unfinished w g))"
    unfolding u by (rule card_Suc_Diff1 [OF unfinished_finite [OF inv(1)] n, symmetric])
  then have "g_wait_count gr - 1 = of_nat (card (unfinished w g))"
    using counters_okD [OF inv(2) f(3)] by simp
  then have "counters_ok w"
    using inv(2) other by (auto simp: counters_ok_def f(4) u split: if_splits)
  moreover have "phases_ok w" using inv(3) unfolding phases_iff by (simp add: f(5,7))
  ultimately show ?case using f(1) by (simp add: sys_inv_def)
qed

lemma initial_inv:
  assumes "initial s"
  shows "sys_inv s"
proof -
  let ?w = "store s"
  have i: "w_nodes ?w = Map.empty" "w_graphs ?w = Map.empty" "held s = {#}" "\<And>n. deps s n = {}"
    and q: "queue ?w = {#}" and sc: "sched_ok ?w"
    using assms by (auto simp: initial_def queue_def sched_ok_def)
  have "edge ?w r n = 0" "pend ?w n = 0" for r n by (simp_all add: edge_def pend_def i(1))
  then have "deps_ok ?w (deps s)" by (simp add: deps_ok_def i(4))
  moreover have "counts_ok ?w (\<lambda>_. 0) (held s)" by (simp add: counts_ok_def i(1,3) q)
  moreover have "store_ok ?w" using sc by (simp add: store_ok_def i(1,2))
  ultimately have "exec_inv ?w (\<lambda>_. 0) (held s) (deps s)" by (simp add: exec_inv_def)
  then show ?thesis by (simp add: sys_inv_def counters_ok_def phases_ok_def i(1,2))
qed

lemma reachable_inv: "reachable s \<Longrightarrow> sys_inv s"
  by (induction rule: reachable.induct) (auto intro: initial_inv step_inv)

section \<open>Running a list of events\<close>

fun run_event :: "event \<Rightarrow> sys \<Rightarrow> sys option" where
  "run_event (Alloc n raw) s =
     (if w_nodes (store s) n = None \<and> n \<noteq> nullptr \<and> n \<noteq> flag_node
      then Some (s\<lparr>store := node_new n raw (store s)\<rparr>) else None)"
| "run_event (New_graph g p) s =
     (if w_graphs (store s) g = None \<and> (p = nullptr \<or> w_nodes (store s) p \<noteq> None)
      then Some (s\<lparr>store := put_graph g (graph_new p) (store s)\<rparr>) else None)"
| "run_event (Create g n reqs) s =
     (if may_create (store s) g n reqs
      then (case create_edges g n reqs (store s) of
              Inl e \<Rightarrow> None
            | Inr w \<Rightarrow> Some (s\<lparr>store := w, deps := (deps s)(n := deps s n \<union> required n reqs)\<rparr>))
      else None)"
| "run_event (Dequeue n) s =
     (case inner_schedule (store s) of None \<Rightarrow> None | Some sc \<Rightarrow>
        (case inner_dequeue (s_task_queue sc) of
           Inr (q, Some m) \<Rightarrow> if m = n
             then Some (s\<lparr>store := with_queue (store s) sc q, held := add_mset n (held s)\<rparr>) else None
         | _ \<Rightarrow> None))"
| "run_event (Start n) s =
     (if n \<in># held s
      then (case begin_task n (store s) of
              Inl e \<Rightarrow> None | Inr w \<Rightarrow> Some (s\<lparr>store := w, held := held s - {#n#}\<rparr>))
      else None)"
| "run_event (Done n nx) s =
     (case w_nodes (store s) n of None \<Rightarrow> None | Some x \<Rightarrow>
        if n_status x = Running
        then (case end_task no_wait no_wait n (store s) of
                Inl e \<Rightarrow> None
              | Inr (m, w) \<Rightarrow> if m = nx
                  then Some (s\<lparr>store := w, held := (if nx = nullptr then held s else add_mset nx (held s))\<rparr>)
                  else None)
        else None)"

lemma run_event_step: "run_event ev s = Some s' \<Longrightarrow> step s ev s'"
proof (induction ev s rule: run_event.induct)
  case (6 n nx s)
  then obtain x w where x: "w_nodes (store s) n = Some x" "n_status x = Running"
    "end_task no_wait no_wait n (store s) = Inr (nx, w)"
    "s' = s\<lparr>store := w, held := (if nx = nullptr then held s else add_mset nx (held s))\<rparr>"
    by (auto split: option.splits if_splits sum.splits)
  from finish [OF x(1-3)] show ?case unfolding x(4) .
qed (auto intro: step.intros split: if_splits sum.splits option.splits)

fun run_events :: "event list \<Rightarrow> sys \<Rightarrow> sys option" where
  "run_events [] s = Some s"
| "run_events (ev # evs) s = Option.bind (run_event ev s) (run_events evs)"

lemma run_events_reachable:
  "reachable s \<Longrightarrow> run_events evs s = Some s' \<Longrightarrow> reachable s'"
  by (induction evs arbitrary: s) (auto simp: bind_eq_Some_conv dest!: run_event_step intro: more)

definition raw_node :: node where
  "raw_node = \<lparr>n_status = Destroy, ghost = False, reuse = False, root_node = 0, node_id = 0,
     parent_graph = None, sub_graph = None, require_sub_graph = False, up_streams = [],
     fast_down_strams = 0, fast_down_strams_bak = 0, wait_count = 0, down_streams = []\<rparr>"

definition start_sys :: "task_queue \<Rightarrow> sys" where
  "start_sys q = \<lparr>store = \<lparr>w_nodes = (\<lambda>_. None), w_graphs = (\<lambda>_. None),
       inner_schedule = Some \<lparr>root_graph = None, s_status = Running, s_task_queue = q\<rparr>, ready_worker_num = 0,
       pending_worker_num = 0, enable_qf_check_circle = False, enable_qf_dump_graph = False\<rparr>,
     held = {#}, deps = (\<lambda>_. {})\<rparr>"

lemma start_sys_initial:
  assumes "tq_new n = Inr q" and "0 < n" and "n \<le> 2 ^ 30"
  shows "reachable (start_sys q)"
proof -
  have "tq_inv q" "tq_contents q = []"
    using tq_new_room [OF assms(2,3), of 0] assms(1)
    by (auto simp: tq_room_def tq_lanes_def tq_contents_def)
  then show ?thesis by (intro init) (simp add: initial_def start_sys_def)
qed

section \<open>Worker steps come to an end\<close>

definition worker :: "event \<Rightarrow> bool" where
  "worker ev = (case ev of Dequeue n \<Rightarrow> True | Start n \<Rightarrow> True | Done n nx \<Rightarrow> True | _ \<Rightarrow> False)"

inductive steps :: "sys \<Rightarrow> event list \<Rightarrow> sys \<Rightarrow> bool" where
  none: "steps s [] s"
| some: "step s ev s1 \<Longrightarrow> steps s1 evs s2 \<Longrightarrow> steps s (ev # evs) s2"

inductive_cases steps_ConsE: "steps s (ev # evs) s'"

lemma steps_reachable: "steps s evs s' \<Longrightarrow> reachable s \<Longrightarrow> reachable s'"
  by (induction rule: steps.induct) (auto intro: more)

text \<open>The steps a node still needs: to be taken out of the queue, started, finished.\<close>

definition weight :: "sys \<Rightarrow> nid \<Rightarrow> nat" where
  "weight s n = (case w_nodes (store s) n of
     None \<Rightarrow> 0
   | Some x \<Rightarrow> if parent_graph x = None then 0
       else if n_status x = Initing then (if n \<in># held s then 2 else 3)
       else if n_status x = Running then 1 else 0)"

definition work :: "sys \<Rightarrow> nat" where
  "work s = (\<Sum>n \<in> dom (w_nodes (store s)). weight s n)"

definition weight_of :: "gid option option \<Rightarrow> RunningStatus option \<Rightarrow> bool \<Rightarrow> nat" where
  "weight_of p st hl = (case p of
     Some (Some g) \<Rightarrow> (if st = Some Initing then (if hl then 2 else 3) else if st = Some Running then 1 else 0)
   | _ \<Rightarrow> 0)"

lemma weight_views:
  "weight s n = weight_of (map_option parent_graph (w_nodes (store s) n))
     (map_option n_status (w_nodes (store s) n)) (n \<in># held s)"
  by (cases "w_nodes (store s) n") (auto simp: weight_def weight_of_def split: option.splits)

lemma weight_of_mono: "(h \<Longrightarrow> h') \<Longrightarrow> weight_of p st h' \<le> weight_of p st h"
  by (cases h; cases h') (auto simp: weight_of_def split: option.splits)

lemma weight_of_done: "weight_of p (Some Recoverable) h = 0"
  by (auto simp: weight_of_def split: option.splits)

lemma weight_of_running: "weight_of (Some (Some g)) (Some Running) h = 1"
  by (simp add: weight_of_def)

lemma work_less:
  assumes "finite (dom (w_nodes (store s)))" and "dom (w_nodes (store s')) = dom (w_nodes (store s))"
    and "n \<in> dom (w_nodes (store s))" and "\<And>m. weight s' m \<le> weight s m" and "weight s' n < weight s n"
  shows "work s' < work s"
  unfolding work_def assms(2) using assms by (intro sum_strict_mono_ex1) auto

lemma view_dom: "(\<And>m. map_option f (a m) = map_option f (b m)) \<Longrightarrow> dom a = dom b"
proof -
  assume e: "\<And>m. map_option f (a m) = map_option f (b m)"
  have "a m = None \<longleftrightarrow> b m = None" for m using e [of m] by (cases "a m"; cases "b m") auto
  then show ?thesis by (simp add: dom_def)
qed

lemma worker_step_works:
  assumes "step s ev s'" and "sys_inv s" and "worker ev"
  shows "work s' < work s"
  using assms
proof (induction rule: step.induct)
  case (dequeue s sc q n)
  let ?w = "store s"
  have inv: "exec_inv ?w (\<lambda>_. 0) (held s) (deps s)" using dequeue.prems by (simp add: sys_inv_def)
  have "exec_inv (with_queue ?w sc q) (\<lambda>_. 0) (add_mset n (held s)) (deps s)"
    by (rule dequeue_inv [OF inv dequeue.hyps])
  then have c: "counts_ok (with_queue ?w sc q) (\<lambda>_. 0) (add_mset n (held s))" by (simp add: exec_inv_def)
  obtain x g where "w_nodes (with_queue ?w sc q) n = Some x" "n_status x = Initing"
    "parent_graph x = Some g" "n \<notin># held s" using held_node [OF c] by blast
  then have x: "w_nodes ?w n = Some x" "n_status x = Initing" "parent_graph x = Some g" "n \<notin># held s"
    by (simp_all add: with_queue_def)
  have nodes: "w_nodes (with_queue ?w sc q) = w_nodes ?w" by (simp add: with_queue_def)
  show ?case
  proof (rule work_less [of s _ n])
    show "finite (dom (w_nodes (store s)))" using inv by (simp add: exec_inv_def store_ok_def)
  qed (use x in \<open>auto simp: nodes weight_def split: option.splits\<close>)
next
  case (start n s w)
  let ?w = "store s"
  have inv: "exec_inv ?w (\<lambda>_. 0) (add_mset n (held s - {#n#})) (deps s)"
    using start.prems start.hyps(1) by (simp add: sys_inv_def)
  obtain x where x: "w_nodes ?w n = Some x" "n_status x = Initing" "parent_graph x \<noteq> None"
    "w = put_node n (x\<lparr>n_status := Running\<rparr>) ?w"
    using begin_task_inv [OF inv] start.hyps(2) by auto
  have h: "m \<in># held s - {#n#} \<longleftrightarrow> m \<in># held s" if "m \<noteq> n" for m
    using that by (simp add: in_diff_count)
  show ?case
  proof (rule work_less [of s _ n])
    show "finite (dom (w_nodes (store s)))" using inv by (simp add: exec_inv_def store_ok_def)
  qed (use x h start.hyps(1) in \<open>auto simp: weight_def split: option.splits\<close>)
next
  case (finish s n x nx w)
  let ?w = "store s"
  have inv: "exec_inv ?w (\<lambda>_. 0) (held s) (deps s)" and ph: "phases_ok ?w"
    using finish.prems by (simp_all add: sys_inv_def)
  have gh: "\<not> ghost x" using ph finish.hyps(1) by (simp add: phases_ok_def)
  obtain g where f: "parent_graph x = Some g"
    "\<And>m. map_option n_status (w_nodes w m)
      = (if m = n then Some Recoverable else map_option n_status (w_nodes ?w m))"
    "\<And>m. map_option parent_graph (w_nodes w m) = map_option parent_graph (w_nodes ?w m)"
    using end_task_step [OF inv finish.hyps(1,2) gh] finish.hyps(3) by auto
  let ?s = "s\<lparr>store := w, held := (if nx = nullptr then held s else add_mset nx (held s))\<rparr>"
  have sub: "m \<in># held s \<Longrightarrow> m \<in># held ?s" for m by simp
  show ?case
  proof (rule work_less [of s _ n])
    show "finite (dom (w_nodes (store s)))" using inv by (simp add: exec_inv_def store_ok_def)
    show "dom (w_nodes (store ?s)) = dom (w_nodes (store s))" using view_dom [of parent_graph, OF f(3)] by simp
    show "n \<in> dom (w_nodes (store s))" using finish.hyps(1) by auto
    show "weight ?s m \<le> weight s m" for m
    proof (cases "m = n")
      case True
      then show ?thesis unfolding weight_views by (simp add: f(2) weight_of_done)
    next
      case False
      then have "map_option n_status (w_nodes w m) = map_option n_status (w_nodes ?w m)" by (simp add: f(2))
      then show ?thesis unfolding weight_views using f(3) sub by (simp add: weight_of_mono)
    qed
    show "weight ?s n < weight s n"
      using finish.hyps(1,2) f(1) unfolding weight_views
      by (simp add: f(2) weight_of_done weight_of_running)
  qed
qed (simp_all add: worker_def)

lemma worker_steps_work:
  "steps s evs s' \<Longrightarrow> sys_inv s \<Longrightarrow> \<forall>ev \<in> set evs. worker ev \<Longrightarrow> length evs + work s' \<le> work s"
proof (induction rule: steps.induct)
  case (some s ev s1 evs s2)
  then have "work s1 < work s" "sys_inv s1" using worker_step_works step_inv by auto
  with some show ?case by simp
qed simp

lemma work_bound: "work s \<le> 3 * card (dom (w_nodes (store s)))"
proof -
  have "work s \<le> (\<Sum>n \<in> dom (w_nodes (store s)). 3)"
    unfolding work_def by (rule sum_mono) (simp add: weight_def split: option.splits)
  then show ?thesis by simp
qed

section \<open>No deadlock\<close>

lemma all_done:
  assumes inv: "sys_inv s" and q: "queue (store s) = {#}" "held s = {#}"
    and run: "\<And>n x. w_nodes (store s) n = Some x \<Longrightarrow> n_status x \<noteq> Running"
    and x: "w_nodes (store s) n = Some x" "parent_graph x \<noteq> None"
  shows "n_status x = Recoverable"
proof -
  let ?w = "store s"
  have e: "exec_inv ?w (\<lambda>_. 0) (held s) (deps s)" and ph: "phases_ok ?w" using inv by (simp_all add: sys_inv_def)
  then obtain f :: "nid \<Rightarrow> nat" where f: "\<forall>n. \<forall>r \<in> deps s n. f r < f n"
    by (auto simp: exec_inv_def deps_ok_def)
  show ?thesis using x
  proof (induction "f n" arbitrary: n x rule: less_induct)
    case less
    show ?case
    proof (rule ccontr)
      assume "n_status x \<noteq> Recoverable"
      then have st: "n_status x = Initing" using ph run [OF less.prems(1)] less.prems(1)
        by (auto simp: phases_ok_def)
      have "waits_ok x (owed ?w (\<lambda>_. 0) n) 0" using exec_invD(2) [OF e less.prems(1)] q by simp
      then have "0 < pend ?w n" using st less.prems(2) by (simp add: waits_ok_def owed_def split: if_splits)
      then have "\<exists>r. 0 < edge ?w r n" unfolding pend_def by (metis less_irrefl neq0_conv sum.neutral)
      then obtain r where r: "0 < edge ?w r n" by blast
      then have d: "r \<in> deps s n" using e by (simp add: exec_inv_def deps_ok_def)
      then obtain y where y: "w_nodes ?w r = Some y" "parent_graph y \<noteq> None"
        using e unfolding exec_inv_def deps_ok_def by blast
      have "n_status y = Recoverable" using less.hyps [OF _ y] f d by blast
      then have "edge ?w r n = 0"
        using y(1) by (auto simp: edge_def edge_count_def status_order split: option.splits)
      with r show False by simp
    qed
  qed
qed

lemma dequeue_enabled:
  assumes inv: "sys_inv s" and q: "queue (store s) \<noteq> {#}"
    and live: "\<And>sc. inner_schedule (store s) = Some sc \<Longrightarrow> tq_live (s_task_queue sc)"
  shows "\<exists>n s'. step s (Dequeue n) s'"
proof -
  have "sched_ok (store s)" using inv by (simp add: sys_inv_def exec_inv_def store_ok_def)
  then obtain sc where sc: "inner_schedule (store s) = Some sc" "tq_inv (s_task_queue sc)"
    by (auto simp: sched_ok_def)
  then obtain n ns where "tq_contents (s_task_queue sc) = n # ns"
    using q by (cases "tq_contents (s_task_queue sc)") (auto simp: queue_def)
  from inner_dequeue_item [OF sc(2) live [OF sc(1)] this] obtain t where
    "inner_dequeue (s_task_queue sc) = Inr (t, Some n)" by blast
  from dequeue [OF sc(1) this] show ?thesis by blast
qed

lemma quiet_done:
  assumes inv: "sys_inv s" and stuck: "\<And>ev s'. worker ev \<Longrightarrow> \<not> step s ev s'"
    and live: "\<And>sc. inner_schedule (store s) = Some sc \<Longrightarrow> tq_live (s_task_queue sc)"
    and x: "w_nodes (store s) n = Some x" "parent_graph x \<noteq> None"
  shows "n_status x = Recoverable"
proof (rule all_done [OF inv _ _ _ x])
  show "queue (store s) = {#}"
    using dequeue_enabled [OF inv _ live] stuck [of "Dequeue _"] by (auto simp: worker_def)
  show "held s = {#}"
  proof (rule ccontr)
    assume "held s \<noteq> {#}"
    then obtain m where m: "m \<in># held s" by (metis multiset_nonemptyE)
    then have "exec_inv (store s) (\<lambda>_. 0) (add_mset m (held s - {#m#})) (deps s)"
      using inv by (simp add: sys_inv_def)
    then obtain w where "begin_task m (store s) = Inr w" using begin_task_inv by blast
    from start [OF m this] stuck [of "Start m"] show False by (auto simp: worker_def)
  qed
  show "n_status y \<noteq> Running" if y: "w_nodes (store s) m = Some y" for m y
  proof
    assume r: "n_status y = Running"
    have "exec_inv (store s) (\<lambda>_. 0) (held s) (deps s)" "\<not> ghost y"
      using inv y by (simp_all add: sys_inv_def phases_ok_def)
    from end_task_step [OF this(1) y r this(2)] obtain nx w where
      "end_task no_wait no_wait m (store s) = Inr (nx, w)" by blast
    from finish [OF y r this] stuck [of "Done m nx"] show False by (auto simp: worker_def)
  qed
qed

section \<open>An execution\<close>

text \<open>Two nodes, the second waiting for the first, for itself and for a null pointer.\<close>

definition setup_two :: "event list" where
  "setup_two = [New_graph 0 0, Alloc 10 raw_node, Alloc 11 raw_node, Create 0 10 [],
     Create 0 11 [10, 10, 0, 11]]"

definition empty_queue :: task_queue where
  "empty_queue = \<lparr>tq_limit_queue = \<lparr>fq_vec = [0], fq_capacity = 1, fq_capacity_bitmap = 0,
     flag_vec = [0], fq_read = 0, read_missed = 0, read_ahead = 0, fq_write = 0, write_missed = 0,
     write_ahead = 0\<rparr>, tq_unlimit_queue = \<lparr>uq_inner_queue = [], uq_inner_size = 0\<rparr>, m_count = 0,
     big_spin_count = 0, tq_wakes = []\<rparr>"

lemma empty_queue_new: "tq_new 1 = Inr empty_queue"
  by (simp add: tq_new_def fq_new_def align_size_def lg.simps int_shl1_def to_u64_def uq_new_def
      empty_queue_def)

lemma start_reachable: "reachable (start_sys empty_queue)"
  by (rule start_sys_initial [OF empty_queue_new]) simp_all

lemma bind_weak_cong: "r = r' \<Longrightarrow> Option.bind r f = Option.bind r' f"
  by simp

lemma num_cmp: "\<not> (63 :: u64) \<le> 1" "\<not> (63 :: u64) \<le> 0"
  by (simp_all add: word_le_nat_alt)

lemmas eval_store = setup_two_def start_sys_def node_new_def node_reset_def raw_node_def
  graph_new_def put_node_def put_graph_def may_create_def linkable_def i32_lim_def mod_graph_def
  mod_node_def node_at_def graph_at_def deref_def vset_def vget_def qf_assert_def flag_node_def
  fast_node_max_num_def fast_down_strams_bak_init_def Let_def

lemmas eval_create = create_edges_def attach_node_def vec_resize_def node_ready_def graph_ready_def
  add_new_task_def add_wait_count_def link_required_def append_upstreams_def add_downstream_def
  add_fast_downstream_def notify_def sub_wait_count_def bit_map_get_def bit_map_set_def required_def

lemmas eval_queue = tq_enqueue_def inner_enqueue_def fq_try_enqueue_def fq_is_full_def
  fq_is_empty_def tq_signal_def futex_wake_def uq_try_enqueue_def uq_try_dequeue_def
  inner_dequeue_def fq_try_dequeue_def deq_version_ready_def to_u64_def uq_size_approx_def
  with_queue_def empty_queue_def

lemmas eval_run = begin_task_def set_status_def resume_enter_def end_task_def node_finish_def
  node_finish2_def graph_finish_def finish_free_def count_down_def count_down_idx_def graph_of_def
  get_node_def bit_map_idx_eq upt_rec

lemmas eval_all = eval_store eval_create eval_queue eval_run num_cmp status_order

text \<open>The example evaluates with the bodies of the result monad left alone until they are reached.\<close>

lemma rbind_weak_cong: "r = r' \<Longrightarrow> rbind r f = rbind r' f"
  by simp

lemma two_nodes_setup:
  "\<exists>s. run_events setup_two (start_sys empty_queue) = Some s
    \<and> (\<exists>s'. run_events [Dequeue 10, Start 10] s = Some s' \<and> w_graphs (store s') 0 \<noteq> None
      \<and> (\<exists>x. w_nodes (store s') 10 = Some x \<and> n_status x = Running)
      \<and> dom (w_nodes (store s')) \<subseteq> {10, 11}
      \<and> (\<exists>t. run_events [Done 10 11] s' = Some t \<and> 11 \<in># held t \<and> deps t 11 = {10}
        \<and> (\<exists>u. run_events [Start 11, Done 11 0] t = Some u \<and> held u = {#}
          \<and> (\<exists>sc. inner_schedule (store u) = Some sc \<and> tq_live (s_task_queue sc)
              \<and> tq_contents (s_task_queue sc) = [])
          \<and> (\<forall>n x. w_nodes (store u) n = Some x \<longrightarrow> n_status x = Recoverable))))"
  by (simp add: eval_all tq_live_def fits_int_def tq_contents_def fq_contents_def fq_count_def
      cong: rbind_weak_cong bind_weak_cong) auto

lemma run_events_steps: "run_events evs s = Some s' \<Longrightarrow> steps s evs s'"
  by (induction evs arbitrary: s)
    (auto simp: bind_eq_Some_conv dest!: run_event_step intro: none some)

lemma setup_two_reachable:
  assumes "run_events setup_two (start_sys empty_queue) = Some s" and "run_events evs s = Some s'"
  shows "reachable s" "reachable s'"
  using run_events_reachable [OF start_reachable assms(1)] run_events_reachable [OF _ assms(2)]
  by blast+

section \<open>Properties\<close>

text \<open>C3: whatever workers and users have done so far, no call fails: \<open>create_edges\<close> on a new node
  with attached (or null) required nodes, the start of a task a worker holds and the end of a
  running task all return: no assertion on a status or on the queue fails, no dangling pointer is
  read and no index is out of range.\<close>

theorem dag_calls_never_fail:
  assumes "reachable s"
  shows "(may_create (store s) g n reqs \<longrightarrow> (\<exists>w. create_edges g n reqs (store s) = Inr w))
    \<and> (n \<in># held s \<longrightarrow> (\<exists>w. begin_task n (store s) = Inr w))
    \<and> (\<forall>x. w_nodes (store s) n = Some x \<longrightarrow> n_status x = Running \<longrightarrow>
         (\<exists>nx w. end_task no_wait no_wait n (store s) = Inr (nx, w)))"
proof (intro conjI impI allI)
  have inv: "exec_inv (store s) (\<lambda>_. 0) (held s) (deps s)" and ph: "phases_ok (store s)"
    using reachable_inv [OF assms] by (simp_all add: sys_inv_def)
  show "\<exists>w. create_edges g n reqs (store s) = Inr w" if "may_create (store s) g n reqs"
    using that create_edges_step [OF inv] by (fastforce simp: may_create_def split: option.splits)
  show "\<exists>w. begin_task n (store s) = Inr w" if "n \<in># held s"
  proof -
    have "exec_inv (store s) (\<lambda>_. 0) (add_mset n (held s - {#n#})) (deps s)" using inv that by simp
    then show ?thesis using begin_task_inv by blast
  qed
  show "\<exists>nx w. end_task no_wait no_wait n (store s) = Inr (nx, w)"
    if "w_nodes (store s) n = Some x" "n_status x = Running" for x
    using end_task_step [OF inv that] ph that(1) unfolding phases_ok_def by blast
qed

theorem dag_calls_never_fail_witness:
  "\<exists>s. reachable s \<and> (\<exists>x. w_nodes (store s) 10 = Some x \<and> n_status x = Running)
    \<and> (\<exists>nx w. end_task no_wait no_wait 10 (store s) = Inr (nx, w))"
proof -
  obtain s s' x where s: "run_events setup_two (start_sys empty_queue) = Some s"
    "run_events [Dequeue 10, Start 10] s = Some s'" "w_nodes (store s') 10 = Some x" "n_status x = Running"
    using two_nodes_setup by blast
  have "reachable s'" by (rule setup_two_reachable(2) [OF s(1,2)])
  with dag_calls_never_fail [OF this, of 0 10 "[]"] s(3,4) show ?thesis by blast
qed

text \<open>C4: a task starts only when every node it was made to wait for has finished.\<close>

theorem dag_dependencies_respected:
  assumes "reachable s" and "step s (Start n) s'" and "r \<in> deps s n"
  shows "\<exists>x. w_nodes (store s) r = Some x \<and> n_status x = Recoverable"
proof -
  have inv: "exec_inv (store s) (\<lambda>_. 0) (held s) (deps s)" and ph: "phases_ok (store s)"
    using reachable_inv [OF assms(1)] by (simp_all add: sys_inv_def)
  from assms(2) have "n \<in># held s" by (auto elim: step_StartE)
  then have "exec_inv (store s) (\<lambda>_. 0) (add_mset n (held s - {#n#})) (deps s)" using inv by simp
  then have "pend (store s) n = 0" using begin_task_inv by (fastforce simp: owed_def)
  moreover have "finite (dom (w_nodes (store s)))" using inv by (simp add: exec_inv_def store_ok_def)
  moreover obtain x where x: "w_nodes (store s) r = Some x" "n_status x < Finish \<longrightarrow> 0 < edge (store s) r n"
    using inv assms(3) unfolding exec_inv_def deps_ok_def by blast
  moreover have "r \<in> dom (w_nodes (store s))" using x(1) by (rule domI)
  ultimately have "\<not> n_status x < Finish" unfolding pend_def by auto
  moreover have "n_status x \<in> {Initing, Running, Recoverable}" using ph x(1) unfolding phases_ok_def by blast
  ultimately have "n_status x = Recoverable" using phase_cases by blast
  with x(1) show ?thesis by blast
qed

theorem dag_dependencies_respected_witness:
  "\<exists>t u. reachable t \<and> step t (Start 11) u \<and> 10 \<in> deps t 11
    \<and> (\<exists>x. w_nodes (store t) 10 = Some x \<and> n_status x = Recoverable)"
proof -
  obtain s s' t u where s: "run_events setup_two (start_sys empty_queue) = Some s"
    "run_events [Dequeue 10, Start 10] s = Some s'" "run_events [Done 10 11] s' = Some t"
    "deps t 11 = {10}" "run_events [Start 11, Done 11 0] t = Some u"
    using two_nodes_setup by blast
  have "reachable s'" by (rule setup_two_reachable(2) [OF s(1,2)])
  then have t: "reachable t" using s(3) by (rule run_events_reachable)
  from s(5) obtain v where v: "step t (Start 11) v"
    by (auto simp: bind_eq_Some_conv simp del: run_event.simps dest: run_event_step)
  have d: "10 \<in> deps t 11" using s(4) by simp
  from dag_dependencies_respected [OF t v d] t v d show ?thesis by blast
qed

text \<open>C5: a node is never in two places: it is in the task queue or in a worker's hands at most once
  altogether, and only before it has been started, with nothing left to wait for. So no task is
  run twice.\<close>

theorem dag_queued_once:
  assumes "reachable s" and "n \<in># queue (store s) + held s"
  shows "count (queue (store s) + held s) n = 1
    \<and> (\<exists>x. w_nodes (store s) n = Some x \<and> n_status x = Initing \<and> wait_count x = 0)"
proof -
  have inv: "exec_inv (store s) (\<lambda>_. 0) (held s) (deps s)"
    using reachable_inv [OF assms(1)] by (simp add: sys_inv_def)
  then have c: "counts_ok (store s) (\<lambda>_. 0) (held s)" by (simp add: exec_inv_def)
  have "0 < count (queue (store s) + held s) n" using assms(2) by simp
  then obtain x g where x: "w_nodes (store s) n = Some x" "n_status x = Initing"
    "parent_graph x = Some g" "owed (store s) (\<lambda>_. 0) n = 0" "count (queue (store s) + held s) n = 1"
    using ready_node [OF c] by blast
  with exec_invD(2) [OF inv x(1)] show ?thesis by (simp add: waits_ok_def)
qed

theorem dag_queued_once_witness:
  "\<exists>t. reachable t \<and> count (queue (store t) + held t) 11 = 1
    \<and> (\<exists>x. w_nodes (store t) 11 = Some x \<and> n_status x = Initing \<and> wait_count x = 0)"
proof -
  obtain s s' t where s: "run_events setup_two (start_sys empty_queue) = Some s"
    "run_events [Dequeue 10, Start 10] s = Some s'" "run_events [Done 10 11] s' = Some t"
    "11 \<in># held t"
    using two_nodes_setup by blast
  have "reachable s'" by (rule setup_two_reachable(2) [OF s(1,2)])
  then have t: "reachable t" using s(3) by (rule run_events_reachable)
  have "11 \<in># queue (store t) + held t" using s(4) by simp
  from dag_queued_once [OF t this] t show ?thesis by blast
qed

text \<open>C6: nothing is left behind. From any reachable state, workers that go on taking, starting and
  finishing tasks make at most three steps for each node; when they cannot make another one,
  every node attached to a graph has finished. (The queue must still be able to recognise its
  read ticket: less than \<open>2 ^ 31\<close> tasks have gone through its bounded lane.)\<close>

theorem dag_all_finish:
  assumes "reachable s" and "steps s evs s'" and "\<forall>ev \<in> set evs. worker ev"
    and "\<forall>ev t. worker ev \<longrightarrow> \<not> step s' ev t"
    and "\<forall>sc. inner_schedule (store s') = Some sc \<longrightarrow> tq_live (s_task_queue sc)"
  shows "length evs \<le> 3 * card (dom (w_nodes (store s)))
    \<and> (\<forall>n x. w_nodes (store s') n = Some x \<longrightarrow> parent_graph x \<noteq> None \<longrightarrow> n_status x = Recoverable)"
proof -
  have inv: "sys_inv s" by (rule reachable_inv [OF assms(1)])
  have inv': "sys_inv s'" by (rule reachable_inv [OF steps_reachable [OF assms(2,1)]])
  have "length evs + work s' \<le> work s" by (rule worker_steps_work [OF assms(2) inv assms(3)])
  then have "length evs \<le> 3 * card (dom (w_nodes (store s)))" using work_bound [of s] by linarith
  moreover have "\<forall>n x. w_nodes (store s') n = Some x \<longrightarrow> parent_graph x \<noteq> None \<longrightarrow> n_status x = Recoverable"
    using quiet_done [OF inv'] assms(4,5) by blast
  ultimately show ?thesis ..
qed

theorem dag_all_finish_witness:
  "\<exists>s u. reachable s \<and> steps s [Dequeue 10, Start 10, Done 10 11, Start 11, Done 11 0] u
    \<and> length [Dequeue 10, Start 10, Done 10 11, Start 11, Done 11 0] \<le> 3 * card (dom (w_nodes (store s)))
    \<and> (\<forall>n x. w_nodes (store u) n = Some x \<longrightarrow> parent_graph x \<noteq> None \<longrightarrow> n_status x = Recoverable)"
proof -
  let ?evs = "[Dequeue 10, Start 10, Done 10 11, Start 11, Done 11 0]"
  obtain s s' t u sc where s: "run_events setup_two (start_sys empty_queue) = Some s"
    "run_events [Dequeue 10, Start 10] s = Some s'" "run_events [Done 10 11] s' = Some t"
    "run_events [Start 11, Done 11 0] t = Some u" "held u = {#}"
    "inner_schedule (store u) = Some sc" "tq_live (s_task_queue sc)" "tq_contents (s_task_queue sc) = []"
    "\<forall>n x. w_nodes (store u) n = Some x \<longrightarrow> n_status x = Recoverable"
    using two_nodes_setup by blast
  have r: "reachable s" by (rule setup_two_reachable(1) [OF s(1,2)])
  have "run_events ?evs s = Some u"
    using s(2-4) by (simp add: bind_eq_Some_conv del: run_event.simps) blast
  then have st: "steps s ?evs u" by (rule run_events_steps)
  have w: "\<forall>ev \<in> set ?evs. worker ev" by (simp add: worker_def)
  have inv: "tq_inv (s_task_queue sc)"
    using reachable_inv [OF steps_reachable [OF st r]] s(6)
    by (auto simp: sys_inv_def exec_inv_def store_ok_def sched_ok_def)
  have e: "inner_dequeue (s_task_queue sc) = Inr (s_task_queue sc, None)"
    by (rule inner_dequeue_empty [OF inv s(7,8)])
  have stuck: "\<forall>ev v. worker ev \<longrightarrow> \<not> step u ev v"
  proof (intro allI impI notI)
    fix ev v assume "worker ev" and "step u ev v"
    then show False using s(5,6,9) e by (cases ev) (auto simp: worker_def elim: step.cases)
  qed
  have live: "\<forall>sc. inner_schedule (store u) = Some sc \<longrightarrow> tq_live (s_task_queue sc)" using s(6,7) by simp
  from dag_all_finish [OF r st w stuck live] r st show ?thesis by blast
qed

text \<open>C7: the counter a thread that waits for a graph looks at (\<open>get_wait_count\<close>) is exactly the
  number of the graph's nodes that have not finished; it is 0 if and only if all have, for graphs of fewer than \<open>2 ^ 32\<close> nodes.\<close>

theorem dag_wait_count_exact:
  assumes "reachable s" and "w_graphs (store s) g = Some gr"
    and "card {n. \<exists>x. w_nodes (store s) n = Some x \<and> parent_graph x = Some g} < 2 ^ 32"
  shows "unat (g_wait_count gr) = card (unfinished (store s) g)
    \<and> (g_wait_count gr = 0 \<longleftrightarrow>
       (\<forall>n x. w_nodes (store s) n = Some x \<longrightarrow> parent_graph x = Some g \<longrightarrow> n_status x = Recoverable))"
proof -
  let ?A = "{n. \<exists>x. w_nodes (store s) n = Some x \<and> parent_graph x = Some g}"
  have inv: "exec_inv (store s) (\<lambda>_. 0) (held s) (deps s)" and ph: "phases_ok (store s)"
    and c: "counters_ok (store s)"
    using reachable_inv [OF assms(1)] by (simp_all add: sys_inv_def)
  have "finite (dom (w_nodes (store s)))" using inv by (simp add: exec_inv_def store_ok_def)
  then have "finite ?A" by (rule rev_finite_subset) auto
  moreover have "unfinished (store s) g \<subseteq> ?A" by (auto simp: unfinished_def)
  ultimately have "card (unfinished (store s) g) \<le> card ?A" by (rule card_mono)
  then have lt: "card (unfinished (store s) g) < 2 ^ 32" using assms(3) by simp
  have u: "unat (g_wait_count gr) = card (unfinished (store s) g)"
    using counters_okD [OF c assms(2)] lt by (simp add: unat_of_nat)
  have "g_wait_count gr = 0 \<longleftrightarrow> unfinished (store s) g = {}"
    using u unfinished_finite [OF inv, of g] by (auto simp: word_unat_eq_iff)
  also have "\<dots> \<longleftrightarrow>
      (\<forall>n x. w_nodes (store s) n = Some x \<longrightarrow> parent_graph x = Some g \<longrightarrow> n_status x = Recoverable)"
  proof -
    have "n_status x < Finish \<longleftrightarrow> n_status x \<noteq> Recoverable" if "w_nodes (store s) n = Some x" for n x
      using ph that phase_cases unfolding phases_ok_def by blast
    then show ?thesis by (auto simp: unfinished_def)
  qed
  finally show ?thesis using u by blast
qed

theorem dag_wait_count_exact_witness:
  "\<exists>s gr. reachable s \<and> w_graphs (store s) 0 = Some gr
    \<and> unat (g_wait_count gr) = card (unfinished (store s) 0)
    \<and> (g_wait_count gr = 0 \<longleftrightarrow>
       (\<forall>n x. w_nodes (store s) n = Some x \<longrightarrow> parent_graph x = Some 0 \<longrightarrow> n_status x = Recoverable))"
proof -
  obtain s s' gr where s: "run_events setup_two (start_sys empty_queue) = Some s"
    "run_events [Dequeue 10, Start 10] s = Some s'" "w_graphs (store s') 0 = Some gr"
    "dom (w_nodes (store s')) \<subseteq> {10, 11}"
    using two_nodes_setup by blast
  have r: "reachable s'" by (rule setup_two_reachable(2) [OF s(1,2)])
  have "{n. \<exists>x. w_nodes (store s') n = Some x \<and> parent_graph x = Some 0} \<subseteq> {10, 11}" using s(4) by auto
  then have "card {n. \<exists>x. w_nodes (store s') n = Some x \<and> parent_graph x = Some 0} \<le> card {10, 11 :: nat}"
    by (rule card_mono [rotated]) simp
  then have "card {n. \<exists>x. w_nodes (store s') n = Some x \<and> parent_graph x = Some 0} < 2 ^ 32" by simp
  from dag_wait_count_exact [OF r s(3) this] r s(3) show ?thesis by blast
qed

text \<open>C12: the store stays well-formed. In every reachable state a node of a graph is numbered below the graph's
  \<open>node_num\<close>, and below 63 \<open>get_node\<close> finds it under its number; every pointer in \<open>down_streams\<close> leads to
  an allocated node of some graph; every bit of \<open>fast_down_strams\<close> is below 63 and \<open>get_node\<close> turns it into an
  allocated node of the same graph; no node has the null or the flag address.\<close>

theorem dag_store_typed:
  assumes "reachable s" and "w_nodes (store s) n = Some x"
  shows "n \<noteq> nullptr \<and> n \<noteq> flag_node \<and> n_status x \<in> {Initing, Running, Recoverable}
    \<and> (case parent_graph x of
         None \<Rightarrow> n_status x = Initing \<and> down_streams x = [] \<and> fast_down_strams x = 0
       | Some g \<Rightarrow> (\<exists>gr. w_graphs (store s) g = Some gr \<and> node_id x < node_num gr
           \<and> (node_id x < fast_node_max_num \<longrightarrow> get_node gr (node_id x) = Inr n)
           \<and> (\<forall>i. bit (fast_down_strams x) i \<longrightarrow> i < 63
               \<and> (\<exists>m y. get_node gr (of_nat i) = Inr m \<and> w_nodes (store s) m = Some y \<and> parent_graph y = Some g))))
    \<and> (\<forall>d \<in> set (down_streams x). \<exists>y. w_nodes (store s) d = Some y \<and> parent_graph y \<noteq> None)"
proof -
  have inv: "exec_inv (store s) (\<lambda>_. 0) (held s) (deps s)" and ph: "phases_ok (store s)"
    using reachable_inv [OF assms(1)] by (simp_all add: sys_inv_def)
  have st: "store_ok (store s)" using inv by (simp add: exec_inv_def)
  note l = exec_invD(1) [OF inv assms(2)]
  have a: "n \<noteq> nullptr" "n \<noteq> flag_node" "n_status x \<in> {Initing, Running, Recoverable}"
    using st ph assms(2) by (auto simp: store_ok_def phases_ok_def)
  have d: "\<forall>d \<in> set (down_streams x). \<exists>y. w_nodes (store s) d = Some y \<and> parent_graph y \<noteq> None"
    using l by (simp add: links_ok_def)
  show ?thesis
  proof (cases "parent_graph x")
    case None
    then show ?thesis using a d l by (simp add: links_ok_def)
  next
    case (Some g)
    then obtain gr where g: "w_graphs (store s) g = Some gr" using l by (auto simp: links_ok_def)
    then have ok: "graph_ok (store s) g gr" using st by (simp add: store_ok_def)
    have num: "node_id x < node_num gr" "node_id x < fast_node_max_num \<Longrightarrow> fast_nodes gr ! unat (node_id x) = n"
      using ok assms(2) Some by (auto simp: graph_ok_def)
    have "node_num gr \<noteq> 0" using num(1) by (metis word_not_simps(1))
    then have len: "length (fast_nodes gr) = 63" using ok by (simp add: graph_ok_def)
    have get: "get_node gr k = Inr (fast_nodes gr ! unat k)" if "k < fast_node_max_num" for k
      using that len by (simp add: get_node_def vget_def fast_num_unat)
    have "\<forall>i. bit (fast_down_strams x) i \<longrightarrow> i < 63
        \<and> (\<exists>m y. get_node gr (of_nat i) = Inr m \<and> w_nodes (store s) m = Some y \<and> parent_graph y = Some g)"
    proof (intro allI impI)
      fix i assume "bit (fast_down_strams x) i"
      then obtain y where i: "i < 63" "w_nodes (store s) (fast_nodes gr ! i) = Some y" "parent_graph y = Some g"
        using l Some g unfolding links_ok_def by fastforce
      have "unat (of_nat i :: u64) = i" using i(1) by (simp add: unat_of_nat)
      then have "get_node gr (of_nat i) = Inr (fast_nodes gr ! i)" using get [of "of_nat i"] i(1) by (simp add: fast_num_unat)
      then show "i < 63 \<and> (\<exists>m y. get_node gr (of_nat i) = Inr m \<and> w_nodes (store s) m = Some y \<and> parent_graph y = Some g)"
        using i by auto
    qed
    then show ?thesis using a d g num get [of "node_id x"] Some by simp
  qed
qed

theorem dag_store_typed_witness:
  "\<exists>s x g gr. reachable s \<and> w_nodes (store s) 10 = Some x \<and> parent_graph x = Some g \<and> w_graphs (store s) g = Some gr
    \<and> node_id x < node_num gr"
proof -
  obtain s s' x where s: "run_events setup_two (start_sys empty_queue) = Some s"
    "run_events [Dequeue 10, Start 10] s = Some s'" "w_nodes (store s') 10 = Some x" "n_status x = Running"
    using two_nodes_setup by blast
  have r: "reachable s'" by (rule setup_two_reachable(2) [OF s(1,2)])
  from dag_store_typed [OF r s(3)] r s(3,4) show ?thesis by (auto split: option.splits)
qed

end
