(* ===== verification/Limited.thy ===== *)
theory Limited
  imports Dag_Exec
begin

text \<open>
  Limited graphs (src/graph.cpp): \<open>Graph::ready\<close> and the second half of \<open>Graph::finish\<close>, which pass nodes
  through the \<open>SelfQueue\<close> of a graph with limited parallelism, over any number of graphs, limited or not, while the
  rest of the program runs. Self_Queue shows what one queue does; here is what the graphs make of it.
\<close>

section \<open>Nodes on their way\<close>

text \<open>The nodes that wait in the queue of a limited graph.\<close>

definition waiting_in :: "world \<Rightarrow> gid \<Rightarrow> nid list" where
  "waiting_in w g = (case w_graphs w g of None \<Rightarrow> []
     | Some gr \<Rightarrow> if limit_graph gr then (case g_self_queue gr of None \<Rightarrow> [] | Some q \<Rightarrow> sq_queued q) else [])"

definition queued :: "world \<Rightarrow> nid \<Rightarrow> bool" where
  "queued w n \<longleftrightarrow> (\<exists>g. n \<in> set (waiting_in w g))"

text \<open>\<open>G\<close> are the nodes that have been handed to the run queue or a worker and have not ended.\<close>

definition going_in :: "world \<Rightarrow> nid set \<Rightarrow> gid \<Rightarrow> nid set" where
  "going_in w G g = {n \<in> G. \<exists>x. w_nodes w n = Some x \<and> parent_graph x = Some g}"

definition ready_in :: "world \<Rightarrow> nid set \<Rightarrow> gid \<Rightarrow> nid \<Rightarrow> bool" where
  "ready_in w G g n \<longleftrightarrow> n \<noteq> nullptr \<and> n \<notin> G \<and> (\<exists>x. w_nodes w n = Some x \<and> n_status x = Initing \<and> parent_graph x = Some g)"

text \<open>\<open>P g\<close> places and room for \<open>C g\<close> waiting nodes in the graph \<open>g\<close>; \<open>k\<close> more nodes may leave.\<close>

definition lim_ok :: "(gid \<Rightarrow> nat) \<Rightarrow> (gid \<Rightarrow> nat) \<Rightarrow> nat \<Rightarrow> world \<Rightarrow> nid set \<Rightarrow> gid \<Rightarrow> self_queue \<Rightarrow> bool" where
  "lim_ok P C k w G g q \<longleftrightarrow> sq_ok (P g) (C g) k q \<and> fst (sq_abs (P g) q) = card (going_in w G g)
     \<and> distinct (sq_queued q) \<and> (\<forall>n \<in> set (sq_queued q). ready_in w G g n)"

definition lim_inv :: "(gid \<Rightarrow> nat) \<Rightarrow> (gid \<Rightarrow> nat) \<Rightarrow> nat \<Rightarrow> world \<Rightarrow> nid set \<Rightarrow> bool" where
  "lim_inv P C k w G \<longleftrightarrow> finite G \<and> G \<subseteq> dom (w_nodes w) \<and> sched_ok w
     \<and> (\<forall>g gr. w_graphs w g = Some gr \<longrightarrow> limit_graph gr \<longrightarrow> (\<exists>q. g_self_queue gr = Some q \<and> lim_ok P C k w G g q))"

text \<open>Only the queues of the graphs differ.\<close>

definition same_shape :: "world \<Rightarrow> world \<Rightarrow> bool" where
  "same_shape w w' \<longleftrightarrow> w_nodes w' = w_nodes w \<and> (\<forall>g. case w_graphs w g of None \<Rightarrow> w_graphs w' g = None
     | Some gr \<Rightarrow> \<exists>q. w_graphs w' g = Some (gr\<lparr>g_self_queue := q\<rparr>))"

text \<open>The nodes of \<open>S\<close> have been made ready: some wait now, behind those that waited before.\<close>

definition grown :: "world \<Rightarrow> nid set \<Rightarrow> world \<Rightarrow> bool" where
  "grown w S w' \<longleftrightarrow> same_shape w w' \<and> finite S
     \<and> (\<forall>g. \<exists>us. waiting_in w' g = waiting_in w g @ us \<and> set us \<subseteq> S \<and> length us \<le> card S)"

definition spread :: "(gid \<Rightarrow> nat) \<Rightarrow> (gid \<Rightarrow> nat) \<Rightarrow> nat \<Rightarrow> world \<Rightarrow> nid set \<Rightarrow> nid set \<Rightarrow> world \<Rightarrow> bool" where
  "spread P C k w G S w' \<longleftrightarrow> grown w S w' \<and> lim_inv P C k w' (G \<union> {m \<in> S. \<not> queued w' m})"

text \<open>Those of the nodes \<open>S\<close> that do not wait have been put into the run queue.\<close>

definition runs :: "world \<Rightarrow> nid set \<Rightarrow> world \<Rightarrow> bool" where
  "runs w S w' \<longleftrightarrow> queue w' = queue w + mset_set {m \<in> S. \<not> queued w' m}"

definition room :: "(gid \<Rightarrow> nat) \<Rightarrow> world \<Rightarrow> nat \<Rightarrow> bool" where
  "room C w j \<longleftrightarrow> (\<forall>g gr. w_graphs w g = Some gr \<longrightarrow> limit_graph gr \<longrightarrow> length (waiting_in w g) + j \<le> C g)"

definition all_ready :: "world \<Rightarrow> nid set \<Rightarrow> nid set \<Rightarrow> bool" where
  "all_ready w G S \<longleftrightarrow> (\<forall>n \<in> S. \<not> queued w n \<and> (\<exists>g \<in> dom (w_graphs w). ready_in w G g n))"

section \<open>Their algebra\<close>

lemma waiting_limited:
  "w_graphs w g = Some gr \<Longrightarrow> limit_graph gr \<Longrightarrow> g_self_queue gr = Some q \<Longrightarrow> waiting_in w g = sq_queued q"
  by (simp add: waiting_in_def)

lemma waiting_unlimited: "w_graphs w g = Some gr \<Longrightarrow> \<not> limit_graph gr \<Longrightarrow> waiting_in w g = []"
  by (simp add: waiting_in_def)

lemma lim_invD:
  assumes "lim_inv P C k w G" and "w_graphs w g = Some gr" and "limit_graph gr"
  obtains q where "g_self_queue gr = Some q" "lim_ok P C k w G g q" "waiting_in w g = sq_queued q"
  using assms waiting_limited [OF assms(2,3)] unfolding lim_inv_def by metis

lemma waiting_ready:
  assumes "lim_inv P C k w G" and "n \<in> set (waiting_in w g)"
  shows "ready_in w G g n"
proof -
  have ne: "waiting_in w g \<noteq> []" using assms(2) by (metis empty_iff list.set(1))
  then obtain gr where gr: "w_graphs w g = Some gr" by (cases "w_graphs w g") (simp_all add: waiting_in_def)
  have l: "limit_graph gr" using ne gr by (cases "limit_graph gr") (simp_all add: waiting_in_def)
  obtain q where q: "g_self_queue gr = Some q" using ne gr l by (cases "g_self_queue gr") (simp_all add: waiting_in_def)
  have "lim_ok P C k w G g q" using assms(1) gr l q unfolding lim_inv_def by fastforce
  with assms(2) show ?thesis by (simp add: waiting_limited [OF gr l q] lim_ok_def)
qed

lemma queued_in:
  assumes "lim_inv P C k w G" and "w_nodes w n = Some x" "parent_graph x = Some g"
  shows "queued w n \<longleftrightarrow> n \<in> set (waiting_in w g)"
proof
  assume "queued w n"
  then obtain h where h: "n \<in> set (waiting_in w h)" by (auto simp: queued_def)
  then have "ready_in w G h n" by (rule waiting_ready [OF assms(1)])
  then have "h = g" using assms(2,3) by (simp add: ready_in_def)
  with h show "n \<in> set (waiting_in w g)" by simp
qed (auto simp: queued_def)

lemma same_shape_refl: "same_shape w w"
proof -
  have "\<exists>q. gr = gr\<lparr>g_self_queue := q\<rparr>" for gr :: graph by (intro exI [of _ "g_self_queue gr"]) simp
  then show ?thesis by (auto simp: same_shape_def split: option.splits)
qed

lemma same_shape_graph:
  "same_shape w w' \<Longrightarrow> w_graphs w g = Some gr \<Longrightarrow> \<exists>q. w_graphs w' g = Some (gr\<lparr>g_self_queue := q\<rparr>)"
  "same_shape w w' \<Longrightarrow> w_graphs w' g = Some gr' \<Longrightarrow> \<exists>gr q. w_graphs w g = Some gr \<and> gr' = gr\<lparr>g_self_queue := q\<rparr>"
  "same_shape w w' \<Longrightarrow> w_nodes w' = w_nodes w"
  "same_shape w w' \<Longrightarrow> dom (w_graphs w') = dom (w_graphs w)"
proof -
  assume s: "same_shape w w'"
  then have c: "case w_graphs w g of None \<Rightarrow> w_graphs w' g = None | Some gr \<Rightarrow> \<exists>q. w_graphs w' g = Some (gr\<lparr>g_self_queue := q\<rparr>)" for g
    by (simp add: same_shape_def)
  show "w_graphs w g = Some gr \<Longrightarrow> \<exists>q. w_graphs w' g = Some (gr\<lparr>g_self_queue := q\<rparr>)" using c [of g] by simp
  show "w_graphs w' g = Some gr' \<Longrightarrow> \<exists>gr q. w_graphs w g = Some gr \<and> gr' = gr\<lparr>g_self_queue := q\<rparr>"
    using c [of g] by (auto split: option.splits)
  show "w_nodes w' = w_nodes w" using s by (simp add: same_shape_def)
  have "w_graphs w' g = None \<longleftrightarrow> w_graphs w g = None" for g using c [of g] by (auto split: option.splits)
  then show "dom (w_graphs w') = dom (w_graphs w)" by (simp add: dom_def)
qed

lemma same_shape_trans:
  assumes "same_shape w w1" "same_shape w1 w2"
  shows "same_shape w w2"
proof -
  have "case w_graphs w g of None \<Rightarrow> w_graphs w2 g = None | Some gr \<Rightarrow> \<exists>q. w_graphs w2 g = Some (gr\<lparr>g_self_queue := q\<rparr>)" for g
  proof (cases "w_graphs w g")
    case None
    then have "g \<notin> dom (w_graphs w2)" using same_shape_graph(4) [OF assms(1)] same_shape_graph(4) [OF assms(2)] by auto
    then show ?thesis using None by auto
  next
    case (Some gr)
    then obtain q where "w_graphs w1 g = Some (gr\<lparr>g_self_queue := q\<rparr>)" using same_shape_graph(1) [OF assms(1)] by blast
    from same_shape_graph(1) [OF assms(2) this] show ?thesis using Some by auto
  qed
  then show ?thesis using assms by (simp add: same_shape_def)
qed

lemma queued_grown:
  assumes "grown w S w'"
  shows "queued w n \<Longrightarrow> queued w' n" and "queued w' n \<Longrightarrow> n \<in> S \<or> queued w n"
proof -
  show "queued w n \<Longrightarrow> queued w' n"
    using assms unfolding grown_def queued_def by (metis Un_iff set_append)
  show "queued w' n \<Longrightarrow> n \<in> S \<or> queued w n"
    using assms unfolding grown_def queued_def by (metis Un_iff set_append subsetD)
qed

lemma grown_refl: "grown w {} w"
  using same_shape_refl by (simp add: grown_def)

lemma grown_trans:
  assumes "grown w S w1" "grown w1 T w2" "S \<inter> T = {}"
  shows "grown w (S \<union> T) w2"
proof -
  have "card (S \<union> T) = card S + card T" using assms by (simp add: grown_def card_Un_disjoint)
  moreover have "\<exists>us. waiting_in w2 g = waiting_in w g @ us \<and> set us \<subseteq> S \<union> T \<and> length us \<le> card S + card T" for g
  proof -
    obtain us vs where "waiting_in w1 g = waiting_in w g @ us" "set us \<subseteq> S" "length us \<le> card S"
      "waiting_in w2 g = waiting_in w1 g @ vs" "set vs \<subseteq> T" "length vs \<le> card T"
      using assms unfolding grown_def by metis
    then show ?thesis by (intro exI [of _ "us @ vs"]) auto
  qed
  ultimately show ?thesis using assms same_shape_trans by (auto simp: grown_def)
qed

lemma spread_trans:
  assumes "spread P C k w G S w1" "spread P C k w1 (G \<union> {m \<in> S. \<not> queued w1 m}) T w2" "S \<inter> T = {}"
  shows "spread P C k w G (S \<union> T) w2"
proof -
  have g: "grown w S w1" "grown w1 T w2" using assms by (simp_all add: spread_def)
  have "queued w2 m \<longleftrightarrow> queued w1 m" if "m \<in> S" for m using queued_grown [OF g(2), of m] assms(3) that by auto
  then have "G \<union> {m \<in> S. \<not> queued w1 m} \<union> {m \<in> T. \<not> queued w2 m} = G \<union> {m \<in> S \<union> T. \<not> queued w2 m}" by auto
  then show ?thesis using assms grown_trans [OF g assms(3)] by (simp add: spread_def)
qed

lemma runs_trans:
  assumes "runs w S w1" "runs w1 T w2" "grown w S w1" "grown w1 T w2" "S \<inter> T = {}"
  shows "runs w (S \<union> T) w2"
proof -
  have fin: "finite S" "finite T" using assms(3,4) by (simp_all add: grown_def)
  have "queued w2 m \<longleftrightarrow> queued w1 m" if "m \<in> S" for m using queued_grown [OF assms(4), of m] assms(5) that by auto
  then have "{m \<in> S \<union> T. \<not> queued w2 m} = {m \<in> S. \<not> queued w1 m} \<union> {m \<in> T. \<not> queued w2 m}" by auto
  moreover have "mset_set ({m \<in> S. \<not> queued w1 m} \<union> {m \<in> T. \<not> queued w2 m})
      = mset_set {m \<in> S. \<not> queued w1 m} + mset_set {m \<in> T. \<not> queued w2 m}"
    by (rule mset_set_Union) (use fin assms(5) in auto)
  ultimately show ?thesis using assms(1,2) by (simp add: runs_def)
qed

lemma runs_none: "runs w {} w"
  by (simp add: runs_def)

lemma all_ready_spread:
  assumes "spread P C k w G S w'" "all_ready w G T" "S \<inter> T = {}"
  shows "all_ready w' (G \<union> {m \<in> S. \<not> queued w' m}) T"
proof -
  have g: "grown w S w'" and s: "same_shape w w'" using assms(1) by (simp_all add: spread_def grown_def)
  show ?thesis
    unfolding all_ready_def
  proof
    fix n assume n: "n \<in> T"
    then have "n \<notin> S" "\<not> queued w n" "\<exists>h \<in> dom (w_graphs w). ready_in w G h n"
      using assms(2,3) by (auto simp: all_ready_def)
    then show "\<not> queued w' n \<and> (\<exists>h \<in> dom (w_graphs w'). ready_in w' (G \<union> {m \<in> S. \<not> queued w' m}) h n)"
      using queued_grown(2) [OF g] unfolding same_shape_graph(4) [OF s] ready_in_def same_shape_graph(3) [OF s] by blast
  qed
qed

lemma room_grown:
  assumes "grown w S w'" "room C w (card S + j)"
  shows "room C w' j"
  unfolding room_def
proof (intro allI impI)
  fix g gr' assume "w_graphs w' g = Some gr'" "limit_graph gr'"
  then obtain gr where "w_graphs w g = Some gr" "limit_graph gr"
    using same_shape_graph(2) assms(1) by (fastforce simp: grown_def)
  then have "length (waiting_in w g) + (card S + j) \<le> C g" using assms(2) by (simp add: room_def)
  moreover obtain us where "waiting_in w' g = waiting_in w g @ us" "length us \<le> card S" using assms(1) unfolding grown_def by metis
  ultimately show "length (waiting_in w' g) + j \<le> C g" by simp
qed

lemma room_less: "room C w j \<Longrightarrow> i \<le> j \<Longrightarrow> room C w i"
  by (fastforce simp: room_def)

section \<open>One node\<close>

lemma going_insert:
  assumes "w_nodes w n = Some x" "parent_graph x = Some g" "n \<notin> G" "finite G"
  shows "card (going_in w (insert n G) h) = (if h = g then Suc (card (going_in w G h)) else card (going_in w G h))"
proof -
  have "going_in w (insert n G) h = (if h = g then insert n (going_in w G h) else going_in w G h)"
    using assms(1,2) by (auto simp: going_in_def)
  moreover have "finite (going_in w G h)" "n \<notin> going_in w G h" using assms(3,4) by (simp_all add: going_in_def)
  ultimately show ?thesis by (cases "h = g") simp_all
qed

lemma going_nodes: "w_nodes w' = w_nodes w \<Longrightarrow> going_in w' = going_in w"
  by (simp add: going_in_def fun_eq_iff)

lemma ready_in_nodes: "w_nodes w' = w_nodes w \<Longrightarrow> ready_in w' = ready_in w"
  by (simp add: ready_in_def fun_eq_iff)

text \<open>A new queue for the graph \<open>g\<close>, and the effect on everybody else.\<close>

lemma lim_inv_put:
  assumes inv: "lim_inv P C k w G" and gr: "w_graphs w g = Some gr" "limit_graph gr"
    and q: "lim_ok P C k' w G' g q'" and G': "finite G'" "G' \<subseteq> dom (w_nodes w)" and le: "k' \<le> k"
    and others: "\<And>h. h \<noteq> g \<Longrightarrow> card (going_in w G' h) = card (going_in w G h)"
      "\<And>h n. h \<noteq> g \<Longrightarrow> ready_in w G h n \<Longrightarrow> ready_in w G' h n"
  shows "lim_inv P C k' (put_graph g (gr\<lparr>g_self_queue := Some q'\<rparr>) w) G'"
proof -
  let ?w = "put_graph g (gr\<lparr>g_self_queue := Some q'\<rparr>) w"
  have n: "going_in ?w = going_in w" "ready_in ?w = ready_in w"
    by (rule going_nodes, simp) (rule ready_in_nodes, simp)
  have "\<exists>q. g_self_queue hr = Some q \<and> lim_ok P C k' ?w G' h q" if h: "w_graphs ?w h = Some hr" "limit_graph hr" for h hr
  proof (cases "h = g")
    case True
    then have "hr = gr\<lparr>g_self_queue := Some q'\<rparr>" using h(1) by simp
    then show ?thesis using q True by (simp add: lim_ok_def n)
  next
    case False
    then have "w_graphs w h = Some hr" using h(1) by simp
    from lim_invD [OF inv this h(2)] obtain r where r: "g_self_queue hr = Some r" "lim_ok P C k w G h r" by blast
    have "sq_ok (P h) (C h) k' r" using r(2) le by (auto simp: lim_ok_def sq_ok_def)
    then show ?thesis using r others False by (auto simp: lim_ok_def n)
  qed
  then show ?thesis using inv G' by (simp add: lim_inv_def sched_ok_def)
qed

lemma same_shape_put: "w_graphs w g = Some gr \<Longrightarrow> same_shape w (put_graph g (gr\<lparr>g_self_queue := q\<rparr>) w)"
  using same_shape_refl [of w] by (auto simp: same_shape_def split: option.splits)

lemma waiting_put:
  "waiting_in (put_graph g gr w) h = (if h = g then (if limit_graph gr then case g_self_queue gr of None \<Rightarrow> [] | Some q \<Rightarrow> sq_queued q else [])
     else waiting_in w h)"
  by (simp add: waiting_in_def)

lemma enq_lim:
  assumes inv: "lim_inv P C k w G" and gr: "w_graphs w g = Some gr" "limit_graph gr"
    and n: "ready_in w G g n" "n \<notin> set (waiting_in w g)" and room: "length (waiting_in w g) < C g"
  shows "\<exists>b w'. graph_try_enqueue g n w = Inr (b, w') \<and> inner_schedule w' = inner_schedule w
    \<and> spread P C k w G {n} w' \<and> (b \<longleftrightarrow> queued w' n)"
proof -
  obtain q where q: "g_self_queue gr = Some q" "lim_ok P C k w G g q" using lim_invD [OF inv gr] by blast
  then have ok: "sq_ok (P g) (C g) k q" "fst (sq_abs (P g) q) = card (going_in w G g)" by (simp_all add: lim_ok_def)
  have wt: "waiting_in w g = sq_queued q" by (rule waiting_limited [OF gr q(1)])
  have ab: "sq_abs (P g) q = (card (going_in w G g), sq_queued q)" using ok(2) by (simp add: sq_abs_def prod_eq_iff)
  obtain x where x: "w_nodes w n = Some x" "parent_graph x = Some g" "n \<notin> G" "n \<noteq> nullptr" using n(1) by (auto simp: ready_in_def)
  have fin: "finite G" "G \<subseteq> dom (w_nodes w)" using inv by (simp_all add: lim_inv_def)
  have "length (snd (sq_abs (P g) q)) < C g" using room wt ab by simp
  then obtain q' b where q': "sq_try_enqueue q n = Inr (q', b)" "sq_ok (P g) (C g) k q'"
    "admit (P g) (Arrive n) (sq_abs (P g) q) = (sq_abs (P g) q', if b then Wait else Run)"
    using sq.arrive_admits [OF ok(1) x(4)] by blast
  have ab': "sq_queued q' = snd (sq_abs (P g) q')" by (simp add: sq_abs_def)
  have e: "sq_abs (P g) q' = fst (admit (P g) (Arrive n) (sq_abs (P g) q))"
    "(if b then Wait else Run) = snd (admit (P g) (Arrive n) (sq_abs (P g) q))" using q'(3) by simp_all
  let ?w = "put_graph g (gr\<lparr>g_self_queue := Some q'\<rparr>) w" and ?G = "if b then G else insert n G"
  have c: "if b then sq_queued q' = sq_queued q @ [n] \<and> fst (sq_abs (P g) q') = card (going_in w G g)
      else sq_queued q' = sq_queued q \<and> fst (sq_abs (P g) q') = Suc (card (going_in w G g))"
    using e(2) unfolding ab' e(1) ab by (cases b) (auto split: if_splits)
  have "lim_ok P C k w ?G g q'"
    using q'(2) c q(2) n wt going_insert [OF x(1-3) fin(1), of g]
    by (cases b) (auto simp: lim_ok_def ready_in_def)
  moreover have "ready_in w ?G h m" if "h \<noteq> g" "ready_in w G h m" for h m using that x(1,2) by (auto simp: ready_in_def)
  moreover have "card (going_in w ?G h) = card (going_in w G h)" if "h \<noteq> g" for h
    using that going_insert [OF x(1-3) fin(1), of h] by simp
  ultimately have inv': "lim_inv P C k ?w ?G" using fin x(1) by (intro lim_inv_put [OF inv gr]) auto
  have wt': "waiting_in ?w h = (if h = g then sq_queued q' else waiting_in w h)" for h by (simp add: waiting_put gr(2))
  have nq: "\<not> queued w n" using queued_in [OF inv x(1,2)] n(2) by simp
  have b: "b \<longleftrightarrow> queued ?w n"
    using c nq n(2) wt unfolding queued_def wt' by (cases b) (auto split: if_splits)
  have "grown w {n} ?w"
  proof -
    have "\<exists>us. waiting_in ?w h = waiting_in w h @ us \<and> set us \<subseteq> {n} \<and> length us \<le> 1" for h
      using c wt unfolding wt' by (cases b; cases "h = g") auto
    then show ?thesis by (simp add: grown_def same_shape_put [OF gr(1)])
  qed
  moreover have "?G = G \<union> {m \<in> {n}. \<not> queued ?w m}" using b by auto
  ultimately have "spread P C k w G {n} ?w" using inv' by (simp add: spread_def)
  moreover have "graph_try_enqueue g n w = Inr (b, ?w)" using gr(1) q(1) q'(1) by (simp add: graph_try_enqueue_def)
  ultimately show ?thesis using b by (intro exI [of _ b] exI [of _ ?w]) simp
qed

lemma lim_inv_cong:
  assumes "lim_inv P C k w G" and "w_nodes w' = w_nodes w" "w_graphs w' = w_graphs w" "sched_ok w'"
  shows "lim_inv P C k w' G"
  using assms going_nodes [OF assms(2)] ready_in_nodes [OF assms(2)] by (simp add: lim_inv_def lim_ok_def)

lemma waiting_cong: "w_graphs w' = w_graphs w \<Longrightarrow> waiting_in w' = waiting_in w"
  by (simp add: waiting_in_def fun_eq_iff)

lemma spread_cong:
  assumes "spread P C k w G S w1" and "w_nodes w2 = w_nodes w1" "w_graphs w2 = w_graphs w1" "sched_ok w2"
  shows "spread P C k w G S w2"
proof -
  have "waiting_in w2 = waiting_in w1" using assms(3) by (rule waiting_cong)
  then have "queued w2 = queued w1" "grown w S w2 = grown w S w1"
    by (simp add: queued_def fun_eq_iff) (simp only: grown_def same_shape_def assms(2,3) \<open>waiting_in w2 = waiting_in w1\<close>)
  then show ?thesis using assms(1) lim_inv_cong [OF _ assms(2-4)] by (simp add: spread_def)
qed

lemma add_task:
  assumes "sched_ok w" and "ready_in w G g n"
  shows "\<exists>w'. add_new_task n w = Inr w' \<and> w_nodes w' = w_nodes w \<and> w_graphs w' = w_graphs w \<and> sched_ok w'
    \<and> queue w' = add_mset n (queue w)"
proof -
  obtain s where s: "inner_schedule w = Some s" "s_status s = Running" "tq_inv (s_task_queue s)"
    using assms(1) by (auto simp: sched_ok_def)
  obtain x where x: "w_nodes w n = Some x" "n_status x = Initing" "n \<noteq> nullptr" using assms(2) by (auto simp: ready_in_def)
  obtain q where "tq_enqueue (s_task_queue s) n = Inr (q, True)" "tq_inv q"
    "mset (tq_contents q) = add_mset n (mset (tq_contents (s_task_queue s)))" using tq_enqueue_mset [OF s(3) x(3)] by blast
  then show ?thesis using s x by (simp add: add_new_task_def node_at_def sched_ok_def queue_def)
qed

text \<open>A node of a graph without a limit that is handed out needs no place.\<close>

lemma lim_inv_free:
  assumes inv: "lim_inv P C k w G" and n: "w_nodes w n = Some x" "parent_graph x = Some g" "w_graphs w g = Some gr" "\<not> limit_graph gr"
  shows "lim_inv P C k w (insert n G)" and "lim_inv P C k w (G - {n})"
proof -
  have c: "going_in w (insert n G) h = going_in w G h" "going_in w (G - {n}) h = going_in w G h" if "h \<noteq> g" for h
    using that n(1,2) by (auto simp: going_in_def)
  have r: "ready_in w G h m \<Longrightarrow> ready_in w (insert n G) h m" "ready_in w G h m \<Longrightarrow> ready_in w (G - {n}) h m" if "h \<noteq> g" for h m
    using that n(1,2) by (auto simp: ready_in_def)
  have g: "h \<noteq> g" if "w_graphs w h = Some hr" "limit_graph hr" for h hr using that n(3,4) by auto
  have fin: "finite G" "G \<subseteq> dom (w_nodes w)" "sched_ok w" using inv by (simp_all add: lim_inv_def)
  have "\<exists>q. g_self_queue hr = Some q \<and> lim_ok P C k w (insert n G) h q \<and> lim_ok P C k w (G - {n}) h q"
    if h: "w_graphs w h = Some hr" "limit_graph hr" for h hr
  proof -
    from lim_invD [OF inv h] obtain q where q: "g_self_queue hr = Some q" "lim_ok P C k w G h q" by blast
    then show ?thesis using c [OF g [OF h]] r [OF g [OF h]] by (intro exI [of _ q]) (simp add: lim_ok_def)
  qed
  then show "lim_inv P C k w (insert n G)" "lim_inv P C k w (G - {n})"
    using fin n(1) unfolding lim_inv_def by blast+
qed

lemma ready_as_enqueue:
  assumes "w_nodes w n = Some x" "parent_graph x = Some g" "w_graphs w g = Some gr" "limit_graph gr"
  shows "node_ready n w = rbind (graph_try_enqueue g n w) (\<lambda>(b, w1). if b then Inr w1 else add_new_task n w1)"
proof (cases "g_self_queue gr")
  case None
  then show ?thesis using assms by (simp add: node_ready_def graph_ready_def graph_try_enqueue_def deref_def)
next
  case (Some q)
  then show ?thesis using assms
    by (cases "sq_try_enqueue q n") (auto simp: node_ready_def graph_ready_def graph_try_enqueue_def Let_def simp del: rbind_eq_Inr)
qed

lemma ready_lim:
  assumes inv: "lim_inv P C k w G" and gr: "w_graphs w g = Some gr"
    and n: "ready_in w G g n" "\<not> queued w n" and room: "limit_graph gr \<Longrightarrow> length (waiting_in w g) < C g"
  shows "\<exists>w'. node_ready n w = Inr w' \<and> spread P C k w G {n} w' \<and> runs w {n} w'"
proof -
  obtain x where x: "w_nodes w n = Some x" "parent_graph x = Some g" using n(1) by (auto simp: ready_in_def)
  have sch: "sched_ok w" using inv by (simp add: lim_inv_def)
  show ?thesis
  proof (cases "limit_graph gr")
    case True
    have nw: "n \<notin> set (waiting_in w g)" using n(2) by (auto simp: queued_def)
    obtain b w1 where w1: "graph_try_enqueue g n w = Inr (b, w1)" "inner_schedule w1 = inner_schedule w"
      "spread P C k w G {n} w1" "b \<longleftrightarrow> queued w1 n" using enq_lim [OF inv gr True n(1) nw room [OF True]] by blast
    have r: "node_ready n w = (if b then Inr w1 else add_new_task n w1)"
      by (simp add: ready_as_enqueue [OF x gr True] w1(1))
    have s: "same_shape w w1" using w1(3) by (simp add: spread_def grown_def)
    have q: "queue w1 = queue w" using w1(2) by (simp add: queue_def)
    show ?thesis
    proof (cases b)
      case False
      have "ready_in w1 G g n" using n(1) same_shape_graph(3) [OF s] ready_in_nodes by metis
      moreover have "sched_ok w1" using sch w1(2) by (simp add: sched_ok_def)
      ultimately obtain w2 where w2: "add_new_task n w1 = Inr w2" "w_nodes w2 = w_nodes w1" "w_graphs w2 = w_graphs w1" "sched_ok w2"
        "queue w2 = add_mset n (queue w1)"
        using add_task by blast
      have "queued w2 = queued w1" using waiting_cong [OF w2(3)] by (simp add: queued_def fun_eq_iff)
      then have "{m \<in> {n}. \<not> queued w2 m} = {n}" using False w1(4) by auto
      then have "runs w {n} w2" using w2(5) q by (simp add: runs_def)
      then show ?thesis using r False spread_cong [OF w1(3) w2(2-4)] w2(1) by auto
    next
      case True
      then have e: "{m \<in> {n}. \<not> queued w1 m} = {}" using w1(4) by auto
      have "runs w {n} w1" unfolding runs_def e using q by simp
      then show ?thesis using r w1(3) True by auto
    qed
  next
    case False
    obtain w1 where w1: "add_new_task n w = Inr w1" "w_nodes w1 = w_nodes w" "w_graphs w1 = w_graphs w" "sched_ok w1"
      "queue w1 = add_mset n (queue w)" using add_task [OF sch n(1)] by blast
    have "queued w1 = queued w" using waiting_cong [OF w1(3)] by (simp add: queued_def fun_eq_iff)
    then have "G \<union> {m \<in> {n}. \<not> queued w1 m} = insert n G" using n(2) by auto
    moreover have "lim_inv P C k w1 (insert n G)"
      using lim_inv_cong [OF lim_inv_free(1) [OF inv x gr False] w1(2-4)] .
    moreover have "grown w {n} w1"
      using same_shape_refl [of w] waiting_cong [OF w1(3)] unfolding grown_def same_shape_def w1(2,3) by simp
    ultimately have "spread P C k w G {n} w1" by (simp add: spread_def)
    moreover have "{m \<in> {n}. \<not> queued w1 m} = {n}" using \<open>queued w1 = queued w\<close> n(2) by auto
    then have "runs w {n} w1" using w1(5) by (simp add: runs_def)
    ultimately show ?thesis
      using w1(1) x gr False by (auto simp: node_ready_def node_at_def deref_def graph_ready_def graph_at_def)
  qed
qed

section \<open>Lists of nodes\<close>

lemma all_ready_one:
  assumes "all_ready w G S" "n \<in> S"
  obtains g gr x where "w_graphs w g = Some gr" "ready_in w G g n" "\<not> queued w n" "w_nodes w n = Some x" "parent_graph x = Some g"
  using assms unfolding all_ready_def ready_in_def by (metis domD)

lemma ready_one:
  assumes inv: "lim_inv P C k w G" and n: "all_ready w G S" "n \<in> S" and room: "room C w (Suc j)"
  shows "\<exists>w'. node_ready n w = Inr w' \<and> spread P C k w G {n} w' \<and> runs w {n} w' \<and> room C w' j
    \<and> all_ready w' (G \<union> {m \<in> {n}. \<not> queued w' m}) (S - {n})"
proof -
  obtain g gr x where g: "w_graphs w g = Some gr" "ready_in w G g n" "\<not> queued w n"
    using all_ready_one [OF n] by metis
  have "limit_graph gr \<Longrightarrow> length (waiting_in w g) < C g" using room g(1) by (fastforce simp: room_def)
  then obtain w' where w': "node_ready n w = Inr w'" "spread P C k w G {n} w'" "runs w {n} w'" using ready_lim [OF inv g] by blast
  have "room C w' j" using room_grown [of w "{n}" w' C j] w'(2) room by (simp add: spread_def)
  moreover have "all_ready w G (S - {n})" using n(1) by (simp add: all_ready_def)
  from all_ready_spread [OF w'(2) this] have "all_ready w' (G \<union> {m \<in> {n}. \<not> queued w' m}) (S - {n})" by simp
  ultimately show ?thesis using w' by blast
qed

lemma spread_none: "lim_inv P C k w G \<Longrightarrow> spread P C k w G {} w"
  by (simp add: spread_def grown_refl)

lemma ready_all_lim:
  assumes "lim_inv P C k w G" and "all_ready w G (set ns)" "distinct ns" and "room C w (length ns + j)"
  shows "\<exists>w'. ready_all ns w = Inr w' \<and> spread P C k w G (set ns) w' \<and> runs w (set ns) w' \<and> room C w' j"
  using assms
proof (induction ns arbitrary: w G)
  case Nil
  then show ?case by (simp add: spread_none runs_none)
next
  case (Cons n ns)
  have r: "room C w (Suc (length ns + j))" using Cons.prems(4) by simp
  obtain w1 where w1: "node_ready n w = Inr w1" "spread P C k w G {n} w1" "runs w {n} w1" "room C w1 (length ns + j)"
    "all_ready w1 (G \<union> {m \<in> {n}. \<not> queued w1 m}) (set (n # ns) - {n})"
    using ready_one [OF Cons.prems(1,2) _ r, of n] by auto
  have "all_ready w1 (G \<union> {m \<in> {n}. \<not> queued w1 m}) (set ns)" using w1(5) Cons.prems(3) by simp
  moreover have "lim_inv P C k w1 (G \<union> {m \<in> {n}. \<not> queued w1 m})" using w1(2) by (simp add: spread_def)
  ultimately obtain w2 where w2: "ready_all ns w1 = Inr w2" "spread P C k w1 (G \<union> {m \<in> {n}. \<not> queued w1 m}) (set ns) w2" "runs w1 (set ns) w2" "room C w2 j"
    using Cons.IH [of w1 "G \<union> {m \<in> {n}. \<not> queued w1 m}"] w1(4) Cons.prems(3) by auto
  have "spread P C k w G ({n} \<union> set ns) w2" by (rule spread_trans [OF w1(2) w2(2)]) (use Cons.prems(3) in simp)
  moreover have "runs w ({n} \<union> set ns) w2"
    by (rule runs_trans [OF w1(3) w2(3)]) (use w1(2) w2(2) Cons.prems(3) in \<open>auto simp: spread_def\<close>)
  ultimately show ?case using w1(1) w2(1,4) by simp
qed

definition picks :: "(graph \<Rightarrow> gid \<Rightarrow> bool) \<Rightarrow> world \<Rightarrow> nid \<Rightarrow> bool" where
  "picks p w n \<longleftrightarrow> (\<exists>x g gr. w_nodes w n = Some x \<and> parent_graph x = Some g \<and> w_graphs w g = Some gr \<and> p gr g)"

definition stable :: "(graph \<Rightarrow> gid \<Rightarrow> bool) \<Rightarrow> bool" where
  "stable p \<longleftrightarrow> (\<forall>gr q g. p (gr\<lparr>g_self_queue := q\<rparr>) g = p gr g)"

lemma picks_same:
  assumes "same_shape w w'" "stable p"
  shows "picks p w' n = picks p w n"
proof -
  have "(\<exists>gr. w_graphs w' g = Some gr \<and> p gr g) \<longleftrightarrow> (\<exists>gr. w_graphs w g = Some gr \<and> p gr g)" for g
    using same_shape_graph(1,2) [OF assms(1), of g] assms(2) unfolding stable_def by metis
  then show ?thesis unfolding picks_def same_shape_graph(3) [OF assms(1)] by blast
qed

lemma pick_next_lim:
  assumes "lim_inv P C k w G" and "all_ready w G (set ns)" "distinct ns" and "room C w (length ns + j)" and "stable p"
  shows "\<exists>nx w'. pick_next p ns w = Inr (nx, w') \<and> spread P C k w G (set ns - {nx}) w' \<and> runs w (set ns - {nx}) w' \<and> room C w' j
    \<and> (nx = nullptr \<and> (\<forall>n \<in> set ns. \<not> picks p w n) \<or> nx \<noteq> nullptr \<and> nx \<in> set ns \<and> picks p w nx)"
  using assms(1-4)
proof (induction ns arbitrary: w G)
  case Nil
  then show ?case by (simp add: spread_none runs_none)
next
  case (Cons n ns)
  obtain g gr x where g: "w_graphs w g = Some gr" "ready_in w G g n" "w_nodes w n = Some x" "parent_graph x = Some g"
    using all_ready_one [OF Cons.prems(2), of n] by (metis list.set_intros(1))
  then have n0: "n \<noteq> nullptr" "picks p w n \<longleftrightarrow> p gr g" by (auto simp: ready_in_def picks_def)
  show ?case
  proof (cases "p gr g")
    case True
    have ns: "all_ready w G (set ns)" "distinct ns" "room C w (length ns + j)"
      using Cons.prems(2-4) room_less [OF Cons.prems(4), of "length ns + j"] by (simp_all add: all_ready_def)
    obtain w1 where w1: "ready_all ns w = Inr w1" "spread P C k w G (set ns) w1" "runs w (set ns) w1" "room C w1 j"
      using ready_all_lim [OF Cons.prems(1) ns] by blast
    moreover have "set (n # ns) - {n} = set ns" using Cons.prems(3) by auto
    ultimately show ?thesis using True n0 g by (intro exI [of _ n] exI [of _ w1]) (simp add: deref_def)
  next
    case False
    have r: "room C w (Suc (length ns + j))" using Cons.prems(4) by simp
    obtain w1 where w1: "node_ready n w = Inr w1" "spread P C k w G {n} w1" "runs w {n} w1" "room C w1 (length ns + j)"
      "all_ready w1 (G \<union> {m \<in> {n}. \<not> queued w1 m}) (set (n # ns) - {n})"
      using ready_one [OF Cons.prems(1,2) _ r, of n] by auto
    have nn: "set (n # ns) - {n} = set ns" using Cons.prems(3) by auto
    have "lim_inv P C k w1 (G \<union> {m \<in> {n}. \<not> queued w1 m})" using w1(2) by (simp add: spread_def)
    then obtain nx w2 where w2: "pick_next p ns w1 = Inr (nx, w2)"
      "spread P C k w1 (G \<union> {m \<in> {n}. \<not> queued w1 m}) (set ns - {nx}) w2" "runs w1 (set ns - {nx}) w2" "room C w2 j"
      "nx = nullptr \<and> (\<forall>n \<in> set ns. \<not> picks p w1 n) \<or> nx \<noteq> nullptr \<and> nx \<in> set ns \<and> picks p w1 nx"
      using Cons.IH [of w1 "G \<union> {m \<in> {n}. \<not> queued w1 m}"] w1(4,5) Cons.prems(3) unfolding nn by auto
    have s: "same_shape w w1" using w1(2) by (simp add: spread_def grown_def)
    have "nx \<noteq> n" using w2(5) n0(1) Cons.prems(3) by auto
    then have "set (n # ns) - {nx} = {n} \<union> (set ns - {nx})" by auto
    moreover have "{n} \<inter> (set ns - {nx}) = {}" using Cons.prems(3) by simp
    ultimately have "spread P C k w G (set (n # ns) - {nx}) w2" "runs w (set (n # ns) - {nx}) w2"
      using spread_trans [OF w1(2) w2(2)] runs_trans [OF w1(3) w2(3)] w1(2) w2(2) by (simp_all add: spread_def)
    then show ?thesis using w1(1) w2(1,4,5) False g n0(2) picks_same [OF s assms(5)]
      by (intro exI [of _ nx] exI [of _ w2]) (simp add: deref_def, blast)
  qed
qed

section \<open>A place is handed on\<close>

lemma going_card:
  assumes "lim_inv P C k w G" "n \<in> G" "w_nodes w n = Some x" "parent_graph x = Some g"
  shows "card (going_in w (G - {n}) h) = (if h = g then card (going_in w G h) - 1 else card (going_in w G h))"
    and "0 < card (going_in w G g)"
proof -
  have e: "going_in w (G - {n}) h = (if h = g then going_in w G h - {n} else going_in w G h)"
    using assms(3,4) by (auto simp: going_in_def)
  have "finite (going_in w G h)" for h using assms(1) by (simp add: going_in_def lim_inv_def)
  moreover have "n \<in> going_in w G g" using assms(2-4) by (simp add: going_in_def)
  ultimately show "card (going_in w (G - {n}) h) = (if h = g then card (going_in w G h) - 1 else card (going_in w G h))"
    "0 < card (going_in w G g)" unfolding e by (auto simp: card_gt_0_iff)
qed

lemma transfer:
  assumes inv: "lim_inv P C k w G" and n: "n \<in> G" "w_nodes w n = Some x" "parent_graph x = Some g"
    and m: "ready_in w G g m" "\<not> queued w m"
  shows "lim_inv P C k w (insert m (G - {n}))"
proof -
  obtain y where y: "w_nodes w m = Some y" "parent_graph y = Some g" "m \<notin> G" using m(1) by (auto simp: ready_in_def)
  have fin: "finite G" "G \<subseteq> dom (w_nodes w)" "sched_ok w" using inv by (simp_all add: lim_inv_def)
  have c: "card (going_in w (insert m (G - {n})) h) = card (going_in w G h)" for h
    using going_insert [OF y(1,2), of "G - {n}" h] y(3) fin(1) going_card(1) [OF inv n, of h] going_card(2) [OF inv n] by auto
  have r: "ready_in w (insert m (G - {n})) h v" if "ready_in w G h v" "v \<noteq> m" for h v using that by (auto simp: ready_in_def)
  have "\<exists>q. g_self_queue hr = Some q \<and> lim_ok P C k w (insert m (G - {n})) h q" if h: "w_graphs w h = Some hr" "limit_graph hr" for h hr
  proof -
    from lim_invD [OF inv h] obtain q where q: "g_self_queue hr = Some q" "lim_ok P C k w G h q" "waiting_in w h = sq_queued q" by blast
    have "m \<notin> set (sq_queued q)" using m(2) q(3) unfolding queued_def by metis
    then have "\<forall>v \<in> set (sq_queued q). ready_in w (insert m (G - {n})) h v" using q(2) r by (auto simp: lim_ok_def)
    then show ?thesis using q(1,2) by (intro exI [of _ q]) (simp add: lim_ok_def c)
  qed
  then show ?thesis using fin y(1) by (auto simp: lim_inv_def)
qed

lemma leave_lim:
  assumes inv: "lim_inv P C (Suc k) w G" and n: "n \<in> G" "w_nodes w n = Some x" "parent_graph x = Some g"
    and gr: "w_graphs w g = Some gr" "limit_graph gr"
  shows "\<exists>r w'. graph_try_dequeue g w = Inr (r, w') \<and> same_shape w w' \<and> queue w' = queue w
    \<and> (\<forall>h. h \<noteq> g \<longrightarrow> waiting_in w' h = waiting_in w h)
    \<and> (case r of None \<Rightarrow> waiting_in w g = [] \<and> waiting_in w' g = [] \<and> lim_inv P C k w' (G - {n})
       | Some m \<Rightarrow> waiting_in w g = m # waiting_in w' g \<and> lim_inv P C k w' (insert m (G - {n})))"
proof -
  from lim_invD [OF inv gr] obtain q where q: "g_self_queue gr = Some q" "lim_ok P C (Suc k) w G g q" "waiting_in w g = sq_queued q" by blast
  have ok: "sq_ok (P g) (C g) (Suc k) q" "sq_abs (P g) q = (card (going_in w G g), sq_queued q)" "distinct (sq_queued q)"
    "\<And>v. v \<in> set (sq_queued q) \<Longrightarrow> ready_in w G g v"
    using q(2) by (simp_all add: lim_ok_def prod_eq_iff) (simp add: sq_abs_def)
  note gc = going_card [OF inv n]
  have "0 < fst (sq_abs (P g) q)" using gc(2) ok(2) by simp
  then obtain q' r where q': "sq_try_dequeue q = Inr (q', r)" "sq_ok (P g) (C g) k q'"
    "admit (P g) Leave (sq_abs (P g) q) = (sq_abs (P g) q', case r of None \<Rightarrow> Idle | Some x \<Rightarrow> Hand x)"
    using sq.leave_admits [OF ok(1)] by blast
  have e: "sq_abs (P g) q' = fst (admit (P g) Leave (sq_abs (P g) q))"
    "(case r of None \<Rightarrow> Idle | Some x \<Rightarrow> Hand x) = snd (admit (P g) Leave (sq_abs (P g) q))" using q'(3) by simp_all
  have s: "sq_queued q' = snd (sq_abs (P g) q')" by (simp add: sq_abs_def)
  let ?w = "put_graph g (gr\<lparr>g_self_queue := Some q'\<rparr>) w"
  have run: "graph_try_dequeue g w = Inr (r, ?w)" using gr(1) q(1) q'(1) by (simp add: graph_try_dequeue_def)
  have sh: "same_shape w ?w" "queue ?w = queue w" using same_shape_put [OF gr(1)] by (simp_all add: queue_def put_graph_def)
  have wt: "waiting_in ?w h = (if h = g then sq_queued q' else waiting_in w h)" for h by (simp add: waiting_put gr(2))
  have fin: "finite G" "G \<subseteq> dom (w_nodes w)" using inv by (simp_all add: lim_inv_def)
  show ?thesis
  proof (cases "sq_queued q")
    case Nil
    then have r: "r = None" "sq_queued q' = []" "fst (sq_abs (P g) q') = card (going_in w G g) - 1"
      using e unfolding s ok(2) by (auto split: option.splits)
    have "lim_ok P C k w (G - {n}) g q'" using q'(2) r gc(1) [of g] by (simp add: lim_ok_def)
    then have "lim_inv P C k ?w (G - {n})"
      by (rule lim_inv_put [OF inv gr]) (use fin gc in \<open>auto simp: ready_in_def\<close>)
    then show ?thesis using run sh wt r Nil q(3) by (intro exI [of _ r] exI [of _ ?w]) simp
  next
    case (Cons m ms)
    then have r: "r = Some m" "sq_queued q' = ms" "fst (sq_abs (P g) q') = card (going_in w G g)"
      using e unfolding s ok(2) by (auto split: option.splits)
    have m: "ready_in w G g m" "m \<notin> set ms" using ok(3,4) Cons by auto
    then obtain y where y: "w_nodes w m = Some y" "parent_graph y = Some g" "m \<notin> G" by (auto simp: ready_in_def)
    have c: "card (going_in w (insert m (G - {n})) h) = card (going_in w G h)" for h
      using going_insert [OF y(1,2), of "G - {n}" h] y(3) fin(1) gc(1) [of h] gc(2) by auto
    have "lim_ok P C k w (insert m (G - {n})) g q'"
      using q'(2) r c ok(3,4) Cons m(2) by (auto simp: lim_ok_def ready_in_def)
    then have "lim_inv P C k ?w (insert m (G - {n}))"
      by (rule lim_inv_put [OF inv gr]) (use fin y c in \<open>auto simp: ready_in_def\<close>)
    then show ?thesis using run sh wt r Cons q(3) by (intro exI [of _ r] exI [of _ ?w]) simp
  qed
qed

section \<open>Graph::finish\<close>

text \<open>What \<open>Graph::finish\<close> does once it has counted: the nodes \<open>notified\<close> have become ready.\<close>

definition pass_on :: "gid \<Rightarrow> nid list \<Rightarrow> world \<Rightarrow> (nid \<times> world) result" where
  "pass_on g notified w = rbind (graph_at g w) (\<lambda>gr.
     if \<not> limit_graph gr then finish_free notified w else finish_limited g notified w)"

lemma count_down_graphs: "count_down d (ns, w) = Inr (ns', w') \<Longrightarrow> w_graphs w' = w_graphs w"
  by (auto simp: count_down_def sub_wait_count_def)

lemma graph_finish_passes_on:
  "graph_finish g ns w = rbind (graph_at g w) (\<lambda>gr. let w1 = put_graph g (gr\<lparr>g_wait_count := g_wait_count gr - 1\<rparr>) w in
     rbind (if g_wait_count gr = 1 then rfold count_down (g_down_streams gr) (ns, w1) else Inr (ns, w1)) (\<lambda>(ns', w2). pass_on g ns' w2))"
proof (cases "w_graphs w g")
  case (Some gr)
  let ?w1 = "put_graph g (gr\<lparr>g_wait_count := g_wait_count gr - 1\<rparr>) w"
  have same: "w_graphs (snd s) = w_graphs ?w1" if "rfold count_down ds (ns, ?w1) = Inr s" for ds s
    by (rule rfold_invariant [OF that, of "\<lambda>s. w_graphs (snd s) = w_graphs ?w1"]) (auto dest: count_down_graphs)
  show ?thesis
    using Some same by (cases "rfold count_down (g_down_streams gr) (ns, ?w1)")
      (auto simp: graph_finish_def pass_on_def graph_at_def Let_def)
qed (simp add: graph_finish_def graph_at_def)

lemma grown_more: "grown w S w' \<Longrightarrow> finite T \<Longrightarrow> S \<subseteq> T \<Longrightarrow> grown w T w'"
  unfolding grown_def by (meson card_mono order_trans)

text \<open>A node of a graph without a limit is handed out directly.\<close>

lemma spread_free:
  assumes sp: "spread P C k w G S w'" and n: "all_ready w G {n}" "n \<notin> S"
    and g: "w_nodes w n = Some x" "parent_graph x = Some g" "w_graphs w g = Some gr" "\<not> limit_graph gr"
  shows "spread P C k w G (insert n S) w'" and "\<not> queued w' n"
proof -
  have gw: "grown w S w'" "same_shape w w'" using sp by (simp_all add: spread_def grown_def)
  show nq: "\<not> queued w' n" using queued_grown(2) [OF gw(1), of n] n by (auto simp: all_ready_def)
  obtain q where "w_graphs w' g = Some (gr\<lparr>g_self_queue := q\<rparr>)" using same_shape_graph(1) [OF gw(2) g(3)] by blast
  then have "lim_inv P C k w' (insert n (G \<union> {m \<in> S. \<not> queued w' m}))"
    using lim_inv_free(1) [of P C k w' _ n x g] sp g same_shape_graph(3) [OF gw(2)] by (simp add: spread_def)
  moreover have "insert n (G \<union> {m \<in> S. \<not> queued w' m}) = G \<union> {m \<in> insert n S. \<not> queued w' m}" using nq by auto
  moreover have "grown w (insert n S) w'" by (rule grown_more [OF gw(1)]) (use gw(1) in \<open>auto simp: grown_def\<close>)
  ultimately show "spread P C k w G (insert n S) w'" by (simp add: spread_def)
qed

lemma all_ready_sub: "all_ready w G S \<Longrightarrow> T \<subseteq> S \<Longrightarrow> all_ready w G T"
  by (auto simp: all_ready_def)

text \<open>After some nodes have been spread, one more node is made ready.\<close>

lemma spread_ready:
  assumes sp: "spread P C k w G S w1" "runs w S w1" and n: "all_ready w G {n}" "n \<notin> S" and room: "room C w1 (Suc j)"
  shows "\<exists>w2. node_ready n w1 = Inr w2 \<and> spread P C k w G (insert n S) w2 \<and> runs w (insert n S) w2 \<and> room C w2 j"
proof -
  let ?G = "G \<union> {m \<in> S. \<not> queued w1 m}"
  have "all_ready w1 ?G {n}" by (rule all_ready_spread [OF sp(1) n(1)]) (use n(2) in simp)
  then obtain w2 where w2: "node_ready n w1 = Inr w2" "spread P C k w1 ?G {n} w2" "runs w1 {n} w2" "room C w2 j"
    using ready_one [of P C k w1 ?G "{n}" n j] sp room by (auto simp: spread_def)
  moreover have "runs w (S \<union> {n}) w2"
    by (rule runs_trans [OF sp(2) w2(3)]) (use sp w2(2) n(2) in \<open>auto simp: spread_def\<close>)
  ultimately show ?thesis using spread_trans [OF sp(1), of "{n}" w2] n(2) by auto
qed

lemma graph_of_at:
  "w_nodes w n = Some x \<Longrightarrow> parent_graph x = Some g \<Longrightarrow> w_graphs w g = Some gr \<Longrightarrow> graph_of n w = Inr (g, gr)"
  by (simp add: graph_of_def)

lemma finish_free_lim:
  assumes inv: "lim_inv P C k w G" and ns: "all_ready w G (set ns)" "distinct ns" and room: "room C w (length ns)"
  shows "\<exists>nx w'. finish_free ns w = Inr (nx, w') \<and> spread P C k w G (set ns) w' \<and> runs w (set ns - {nx}) w'
    \<and> (nx = nullptr \<or> nx \<in> set ns \<and> \<not> queued w' nx)"
proof (cases ns)
  case Nil
  then show ?thesis using spread_none [OF inv] runs_none by (simp add: finish_free_def)
next
  case (Cons t rest)
  let ?p = "\<lambda>gr g. \<not> limit_graph gr"
  have st: "stable ?p" by (simp add: stable_def)
  have rest: "all_ready w G (set rest)" "distinct rest" "room C w (length rest + 1)" "all_ready w G {t}" "t \<notin> set rest"
    using ns room Cons by (auto simp: all_ready_def)
  obtain nx w1 where w1: "pick_next ?p rest w = Inr (nx, w1)" "spread P C k w G (set rest - {nx}) w1" "runs w (set rest - {nx}) w1" "room C w1 1"
    "nx = nullptr \<and> (\<forall>n \<in> set rest. \<not> picks ?p w n) \<or> nx \<noteq> nullptr \<and> nx \<in> set rest \<and> picks ?p w nx"
    using pick_next_lim [OF inv rest(1-3) st] by blast
  have sh: "same_shape w w1" using w1(2) by (simp add: spread_def grown_def)
  show ?thesis
  proof (cases "nx = nullptr")
    case False
    then have nx: "nx \<in> set rest" "picks ?p w nx" using w1(5) by auto
    obtain w2 where w2: "node_ready t w1 = Inr w2" "spread P C k w G (insert t (set rest - {nx})) w2"
      "runs w (insert t (set rest - {nx})) w2"
      using spread_ready [OF w1(2,3) rest(4), of 0] rest(5) w1(4) by auto
    obtain x g gr where g: "w_nodes w nx = Some x" "parent_graph x = Some g" "w_graphs w g = Some gr" "\<not> limit_graph gr"
      using nx(2) by (auto simp: picks_def)
    have a: "all_ready w G {nx}" "nx \<notin> insert t (set rest - {nx})" using rest(1,5) nx(1) by (auto simp: all_ready_def)
    have "spread P C k w G (insert nx (insert t (set rest - {nx}))) w2" "\<not> queued w2 nx" by (rule spread_free [OF w2(2) a g])+
    moreover have "insert nx (insert t (set rest - {nx})) = set ns" using Cons nx(1) by auto
    moreover have "set ns - {nx} = insert t (set rest - {nx})" using Cons nx(1) rest(5) by auto
    ultimately show ?thesis using Cons w1(1) w2(1,3) False nx(1) by (simp add: finish_free_def)
  next
    case True
    then have none: "set rest - {nx} = set rest" using rest(1) by (auto simp: all_ready_def ready_in_def)
    obtain g gr x where g: "w_graphs w g = Some gr" "ready_in w G g t" "\<not> queued w t" "w_nodes w t = Some x" "parent_graph x = Some g"
      using all_ready_one [OF rest(4), of t] by (metis singletonI)
    obtain q where q: "w_graphs w1 g = Some (gr\<lparr>g_self_queue := q\<rparr>)" using same_shape_graph(1) [OF sh g(1)] by blast
    have go: "graph_of t w1 = Inr (g, gr\<lparr>g_self_queue := q\<rparr>)"
      using graph_of_at [of w1 t x g] g(4,5) q same_shape_graph(3) [OF sh] by simp
    show ?thesis
    proof (cases "limit_graph gr")
      case False
      have "spread P C k w G (insert t (set rest)) w1" "\<not> queued w1 t"
        using spread_free [OF w1(2) rest(4) _ g(4,5,1) False] rest(5) none by auto
      moreover have "set ns - {t} = set rest" using Cons rest(5) by auto
      ultimately show ?thesis using Cons w1(1,3) True go False none by (simp add: finish_free_def)
    next
      case True': True
      let ?G = "G \<union> {m \<in> set rest. \<not> queued w1 m}"
      have sp: "spread P C k w G (set rest) w1" using w1(2) none by simp
      have "all_ready w1 ?G {t}" by (rule all_ready_spread [OF sp rest(4)]) (use rest(5) in simp)
      then have t: "ready_in w1 ?G g t" "\<not> queued w1 t"
        using g(4,5) same_shape_graph(3) [OF sh] by (auto simp: all_ready_def ready_in_def)
      have "length (waiting_in w1 g) < C g" using w1(4) q True' by (fastforce simp: room_def)
      moreover have "t \<notin> set (waiting_in w1 g)" using t(2) by (auto simp: queued_def)
      ultimately obtain b w2 where w2: "graph_try_enqueue g t w1 = Inr (b, w2)" "spread P C k w1 ?G {t} w2" "b \<longleftrightarrow> queued w2 t"
        "inner_schedule w2 = inner_schedule w1"
        using enq_lim [of P C k w1 ?G g _ t] q t(1) True' sp by (auto simp: spread_def)
      have "spread P C k w G (set rest \<union> {t}) w2" by (rule spread_trans [OF sp w2(2)]) (use rest(5) in simp)
      moreover have "runs w (set ns - {if b then nullptr else t}) w2"
      proof -
        have "t \<noteq> nullptr" "\<forall>v \<in> set rest. v \<noteq> nullptr" using g(2) rest(1) by (auto simp: all_ready_def ready_in_def)
        moreover have "queued w2 m \<longleftrightarrow> queued w1 m" if "m \<in> set rest" for m
          using queued_grown [of w1 "{t}" w2 m] w2(2) that rest(5) by (auto simp: spread_def)
        ultimately have "{m \<in> set ns - {if b then nullptr else t}. \<not> queued w2 m} = {m \<in> set rest. \<not> queued w1 m}"
          using Cons rest(5) w2(3) by auto
        then show ?thesis using w1(3) none w2(4) by (simp add: runs_def queue_def)
      qed
      ultimately show ?thesis using Cons w1(1) True True' go w2(1,3) by (cases b) (simp_all add: finish_free_def)
    qed
  qed
qed

lemma lim_inv_weaken: "lim_inv P C (Suc k) w G \<Longrightarrow> lim_inv P C k w G"
  unfolding lim_inv_def lim_ok_def using sq.ok_weaken by blast

lemma lim_inv_queued_limited:
  assumes "lim_inv P C k w G" "w_nodes w n = Some x" "parent_graph x = Some g" "w_graphs w g = Some gr" "\<not> limit_graph gr"
  shows "\<not> queued w n"
  using queued_in [OF assms(1-3)] waiting_unlimited [OF assms(4,5)] by simp

lemma waiting_distinct:
  assumes "lim_inv P C k w G"
  shows "distinct (waiting_in w g)"
proof (cases "\<exists>gr. w_graphs w g = Some gr \<and> limit_graph gr")
  case True
  then obtain gr where gr: "w_graphs w g = Some gr" "limit_graph gr" by blast
  from lim_invD [OF assms gr] obtain q where "lim_ok P C k w G g q" "waiting_in w g = sq_queued q" by blast
  then show ?thesis by (simp add: lim_ok_def)
next
  case False
  then have "waiting_in w g = []" by (cases "w_graphs w g") (simp_all add: waiting_in_def)
  then show ?thesis by simp
qed

text \<open>The end of a node \<open>n\<close> of a limited graph \<open>g\<close>, when the first node it notifies is not of another limited graph.\<close>

definition no_foreign :: "world \<Rightarrow> gid \<Rightarrow> nid set \<Rightarrow> bool" where
  "no_foreign w g S \<longleftrightarrow> (\<forall>m \<in> S. \<forall>x h gr. w_nodes w m = Some x \<longrightarrow> parent_graph x = Some h \<longrightarrow> w_graphs w h = Some gr \<longrightarrow>
     limit_graph gr \<longrightarrow> h = g)"

definition has_own :: "world \<Rightarrow> gid \<Rightarrow> nid set \<Rightarrow> bool" where
  "has_own w g S \<longleftrightarrow> (\<exists>m \<in> S. \<exists>x. w_nodes w m = Some x \<and> parent_graph x = Some g)"

definition after_end :: "world \<Rightarrow> nid set \<Rightarrow> nid \<Rightarrow> nid set \<Rightarrow> nid \<Rightarrow> nid set" where
  "after_end w G n S nx = (G - {n}) \<union> {m \<in> insert nx S - {nullptr}. \<not> queued w m}"

text \<open>The place goes to a node of the graph that has just become ready.\<close>

lemma hand_to_own:
  assumes sp: "spread P C (Suc k) w G (S - {nx}) w'" and S: "all_ready w G S" "nx \<in> S"
    and n: "n \<in> G" "w_nodes w n = Some x" "parent_graph x = Some g" and y: "w_nodes w nx = Some y" "parent_graph y = Some g"
  shows "lim_inv P C k w' (after_end w' G n S nx)" and "\<not> queued w' nx"
proof -
  have gw: "grown w (S - {nx}) w'" "same_shape w w'" using sp by (simp_all add: spread_def grown_def)
  let ?G = "G \<union> {m \<in> S - {nx}. \<not> queued w' m}"
  have ready: "ready_in w G g nx" "\<not> queued w nx" using S y by (auto simp: all_ready_def ready_in_def)
  show nq: "\<not> queued w' nx" using queued_grown(2) [OF gw(1), of nx] ready(2) by auto
  have r: "ready_in w' ?G g nx" using ready(1) same_shape_graph(3) [OF gw(2)] by (auto simp: ready_in_def)
  have "lim_inv P C (Suc k) w' (insert nx (?G - {n}))"
    using transfer [OF _ _ _ n(3) r nq, of P C "Suc k" n] sp n same_shape_graph(3) [OF gw(2)] by (simp add: spread_def)
  moreover have "n \<notin> S" using S(1) n(1) by (auto simp: all_ready_def ready_in_def)
  then have "insert nx (?G - {n}) = after_end w' G n S nx"
    using nq S ready(1) by (auto simp: after_end_def all_ready_def ready_in_def)
  ultimately show "lim_inv P C k w' (after_end w' G n S nx)" using lim_inv_weaken by simp
qed

lemma finish_limited_lim:
  assumes inv: "lim_inv P C (Suc k) w G" and n: "n \<in> G" "w_nodes w n = Some x" "parent_graph x = Some g"
    and gr: "w_graphs w g = Some gr" "limit_graph gr"
    and ns: "all_ready w G (set ns)" "distinct ns" and room: "room C w (length ns)" and nf: "no_foreign w g (set (take 1 ns))"
  shows "\<exists>nx w'. finish_limited g ns w = Inr (nx, w') \<and> lim_inv P C k w' (after_end w' G n (set ns) nx)
    \<and> runs w (set ns - {nx}) w'
    \<and> (nx = nullptr \<or> \<not> queued w' nx)
    \<and> (\<forall>m ms. waiting_in w g = m # ms \<and> \<not> has_own w g (set ns) \<longrightarrow> nx = m)"
proof (cases ns)
  case Nil
  obtain r w' where r: "graph_try_dequeue g w = Inr (r, w')" "same_shape w w'" "runs w {} w'"
    "case r of None \<Rightarrow> waiting_in w g = [] \<and> waiting_in w' g = [] \<and> lim_inv P C k w' (G - {n})
       | Some m \<Rightarrow> waiting_in w g = m # waiting_in w' g \<and> lim_inv P C k w' (insert m (G - {n}))"
    using leave_lim [OF inv n gr] by (auto simp: runs_def)
  show ?thesis
  proof (cases r)
    case None
    moreover have "after_end w' G n {} nullptr = G - {n}" by (auto simp: after_end_def)
    ultimately show ?thesis using r Nil by (simp add: finish_limited_def)
  next
    case (Some m)
    then have w: "waiting_in w g = m # waiting_in w' g" "lim_inv P C k w' (insert m (G - {n}))" using r(4) by simp_all
    have m: "ready_in w G g m" "m \<notin> set (waiting_in w' g)"
      using waiting_ready [OF inv, of m g] waiting_distinct [OF inv, of g] w(1) by auto
    then have "\<not> queued w' m"
      using queued_in [OF w(2)] same_shape_graph(3) [OF r(2)] by (auto simp: ready_in_def)
    moreover have "after_end w' G n {} m = insert m (G - {n})" using calculation m(1) by (auto simp: after_end_def ready_in_def)
    ultimately show ?thesis using r(1,3) w Nil Some by (simp add: finish_limited_def)
  qed
next
  case (Cons t rest)
  let ?p = "\<lambda>gr h. h = g"
  have st: "stable ?p" by (simp add: stable_def)
  have rest: "all_ready w G (set rest)" "distinct rest" "room C w (length rest + 1)" "all_ready w G {t}" "t \<notin> set rest"
    using ns room Cons by (auto simp: all_ready_def)
  obtain nx w1 where w1: "pick_next ?p rest w = Inr (nx, w1)" "spread P C (Suc k) w G (set rest - {nx}) w1" "runs w (set rest - {nx}) w1" "room C w1 1"
    "nx = nullptr \<and> (\<forall>n \<in> set rest. \<not> picks ?p w n) \<or> nx \<noteq> nullptr \<and> nx \<in> set rest \<and> picks ?p w nx"
    using pick_next_lim [OF inv rest(1-3) st] by blast
  show ?thesis
  proof (cases "nx = nullptr")
    case False
    then have nx: "nx \<in> set rest" "picks ?p w nx" using w1(5) by auto
    then obtain y where y: "w_nodes w nx = Some y" "parent_graph y = Some g" by (auto simp: picks_def)
    obtain w2 where w2: "node_ready t w1 = Inr w2" "spread P C (Suc k) w G (insert t (set rest - {nx})) w2"
      "runs w (insert t (set rest - {nx})) w2"
      using spread_ready [OF w1(2,3) rest(4), of 0] rest(5) w1(4) by auto
    have e: "insert t (set rest - {nx}) = set ns - {nx}" using Cons nx(1) rest(5) by auto
    have "nx \<in> set ns" using Cons nx(1) by simp
    note h = hand_to_own [OF w2(2) [unfolded e] ns(1) this n y]
    have "has_own w g (set ns)" using y nx(1) Cons by (auto simp: has_own_def)
    then show ?thesis using h Cons w1(1) w2(1) False w2(3) [unfolded e] by (auto simp: finish_limited_def)
  next
    case True
    then have sp: "spread P C (Suc k) w G (set rest) w1" "runs w (set rest) w1"
      using w1(2,3) rest(1) by (auto simp: all_ready_def ready_in_def)
    have gw: "grown w (set rest) w1" "same_shape w w1" using sp by (simp_all add: spread_def grown_def)
    obtain h hr y where h: "w_graphs w h = Some hr" "ready_in w G h t" "\<not> queued w t" "w_nodes w t = Some y" "parent_graph y = Some h"
      using all_ready_one [OF rest(4), of t] by (metis singletonI)
    obtain q where q: "w_graphs w1 h = Some (hr\<lparr>g_self_queue := q\<rparr>)" using same_shape_graph(1) [OF gw(2) h(1)] by blast
    have n1: "w_nodes w1 = w_nodes w" by (rule same_shape_graph(3) [OF gw(2)])
    have go: "graph_of t w1 = Inr (h, hr\<lparr>g_self_queue := q\<rparr>)" using graph_of_at [of w1 t y h] h(4,5) q n1 by simp
    show ?thesis
    proof (cases "h = g")
      case True': True
      have e: "set ns - {t} = set rest" using Cons rest(5) by auto
      have "t \<in> set ns" using Cons by simp
      note o = hand_to_own [OF _ ns(1) this n h(4) h(5) [unfolded True'], of P C k w1, unfolded e, OF sp(1)]
      have "has_own w g (set ns)" using h(4,5) True' Cons by (auto simp: has_own_def)
      then show ?thesis using o Cons w1(1) True True' go sp(2) [folded e] by (auto simp: finish_limited_def)
    next
      case False
      let ?G1 = "G \<union> {m \<in> set rest. \<not> queued w1 m}"
      have free: "\<not> limit_graph hr" using nf Cons h(1,4,5) False by (auto simp: no_foreign_def)
      obtain q1 where gr1: "w_graphs w1 g = Some (gr\<lparr>g_self_queue := q1\<rparr>)" using same_shape_graph(1) [OF gw(2) gr(1)] by blast
      have inv1: "lim_inv P C (Suc k) w1 ?G1" using sp by (simp add: spread_def)
      have G1: "n \<in> ?G1" "t \<notin> ?G1" using n(1) h(2) rest(5) by (auto simp: ready_in_def)
      obtain r w2 where r: "graph_try_dequeue g w1 = Inr (r, w2)" "same_shape w1 w2" "queue w2 = queue w1"
        "\<forall>h. h \<noteq> g \<longrightarrow> waiting_in w2 h = waiting_in w1 h"
        "case r of None \<Rightarrow> waiting_in w1 g = [] \<and> waiting_in w2 g = [] \<and> lim_inv P C k w2 (?G1 - {n})
           | Some m \<Rightarrow> waiting_in w1 g = m # waiting_in w2 g \<and> lim_inv P C k w2 (insert m (?G1 - {n}))"
        using leave_lim [OF inv1 G1(1) _ n(3) gr1] n(2) gr(2) n1 by auto
      have n2: "w_nodes w2 = w_nodes w" using same_shape_graph(3) [OF r(2)] n1 by simp
      obtain q2 where h2: "w_graphs w2 h = Some (hr\<lparr>g_self_queue := q2\<rparr>)"
        using same_shape_graph(1) [OF r(2) q] by auto
      have wg: "\<exists>us. waiting_in w1 g = waiting_in w g @ us" using gw(1) by (auto simp: grown_def)
      have nr: "n \<notin> set ns" using ns(1) n(1) by (auto simp: all_ready_def ready_in_def)
      have t0: "t \<noteq> nullptr" using h(2) by (simp add: ready_in_def)
      have r0: "nullptr \<notin> set rest" using rest(1) by (auto simp: all_ready_def ready_in_def)
      show ?thesis
      proof (cases r)
        case None
        then have w: "waiting_in w1 g = []" "waiting_in w2 g = []" "lim_inv P C k w2 (?G1 - {n})" using r(5) by simp_all
        have qd: "queued w2 = queued w1" using r(4) w(1,2) unfolding queued_def fun_eq_iff by metis
        have i: "lim_inv P C k w2 (insert t (?G1 - {n}))"
          using lim_inv_free(1) [OF w(3), of t y h] h(4,5) n2 h2 free by simp
        have "\<not> queued w2 t" using lim_inv_queued_limited [OF w(3), of t y h] h(4,5) n2 h2 free by simp
        moreover have "insert t (?G1 - {n}) = after_end w2 G n (set ns) t"
          using calculation Cons nr t0 r0 qd by (auto simp: after_end_def)
        moreover have "waiting_in w g = []" using wg w(1) by simp
        moreover have "set ns - {t} = set rest" using Cons rest(5) by auto
        then have "runs w (set ns - {t}) w2" using sp(2) r(3) qd by (simp add: runs_def)
        ultimately show ?thesis using i Cons w1(1) True False go r(1) None by (simp add: finish_limited_def)
      next
        case (Some m)
        then have w: "waiting_in w1 g = m # waiting_in w2 g" "lim_inv P C k w2 (insert m (?G1 - {n}))" using r(5) by simp_all
        have m: "ready_in w1 ?G1 g m" using waiting_ready [OF inv1, of m g] w(1) by simp
        then obtain z where z: "w_nodes w m = Some z" "parent_graph z = Some g" "m \<noteq> nullptr" "m \<notin> ?G1" by (auto simp: ready_in_def n1)
        have tm: "t \<noteq> m" using z h(4,5) False by auto
        have "t \<notin> insert m (?G1 - {n})" using tm G1(2) by auto
        then have tr: "ready_in w2 (insert m (?G1 - {n})) h t" using h(2) by (simp add: ready_in_def n2)
        have tq: "\<not> queued w2 t" using lim_inv_queued_limited [OF w(2), of t y h] h(4,5) n2 h2 free by simp
        obtain w3 where w3: "node_ready t w2 = Inr w3" "spread P C k w2 (insert m (?G1 - {n})) {t} w3"
          "runs w2 {t} w3"
          using ready_lim [OF w(2) h2 tr tq] free by auto
        have g3: "grown w2 {t} w3" and i: "lim_inv P C k w3 (insert m (?G1 - {n}) \<union> {v \<in> {t}. \<not> queued w3 v})"
          using w3(2) by (simp_all add: spread_def)
        have n3: "w_nodes w3 = w_nodes w" using same_shape_graph(3) [of w2 w3] g3 n2 by (simp add: grown_def)
        have "m \<notin> set (waiting_in w2 g)" using waiting_distinct [OF inv1, of g] w(1) by simp
        then have mq2: "\<not> queued w2 m" using queued_in [OF w(2), of m z g] z(1,2) n2 by simp
        have mq: "\<not> queued w3 m" using queued_grown(2) [OF g3, of m] mq2 tm by auto
        have v: "queued w3 v \<longleftrightarrow> queued w1 v" if "v \<noteq> t" "v \<noteq> m" for v
        proof -
          have "queued w3 v \<longleftrightarrow> queued w2 v" using queued_grown [OF g3, of v] that(1) by auto
          also have "\<dots> \<longleftrightarrow> queued w1 v" using r(4) w(1) that(2) unfolding queued_def by (metis set_ConsD list.set_intros(2))
          finally show ?thesis .
        qed
        have v1: "\<forall>v \<in> set rest. \<not> queued w1 v \<longrightarrow> \<not> queued w3 v" using v mq rest(5) by metis
        have v2: "\<forall>v \<in> set rest. \<not> queued w3 v \<longrightarrow> v = m \<or> \<not> queued w1 v" using v rest(5) by metis
        have mr: "m \<notin> set rest" using w1(5) True z(1,2) gr(1) by (auto simp: picks_def)
        have mn: "m \<noteq> n" using z(4) G1(1) by auto
        have "insert m (?G1 - {n}) \<union> {v \<in> {t}. \<not> queued w3 v} = after_end w3 G n (set ns) m"
          unfolding after_end_def using Cons nr t0 r0 mq mn z(3) v1 v2 by auto
        moreover have "\<exists>us. m # waiting_in w2 g = waiting_in w g @ us" using wg w(1) by simp
        moreover have "runs w (set ns - {m}) w3"
        proof -
          have "{v \<in> set ns - {m}. \<not> queued w3 v} = {v \<in> set rest. \<not> queued w1 v} \<union> {v \<in> {t}. \<not> queued w3 v}"
            using Cons tm mr v1 v2 by auto
          moreover have "mset_set ({v \<in> set rest. \<not> queued w1 v} \<union> {v \<in> {t}. \<not> queued w3 v})
              = mset_set {v \<in> set rest. \<not> queued w1 v} + mset_set {v \<in> {t}. \<not> queued w3 v}"
            by (rule mset_set_Union) (use rest(5) in auto)
          ultimately show ?thesis using sp(2) w3(3) r(3) unfolding runs_def by simp
        qed
        ultimately show ?thesis using i mq Cons w1(1) True False go r(1) Some w3(1) by (auto simp: finish_limited_def Cons_eq_append_conv)
      qed
    qed
  qed
qed

lemma pass_on_lim:
  assumes inv: "lim_inv P C (Suc k) w G" and n: "n \<in> G" "w_nodes w n = Some x" "parent_graph x = Some g" and gr: "w_graphs w g = Some gr"
    and ns: "all_ready w G (set ns)" "distinct ns" and room: "room C w (length ns)"
    and nf: "limit_graph gr \<Longrightarrow> no_foreign w g (set (take 1 ns))"
  shows "\<exists>nx w'. pass_on g ns w = Inr (nx, w') \<and> lim_inv P C k w' (after_end w' G n (set ns) nx)
    \<and> runs w (set ns - {nx}) w'
    \<and> (nx = nullptr \<or> \<not> queued w' nx)
    \<and> (\<forall>m ms. limit_graph gr \<and> waiting_in w g = m # ms \<and> \<not> has_own w g (set ns) \<longrightarrow> nx = m)"
proof (cases "limit_graph gr")
  case True
  then show ?thesis using finish_limited_lim [OF inv n gr True ns room nf] gr by (simp add: pass_on_def)
next
  case False
  obtain nx w' where f: "finish_free ns w = Inr (nx, w')" "spread P C (Suc k) w G (set ns) w'" "runs w (set ns - {nx}) w'"
    "nx = nullptr \<or> nx \<in> set ns \<and> \<not> queued w' nx" using finish_free_lim [OF inv ns room] by blast
  have sh: "same_shape w w'" using f(2) by (simp add: spread_def grown_def)
  obtain q where q: "w_graphs w' g = Some (gr\<lparr>g_self_queue := q\<rparr>)" using same_shape_graph(1) [OF sh gr] by blast
  have i: "lim_inv P C (Suc k) w' (G \<union> {m \<in> set ns. \<not> queued w' m})" using f(2) by (simp add: spread_def)
  have "lim_inv P C (Suc k) w' ((G \<union> {m \<in> set ns. \<not> queued w' m}) - {n})"
    using lim_inv_free(2) [OF i _ n(3) q] n(2) False same_shape_graph(3) [OF sh] by simp
  moreover have "n \<notin> set ns" "\<forall>v \<in> set ns. v \<noteq> nullptr" using ns(1) n(1) by (auto simp: all_ready_def ready_in_def)
  then have "(G \<union> {m \<in> set ns. \<not> queued w' m}) - {n} = after_end w' G n (set ns) nx" using f(4) by (auto simp: after_end_def)
  ultimately show ?thesis using f(1,3,4) False gr lim_inv_weaken by (auto simp: pass_on_def)
qed

end
