(* ===== verification/Limited_Run.thy ===== *)
theory Limited_Run
  imports Limited
begin

text \<open>
  Programs with limited graphs (src/graph.cpp): nodes become ready and end, graphs are made and freed, in any order;
  what the limits give, and where \<open>Graph::finish\<close> goes around them.
\<close>

section \<open>The program around it\<close>

text \<open>
  \<open>places\<close> and \<open>slots\<close> are fixed when a graph is made, \<open>ends\<close> counts the nodes that have ended; \<open>going\<close>, \<open>places\<close>,
  \<open>slots\<close> and \<open>ends\<close> are no state of the program.
\<close>

record limits =
  lim_world :: world
  going :: "nid set"
  places :: "gid \<Rightarrow> nat"
  slots :: "gid \<Rightarrow> nat"
  ends :: nat

text \<open>What the rest of the program may do between two of these calls: run, count and create nodes, make and free
  graphs without a limit, free limited ones; but leave the queues, and the nodes on their way where they are.\<close>

definition undisturbed :: "world \<Rightarrow> nid set \<Rightarrow> world \<Rightarrow> bool" where
  "undisturbed w G w' \<longleftrightarrow> sched_ok w'
     \<and> (\<forall>g gr'. w_graphs w' g = Some gr' \<longrightarrow> limit_graph gr' \<longrightarrow>
          (\<exists>gr. w_graphs w g = Some gr \<and> limit_graph gr \<and> g_self_queue gr' = g_self_queue gr))
     \<and> (\<forall>n x. w_nodes w n = Some x \<longrightarrow> n \<in> G \<or> queued w n \<longrightarrow> (\<exists>x'. w_nodes w' n = Some x'
          \<and> parent_graph x' = parent_graph x \<and> (queued w n \<longrightarrow> n_status x' = n_status x)))"

inductive lstep :: "limits \<Rightarrow> limits \<Rightarrow> bool" where
  limit: "graph_new_limit p parallel queue_size = Inr gr \<Longrightarrow> g_self_queue gr = Some q \<Longrightarrow> fq_limit (sq_limit_queue q) = Some c \<Longrightarrow>
    0 < queue_size \<Longrightarrow> w_graphs (lim_world s) g = None \<Longrightarrow> going_in (lim_world s) (going s) g = {} \<Longrightarrow>
    lstep s (s\<lparr>lim_world := put_graph g gr (lim_world s), places := (places s)(g := unat parallel),
      slots := (slots s)(g := c)\<rparr>)"
| ready: "all_ready (lim_world s) (going s) {n} \<Longrightarrow> room (slots s) (lim_world s) 1 \<Longrightarrow> node_ready n (lim_world s) = Inr w \<Longrightarrow>
    lstep s (s\<lparr>lim_world := w, going := going s \<union> {m \<in> {n}. \<not> queued w m}\<rparr>)"
| finish: "n \<in> going s \<Longrightarrow> w_nodes (lim_world s) n = Some x \<Longrightarrow> parent_graph x = Some g \<Longrightarrow> w_graphs (lim_world s) g = Some gr \<Longrightarrow>
    all_ready (lim_world s) (going s) (set ns) \<Longrightarrow> distinct ns \<Longrightarrow> room (slots s) (lim_world s) (length ns) \<Longrightarrow>
    (limit_graph gr \<longrightarrow> no_foreign (lim_world s) g (set (take 1 ns))) \<Longrightarrow> pass_on g ns (lim_world s) = Inr (nx, w) \<Longrightarrow>
    lstep s (s\<lparr>lim_world := w, going := after_end w (going s) n (set ns) nx, ends := Suc (ends s)\<rparr>)"
| other: "undisturbed (lim_world s) (going s) w \<Longrightarrow> lstep s (s\<lparr>lim_world := w\<rparr>)"

inductive lreach :: "limits \<Rightarrow> bool" where
  start: "sched_ok (lim_world s) \<Longrightarrow> \<forall>g gr. w_graphs (lim_world s) g = Some gr \<longrightarrow> \<not> limit_graph gr \<Longrightarrow>
    going s = {} \<Longrightarrow> ends s = 0 \<Longrightarrow> lreach s"
| more: "lreach s \<Longrightarrow> lstep s s' \<Longrightarrow> lreach s'"

lemma undisturbed_inv:
  assumes inv: "lim_inv P C k w G" and u: "undisturbed w G w'"
  shows "lim_inv P C k w' G"
proof -
  have sub: "G \<subseteq> dom (w_nodes w)" "finite G" using inv by (simp_all add: lim_inv_def)
  have node: "\<exists>x'. w_nodes w' n = Some x' \<and> parent_graph x' = parent_graph x \<and> (queued w n \<longrightarrow> n_status x' = n_status x)"
    if "w_nodes w n = Some x" "n \<in> G \<or> queued w n" for n x using u that by (auto simp: undisturbed_def)
  have "going_in w' G g = going_in w G g" for g
    using sub(1) node unfolding going_in_def by fastforce
  moreover have "ready_in w' G g n" if "n \<in> set (waiting_in w g)" for g n
  proof -
    have r: "ready_in w G g n" "queued w n" using waiting_ready [OF inv that] that by (auto simp: queued_def)
    then obtain x where "w_nodes w n = Some x" "n_status x = Initing" "parent_graph x = Some g" "n \<noteq> nullptr" "n \<notin> G"
      by (auto simp: ready_in_def)
    then show ?thesis using node [of n x] r(2) by (auto simp: ready_in_def)
  qed
  moreover have "\<exists>gr. w_graphs w g = Some gr \<and> limit_graph gr \<and> g_self_queue gr' = g_self_queue gr"
    if "w_graphs w' g = Some gr'" "limit_graph gr'" for g gr' using u that by (auto simp: undisturbed_def)
  ultimately have "\<exists>q. g_self_queue gr' = Some q \<and> lim_ok P C k w' G g q" if h: "w_graphs w' g = Some gr'" "limit_graph gr'" for g gr'
  proof -
    obtain gr where gr: "w_graphs w g = Some gr" "limit_graph gr" "g_self_queue gr' = g_self_queue gr"
      using \<open>\<And>g gr'. w_graphs w' g = Some gr' \<Longrightarrow> limit_graph gr' \<Longrightarrow> \<exists>gr. w_graphs w g = Some gr \<and> limit_graph gr \<and> g_self_queue gr' = g_self_queue gr\<close> h by blast
    from lim_invD [OF inv gr(1,2)] obtain q where q: "g_self_queue gr = Some q" "lim_ok P C k w G g q" "waiting_in w g = sq_queued q" by blast
    then show ?thesis
      using gr(3) \<open>\<And>g. going_in w' G g = going_in w G g\<close> \<open>\<And>g n. n \<in> set (waiting_in w g) \<Longrightarrow> ready_in w' G g n\<close>
      by (simp add: lim_ok_def)
  qed
  moreover have "G \<subseteq> dom (w_nodes w')" using sub(1) node by blast
  moreover have "sched_ok w'" using u by (simp add: undisturbed_def)
  ultimately show ?thesis using sub(2) by (simp add: lim_inv_def)
qed

lemma lim_inv_new:
  assumes inv: "lim_inv P C k w G" and none: "w_graphs w g = None" "going_in w G g = {}"
    and q: "g_self_queue gr = Some q" "sq_ok p c k q" "sq_abs p q = (0, [])"
  shows "lim_inv (P(g := p)) (C(g := c)) k (put_graph g gr w) G"
proof -
  note same = going_nodes ready_in_nodes
  have put_graph_nodes: "w_nodes (put_graph g gr w) = w_nodes w" by (simp add: put_graph_def)
  have "lim_ok (P(g := p)) (C(g := c)) k (put_graph g gr w) G g q"
    using q none(2) by (simp add: lim_ok_def same [OF put_graph_nodes] sq_abs_def)
  moreover have "lim_ok (P(g := p)) (C(g := c)) k (put_graph g gr w) G h q'" if "lim_ok P C k w G h q'" "h \<noteq> g" for h q'
    using that by (simp add: lim_ok_def same [OF put_graph_nodes])
  ultimately have "\<exists>q. g_self_queue gr' = Some q \<and> lim_ok (P(g := p)) (C(g := c)) k (put_graph g gr w) G h q"
    if "w_graphs (put_graph g gr w) h = Some gr'" "limit_graph gr'" for h gr'
    using that inv q(1) by (cases "h = g") (auto simp: put_graph_def lim_inv_def, metis)
  moreover have "sched_ok (put_graph g gr w)" using inv by (simp add: lim_inv_def put_graph_def sched_ok_def)
  ultimately show ?thesis using inv by (simp add: lim_inv_def put_graph_nodes)
qed

text \<open>\<open>2 ^ 31\<close> nodes may end before the ring counter of a queue wraps around.\<close>

lemma lstep_inv:
  assumes "lstep s s'" and "lim_inv (places s) (slots s) (2 ^ 31 - ends s) (lim_world s) (going s)" and "ends s' \<le> 2 ^ 31"
  shows "lim_inv (places s') (slots s') (2 ^ 31 - ends s') (lim_world s') (going s')"
  using assms
proof cases
  case (limit p parallel queue_size gr q c g)
  have size: "parallel < 30" "queue_size < 2 ^ 15"
    using limit(2,3) by (auto simp: graph_new_limit_def graph_new_def split: if_splits)
  obtain s0 c0 where n: "sq_new parallel queue_size = Inr s0" "sq_ok (unat parallel) c0 (2 ^ 31 - ends s) s0"
    "sq_abs (unat parallel) s0 = (0, [])"
    using sq_new_ok [OF size(1) limit(5) size(2), of "2 ^ 31 - ends s"] by auto
  then have "q = s0" using limit(2,3) size by (auto simp: graph_new_limit_def)
  moreover have "c0 = c" using n(2) limit(4) \<open>q = s0\<close> by (simp add: sq_ok_def)
  ultimately show ?thesis using lim_inv_new [OF assms(2) limit(6,7,3), of "unat parallel" c] n limit(1) by simp
next
  case (ready n w)
  then show ?thesis using ready_one [OF assms(2), of "{n}" n 0] by (auto simp: spread_def)
next
  case (finish n x g gr ns nx w)
  have "2 ^ 31 - ends s = Suc (2 ^ 31 - ends s')" using assms(3) finish(1) by simp
  then show ?thesis
    using pass_on_lim [of "places s" "slots s" "2 ^ 31 - ends s'" "lim_world s" "going s" n x g gr ns] assms(2) finish by auto
next
  case (other w)
  then show ?thesis using undisturbed_inv [OF assms(2)] by simp
qed

lemma lstep_ends: "lstep s s' \<Longrightarrow> ends s \<le> ends s'"
  by (induction rule: lstep.induct) simp_all

lemma lreach_inv:
  assumes "lreach s" and "ends s \<le> 2 ^ 31"
  shows "lim_inv (places s) (slots s) (2 ^ 31 - ends s) (lim_world s) (going s)"
  using assms
proof (induction rule: lreach.induct)
  case (start s)
  then show ?case by (auto simp: lim_inv_def)
next
  case (more s s')
  then show ?case using lstep_inv lstep_ends [OF more.hyps(2)] by (meson order_trans)
qed

lemma lim_inv_counts:
  assumes inv: "lim_inv P C k w G" and gr: "w_graphs w g = Some gr" "limit_graph gr"
  shows "card (going_in w G g) \<le> P g" and "waiting_in w g \<noteq> [] \<Longrightarrow> card (going_in w G g) = P g"
proof -
  from lim_invD [OF inv gr] obtain q where q: "lim_ok P C k w G g q" "waiting_in w g = sq_queued q" by blast
  then have "sq_ok (P g) (C g) k q" "fst (sq_abs (P g) q) = card (going_in w G g)" by (simp_all add: lim_ok_def)
  then show "card (going_in w G g) \<le> P g" "waiting_in w g \<noteq> [] \<Longrightarrow> card (going_in w G g) = P g"
    using sq.places [of "P g" "C g" k q] sq.waits [of "P g" "C g" k q] q(2) by (auto simp: sq_abs_def)
qed

text \<open>A node that becomes ready runs while its graph has a place, and waits otherwise.\<close>

lemma ready_outcome:
  assumes s: "lreach s" "ends s \<le> 2 ^ 31" and n: "all_ready (lim_world s) (going s) {n}" "w_nodes (lim_world s) n = Some x" "parent_graph x = Some g"
    and gr: "w_graphs (lim_world s) g = Some gr" "limit_graph gr" and room: "room (slots s) (lim_world s) 1"
  shows "\<exists>w. same_shape (lim_world s) w \<and> (\<forall>h. h \<noteq> g \<longrightarrow> waiting_in w h = waiting_in (lim_world s) h)
    \<and> (if card (going_in (lim_world s) (going s) g) < places s g
       then waiting_in w g = waiting_in (lim_world s) g \<and> lreach (s\<lparr>lim_world := w, going := insert n (going s)\<rparr>)
       else waiting_in w g = waiting_in (lim_world s) g @ [n] \<and> lreach (s\<lparr>lim_world := w\<rparr>))"
proof -
  note inv = lreach_inv [OF s]
  obtain w where w: "node_ready n (lim_world s) = Inr w"
    "spread (places s) (slots s) (2 ^ 31 - ends s) (lim_world s) (going s) {n} w"
    using ready_one [OF inv n(1), of n 0] room by auto
  have step: "lreach (s\<lparr>lim_world := w, going := going s \<union> {m \<in> {n}. \<not> queued w m}\<rparr>)"
    by (rule more [OF s(1) lstep.ready [OF n(1) room w(1)]])
  have gw: "grown (lim_world s) {n} w" "same_shape (lim_world s) w"
    and inv': "lim_inv (places s) (slots s) (2 ^ 31 - ends s) w (going s \<union> {m \<in> {n}. \<not> queued w m})"
    using w(2) by (simp_all add: spread_def grown_def)
  have n': "w_nodes w n = Some x" "n \<notin> going s" "finite (going s)" "\<not> queued (lim_world s) n"
    using n inv same_shape_graph(3) [OF gw(2)] by (auto simp: all_ready_def ready_in_def lim_inv_def)
  obtain q where gr': "w_graphs w g = Some (gr\<lparr>g_self_queue := q\<rparr>)" using same_shape_graph(1) [OF gw(2) gr(1)] by blast
  note counts = lim_inv_counts [OF inv' gr'] and own = queued_in [OF inv' n'(1) n(3)]
  have us: "\<exists>us. waiting_in w h = waiting_in (lim_world s) h @ us \<and> set us \<subseteq> {n} \<and> length us \<le> 1" for h
    using gw(1) by (simp add: grown_def)
  have going: "going_in w = going_in (lim_world s)" by (rule going_nodes [OF same_shape_graph(3) [OF gw(2)]])
  have other: "waiting_in w h = waiting_in (lim_world s) h" if "h \<noteq> g" for h
  proof -
    have "n \<notin> set (waiting_in w h)" using waiting_ready [OF inv', of n h] n'(1) n(3) that by (auto simp: ready_in_def)
    moreover obtain us' where "waiting_in w h = waiting_in (lim_world s) h @ us'" "set us' \<subseteq> {n}" using us by blast
    ultimately show ?thesis by (cases us') auto
  qed
  obtain vs where vs: "waiting_in w g = waiting_in (lim_world s) g @ vs" "set vs \<subseteq> {n}" "length vs \<le> 1" using us by blast
  have here: "vs = (if queued w n then [n] else [])"
    using vs n'(4) own by (cases vs) (auto simp: queued_def)
  show ?thesis
  proof (cases "queued w n")
    case True
    then have e: "going s \<union> {m \<in> {n}. \<not> queued w m} = going s" by auto
    then have "card (going_in (lim_world s) (going s) g) = places s g" using counts(2) gr(2) vs(1) here going True by simp
    then show ?thesis using gw(2) other vs(1) here True step [unfolded e] by auto
  next
    case False
    have e: "going s \<union> {m \<in> {n}. \<not> queued w m} = insert n (going s)" using False by auto
    then have "Suc (card (going_in (lim_world s) (going s) g)) \<le> places s g"
      using counts(1) gr(2) going_insert [OF n'(1) n(3) n'(2,3), of g] going by simp
    then show ?thesis using gw(2) other vs(1) here False step [unfolded e] by auto
  qed
qed

text \<open>A graph with one place and room for one waiting node.\<close>

lemma one_place:
  assumes s: "lreach s" and g: "w_graphs (lim_world s) g = None" "going s = {}"
  shows "\<exists>gr. limit_graph gr \<and> waiting_in (put_graph g gr (lim_world s)) g = []
    \<and> lreach (s\<lparr>lim_world := put_graph g gr (lim_world s), places := (places s)(g := 1), slots := (slots s)(g := 1)\<rparr>)"
proof -
  obtain q c where q: "sq_new 1 1 = Inr q" "sq_ok (unat (1 :: u64)) c 0 q" "sq_abs (unat (1 :: u64)) q = (0, [])"
    "unat (1 :: u64) \<le> c" "c < 2 * unat (1 :: u64)"
    using sq_new_ok [of 1 1 0] by auto
  let ?gr = "(graph_new nullptr)\<lparr>limit_graph := True, g_self_queue := Some q\<rparr>"
  have new: "graph_new_limit nullptr 1 1 = Inr ?gr" using q(1) by (simp add: graph_new_limit_def)
  have c: "c = 1" using q(4,5) by simp
  have "fq_limit (sq_limit_queue q) = Some c" using q(2) by (simp add: sq_ok_def)
  then have "lstep s (s\<lparr>lim_world := put_graph g ?gr (lim_world s), places := (places s)(g := unat (1 :: u64)), slots := (slots s)(g := c)\<rparr>)"
    by (intro lstep.limit [OF new]) (use g in \<open>simp_all add: going_in_def\<close>)
  then show ?thesis using more [OF s] q(3) c
    by (intro exI [of _ ?gr]) (simp add: waiting_in_def put_graph_def sq_abs_def)
qed

text \<open>Two such graphs, 1 and 2, with two nodes each; one node of each is on its way.\<close>

definition two_nodes :: "nid \<Rightarrow> node option" where
  "two_nodes = [2 \<mapsto> raw_node\<lparr>n_status := Initing, parent_graph := Some 1\<rparr>, 3 \<mapsto> raw_node\<lparr>n_status := Initing, parent_graph := Some 2\<rparr>,
     4 \<mapsto> raw_node\<lparr>n_status := Initing, parent_graph := Some 2\<rparr>, 5 \<mapsto> raw_node\<lparr>n_status := Initing, parent_graph := Some 1\<rparr>]"

definition two_limits :: "limits \<Rightarrow> bool" where
  "two_limits s \<longleftrightarrow> lreach s \<and> ends s = 0 \<and> w_nodes (lim_world s) = two_nodes \<and> dom (w_graphs (lim_world s)) = {1, 2}
     \<and> (\<forall>gr \<in> ran (w_graphs (lim_world s)). limit_graph gr) \<and> places s 1 = 1 \<and> places s 2 = 1 \<and> slots s 1 = 1 \<and> slots s 2 = 1"

lemma two_limitsD:
  assumes "two_limits s"
  shows "g = 1 \<or> g = 2 \<Longrightarrow> \<exists>gr. w_graphs (lim_world s) g = Some gr \<and> limit_graph gr"
    and "w_graphs (lim_world s) g = Some gr \<Longrightarrow> limit_graph gr \<and> places s g = 1 \<and> slots s g = 1 \<and> (g = 1 \<or> g = 2)"
proof -
  show "g = 1 \<or> g = 2 \<Longrightarrow> \<exists>gr. w_graphs (lim_world s) g = Some gr \<and> limit_graph gr"
    using assms unfolding two_limits_def by (metis domD insertCI ranI)
  show "limit_graph gr \<and> places s g = 1 \<and> slots s g = 1 \<and> (g = 1 \<or> g = 2)" if "w_graphs (lim_world s) g = Some gr"
  proof -
    have "g = 1 \<or> g = 2" using assms that unfolding two_limits_def by blast
    then show ?thesis using assms that by (auto simp: two_limits_def ranI)
  qed
qed

lemma two_limits_new: "\<exists>s. two_limits s \<and> going s = {} \<and> (\<forall>h. waiting_in (lim_world s) h = [])"
proof -
  define s0 where "s0 = \<lparr>lim_world = store (start_sys empty_queue), going = {}, places = \<lambda>_. 0, slots = \<lambda>_. 0, ends = 0\<rparr>"
  have "sched_ok (lim_world s0)"
    using reachable_inv [OF start_reachable] by (simp add: s0_def sys_inv_def exec_inv_def store_ok_def)
  then have s0: "lreach s0" by (intro lreach.start) (simp_all add: s0_def start_sys_def)
  obtain ga where a: "limit_graph ga" "waiting_in (put_graph 1 ga (lim_world s0)) 1 = []"
    "lreach (s0\<lparr>lim_world := put_graph 1 ga (lim_world s0), places := (places s0)(1 := 1), slots := (slots s0)(1 := 1)\<rparr>)" (is "lreach ?s1")
    using one_place [OF s0, of 1] by (auto simp: s0_def start_sys_def)
  obtain gb where b: "limit_graph gb" "waiting_in (put_graph 2 gb (lim_world ?s1)) 2 = []"
    "lreach (?s1\<lparr>lim_world := put_graph 2 gb (lim_world ?s1), places := (places ?s1)(2 := 1), slots := (slots ?s1)(2 := 1)\<rparr>)" (is "lreach ?s2")
    using one_place [OF a(3), of 2] by (auto simp: s0_def start_sys_def put_graph_def)
  let ?w = "(lim_world ?s2)\<lparr>w_nodes := two_nodes\<rparr>"
  have wt: "waiting_in ?w h = []" for h
    using a(2) b(2) by (auto simp: waiting_in_def put_graph_def s0_def start_sys_def split: if_splits)
  have "sched_ok ?w" using \<open>sched_ok (lim_world s0)\<close> by (simp add: sched_ok_def put_graph_def)
  then have "undisturbed (lim_world ?s2) (going ?s2) ?w"
    by (auto simp: undisturbed_def put_graph_def s0_def start_sys_def)
  from more [OF b(3) lstep.other [OF this]] have "two_limits (?s2\<lparr>lim_world := ?w\<rparr>)"
    using a(1) b(1) by (auto simp: two_limits_def put_graph_def s0_def start_sys_def ran_def)
  then show ?thesis using wt by (intro exI [of _ "?s2\<lparr>lim_world := ?w\<rparr>"]) (simp add: s0_def)
qed

lemma two_limits_ready:
  assumes s: "two_limits s" "\<forall>h. waiting_in (lim_world s) h = []"
    and n: "two_nodes n = Some x" "parent_graph x = Some g" "n \<notin> going s"
  shows "\<exists>w. if going_in (lim_world s) (going s) g = {}
       then two_limits (s\<lparr>lim_world := w, going := insert n (going s)\<rparr>) \<and> (\<forall>h. waiting_in w h = [])
       else two_limits (s\<lparr>lim_world := w\<rparr>) \<and> waiting_in w g = [n] \<and> (\<forall>h. h \<noteq> g \<longrightarrow> waiting_in w h = [])"
proof -
  have nodes: "w_nodes (lim_world s) = two_nodes" "lreach s" "ends s = 0" using s(1) by (simp_all add: two_limits_def)
  have x: "n_status x = Initing" "n \<noteq> nullptr" "g = 1 \<or> g = 2"
    using n(1,2) by (auto simp: two_nodes_def split: if_splits)
  obtain gr where gr: "w_graphs (lim_world s) g = Some gr" "limit_graph gr" using two_limitsD(1) [OF s(1) x(3)] by blast
  have one: "places s g = 1" using two_limitsD(2) [OF s(1) gr(1)] by simp
  have "all_ready (lim_world s) (going s) {n}"
    using s(2) n x gr nodes(1) by (auto simp: all_ready_def queued_def ready_in_def)
  moreover have "room (slots s) (lim_world s) 1"
    using s(2) two_limitsD(2) [OF s(1)] by (auto simp: room_def)
  ultimately obtain w where w: "same_shape (lim_world s) w" "\<forall>h. h \<noteq> g \<longrightarrow> waiting_in w h = waiting_in (lim_world s) h"
    "if card (going_in (lim_world s) (going s) g) < 1
       then waiting_in w g = waiting_in (lim_world s) g \<and> lreach (s\<lparr>lim_world := w, going := insert n (going s)\<rparr>)
       else waiting_in w g = waiting_in (lim_world s) g @ [n] \<and> lreach (s\<lparr>lim_world := w\<rparr>)"
    using ready_outcome [OF nodes(2) _ _ _ n(2) gr] n(1) nodes(1,3) one by auto
  have "finite (going_in (lim_world s) (going s) g)"
    using lreach_inv [OF nodes(2)] nodes(3) by (simp add: lim_inv_def going_in_def)
  then have c: "card (going_in (lim_world s) (going s) g) < 1 \<longleftrightarrow> going_in (lim_world s) (going s) g = {}" by auto
  have "limit_graph gr'" if "w_graphs w h = Some gr'" for h gr'
    using same_shape_graph(2) [OF w(1) that] two_limitsD(2) [OF s(1)] by fastforce
  then have "two_limits (s\<lparr>lim_world := w, going := G\<rparr>)" if "lreach (s\<lparr>lim_world := w, going := G\<rparr>)" for G
    using that s(1) same_shape_graph(3,4) [OF w(1)] by (auto simp: two_limits_def ran_def)
  note two = this [of "insert n (going s)"] this [of "going s"]
  show ?thesis
  proof (cases "going_in (lim_world s) (going s) g = {}")
    case True
    then have "waiting_in w h = []" for h using w(2,3) s(2) c by (cases "h = g") auto
    then show ?thesis using True two(1) w(3) c by auto
  next
    case False
    then show ?thesis using two(2) w(2,3) s(2) c by auto
  qed
qed

text \<open>Node 2 holds the place of the first graph and node 3 that of the second; and then node 5 waits for it.\<close>

lemma two_limits_full:
  "\<exists>s. two_limits s \<and> going s = {2, 3} \<and> (\<forall>h. waiting_in (lim_world s) h = [])"
proof -
  obtain s where s: "two_limits s" "going s = {}" "\<forall>h. waiting_in (lim_world s) h = []" using two_limits_new by blast
  have e: "going_in (lim_world s) {} h = {}" for h by (simp add: going_in_def)
  from two_limits_ready [OF s(1,3), of 2 _ 1] obtain w where w: "two_limits (s\<lparr>lim_world := w, going := {2}\<rparr>)" (is "two_limits ?s")
    "\<forall>h. waiting_in w h = []" using s(2) e by (auto simp: two_nodes_def)
  have "going_in w {2} 2 = {}" using w(1) by (auto simp: two_limits_def two_nodes_def going_in_def)
  then obtain w' where "two_limits (s\<lparr>lim_world := w', going := {3, 2}\<rparr>)" "\<forall>h. waiting_in w' h = []"
    using two_limits_ready [OF w(1), of 3 _ 2] w(2) by (auto simp: two_nodes_def)
  then show ?thesis by (intro exI [of _ "s\<lparr>lim_world := w', going := {3, 2}\<rparr>"]) auto
qed


lemma dequeue_others: "graph_try_dequeue g w = Inr (r, w') \<Longrightarrow> h \<noteq> g \<Longrightarrow> w_graphs w' h = w_graphs w h"
  by (auto simp: graph_try_dequeue_def put_graph_def)

section \<open>Properties\<close>





text \<open>C29: the last line of \<open>Graph::finish\<close> goes around the limit of another graph. When a node of a limited graph \<open>a\<close> ends,
  nobody waits in \<open>a\<close>, and the only node that becomes ready belongs to another limited graph \<open>b\<close>, this node is run
  without asking the queue of \<open>b\<close>: when the places of \<open>b\<close> were taken, one node more than that is on its way.\<close>

theorem limit_bypassed:
  assumes "lreach s" and "ends s < 2 ^ 31" and "n \<in> going s" and "w_nodes (lim_world s) n = Some x" "parent_graph x = Some a"
    and "w_graphs (lim_world s) a = Some ga" "limit_graph ga" "waiting_in (lim_world s) a = []"
    and "all_ready (lim_world s) (going s) {m}" and "w_nodes (lim_world s) m = Some y" "parent_graph y = Some b"
    and "w_graphs (lim_world s) b = Some gb" "limit_graph gb" "b \<noteq> a"
    and "card (going_in (lim_world s) (going s) b) = places s b"
  shows "\<exists>w. pass_on a [m] (lim_world s) = Inr (m, w) \<and> w_graphs w b = w_graphs (lim_world s) b
    \<and> card (going_in w (insert m (going s - {n})) b) = Suc (places s b)"
proof -
  have "2 ^ 31 - ends s = Suc (2 ^ 31 - Suc (ends s))" using assms(2) by simp
  with lreach_inv [OF assms(1)] assms(2)
  have inv: "lim_inv (places s) (slots s) (Suc (2 ^ 31 - Suc (ends s))) (lim_world s) (going s)" by simp
  obtain r w where r: "graph_try_dequeue a (lim_world s) = Inr (r, w)" "same_shape (lim_world s) w" "r = None"
    using leave_lim [OF inv assms(3-7)] assms(8) by (auto split: option.splits)
  have "pass_on a [m] (lim_world s) = Inr (m, w)"
    using r(1,3) assms(6,7,10-14) by (simp add: pass_on_def finish_limited_def graph_at_def graph_of_at [OF assms(10-12)])
  moreover have "m \<notin> going s - {n}" using assms(9) by (auto simp: all_ready_def ready_in_def)
  then have "card (going_in w (insert m (going s - {n})) b) = Suc (card (going_in (lim_world s) (going s - {n}) b))"
    using going_insert [OF assms(10,11), of "going s - {n}" b] inv going_nodes [OF same_shape_graph(3) [OF r(2)]]
    by (simp add: lim_inv_def)
  then have "card (going_in w (insert m (going s - {n})) b) = Suc (places s b)"
    using going_card(1) [OF inv assms(3-5), of b] assms(14,15) by simp
  ultimately show ?thesis using dequeue_others [OF r(1) assms(14)] by blast
qed

theorem limit_bypassed_witness:
  "\<exists>s w. two_limits s \<and> going s = {2, 3} \<and> pass_on 1 [4] (lim_world s) = Inr (4, w) \<and> card (going_in w {3, 4} 2) = Suc (places s 2)"
proof -
  obtain s where s: "two_limits s" "going s = {2, 3}" "\<forall>h. waiting_in (lim_world s) h = []" using two_limits_full by blast
  obtain ga gb where gr: "w_graphs (lim_world s) 1 = Some ga" "limit_graph ga" "w_graphs (lim_world s) 2 = Some gb" "limit_graph gb"
    using two_limitsD(1) [OF s(1), of 1] two_limitsD(1) [OF s(1), of 2] by blast
  have nodes: "w_nodes (lim_world s) = two_nodes" "places s 2 = 1" using s(1) by (simp_all add: two_limits_def)
  have n: "two_nodes 2 = Some (raw_node\<lparr>n_status := Initing, parent_graph := Some 1\<rparr>)"
    "two_nodes 4 = Some (raw_node\<lparr>n_status := Initing, parent_graph := Some 2\<rparr>)" by (simp_all add: two_nodes_def)
  have "going_in (lim_world s) (going s) 2 = {3}" using nodes s(2) by (auto simp: going_in_def two_nodes_def)
  moreover have "all_ready (lim_world s) (going s) {4}"
    using s(2,3) gr nodes n by (auto simp: all_ready_def queued_def ready_in_def)
  moreover have "insert 4 (going s - {2}) = {3, 4}" using s(2) by auto
  ultimately obtain w where "pass_on 1 [4] (lim_world s) = Inr (4, w)" "card (going_in w {3, 4} 2) = Suc (places s 2)"
    using limit_bypassed [of s 2 "raw_node\<lparr>n_status := Initing, parent_graph := Some 1\<rparr>" 1 ga 4
      "raw_node\<lparr>n_status := Initing, parent_graph := Some 2\<rparr>" 2 gb] s gr n nodes by (auto simp: two_limits_def)
  then show ?thesis using s by blast
qed

end
