(* ===== verification/Stack_Inv.thy ===== *)
theory Stack_Inv
  imports Executor
begin

text \<open>
  The stacks of src/executor.cpp: every mapping is in the pool of one worker or belongs to one
  context, and the functions of \<open>Executor\<close> keep it so.
\<close>

section \<open>Stacks\<close>

abbreviation th :: "runtime \<Rightarrow> nat \<Rightarrow> thread" where
  "th r i \<equiv> exec (thread_exec_vec r ! i)"

definition pool :: "runtime \<Rightarrow> nat \<Rightarrow> ptr list" where
  "pool r i = lq_contents (stack_pool (th r i))"

datatype place = In_pool nat | In_context ptr

definition holds :: "runtime \<Rightarrow> place \<Rightarrow> ptr \<Rightarrow> bool" where
  "holds r p s \<longleftrightarrow> (case p of
     In_pool i \<Rightarrow> i < length (thread_exec_vec r) \<and> s \<in> set (pool r i)
   | In_context c \<Rightarrow> (\<exists>x. contexts r c = Some x \<and> ec_stack x = s))"

definition stacks_inv :: "runtime \<Rightarrow> bool" where
  "stacks_inv r \<longleftrightarrow>
     (\<forall>i < length (thread_exec_vec r). lq_inv (stack_pool (th r i)) \<and> distinct (pool r i))
     \<and> (\<forall>p p' s. holds r p s \<longrightarrow> holds r p' s \<longrightarrow> p = p')
     \<and> (\<forall>s. (\<exists>p. holds r p s) \<longleftrightarrow> stacks r s \<noteq> None)
     \<and> (\<forall>i s. holds r (In_pool i) s \<longrightarrow> stacks r s = Some COROUTINE_STACK_SIZE)
     \<and> (\<forall>c x. contexts r c = Some x \<longrightarrow> stacks r (ec_stack x) = Some (ec_size x))
     \<and> stacks r nullptr = None"

lemma stacks_invD:
  assumes "stacks_inv r"
  shows "\<And>i. i < length (thread_exec_vec r) \<Longrightarrow> lq_inv (stack_pool (th r i)) \<and> distinct (pool r i)"
    and "\<And>p p' s. holds r p s \<Longrightarrow> holds r p' s \<Longrightarrow> p = p'"
    and "\<And>s. (\<exists>p. holds r p s) \<longleftrightarrow> stacks r s \<noteq> None"
    and "\<And>i s. holds r (In_pool i) s \<Longrightarrow> stacks r s = Some COROUTINE_STACK_SIZE"
    and "\<And>c x. contexts r c = Some x \<Longrightarrow> stacks r (ec_stack x) = Some (ec_size x)"
    and "stacks r nullptr = None"
  using assms unfolding stacks_inv_def by blast+

lemma stacks_invI:
  assumes "\<And>i. i < length (thread_exec_vec r) \<Longrightarrow> lq_inv (stack_pool (th r i)) \<and> distinct (pool r i)"
    and "\<And>p p' s. holds r p s \<Longrightarrow> holds r p' s \<Longrightarrow> p = p'"
    and "\<And>s. (\<exists>p. holds r p s) \<longleftrightarrow> stacks r s \<noteq> None"
    and "\<And>i s. holds r (In_pool i) s \<Longrightarrow> stacks r s = Some COROUTINE_STACK_SIZE"
    and "\<And>c x. contexts r c = Some x \<Longrightarrow> stacks r (ec_stack x) = Some (ec_size x)"
    and "stacks r nullptr = None"
  shows "stacks_inv r"
  unfolding stacks_inv_def using assms by blast

text \<open>The workers' pointers are the same; only pools differ.\<close>

definition same_ptrs :: "runtime \<Rightarrow> runtime \<Rightarrow> bool" where
  "same_ptrs r r' \<longleftrightarrow> length (thread_exec_vec r') = length (thread_exec_vec r)
     \<and> (\<forall>i < length (thread_exec_vec r). context_ptr (th r' i) = context_ptr (th r i)
          \<and> context_pre_ptr (th r' i) = context_pre_ptr (th r i)
          \<and> thread_context (th r' i) = thread_context (th r i))"

lemma thread_at_in [simp]: "i < length (thread_exec_vec r) \<Longrightarrow> thread_at i r = Inr (th r i)"
  by (simp add: thread_at_def)

lemma put_thread_simps [simp]:
  "contexts (put_thread i t r) = contexts r" "stacks (put_thread i t r) = stacks r"
  "length (thread_exec_vec (put_thread i t r)) = length (thread_exec_vec r)"
  "i < length (thread_exec_vec r) \<Longrightarrow> j < length (thread_exec_vec r) \<Longrightarrow>
     th (put_thread i t r) j = (if j = i then t else th r j)"
  by (simp_all add: put_thread_def nth_list_update)

lemma fin_simps [simp]:
  "contexts (put_context c x r) = (contexts r)(c \<mapsto> x)" "stacks (put_context c x r) = stacks r"
  "thread_exec_vec (put_context c x r) = thread_exec_vec r"
  "contexts (free_context c r) = (contexts r)(c := None)" "stacks (free_context c r) = stacks r"
  "thread_exec_vec (free_context c r) = thread_exec_vec r"
  "contexts (malloc_stack m z r) = contexts r" "stacks (malloc_stack m z r) = (stacks r)(m \<mapsto> z)"
  "thread_exec_vec (malloc_stack m z r) = thread_exec_vec r"
  by (simp_all add: put_context_def free_context_def malloc_stack_def)

text \<open>The invariant looks at the pools, the contexts' stacks and the mappings.\<close>

lemma stacks_inv_cong:
  assumes "stacks_inv r" and "stacks r' = stacks r"
    and "length (thread_exec_vec r') = length (thread_exec_vec r)"
    and "\<And>i. i < length (thread_exec_vec r) \<Longrightarrow> stack_pool (th r' i) = stack_pool (th r i)"
    and "\<And>c. map_option (\<lambda>x. (ec_stack x, ec_size x)) (contexts r' c)
           = map_option (\<lambda>x. (ec_stack x, ec_size x)) (contexts r c)"
  shows "stacks_inv r'"
proof -
  have c: "(\<exists>x. contexts r' c = Some x \<and> P (ec_stack x) (ec_size x))
      \<longleftrightarrow> (\<exists>x. contexts r c = Some x \<and> P (ec_stack x) (ec_size x))" for c P
    using assms(5) [of c] by (cases "contexts r c"; cases "contexts r' c") auto
  have h: "holds r' p s \<longleftrightarrow> holds r p s" for p s
    using c [of _ "\<lambda>st z. st = s"] assms(3,4) by (auto simp: holds_def pool_def split: place.split)
  have "stacks r (ec_stack x) = Some (ec_size x)" if "contexts r' c = Some x" for c x
    using that c [of c "\<lambda>st z. st = ec_stack x \<and> z = ec_size x"] stacks_invD(5) [OF assms(1)] by metis
  then show ?thesis
    using assms(1-4) unfolding stacks_inv_def h by (simp add: pool_def)
qed

lemma me_ok:
  assumes "i < length (thread_exec_vec r)" and "length (thread_exec_vec r) < 2 ^ 31"
  shows "safe_get_cur_exec (of_nat i) r = Inr (Some i)"
proof -
  have "to_u64 (of_nat i) = of_nat i" using assms by (intro to_u64_of_nat) simp
  moreover have "sint (of_nat i :: i32) = int i"
  proof -
    have "uint (of_nat i :: i32) = int i" using assms by (simp add: uint_nat unat_of_nat)
    moreover have "signed_take_bit (32 - Suc 0) (int i) = int i"
      using assms by (intro signed_take_bit_int_eq_self) simp_all
    ultimately show ?thesis by (simp add: sint_uint)
  qed
  moreover have "unat (of_nat i :: u64) = i" using assms by (simp add: unat_of_nat)
  moreover have "\<not> (of_nat (length (thread_exec_vec r)) :: u64) < of_nat i"
    using assms by (simp add: word_less_nat_alt unat_of_nat)
  ultimately show ?thesis using assms by (simp add: safe_get_cur_exec_def get_cur_exec_def)
qed

lemma outside: "safe_get_cur_exec (- 1) r = Inr None"
  by (simp add: safe_get_cur_exec_def)


lemma get_stack_eff:
  assumes inv: "stacks_inv r" and i: "i < length (thread_exec_vec r)"
  obtains q where "lq_inv q"
    and "get_stack i r = Inr (case pool r i of [] \<Rightarrow> None | s # ss \<Rightarrow> Some s,
           put_thread i ((th r i)\<lparr>stack_pool := q\<rparr>) r)"
    and "lq_contents q = tl (pool r i)"
proof -
  have q: "lq_inv (stack_pool (th r i))" using stacks_invD(1) [OF inv i] by simp
  obtain q' s where run: "lq_try_dequeue (stack_pool (th r i)) = Inr (q', s)" using lq.deq_returns [OF q] by blast
  have "lq_inv q' \<and> lq_contents q' = tl (pool r i) \<and> s = (case pool r i of [] \<Rightarrow> None | s # ss \<Rightarrow> Some s)"
    using lq.deq_spec [OF q run] by (auto simp: pool_def split: list.splits)
  then show ?thesis using run i by (intro that [of q']) (simp_all add: get_stack_def)
qed

lemma put_stack_eff:
  assumes inv: "stacks_inv r" and i: "i < length (thread_exec_vec r)" and s: "s \<noteq> nullptr"
  obtains q b where "lq_inv q" and "put_stack i s r = Inr (b, put_thread i ((th r i)\<lparr>stack_pool := q\<rparr>) r)"
    and "lq_contents q = pool r i @ (if b then [s] else [])"
proof -
  have q: "lq_inv (stack_pool (th r i))" using stacks_invD(1) [OF inv i] by simp
  obtain q' b where run: "lq_try_enqueue (stack_pool (th r i)) s = Inr (q', b)" "lq_inv q'"
    "spec_op (lq_limit (stack_pool (th r i))) (Enq s) (pool r i) = (lq_contents q', Enqueued b)"
    using lq.enq_spec [OF q s] by (auto simp: pool_def)
  then have "lq_contents q' = pool r i @ (if b then [s] else [])" by (auto split: if_splits)
  then show ?thesis using run i by (intro that [of q' b]) (simp_all add: put_stack_def)
qed

lemma pool_put:
  assumes "i < length (thread_exec_vec r)" and "j < length (thread_exec_vec r)"
  shows "pool (put_thread i t r) j = (if j = i then lq_contents (stack_pool t) else pool r j)"
  using assms by (simp add: pool_def)

lemma pool_simps [simp]:
  "pool (put_context c x r) = pool r" "pool (free_context c r) = pool r" "pool (malloc_stack m z r) = pool r"
  by (simp_all add: pool_def fun_eq_iff)

text \<open>A new coroutine context of worker \<open>i\<close>: its stack comes out of the pool or is new.\<close>

lemma context_new_eff:
  assumes inv: "stacks_inv r" and i: "i < length (thread_exec_vec r)" and len: "length (thread_exec_vec r) < 2 ^ 31"
    and c: "contexts r c = None" and m: "stacks r m = None" "m \<noteq> nullptr"
  shows "\<exists>r' st. context_new (of_nat i) COROUTINE_STACK_SIZE c m r = Inr r' \<and> stacks_inv r' \<and> same_ptrs r r'
    \<and> contexts r' = (contexts r)(c \<mapsto> \<lparr>ec_status = Initing, ec_stack = st, ec_size = COROUTINE_STACK_SIZE\<rparr>)"
proof -
  let ?x = "\<lambda>st. \<lparr>ec_status = Initing, ec_stack = st, ec_size = COROUTINE_STACK_SIZE\<rparr>"
  define r1 where "r1 = r\<lparr>pending_context_num := pending_context_num r + 1\<rparr>"
  have r1: "thread_exec_vec r1 = thread_exec_vec r" "contexts r1 = contexts r" "stacks r1 = stacks r"
    by (simp_all add: r1_def)
  have inv1: "stacks_inv r1" by (rule stacks_inv_cong [OF inv]) (simp_all add: r1)
  have i1: "i < length (thread_exec_vec r1)" using i by (simp add: r1)
  obtain q where q: "lq_inv q" "lq_contents q = tl (pool r1 i)"
    and get: "get_stack i r1 = Inr (case pool r1 i of [] \<Rightarrow> None | s # ss \<Rightarrow> Some s,
         put_thread i ((th r1 i)\<lparr>stack_pool := q\<rparr>) r1)"
    by (rule get_stack_eff [OF inv1 i1])
  let ?r2 = "put_thread i ((th r1 i)\<lparr>stack_pool := q\<rparr>) r1"
  have me: "safe_get_cur_exec (of_nat i) r1 = Inr (Some i)" using me_ok [OF i1] len by (simp add: r1)
  show ?thesis
  proof (cases "pool r1 i")
    case Nil
    define r3 where "r3 = put_context c (?x m) (malloc_stack m COROUTINE_STACK_SIZE ?r2)"
    have run: "context_new (of_nat i) COROUTINE_STACK_SIZE c m r = Inr r3"
      unfolding context_new_def Let_def r1_def [symmetric] by (simp add: me get Nil r3_def)
    have f: "length (thread_exec_vec r3) = length (thread_exec_vec r)" "contexts r3 = (contexts r)(c \<mapsto> ?x m)"
      "stacks r3 = (stacks r)(m \<mapsto> COROUTINE_STACK_SIZE)" "same_ptrs r r3"
      "\<And>j. j < length (thread_exec_vec r) \<Longrightarrow> pool r3 j = pool r1 j"
      "\<And>j. j < length (thread_exec_vec r) \<Longrightarrow> lq_inv (stack_pool (th r3 j))"
      using i i1 q Nil stacks_invD(1) [OF inv] by (auto simp: r3_def r1 same_ptrs_def pool_put pool_def)
    have new: "\<not> holds r1 p m" for p using stacks_invD(3) [OF inv1, of m] m(1) by (auto simp: r1)
    have h: "holds r3 p s \<longleftrightarrow> holds r1 p s \<or> (p = In_context c \<and> s = m)" for p s
      using c by (cases p) (auto simp: holds_def f r1 split: if_splits)
    have "stacks_inv r3"
    proof (rule stacks_invI)
      show "lq_inv (stack_pool (th r3 j)) \<and> distinct (pool r3 j)" if "j < length (thread_exec_vec r3)" for j
        using that stacks_invD(1) [OF inv1, of j] f by (simp add: r1)
      show "p = p'" if "holds r3 p s" "holds r3 p' s" for p p' s
        using that stacks_invD(2) [OF inv1, of p s p'] new unfolding h by auto
      show "(\<exists>p. holds r3 p s) \<longleftrightarrow> stacks r3 s \<noteq> None" for s
        using stacks_invD(3) [OF inv1, of s] unfolding h by (auto simp: f r1)
      show "stacks r3 s = Some COROUTINE_STACK_SIZE" if "holds r3 (In_pool j) s" for j s
        using that stacks_invD(4) [OF inv1, of j s] unfolding h by (simp add: f r1)
      show "stacks r3 (ec_stack x) = Some (ec_size x)" if "contexts r3 d = Some x" for d x
        using that stacks_invD(5) [OF inv1, of d x] m(1) by (auto simp: f r1 split: if_splits)
      show "stacks r3 nullptr = None" using stacks_invD(6) [OF inv] m(2) by (simp add: f)
    qed
    with run f show ?thesis by blast
  next
    case (Cons st ss)
    define r3 where "r3 = put_context c (?x st) ?r2"
    have run: "context_new (of_nat i) COROUTINE_STACK_SIZE c m r = Inr r3"
      unfolding context_new_def Let_def r1_def [symmetric] by (simp add: me get Cons r3_def)
    have d: "distinct (st # ss)" using stacks_invD(1) [OF inv1 i1] Cons by simp
    have p3: "pool r3 j = (if j = i then ss else pool r1 j)" "lq_inv (stack_pool (th r3 j))"
      if "j < length (thread_exec_vec r)" for j
      using that i i1 q Cons stacks_invD(1) [OF inv that] by (simp_all add: r3_def r1 pool_put)
    have f: "length (thread_exec_vec r3) = length (thread_exec_vec r)" "contexts r3 = (contexts r)(c \<mapsto> ?x st)"
      "stacks r3 = stacks r" "same_ptrs r r3"
      using i i1 by (simp_all add: r3_def r1 same_ptrs_def)
    note f = f p3
    have st: "holds r1 (In_pool i) st" using Cons i1 by (simp add: holds_def)
    have only: "p = In_pool i" if "holds r1 p st" for p using stacks_invD(2) [OF inv1 that st] .
    have h: "holds r3 p s \<longleftrightarrow> (if s = st then p = In_context c else holds r1 p s)" for p s
    proof (cases p)
      case (In_pool j)
      have "st \<notin> set (pool r1 j)" if "j < length (thread_exec_vec r)" "j \<noteq> i"
        using only [of "In_pool j"] that by (auto simp: holds_def r1)
      then show ?thesis using In_pool i Cons d f(1) p3(1) [of j] by (cases "j = i") (auto simp: holds_def r1)
    next
      case (In_context e)
      have "ec_stack y \<noteq> st" if "contexts r e = Some y" for y
        using only [of "In_context e"] that by (auto simp: holds_def r1)
      then show ?thesis using In_context c f(2) by (auto simp: holds_def r1)
    qed
    have "stacks_inv r3"
    proof (rule stacks_invI)
      show "lq_inv (stack_pool (th r3 j)) \<and> distinct (pool r3 j)" if "j < length (thread_exec_vec r3)" for j
        using that stacks_invD(1) [OF inv1, of j] f d by (simp add: r1)
      show "p = p'" if "holds r3 p s" "holds r3 p' s" for p p' s
        using that stacks_invD(2) [OF inv1, of p s p'] unfolding h by (auto split: if_splits)
      show "(\<exists>p. holds r3 p s) \<longleftrightarrow> stacks r3 s \<noteq> None" for s
        using stacks_invD(3) [OF inv1, of s] st unfolding h by (auto simp: f r1)
      show "stacks r3 s = Some COROUTINE_STACK_SIZE" if "holds r3 (In_pool j) s" for j s
        using that stacks_invD(4) [OF inv1, of j s] unfolding h by (simp add: f r1 split: if_splits)
      show "stacks r3 (ec_stack x) = Some (ec_size x)" if "contexts r3 d = Some x" for d x
        using that stacks_invD(4) [OF inv1 st] stacks_invD(5) [OF inv1, of d x] by (auto simp: f r1 split: if_splits)
      show "stacks r3 nullptr = None" using stacks_invD(6) [OF inv] by (simp add: f)
    qed
    with run f show ?thesis by blast
  qed
qed

text \<open>A worker deletes a coroutine context: its stack goes to the worker's pool, or is unmapped.\<close>

lemma context_delete_eff:
  assumes inv: "stacks_inv r" and i: "i < length (thread_exec_vec r)" and len: "length (thread_exec_vec r) < 2 ^ 31"
    and c: "contexts r c = Some x" and sz: "ec_size x = COROUTINE_STACK_SIZE"
  shows "\<exists>r'. context_delete (of_nat i) c r = Inr r' \<and> stacks_inv r' \<and> same_ptrs r r'
    \<and> contexts r' = (contexts r)(c := None)"
proof -
  let ?s = "ec_stack x"
  define r1 where "r1 = r\<lparr>pending_context_num := pending_context_num r - 1\<rparr>"
  have r1: "thread_exec_vec r1 = thread_exec_vec r" "contexts r1 = contexts r" "stacks r1 = stacks r"
    by (simp_all add: r1_def)
  have inv1: "stacks_inv r1" by (rule stacks_inv_cong [OF inv]) (simp_all add: r1)
  have i1: "i < length (thread_exec_vec r1)" using i by (simp add: r1)
  have at: "context_at c r = Inr x" using c by (simp add: context_at_def)
  have mapped: "stacks r ?s = Some COROUTINE_STACK_SIZE" using stacks_invD(5) [OF inv c] sz by simp
  then have "?s \<noteq> nullptr" using stacks_invD(6) [OF inv] by (metis option.distinct(1))
  then obtain q b where q: "lq_inv q" "lq_contents q = pool r1 i @ (if b then [?s] else [])"
    and put: "put_stack i ?s r1 = Inr (b, put_thread i ((th r1 i)\<lparr>stack_pool := q\<rparr>) r1)"
    by (rule put_stack_eff [OF inv1 i1])
  let ?r2 = "put_thread i ((th r1 i)\<lparr>stack_pool := q\<rparr>) r1"
  have me: "safe_get_cur_exec (of_nat i) r1 = Inr (Some i)" using me_ok [OF i1] len by (simp add: r1)
  define r3 where "r3 = free_context c (if b then ?r2 else ?r2\<lparr>stacks := (stacks r)(?s := None)\<rparr>)"
  have run: "context_delete (of_nat i) c r = Inr r3"
    unfolding context_delete_def Let_def r1_def [symmetric]
    using mapped by (simp add: at me put r3_def free_stack_def r1 sz)
  have own: "holds r1 (In_context c) ?s" using c by (simp add: holds_def r1)
  have only: "p = In_context c" if "holds r1 p ?s" for p using stacks_invD(2) [OF inv1 that own] .
  have fresh: "?s \<notin> set (pool r1 i)" using only [of "In_pool i"] i1 by (auto simp: holds_def)
  have p3: "pool r3 j = (if j = i \<and> b then pool r1 i @ [?s] else pool r1 j)" "lq_inv (stack_pool (th r3 j))"
    if "j < length (thread_exec_vec r)" for j
  proof -
    have "pool r3 j = pool ?r2 j" "th r3 j = th ?r2 j" by (simp_all add: r3_def pool_def)
    then show "pool r3 j = (if j = i \<and> b then pool r1 i @ [?s] else pool r1 j)" "lq_inv (stack_pool (th r3 j))"
      using that i i1 q stacks_invD(1) [OF inv that] by (simp_all add: r1 pool_put)
  qed
  have f: "length (thread_exec_vec r3) = length (thread_exec_vec r)" "contexts r3 = (contexts r)(c := None)"
    "stacks r3 = (if b then stacks r else (stacks r)(?s := None))" "same_ptrs r r3"
    using i i1 by (simp_all add: r3_def r1 same_ptrs_def)
  note f = f p3
  have h: "holds r3 p s \<longleftrightarrow> (if s = ?s then b \<and> p = In_pool i else holds r1 p s)" for p s
  proof (cases p)
    case (In_pool j)
    have "?s \<notin> set (pool r1 j)" if "j < length (thread_exec_vec r)"
      using only [of "In_pool j"] that by (auto simp: holds_def r1)
    then show ?thesis using In_pool i f(1) p3(1) [of j] by (cases "j = i") (auto simp: holds_def r1)
  next
    case (In_context e)
    have "ec_stack y \<noteq> ?s" if "contexts r e = Some y" "e \<noteq> c" for y
      using only [of "In_context e"] that by (auto simp: holds_def r1)
    then show ?thesis using In_context c f(2) by (auto simp: holds_def r1)
  qed
  have "stacks_inv r3"
  proof (rule stacks_invI)
    show "lq_inv (stack_pool (th r3 j)) \<and> distinct (pool r3 j)" if "j < length (thread_exec_vec r3)" for j
      using that stacks_invD(1) [OF inv1, of j] stacks_invD(1) [OF inv1 i1] f fresh by (auto simp: r1)
    show "p = p'" if "holds r3 p s" "holds r3 p' s" for p p' s
      using that stacks_invD(2) [OF inv1, of p s p'] unfolding h by (auto split: if_splits)
    show "(\<exists>p. holds r3 p s) \<longleftrightarrow> stacks r3 s \<noteq> None" for s
      using stacks_invD(3) [OF inv1, of s] mapped unfolding h by (auto simp: f r1)
    show "stacks r3 s = Some COROUTINE_STACK_SIZE" if "holds r3 (In_pool j) s" for j s
      using that stacks_invD(4) [OF inv1, of j s] mapped unfolding h by (auto simp: f r1 split: if_splits)
    show "stacks r3 (ec_stack y) = Some (ec_size y)" if y: "contexts r3 d = Some y" for d y
    proof -
      have yd: "contexts r d = Some y" "d \<noteq> c" using y by (auto simp: f split: if_splits)
      then have "ec_stack y \<noteq> ?s" using only [of "In_context d"] by (auto simp: holds_def r1)
      then show ?thesis using stacks_invD(5) [OF inv yd(1)] by (simp add: f)
    qed
    show "stacks r3 nullptr = None" using stacks_invD(6) [OF inv] by (simp add: f)
  qed
  with run f show ?thesis by blast
qed


lemma context_status_eff:
  assumes "stacks_inv r" and "contexts r c = Some x"
  shows "context_set_status c st r = Inr (put_context c (x\<lparr>ec_status := st\<rparr>) r)
    \<and> stacks_inv (put_context c (x\<lparr>ec_status := st\<rparr>) r)"
  using assms(2) by (auto simp: context_set_status_def context_at_def intro: stacks_inv_cong [OF assms(1)])

text \<open>A change of the pointers of a worker.\<close>

lemma put_thread_inv:
  assumes "stacks_inv r" and "i < length (thread_exec_vec r)" and "stack_pool t = stack_pool (th r i)"
  shows "stacks_inv (put_thread i t r)"
  by (rule stacks_inv_cong [OF assms(1)]) (use assms(2,3) in auto)

subsection \<open>A new worker\<close>

lemma fill_pool_eff:
  assumes "lq_inv q" and "lq_limit q = Some k" and "length (lq_contents q) + length ms \<le> k"
    and "nullptr \<notin> set ms"
  shows "\<exists>q' r'. fill_pool ms (q, r) = Inr (q', r') \<and> lq_inv q' \<and> lq_contents q' = lq_contents q @ ms
    \<and> contexts r' = contexts r \<and> thread_exec_vec r' = thread_exec_vec r
    \<and> stacks r' = (\<lambda>s. if s \<in> set ms then Some COROUTINE_STACK_SIZE else stacks r s)"
  using assms
proof (induction ms arbitrary: q r)
  case (Cons m ms)
  have room: "has_room (lq_limit q) (lq_contents q)" using Cons.prems(2,3) by (simp add: has_room_def)
  have m: "m \<noteq> nullptr" using Cons.prems(4) by simp
  obtain q1 where q1: "lq_try_enqueue q m = Inr (q1, True)" "lq_inv q1" "lq_contents q1 = lq_contents q @ [m]"
    "lq_limit q1 = lq_limit q" using lq.enq_room [OF Cons.prems(1) m room] by blast
  let ?r1 = "malloc_stack m COROUTINE_STACK_SIZE r"
  obtain q' r' where r': "fill_pool ms (q1, ?r1) = Inr (q', r')" "lq_inv q'" "lq_contents q' = lq_contents q1 @ ms"
    "contexts r' = contexts ?r1" "thread_exec_vec r' = thread_exec_vec ?r1"
    "stacks r' = (\<lambda>s. if s \<in> set ms then Some COROUTINE_STACK_SIZE else stacks ?r1 s)"
    using Cons.IH [OF q1(2), of ?r1] q1(3,4) Cons.prems(2-4) by auto
  then show ?case using q1 by (auto simp: fun_eq_iff)
qed (simp add: fun_eq_iff)

lemma thread_new_eff:
  assumes "ms \<noteq> []" and "length ms \<le> 2 ^ 30" and "nullptr \<notin> set ms"
  shows "\<exists>t r'. thread_new ms r = Inr (t, r') \<and> lq_inv (stack_pool t) \<and> lq_contents (stack_pool t) = ms
    \<and> contexts r' = contexts r \<and> thread_exec_vec r' = thread_exec_vec r
    \<and> stacks r' = (\<lambda>s. if s \<in> set ms then Some COROUTINE_STACK_SIZE else stacks r s)"
proof -
  have u: "unat (of_nat (length ms) :: u64) = length ms" using assms(2) by (simp add: unat_of_nat)
  have "0 < unat (of_nat (length ms) :: u64)" "unat (of_nat (length ms) :: u64) \<le> 2 ^ 30"
    using assms(1,2) unfolding u by auto
  then obtain q k where q: "lq_new (of_nat (length ms)) = Inr q" "lq_inv q" "lq_contents q = []"
    "lq_limit q = Some k" "length ms \<le> k" unfolding u using lq_new_inv [of "of_nat (length ms)"] u by metis
  obtain q' r' where r': "fill_pool ms (q, r) = Inr (q', r')" "lq_inv q'" "lq_contents q' = ms"
    "contexts r' = contexts r" "thread_exec_vec r' = thread_exec_vec r"
    "stacks r' = (\<lambda>s. if s \<in> set ms then Some COROUTINE_STACK_SIZE else stacks r s)"
    using fill_pool_eff [OF q(2,4) _ assms(3), of r] q(3,5) by auto
  show ?thesis unfolding thread_new_def using q(1) r' by simp
qed

text \<open>Fresh addresses: what \<open>new\<close> and \<open>mmap\<close> promise.\<close>

definition fresh_stacks :: "ptr list \<Rightarrow> runtime \<Rightarrow> bool" where
  "fresh_stacks ms r \<longleftrightarrow> distinct ms \<and> nullptr \<notin> set ms \<and> (\<forall>m \<in> set ms. stacks r m = None)"

definition fresh_contexts :: "ptr list \<Rightarrow> runtime \<Rightarrow> bool" where
  "fresh_contexts cs r \<longleftrightarrow> distinct cs \<and> nullptr \<notin> set cs \<and> (\<forall>c \<in> set cs. contexts r c = None)"

lemma spawn_eff:
  assumes inv: "stacks_inv r" and len: "length (thread_exec_vec r) < 2 ^ 31 - 1"
    and ms: "ms \<noteq> []" "length ms \<le> 2 ^ 30" and fs: "fresh_stacks (m1 # m2 # ms) r"
    and fc: "fresh_contexts [tc, c] r"
  defines "n \<equiv> length (thread_exec_vec r)"
  shows "\<exists>t r1 r2 st. thread_new ms r = Inr (t, r1) \<and> routine t tc m1 c m2 r1 = Inr r2 \<and> stacks_inv r2
    \<and> length (thread_exec_vec r2) = Suc n
    \<and> (\<forall>j < n. context_ptr (th r2 j) = context_ptr (th r j)
         \<and> context_pre_ptr (th r2 j) = context_pre_ptr (th r j)
         \<and> thread_context (th r2 j) = thread_context (th r j))
    \<and> context_ptr (th r2 n) = c \<and> context_pre_ptr (th r2 n) = tc \<and> thread_context (th r2 n) = tc
    \<and> contexts r2 = (contexts r)(tc \<mapsto> \<lparr>ec_status = Ready, ec_stack = m1, ec_size = 1\<rparr>,
         c \<mapsto> \<lparr>ec_status = Initing, ec_stack = st, ec_size = COROUTINE_STACK_SIZE\<rparr>)"
proof -
  have nz: "nullptr \<notin> set ms" using fs by (auto simp: fresh_stacks_def)
  obtain t r1 where t: "thread_new ms r = Inr (t, r1)" "lq_inv (stack_pool t)" "lq_contents (stack_pool t) = ms"
    "contexts r1 = contexts r" "thread_exec_vec r1 = thread_exec_vec r"
    "stacks r1 = (\<lambda>s. if s \<in> set ms then Some COROUTINE_STACK_SIZE else stacks r s)"
    using thread_new_eff [OF ms nz] by blast
  have one: "(1 :: i32) \<noteq> COROUTINE_STACK_SIZE" by (simp add: COROUTINE_STACK_SIZE_def)
  define ra where "ra = put_context tc \<lparr>ec_status = Initing, ec_stack = m1, ec_size = 1\<rparr>
    (malloc_stack m1 1 (r1\<lparr>pending_context_num := pending_context_num r1 + 1\<rparr>))"
  have new: "context_new (of_nat n) 1 tc m1 r1 = Inr ra"
    using one by (simp add: context_new_def Let_def ra_def)
  define rb where "rb = ra\<lparr>thread_exec_vec := thread_exec_vec ra
    @ [\<lparr>exec = t\<lparr>thread_context := tc\<rparr>, current_task = nullptr\<rparr>]\<rparr>"
  define rc where "rc = put_context tc \<lparr>ec_status = Ready, ec_stack = m1, ec_size = 1\<rparr> rb"
  have vec: "thread_exec_vec rc = thread_exec_vec r @ [\<lparr>exec = t\<lparr>thread_context := tc\<rparr>, current_task = nullptr\<rparr>]"
    by (simp add: rc_def rb_def ra_def t)
  have con: "contexts rc = (contexts r)(tc \<mapsto> \<lparr>ec_status = Ready, ec_stack = m1, ec_size = 1\<rparr>)"
    by (simp add: rc_def rb_def ra_def t)
  have stk: "stacks rc = (\<lambda>s. if s = m1 then Some 1 else if s \<in> set ms then Some COROUTINE_STACK_SIZE else stacks r s)"
    by (simp add: rc_def rb_def ra_def t fun_eq_iff)
  have status: "context_set_status tc Ready rb = Inr rc"
    by (simp add: context_set_status_def context_at_def rc_def rb_def ra_def)
  have thn: "th rc n = t\<lparr>thread_context := tc\<rparr>" and tho: "j < n \<Longrightarrow> th rc j = th r j" for j
    by (simp_all add: vec n_def nth_append)
  have pn: "pool rc n = ms" and po: "j < n \<Longrightarrow> pool rc j = pool r j" for j
    using t(3) thn tho by (simp_all add: pool_def)
  have lenc: "length (thread_exec_vec rc) = Suc n" by (simp add: vec n_def)
  have free: "m1 \<notin> set ms" "distinct ms" "stacks r m1 = None" "m1 \<noteq> nullptr" "\<And>m. m \<in> set ms \<Longrightarrow> stacks r m = None"
    using fs by (auto simp: fresh_stacks_def)
  have none: "\<not> holds r p s" if "stacks r s = None" for p s using stacks_invD(3) [OF inv, of s] that by blast
  have tcn: "contexts r tc = None" "contexts r c = None" "tc \<noteq> c" using fc by (auto simp: fresh_contexts_def)
  have h: "holds rc p s \<longleftrightarrow> holds r p s \<or> (p = In_pool n \<and> s \<in> set ms) \<or> (p = In_context tc \<and> s = m1)" for p s
  proof (cases p)
    case (In_pool j)
    show ?thesis using In_pool pn po [of j] lenc
      by (cases "j < n"; cases "j = n") (auto simp: holds_def n_def)
  next
    case (In_context d)
    then show ?thesis using tcn by (auto simp: holds_def con)
  qed
  have invc: "stacks_inv rc"
  proof (rule stacks_invI)
    show "lq_inv (stack_pool (th rc j)) \<and> distinct (pool rc j)" if "j < length (thread_exec_vec rc)" for j
      using that stacks_invD(1) [OF inv, of j] tho [of j] po [of j] thn pn t(2) free(2) lenc
      by (cases "j = n") (auto simp: n_def)
    show "p = p'" if "holds rc p s" "holds rc p' s" for p p' s
      using that stacks_invD(2) [OF inv, of p s p'] none free unfolding h by metis
    show "(\<exists>p. holds rc p s) \<longleftrightarrow> stacks rc s \<noteq> None" for s
      using stacks_invD(3) [OF inv, of s] unfolding h by (auto simp: stk)
    show "stacks rc s = Some COROUTINE_STACK_SIZE" if "holds rc (In_pool j) s" for j s
      using that stacks_invD(4) [OF inv, of j s] none free unfolding h by (auto simp: stk)
    show "stacks rc (ec_stack y) = Some (ec_size y)" if "contexts rc d = Some y" for d y
      using that stacks_invD(5) [OF inv, of d y] free by (auto simp: stk con split: if_splits)
    show "stacks rc nullptr = None" using stacks_invD(6) [OF inv] free nz by (auto simp: stk)
  qed
  define rd where "rd = put_thread n ((th rc n)\<lparr>context_pre_ptr := tc\<rparr>) rc"
  have nn: "n < length (thread_exec_vec rc)" using lenc by simp
  have invd: "stacks_inv rd" unfolding rd_def by (rule put_thread_inv [OF invc nn]) simp
  have m2: "stacks rd m2 = None" "m2 \<noteq> nullptr" and cn: "contexts rd c = None"
    using fs tcn by (auto simp: rd_def stk con fresh_stacks_def)
  have nd: "n < length (thread_exec_vec rd)" "length (thread_exec_vec rd) < 2 ^ 31"
    using nn lenc len by (simp_all add: rd_def n_def)
  obtain re st where re: "context_new (of_nat n) COROUTINE_STACK_SIZE c m2 rd = Inr re" "stacks_inv re" "same_ptrs rd re"
    "contexts re = (contexts rd)(c \<mapsto> \<lparr>ec_status = Initing, ec_stack = st, ec_size = COROUTINE_STACK_SIZE\<rparr>)"
    using context_new_eff [OF invd nd cn m2] by blast
  have lene: "length (thread_exec_vec re) = Suc n" using re(3) lenc by (simp add: same_ptrs_def rd_def)
  let ?rf = "put_thread n ((th re n)\<lparr>context_ptr := c\<rparr>) re"
  have swap: "swap_new_context (of_nat n) n tc c m2 rc = Inr ?rf"
    unfolding swap_new_context_def Let_def using nn re(1) lene by (simp add: rd_def)
  have run: "routine t tc m1 c m2 r1 = Inr ?rf"
    unfolding routine_def Let_def using new status swap by (simp add: t(5) n_def [symmetric] rb_def)
  have ptr: "context_ptr (th re j) = context_ptr (th rd j) \<and> context_pre_ptr (th re j) = context_pre_ptr (th rd j)
      \<and> thread_context (th re j) = thread_context (th rd j)" if "j < Suc n" for j
    using re(3) that lenc by (simp add: same_ptrs_def rd_def)
  have "stacks_inv ?rf" by (rule put_thread_inv [OF re(2)]) (simp_all add: lene)
  moreover have "\<forall>j < n. context_ptr (th ?rf j) = context_ptr (th r j)
      \<and> context_pre_ptr (th ?rf j) = context_pre_ptr (th r j) \<and> thread_context (th ?rf j) = thread_context (th r j)"
    using ptr tho nn lene by (simp add: rd_def)
  moreover have "context_ptr (th ?rf n) = c \<and> context_pre_ptr (th ?rf n) = tc \<and> thread_context (th ?rf n) = tc"
    using ptr [of n] lene nn thn by (simp add: rd_def)
  moreover have "contexts ?rf = (contexts r)(tc \<mapsto> \<lparr>ec_status = Ready, ec_stack = m1, ec_size = 1\<rparr>,
         c \<mapsto> \<lparr>ec_status = Initing, ec_stack = st, ec_size = COROUTINE_STACK_SIZE\<rparr>)"
    using re(4) con by (simp add: rd_def)
  moreover have "length (thread_exec_vec ?rf) = Suc n" using lene by simp
  ultimately show ?thesis using t(1) run by blast
qed

end
