(* ===== verification/Coroutine.thy ===== *)
theory Coroutine
  imports Stack_Inv
begin

text \<open>
  The life of contexts while workers block in tasks, take tasks over from each other and end
  (src/schedule.cpp, src/aspect.cpp, src/executor.cpp): every place a context can be in, and that
  it is in one place at a time.
\<close>

section \<open>The protocol of the switches\<close>

text \<open>Where the code of a worker is: on a context it has just switched to, in its loop or in a
  task, in a task that has been resumed and is about to delete the context it came from, at the
  end of \<open>jump_in_schedule\<close>.\<close>

datatype phase = Switched | Scheduling | Resumed | Ended

text \<open>\<open>waiting\<close> are the contexts of blocked tasks, each known to one \<open>BackNode\<close> that has not run
  yet (\<open>BackNode\<close>s are nodes: each runs once).\<close>

record coroutines =
  rt :: runtime
  phase :: "nat \<Rightarrow> phase"
  waiting :: "ptr set"

definition max_workers :: nat where
  "max_workers = 2 ^ 31 - 1"

text \<open>Everything else the program does changes no context and no stack: \<open>other\<close>.\<close>

definition same_contexts :: "runtime \<Rightarrow> runtime \<Rightarrow> bool" where
  "same_contexts r r' \<longleftrightarrow> contexts r' = contexts r \<and> stacks r' = stacks r
     \<and> map exec (thread_exec_vec r') = map exec (thread_exec_vec r)"

inductive cstep :: "coroutines \<Rightarrow> coroutines \<Rightarrow> bool" where
  spawn: "length (thread_exec_vec (rt s)) < max_workers \<Longrightarrow> ms \<noteq> [] \<Longrightarrow> length ms \<le> 2 ^ 30 \<Longrightarrow>
    fresh_stacks (m1 # m2 # ms) (rt s) \<Longrightarrow> fresh_contexts [tc, c] (rt s) \<Longrightarrow>
    thread_new ms (rt s) = Inr (t, r1) \<Longrightarrow> routine t tc m1 c m2 r1 = Inr r2 \<Longrightarrow>
    cstep s (s\<lparr>rt := r2, phase := (phase s)(length (thread_exec_vec (rt s)) := Switched)\<rparr>)"
| settle: "i < length (thread_exec_vec (rt s)) \<Longrightarrow> phase s i = Switched \<Longrightarrow>
    change_context_status i (rt s) = Inr r \<Longrightarrow>
    cstep s (s\<lparr>rt := r, phase := (phase s)(i := Scheduling)\<rparr>)"
| block: "i < length (thread_exec_vec (rt s)) \<Longrightarrow> phase s i = Scheduling \<Longrightarrow>
    fresh_stacks [m] (rt s) \<Longrightarrow> fresh_contexts [c] (rt s) \<Longrightarrow>
    swap_new_context (of_nat i) i (context_ptr (th (rt s) i)) c m (rt s) = Inr r \<Longrightarrow>
    cstep s (s\<lparr>rt := r, phase := (phase s)(i := Switched),
               waiting := insert (context_ptr (th (rt s) i)) (waiting s)\<rparr>)"
| resume: "i < length (thread_exec_vec (rt s)) \<Longrightarrow> phase s i = Scheduling \<Longrightarrow> c \<in> waiting s \<Longrightarrow>
    back_switch i task c (rt s) = Inr r \<Longrightarrow>
    cstep s (s\<lparr>rt := r, phase := (phase s)(i := Resumed), waiting := waiting s - {c}\<rparr>)"
| drop: "i < length (thread_exec_vec (rt s)) \<Longrightarrow> phase s i = Resumed \<Longrightarrow>
    drop_pre (of_nat i) i (rt s) = Inr r \<Longrightarrow>
    cstep s (s\<lparr>rt := r, phase := (phase s)(i := Scheduling)\<rparr>)"
| leave: "i < length (thread_exec_vec (rt s)) \<Longrightarrow> phase s i = Scheduling \<Longrightarrow>
    leave_schedule i (rt s) = Inr r \<Longrightarrow>
    cstep s (s\<lparr>rt := r, phase := (phase s)(i := Ended)\<rparr>)"
| other: "same_contexts (rt s) r \<Longrightarrow> cstep s (s\<lparr>rt := r\<rparr>)"

definition no_workers :: "coroutines \<Rightarrow> bool" where
  "no_workers s \<longleftrightarrow> contexts (rt s) = Map.empty \<and> stacks (rt s) = Map.empty
     \<and> thread_exec_vec (rt s) = [] \<and> waiting s = {}"

inductive creach :: "coroutines \<Rightarrow> bool" where
  start: "no_workers s \<Longrightarrow> creach s"
| more: "creach s \<Longrightarrow> cstep s s' \<Longrightarrow> creach s'"

subsection \<open>Where a context can be\<close>

datatype role = Current nat | Left_by nat | Home nat | Waits

definition plays :: "coroutines \<Rightarrow> role \<Rightarrow> ptr \<Rightarrow> bool" where
  "plays s p c \<longleftrightarrow> (case p of
     Current i \<Rightarrow> i < length (thread_exec_vec (rt s)) \<and> context_ptr (th (rt s) i) = c
   | Left_by i \<Rightarrow> i < length (thread_exec_vec (rt s)) \<and> phase s i \<in> {Resumed, Ended}
       \<and> context_pre_ptr (th (rt s) i) = c
   | Home i \<Rightarrow> i < length (thread_exec_vec (rt s)) \<and> phase s i \<noteq> Ended
       \<and> thread_context (th (rt s) i) = c
   | Waits \<Rightarrow> c \<in> waiting s)"

definition status_of :: "runtime \<Rightarrow> ptr \<Rightarrow> RunningStatus option" where
  "status_of r c = map_option ec_status (contexts r c)"

text \<open>What a worker's pointers and the status of its contexts are in each phase.\<close>

definition worker_ok :: "coroutines \<Rightarrow> nat \<Rightarrow> bool" where
  "worker_ok s i \<longleftrightarrow> (let t = th (rt s) i; st = status_of (rt s) in
     case phase s i of
       Switched \<Rightarrow> context_pre_ptr t \<noteq> nullptr
         \<and> (context_pre_ptr t \<in> waiting s \<or> context_pre_ptr t = thread_context t)
         \<and> st (context_pre_ptr t) \<noteq> Some Yield
     | Scheduling \<Rightarrow> context_pre_ptr t = nullptr \<and> st (context_ptr t) = Some Running
     | Resumed \<Rightarrow> context_pre_ptr t \<noteq> nullptr \<and> st (context_ptr t) = Some Running
     | Ended \<Rightarrow> context_ptr t = thread_context t \<and> context_pre_ptr t \<noteq> nullptr)"

definition sizes_ok :: "coroutines \<Rightarrow> bool" where
  "sizes_ok s \<longleftrightarrow> (\<forall>c x. contexts (rt s) c = Some x \<longrightarrow> ec_size x = COROUTINE_STACK_SIZE
     \<or> (\<exists>i < length (thread_exec_vec (rt s)). thread_context (th (rt s) i) = c))"

definition left_once :: "coroutines \<Rightarrow> bool" where
  "left_once s \<longleftrightarrow> (\<forall>i < length (thread_exec_vec (rt s)). \<forall>j < length (thread_exec_vec (rt s)).
     phase s i = Switched \<longrightarrow> phase s j = Switched \<longrightarrow>
     context_pre_ptr (th (rt s) i) = context_pre_ptr (th (rt s) j) \<longrightarrow> i = j)"

definition co_inv :: "coroutines \<Rightarrow> bool" where
  "co_inv s \<longleftrightarrow> stacks_inv (rt s) \<and> length (thread_exec_vec (rt s)) \<le> max_workers
     \<and> (\<forall>p p' c. plays s p c \<longrightarrow> plays s p' c \<longrightarrow> p = p')
     \<and> (\<forall>c. (\<exists>p. plays s p c) \<longleftrightarrow> contexts (rt s) c \<noteq> None)
     \<and> contexts (rt s) nullptr = None
     \<and> (\<forall>i < length (thread_exec_vec (rt s)). worker_ok s i) \<and> sizes_ok s \<and> left_once s"

lemma co_invD:
  assumes "co_inv s"
  shows "stacks_inv (rt s)" "length (thread_exec_vec (rt s)) \<le> max_workers"
    "\<And>p p' c. plays s p c \<Longrightarrow> plays s p' c \<Longrightarrow> p = p'"
    "\<And>p c. plays s p c \<Longrightarrow> \<exists>x. contexts (rt s) c = Some x"
    "\<And>c x. contexts (rt s) c = Some x \<Longrightarrow> \<exists>p. plays s p c"
    "contexts (rt s) nullptr = None"
    "\<And>i. i < length (thread_exec_vec (rt s)) \<Longrightarrow> worker_ok s i"
    "\<And>c x. contexts (rt s) c = Some x \<Longrightarrow> ec_size x = COROUTINE_STACK_SIZE
       \<or> (\<exists>i < length (thread_exec_vec (rt s)). thread_context (th (rt s) i) = c)"
    "\<And>i j. i < length (thread_exec_vec (rt s)) \<Longrightarrow> j < length (thread_exec_vec (rt s)) \<Longrightarrow>
       phase s i = Switched \<Longrightarrow> phase s j = Switched \<Longrightarrow>
       context_pre_ptr (th (rt s) i) = context_pre_ptr (th (rt s) j) \<Longrightarrow> i = j"
  using assms unfolding co_inv_def sizes_ok_def left_once_def by blast+

text \<open>The invariant of a state whose roles are those of another state but for the contexts
  named.\<close>

lemma co_invI:
  assumes "stacks_inv (rt s)" "length (thread_exec_vec (rt s)) \<le> max_workers"
    "\<And>p p' c. plays s p c \<Longrightarrow> plays s p' c \<Longrightarrow> p = p'"
    "\<And>c. (\<exists>p. plays s p c) \<longleftrightarrow> contexts (rt s) c \<noteq> None"
    "contexts (rt s) nullptr = None"
    "\<And>i. i < length (thread_exec_vec (rt s)) \<Longrightarrow> worker_ok s i"
    "\<And>c x. contexts (rt s) c = Some x \<Longrightarrow> ec_size x = COROUTINE_STACK_SIZE
       \<or> (\<exists>i < length (thread_exec_vec (rt s)). thread_context (th (rt s) i) = c)"
    "\<And>i j. i < length (thread_exec_vec (rt s)) \<Longrightarrow> j < length (thread_exec_vec (rt s)) \<Longrightarrow>
       phase s i = Switched \<Longrightarrow> phase s j = Switched \<Longrightarrow>
       context_pre_ptr (th (rt s) i) = context_pre_ptr (th (rt s) j) \<Longrightarrow> i = j"
  shows "co_inv s"
  unfolding co_inv_def sizes_ok_def left_once_def using assms by blast


text \<open>The contexts a worker's pointers lead to, and that they differ from those of others.\<close>

lemma plays_simps:
  "plays s (Current i) c \<longleftrightarrow> i < length (thread_exec_vec (rt s)) \<and> context_ptr (th (rt s) i) = c"
  "plays s (Left_by i) c \<longleftrightarrow> i < length (thread_exec_vec (rt s)) \<and> phase s i \<in> {Resumed, Ended}
     \<and> context_pre_ptr (th (rt s) i) = c"
  "plays s (Home i) c \<longleftrightarrow> i < length (thread_exec_vec (rt s)) \<and> phase s i \<noteq> Ended
     \<and> thread_context (th (rt s) i) = c"
  "plays s Waits c \<longleftrightarrow> c \<in> waiting s"
  by (simp_all add: plays_def)

lemma pre_role:
  assumes "worker_ok s i" and "i < length (thread_exec_vec (rt s))" and "phase s i = Switched"
  shows "plays s Waits (context_pre_ptr (th (rt s) i)) \<or> plays s (Home i) (context_pre_ptr (th (rt s) i))"
  using assms by (auto simp: worker_ok_def plays_simps Let_def)

lemma context_nonnull: "co_inv s \<Longrightarrow> contexts (rt s) c = Some x \<Longrightarrow> 0 < c"
  using co_invD(6) [of s] by (cases c) auto

lemma pre_differs:
  assumes "co_inv s" and "j < length (thread_exec_vec (rt s))" and "phase s j = Switched"
    and "plays s p c" and "p \<noteq> Waits" and "p \<noteq> Home j"
  shows "context_pre_ptr (th (rt s) j) \<noteq> c"
  using pre_role [OF co_invD(7) [OF assms(1,2)] assms(2,3)] co_invD(3) [OF assms(1,4)] assms(5,6) by metis

lemma current_differs:
  assumes "co_inv s" and "j < length (thread_exec_vec (rt s))" and "plays s p c" and "p \<noteq> Current j"
  shows "context_ptr (th (rt s) j) \<noteq> c"
  using co_invD(3) [OF assms(1,3), of "Current j"] assms(2,4) by (auto simp: plays_simps)

text \<open>The status of a worker's own contexts decides \<open>worker_ok\<close>.\<close>

lemma worker_ok_cong:
  assumes "worker_ok s i" and "phase s' i = phase s i"
    and "context_ptr (th (rt s') i) = context_ptr (th (rt s) i)"
    and "context_pre_ptr (th (rt s') i) = context_pre_ptr (th (rt s) i)"
    and "thread_context (th (rt s') i) = thread_context (th (rt s) i)"
    and "context_pre_ptr (th (rt s) i) \<in> waiting s \<Longrightarrow> phase s i = Switched \<Longrightarrow>
           context_pre_ptr (th (rt s) i) \<in> waiting s'"
    and "status_of (rt s') (context_ptr (th (rt s) i)) = status_of (rt s) (context_ptr (th (rt s) i))"
    and "phase s i = Switched \<Longrightarrow>
           status_of (rt s') (context_pre_ptr (th (rt s) i)) = status_of (rt s) (context_pre_ptr (th (rt s) i))"
  shows "worker_ok s' i"
  using assms by (cases "phase s i") (auto simp: worker_ok_def Let_def)

lemma settle_step:
  assumes inv: "co_inv s" and i: "i < length (thread_exec_vec (rt s))" and ph: "phase s i = Switched"
  shows "\<exists>r. change_context_status i (rt s) = Inr r
    \<and> co_inv (s\<lparr>rt := r, phase := (phase s)(i := Scheduling)\<rparr>)"
proof -
  let ?t = "th (rt s) i" and ?n = "length (thread_exec_vec (rt s))"
  note I = co_invD [OF inv]
  have cur: "plays s (Current i) (context_ptr ?t)" using i by (simp add: plays_simps)
  then obtain x where x: "contexts (rt s) (context_ptr ?t) = Some x" using I(4) by blast
  obtain p where p: "plays s p (context_pre_ptr ?t)" "p = Waits \<or> p = Home i" using pre_role [OF I(7) [OF i] i ph] by blast
  then obtain y where y: "contexts (rt s) (context_pre_ptr ?t) = Some y" using I(4) by blast
  have ne: "context_pre_ptr ?t \<noteq> context_ptr ?t" using I(3) [OF cur, of p] p by auto
  have nz: "context_pre_ptr ?t \<noteq> nullptr" using I(6) y by (metis option.distinct(1))
  let ?r1 = "put_context (context_ptr ?t) (x\<lparr>ec_status := Running\<rparr>) (rt s)"
  let ?r2 = "put_context (context_pre_ptr ?t) (y\<lparr>ec_status := Yield\<rparr>) ?r1"
  define r where "r = put_thread i (?t\<lparr>context_pre_ptr := nullptr\<rparr>) ?r2"
  have e1: "context_set_status (context_ptr ?t) Running (rt s) = Inr ?r1" "stacks_inv ?r1"
    using context_status_eff [OF I(1) x] by blast+
  have e2: "context_set_status (context_pre_ptr ?t) Yield ?r1 = Inr ?r2" "stacks_inv ?r2"
    using context_status_eff [OF e1(2), of "context_pre_ptr ?t" y] y ne by auto
  have run: "change_context_status i (rt s) = Inr r"
    using i e1(1) e2(1) nz by (simp add: change_context_status_def r_def)
  define s' where "s' = s\<lparr>rt := r, phase := (phase s)(i := Scheduling)\<rparr>"
  have f: "length (thread_exec_vec r) = ?n"
    "\<And>j. j < ?n \<Longrightarrow> th r j = (if j = i then ?t\<lparr>context_pre_ptr := nullptr\<rparr> else th (rt s) j)"
    "contexts r = (contexts (rt s))(context_ptr ?t \<mapsto> x\<lparr>ec_status := Running\<rparr>,
       context_pre_ptr ?t \<mapsto> y\<lparr>ec_status := Yield\<rparr>)"
    using i by (simp_all add: r_def)
  have pl: "plays s' q c \<longleftrightarrow> plays s q c" for q c
    using ph by (cases q) (auto simp: plays_simps s'_def f)
  have "co_inv s'"
  proof (rule co_invI)
    show "stacks_inv (rt s')" using put_thread_inv [OF e2(2), of i] i by (simp add: s'_def r_def)
    show "worker_ok s' j" if j: "j < length (thread_exec_vec (rt s'))" for j
    proof (cases "j = i")
      case True
      then show ?thesis using i ne by (simp add: worker_ok_def s'_def f Let_def status_of_def)
    next
      case False
      have jn: "j < ?n" using j by (simp add: s'_def f)
      have c: "context_ptr (th (rt s) j) \<noteq> context_ptr ?t" "context_ptr (th (rt s) j) \<noteq> context_pre_ptr ?t"
        using current_differs [OF inv jn cur] current_differs [OF inv jn p(1)] False p(2) by auto
      have d: "context_pre_ptr (th (rt s) j) \<noteq> context_ptr ?t" "context_pre_ptr (th (rt s) j) \<noteq> context_pre_ptr ?t"
        if "phase s j = Switched"
        using pre_differs [OF inv jn that cur] I(9) [OF jn i that ph] False by auto
      show ?thesis
        by (rule worker_ok_cong [OF I(7) [OF jn]]) (use False jn c d in \<open>auto simp: s'_def f status_of_def\<close>)
    qed
    show "ec_size z = COROUTINE_STACK_SIZE
      \<or> (\<exists>k < length (thread_exec_vec (rt s')). thread_context (th (rt s') k) = c)"
      if z: "contexts (rt s') c = Some z" for c z
    proof -
      obtain z' where "contexts (rt s) c = Some z'" "ec_size z' = ec_size z"
        using z x y by (auto simp: s'_def f split: if_splits)
      then show ?thesis using I(8) [of c z'] by (auto simp: s'_def f)
    qed
    show "q = q'" if "plays s' q d" "plays s' q' d" for q q' d using that I(3) unfolding pl by blast
    show "(\<exists>q. plays s' q d) \<longleftrightarrow> contexts (rt s') d \<noteq> None" for d
      using I(4) [of _ d] I(5) [of d] x y unfolding pl by (auto simp: s'_def f)
    show "j = k" if "j < length (thread_exec_vec (rt s'))" "k < length (thread_exec_vec (rt s'))"
      "phase s' j = Switched" "phase s' k = Switched"
      "context_pre_ptr (th (rt s') j) = context_pre_ptr (th (rt s') k)" for j k
      using that I(9) [of j k] by (auto simp: s'_def f split: if_splits)
  qed (use I context_nonnull [OF inv x] context_nonnull [OF inv y] in \<open>auto simp: s'_def f\<close>)
  with run show ?thesis by (simp add: s'_def)
qed


lemma block_step:
  assumes inv: "co_inv s" and i: "i < length (thread_exec_vec (rt s))" and ph: "phase s i = Scheduling"
    and fs: "fresh_stacks [m] (rt s)" and fc: "fresh_contexts [c] (rt s)"
  shows "\<exists>r. swap_new_context (of_nat i) i (context_ptr (th (rt s) i)) c m (rt s) = Inr r
    \<and> co_inv (s\<lparr>rt := r, phase := (phase s)(i := Switched),
                waiting := insert (context_ptr (th (rt s) i)) (waiting s)\<rparr>)"
proof -
  let ?t = "th (rt s) i" and ?n = "length (thread_exec_vec (rt s))" and ?out = "context_ptr (th (rt s) i)"
  note I = co_invD [OF inv]
  have cur: "plays s (Current i) ?out" using i by (simp add: plays_simps)
  then obtain x where x: "contexts (rt s) ?out = Some x" using I(4) by blast
  have run_st: "status_of (rt s) ?out = Some Running"
    using I(7) [OF i] ph by (simp add: worker_ok_def Let_def)
  have cn: "contexts (rt s) c = None" "c \<noteq> nullptr" and mn: "stacks (rt s) m = None" "m \<noteq> nullptr"
    using fs fc by (auto simp: fresh_stacks_def fresh_contexts_def)
  define r1 where "r1 = put_thread i (?t\<lparr>context_pre_ptr := ?out\<rparr>) (rt s)"
  have r1: "stacks_inv r1" "i < length (thread_exec_vec r1)" "length (thread_exec_vec r1) < 2 ^ 31"
    "contexts r1 c = None" "stacks r1 m = None"
    using put_thread_inv [OF I(1) i] i I(2) cn mn by (simp_all add: r1_def max_workers_def)
  obtain r2 st where r2: "context_new (of_nat i) COROUTINE_STACK_SIZE c m r1 = Inr r2" "stacks_inv r2"
    "same_ptrs r1 r2"
    "contexts r2 = (contexts r1)(c \<mapsto> \<lparr>ec_status = Initing, ec_stack = st, ec_size = COROUTINE_STACK_SIZE\<rparr>)"
    using context_new_eff [OF r1(1-3) r1(4,5) mn(2)] by blast
  have n2: "length (thread_exec_vec r2) = ?n" using r2(3) by (simp add: same_ptrs_def r1_def)
  define r where "r = put_thread i ((th r2 i)\<lparr>context_ptr := c\<rparr>) r2"
  have run: "swap_new_context (of_nat i) i ?out c m (rt s) = Inr r"
    using i r2(1) n2 by (simp add: swap_new_context_def r1_def [symmetric] r_def)
  define s' where "s' = s\<lparr>rt := r, phase := (phase s)(i := Switched), waiting := insert ?out (waiting s)\<rparr>"
  have f: "length (thread_exec_vec r) = ?n"
    "\<And>j. j < ?n \<Longrightarrow> context_ptr (th r j) = (if j = i then c else context_ptr (th (rt s) j))"
    "\<And>j. j < ?n \<Longrightarrow> context_pre_ptr (th r j) = (if j = i then ?out else context_pre_ptr (th (rt s) j))"
    "\<And>j. j < ?n \<Longrightarrow> thread_context (th r j) = thread_context (th (rt s) j)"
    "contexts r = (contexts (rt s))(c \<mapsto> \<lparr>ec_status = Initing, ec_stack = st, ec_size = COROUTINE_STACK_SIZE\<rparr>)"
    using i n2 r2(3,4) by (simp_all add: r_def r1_def same_ptrs_def)
  have new: "\<not> plays s q c" for q using I(4) [of q c] cn(1) by auto
  have only: "plays s q ?out \<longleftrightarrow> q = Current i" for q using I(3) [OF cur, of q] cur by blast
  have ne: "c \<noteq> ?out" using cn(1) x by auto
  have pl: "plays s' q d \<longleftrightarrow> (if d = ?out then q = Waits else plays s q d \<or> (q = Current i \<and> d = c))" for q d
    using ph i ne only [of q] new [of q] by (cases q) (auto simp: plays_simps s'_def f split: if_splits)
  have "co_inv s'"
  proof (rule co_invI)
    show "stacks_inv (rt s')" using put_thread_inv [OF r2(2), of i] i n2 by (simp add: s'_def r_def)
    show "q = q'" if "plays s' q d" "plays s' q' d" for q q' d
      using that new I(3) [of q d q'] unfolding pl by (auto split: if_splits)
    show "(\<exists>q. plays s' q d) \<longleftrightarrow> contexts (rt s') d \<noteq> None" for d
      using I(4) [of _ d] I(5) [of d] x unfolding pl by (auto simp: s'_def f)
    show "worker_ok s' j" if j: "j < length (thread_exec_vec (rt s'))" for j
    proof (cases "j = i")
      case True
      have "?out \<noteq> nullptr" using x I(6) by (metis option.distinct(1))
      moreover have "c \<noteq> ?out" using cn(1) x by auto
      moreover have "ec_status x = Running" using run_st x by (simp add: status_of_def)
      ultimately show ?thesis using True i x by (simp add: worker_ok_def s'_def f status_of_def Let_def)
    next
      case False
      have jn: "j < ?n" using j by (simp add: s'_def f)
      have "context_ptr (th (rt s) j) \<noteq> c" using new [of "Current j"] jn by (simp add: plays_simps)
      moreover have "context_pre_ptr (th (rt s) j) \<noteq> c" if "phase s j = Switched"
        using pre_role [OF I(7) [OF jn] jn that] new by metis
      ultimately show ?thesis
        by (intro worker_ok_cong [OF I(7) [OF jn]]) (use False jn in \<open>auto simp: s'_def f status_of_def\<close>)
    qed
    show "ec_size z = COROUTINE_STACK_SIZE
      \<or> (\<exists>k < length (thread_exec_vec (rt s')). thread_context (th (rt s') k) = d)"
      if "contexts (rt s') d = Some z" for d z
      using that I(8) [of d z] by (auto simp: s'_def f split: if_splits)
    show "j = k" if "j < length (thread_exec_vec (rt s'))" "k < length (thread_exec_vec (rt s'))"
      "phase s' j = Switched" "phase s' k = Switched"
      "context_pre_ptr (th (rt s') j) = context_pre_ptr (th (rt s') k)" for j k
      using that I(9) [of j k] pre_differs [OF inv _ _ cur, of j] pre_differs [OF inv _ _ cur, of k]
      by (auto simp: s'_def f split: if_splits)
  qed (use I cn in \<open>auto simp: s'_def f\<close>)
  with run show ?thesis by (simp add: s'_def)
qed

lemma resume_step:
  assumes inv: "co_inv s" and i: "i < length (thread_exec_vec (rt s))" and ph: "phase s i = Scheduling"
    and c: "c \<in> waiting s" and st: "status_of (rt s) c = Some Yield"
  shows "\<exists>r. back_switch i task c (rt s) = Inr r \<and> context_ptr (th r i) = c
    \<and> co_inv (s\<lparr>rt := r, phase := (phase s)(i := Resumed), waiting := waiting s - {c}\<rparr>)"
proof -
  let ?t = "th (rt s) i" and ?n = "length (thread_exec_vec (rt s))" and ?out = "context_ptr (th (rt s) i)"
  note I = co_invD [OF inv]
  have cur: "plays s (Current i) ?out" using i by (simp add: plays_simps)
  then obtain x where x: "contexts (rt s) ?out = Some x" using I(4) by blast
  have w: "plays s Waits c" using c by (simp add: plays_simps)
  obtain y where y: "contexts (rt s) c = Some y" "ec_status y = Yield" using st by (auto simp: status_of_def)
  have ne: "c \<noteq> ?out" using I(3) [OF cur, of Waits] w by auto
  define r1 where "r1 = put_context c (y\<lparr>ec_status := Running\<rparr>) (rt s)"
  have e1: "context_set_status c Running (rt s) = Inr r1" "stacks_inv r1"
    using context_status_eff [OF I(1) y(1)] by (simp_all add: r1_def)
  define r2 where "r2 = r1\<lparr>thread_exec_vec :=
    (thread_exec_vec r1)[i := (thread_exec_vec r1 ! i)\<lparr>current_task := task\<rparr>]\<rparr>"
  have th2: "th r2 j = th (rt s) j" "length (thread_exec_vec r2) = ?n" "contexts r2 = contexts r1"
    if "j < ?n" for j using that by (cases "j = i"; simp add: r2_def r1_def)+
  have n2: "length (thread_exec_vec r2) = ?n" using i th2(2) by blast
  have s2: "stacks_inv r2"
    by (rule stacks_inv_cong [OF e1(2)]) (use i in \<open>simp_all add: r2_def r1_def nth_list_update\<close>)
  define r where "r = put_thread i ((th r2 i)\<lparr>context_pre_ptr := ?out, context_ptr := c\<rparr>) r2"
  have at: "context_at c r2 = Inr (y\<lparr>ec_status := Running\<rparr>)"
    by (simp add: context_at_def r2_def r1_def)
  have run: "back_switch i task c (rt s) = Inr r"
  proof -
    have "set_context i c r2 = Inr r" using i n2 th2(1) [OF i] by (simp add: set_context_def at r_def)
    moreover have "vget (thread_exec_vec r1) i = Inr (thread_exec_vec r1 ! i)" using i by (simp add: r1_def)
    ultimately show ?thesis using y e1(1) by (simp add: back_switch_def context_at_def r2_def)
  qed
  define s' where "s' = s\<lparr>rt := r, phase := (phase s)(i := Resumed), waiting := waiting s - {c}\<rparr>"
  have f: "length (thread_exec_vec r) = ?n"
    "\<And>j. j < ?n \<Longrightarrow> th r j = (if j = i then ?t\<lparr>context_pre_ptr := ?out, context_ptr := c\<rparr> else th (rt s) j)"
    "contexts r = (contexts (rt s))(c \<mapsto> y\<lparr>ec_status := Running\<rparr>)"
    using i n2 th2(1) th2(3) [OF i] by (simp_all add: r_def r1_def)
  have only: "plays s q ?out \<longleftrightarrow> q = Current i" "plays s q c \<longleftrightarrow> q = Waits" for q
    using I(3) [OF cur, of q] I(3) [OF w, of q] cur w by blast+
  have pl: "plays s' q d \<longleftrightarrow> (if d = ?out then q = Left_by i else if d = c then q = Current i else plays s q d)" for q d
    using ph i ne only [of q] by (cases q) (auto simp: plays_simps s'_def f split: if_splits)
  have "co_inv s'"
  proof (rule co_invI)
    show "stacks_inv (rt s')" using put_thread_inv [OF s2, of i] i n2 by (simp add: s'_def r_def)
    show "q = q'" if "plays s' q d" "plays s' q' d" for q q' d
      using that I(3) [of q d q'] unfolding pl by (auto split: if_splits)
    show "(\<exists>q. plays s' q d) \<longleftrightarrow> contexts (rt s') d \<noteq> None" for d
      using I(4) [of _ d] I(5) [of d] x y unfolding pl by (auto simp: s'_def f)
    show "worker_ok s' j" if j: "j < length (thread_exec_vec (rt s'))" for j
    proof (cases "j = i")
      case True
      have "?out \<noteq> nullptr" using x I(6) by (metis option.distinct(1))
      then show ?thesis using True i by (simp add: worker_ok_def s'_def f status_of_def Let_def)
    next
      case False
      have jn: "j < ?n" using j by (simp add: s'_def f)
      have "context_ptr (th (rt s) j) \<noteq> c" by (rule current_differs [OF inv jn w]) simp
      moreover have "context_pre_ptr (th (rt s) j) \<noteq> c" if "phase s j = Switched"
        using I(7) [OF jn] that st by (auto simp: worker_ok_def Let_def)
      ultimately show ?thesis
        by (intro worker_ok_cong [OF I(7) [OF jn]]) (use False jn in \<open>auto simp: s'_def f status_of_def\<close>)
    qed
    show "ec_size z = COROUTINE_STACK_SIZE
      \<or> (\<exists>k < length (thread_exec_vec (rt s')). thread_context (th (rt s') k) = d)"
      if z: "contexts (rt s') d = Some z" for d z
    proof -
      obtain z' where "contexts (rt s) d = Some z'" "ec_size z' = ec_size z"
        using z y by (auto simp: s'_def f split: if_splits)
      then show ?thesis using I(8) [of d z'] i by (auto simp: s'_def f)
    qed
    show "j = k" if "j < length (thread_exec_vec (rt s'))" "k < length (thread_exec_vec (rt s'))"
      "phase s' j = Switched" "phase s' k = Switched"
      "context_pre_ptr (th (rt s') j) = context_pre_ptr (th (rt s') k)" for j k
      using that I(9) [of j k] by (auto simp: s'_def f split: if_splits)
  qed (use I y context_nonnull [OF inv y(1)] in \<open>auto simp: s'_def f\<close>)
  moreover have "context_ptr (th r i) = c" using f(2) [OF i] by simp
  ultimately show ?thesis using run by (auto simp: s'_def)
qed


lemma drop_step:
  assumes inv: "co_inv s" and i: "i < length (thread_exec_vec (rt s))" and ph: "phase s i = Resumed"
  shows "\<exists>r. drop_pre (of_nat i) i (rt s) = Inr r \<and> co_inv (s\<lparr>rt := r, phase := (phase s)(i := Scheduling)\<rparr>)"
proof -
  let ?t = "th (rt s) i" and ?n = "length (thread_exec_vec (rt s))" and ?p = "context_pre_ptr (th (rt s) i)"
  note I = co_invD [OF inv]
  have role: "plays s (Left_by i) ?p" using i ph by (simp add: plays_simps)
  then obtain x where x: "contexts (rt s) ?p = Some x" using I(4) by blast
  have only: "plays s q ?p \<longleftrightarrow> q = Left_by i" for q using I(3) [OF role, of q] role by blast
  have home: "thread_context (th (rt s) k) \<noteq> ?p" if k: "k < ?n" for k
  proof (cases "phase s k = Ended")
    case True
    then have "thread_context (th (rt s) k) = context_ptr (th (rt s) k)"
      using I(7) [OF k] by (simp add: worker_ok_def Let_def)
    then show ?thesis using only [of "Current k"] k by (auto simp: plays_simps)
  next
    case False
    then show ?thesis using only [of "Home k"] k by (auto simp: plays_simps)
  qed
  have sz: "ec_size x = COROUTINE_STACK_SIZE" using I(8) [OF x] home by blast
  have len: "?n < 2 ^ 31" using I(2) by (simp add: max_workers_def)
  obtain r1 where r1: "context_delete (of_nat i) ?p (rt s) = Inr r1" "stacks_inv r1" "same_ptrs (rt s) r1"
    "contexts r1 = (contexts (rt s))(?p := None)" using context_delete_eff [OF I(1) i len x sz] by blast
  have n1: "length (thread_exec_vec r1) = ?n" using r1(3) by (simp add: same_ptrs_def)
  define r where "r = put_thread i ((th r1 i)\<lparr>context_pre_ptr := nullptr\<rparr>) r1"
  have run: "drop_pre (of_nat i) i (rt s) = Inr r"
    using i n1 r1(1) context_nonnull [OF inv x] by (simp add: drop_pre_def delete_if_def r_def)
  define s' where "s' = s\<lparr>rt := r, phase := (phase s)(i := Scheduling)\<rparr>"
  have f: "length (thread_exec_vec r) = ?n"
    "\<And>j. j < ?n \<Longrightarrow> context_ptr (th r j) = context_ptr (th (rt s) j)"
    "\<And>j. j < ?n \<Longrightarrow> context_pre_ptr (th r j) = (if j = i then nullptr else context_pre_ptr (th (rt s) j))"
    "\<And>j. j < ?n \<Longrightarrow> thread_context (th r j) = thread_context (th (rt s) j)"
    "contexts r = (contexts (rt s))(?p := None)"
    using i n1 r1(3,4) by (simp_all add: r_def same_ptrs_def)
  have pl: "plays s' q d \<longleftrightarrow> q \<noteq> Left_by i \<and> plays s q d" for q d
    using ph i by (cases q) (auto simp: plays_simps s'_def f)
  have "co_inv s'"
  proof (rule co_invI)
    show "stacks_inv (rt s')" using put_thread_inv [OF r1(2), of i] i n1 by (simp add: s'_def r_def)
    show "q = q'" if "plays s' q d" "plays s' q' d" for q q' d using that I(3) [of q d q'] unfolding pl by blast
    show "(\<exists>q. plays s' q d) \<longleftrightarrow> contexts (rt s') d \<noteq> None" for d
    proof (cases "d = ?p")
      case True
      then show ?thesis using only unfolding pl by (auto simp: s'_def f)
    next
      case False
      then have "q \<noteq> Left_by i" if "plays s q d" for q using that i by (auto simp: plays_simps)
      then have "(\<exists>q. plays s' q d) \<longleftrightarrow> (\<exists>q. plays s q d)" unfolding pl by blast
      moreover have "contexts (rt s') d = contexts (rt s) d" using False by (simp add: s'_def f)
      ultimately show ?thesis using I(4) [of _ d] I(5) [of d] by auto
    qed
    show "worker_ok s' j" if j: "j < length (thread_exec_vec (rt s'))" for j
    proof (cases "j = i")
      case True
      have "status_of (rt s) (context_ptr ?t) = Some Running" using I(7) [OF i] ph by (simp add: worker_ok_def Let_def)
      moreover have "context_ptr ?t \<noteq> ?p" by (rule current_differs [OF inv i role]) simp
      ultimately show ?thesis using True i by (simp add: worker_ok_def s'_def f status_of_def Let_def)
    next
      case False
      have jn: "j < ?n" using j by (simp add: s'_def f)
      have "context_ptr (th (rt s) j) \<noteq> ?p" by (rule current_differs [OF inv jn role]) simp
      moreover have "context_pre_ptr (th (rt s) j) \<noteq> ?p" if "phase s j = Switched"
        by (rule pre_differs [OF inv jn that role]) simp_all
      ultimately show ?thesis
        by (intro worker_ok_cong [OF I(7) [OF jn]]) (use False jn in \<open>auto simp: s'_def f status_of_def\<close>)
    qed
    show "j = k" if "j < length (thread_exec_vec (rt s'))" "k < length (thread_exec_vec (rt s'))"
      "phase s' j = Switched" "phase s' k = Switched"
      "context_pre_ptr (th (rt s') j) = context_pre_ptr (th (rt s') k)" for j k
      using that I(9) [of j k] by (auto simp: s'_def f split: if_splits)
    show "ec_size z = COROUTINE_STACK_SIZE
      \<or> (\<exists>k < length (thread_exec_vec (rt s')). thread_context (th (rt s') k) = d)"
      if "contexts (rt s') d = Some z" for d z
      using that I(8) [of d z] by (auto simp: s'_def f split: if_splits)
  qed (use I in \<open>auto simp: s'_def f\<close>)
  with run show ?thesis by (simp add: s'_def)
qed

lemma leave_step:
  assumes inv: "co_inv s" and i: "i < length (thread_exec_vec (rt s))" and ph: "phase s i = Scheduling"
  shows "\<exists>r. leave_schedule i (rt s) = Inr r \<and> co_inv (s\<lparr>rt := r, phase := (phase s)(i := Ended)\<rparr>)"
proof -
  let ?t = "th (rt s) i" and ?n = "length (thread_exec_vec (rt s))" and ?out = "context_ptr (th (rt s) i)"
  let ?h = "thread_context (th (rt s) i)"
  note I = co_invD [OF inv]
  have cur: "plays s (Current i) ?out" using i by (simp add: plays_simps)
  then obtain x where x: "contexts (rt s) ?out = Some x" using I(4) by blast
  have home: "plays s (Home i) ?h" using i ph by (simp add: plays_simps)
  then obtain y where y: "contexts (rt s) ?h = Some y" using I(4) by blast
  have only: "plays s q ?out \<longleftrightarrow> q = Current i" "plays s q ?h \<longleftrightarrow> q = Home i" for q
    using I(3) [OF cur, of q] I(3) [OF home, of q] cur home by blast+
  have ne: "?h \<noteq> ?out" using only(1) [of "Home i"] home by auto
  define r where "r = put_thread i (?t\<lparr>context_pre_ptr := ?out, context_ptr := ?h\<rparr>) (rt s)"
  have run: "leave_schedule i (rt s) = Inr r"
    using i y by (simp add: leave_schedule_def set_context_def context_at_def r_def)
  define s' where "s' = s\<lparr>rt := r, phase := (phase s)(i := Ended)\<rparr>"
  have f: "length (thread_exec_vec r) = ?n"
    "\<And>j. j < ?n \<Longrightarrow> th r j = (if j = i then ?t\<lparr>context_pre_ptr := ?out, context_ptr := ?h\<rparr> else th (rt s) j)"
    "contexts r = contexts (rt s)"
    using i by (simp_all add: r_def)
  have pl: "plays s' q d \<longleftrightarrow> (if d = ?out then q = Left_by i else if d = ?h then q = Current i else plays s q d)" for q d
    using ph i ne only [of q] by (cases q) (auto simp: plays_simps s'_def f split: if_splits)
  have "co_inv s'"
  proof (rule co_invI)
    show "stacks_inv (rt s')" using put_thread_inv [OF I(1) i] by (simp add: s'_def r_def)
    show "q = q'" if "plays s' q d" "plays s' q' d" for q q' d
      using that I(3) [of q d q'] unfolding pl by (auto split: if_splits)
    show "(\<exists>q. plays s' q d) \<longleftrightarrow> contexts (rt s') d \<noteq> None" for d
      using I(4) [of _ d] I(5) [of d] x y unfolding pl by (auto simp: s'_def f)
    show "worker_ok s' j" if j: "j < length (thread_exec_vec (rt s'))" for j
    proof (cases "j = i")
      case True
      then show ?thesis using i context_nonnull [OF inv x] by (simp add: worker_ok_def s'_def f Let_def)
    next
      case False
      then show ?thesis using j
        by (intro worker_ok_cong [OF I(7), of j]) (auto simp: s'_def f status_of_def)
    qed
    show "j = k" if "j < length (thread_exec_vec (rt s'))" "k < length (thread_exec_vec (rt s'))"
      "phase s' j = Switched" "phase s' k = Switched"
      "context_pre_ptr (th (rt s') j) = context_pre_ptr (th (rt s') k)" for j k
      using that I(9) [of j k] by (auto simp: s'_def f split: if_splits)
    show "ec_size z = COROUTINE_STACK_SIZE
      \<or> (\<exists>k < length (thread_exec_vec (rt s')). thread_context (th (rt s') k) = d)"
      if "contexts (rt s') d = Some z" for d z
      using that I(8) [of d z] by (auto simp: s'_def f)
  qed (use I in \<open>auto simp: s'_def f\<close>)
  with run show ?thesis by (simp add: s'_def)
qed

lemma spawn_step:
  assumes inv: "co_inv s" and len: "length (thread_exec_vec (rt s)) < max_workers"
    and ms: "ms \<noteq> []" "length ms \<le> 2 ^ 30" and fs: "fresh_stacks (m1 # m2 # ms) (rt s)"
    and fc: "fresh_contexts [tc, c] (rt s)"
  shows "\<exists>t r1 r2. thread_new ms (rt s) = Inr (t, r1) \<and> routine t tc m1 c m2 r1 = Inr r2
    \<and> co_inv (s\<lparr>rt := r2, phase := (phase s)(length (thread_exec_vec (rt s)) := Switched)\<rparr>)"
proof -
  let ?n = "length (thread_exec_vec (rt s))"
  note I = co_invD [OF inv]
  obtain t r1 r2 st where r: "thread_new ms (rt s) = Inr (t, r1)" "routine t tc m1 c m2 r1 = Inr r2"
    and s2: "stacks_inv r2" and n2: "length (thread_exec_vec r2) = Suc ?n"
    and old: "\<forall>j < ?n. context_ptr (th r2 j) = context_ptr (th (rt s) j)
         \<and> context_pre_ptr (th r2 j) = context_pre_ptr (th (rt s) j)
         \<and> thread_context (th r2 j) = thread_context (th (rt s) j)"
    and nw: "context_ptr (th r2 ?n) = c" "context_pre_ptr (th r2 ?n) = tc" "thread_context (th r2 ?n) = tc"
    and con: "contexts r2 = (contexts (rt s))(tc \<mapsto> \<lparr>ec_status = Ready, ec_stack = m1, ec_size = 1\<rparr>,
         c \<mapsto> \<lparr>ec_status = Initing, ec_stack = st, ec_size = COROUTINE_STACK_SIZE\<rparr>)"
    using spawn_eff [OF I(1) _ ms fs fc] len by (auto simp: max_workers_def)
  have fr: "contexts (rt s) tc = None" "contexts (rt s) c = None" "tc \<noteq> c" "tc \<noteq> nullptr" "c \<noteq> nullptr"
    using fc by (auto simp: fresh_contexts_def)
  have new: "\<not> plays s q tc" "\<not> plays s q c" for q using I(4) [of q tc] I(4) [of q c] fr by auto
  define s' where "s' = s\<lparr>rt := r2, phase := (phase s)(?n := Switched)\<rparr>"
  have pl: "plays s' q d \<longleftrightarrow> plays s q d \<or> (q = Current ?n \<and> d = c) \<or> (q = Home ?n \<and> d = tc)" for q d
    using old nw n2 by (cases q) (auto simp: plays_simps s'_def less_Suc_eq)
  have ok: "worker_ok s' j" if j: "j < length (thread_exec_vec (rt s'))" for j
  proof (cases "j = ?n")
    case True
    then show ?thesis using nw fr by (simp add: worker_ok_def s'_def con status_of_def Let_def)
  next
    case False
    with j have jn: "j < ?n" by (simp add: s'_def n2)
    have "context_ptr (th (rt s) j) \<noteq> c" "context_ptr (th (rt s) j) \<noteq> tc"
      using new(1) [of "Current j"] new(2) [of "Current j"] jn by (auto simp: plays_simps)
    moreover have "context_pre_ptr (th (rt s) j) \<noteq> c" "context_pre_ptr (th (rt s) j) \<noteq> tc"
      if "phase s j = Switched" using pre_role [OF I(7) [OF jn] jn that] new by metis+
    ultimately show ?thesis
      by (intro worker_ok_cong [OF I(7) [OF jn]]) (use False jn old in \<open>auto simp: s'_def con status_of_def\<close>)
  qed
  have "co_inv s'"
  proof (rule co_invI)
    show "q = q'" if "plays s' q d" "plays s' q' d" for q q' d
      using that I(3) [of q d q'] new fr unfolding pl by auto
    show "(\<exists>q. plays s' q d) \<longleftrightarrow> contexts (rt s') d \<noteq> None" for d
      using I(4) [of _ d] I(5) [of d] unfolding pl by (auto simp: s'_def con)
    show "ec_size z = COROUTINE_STACK_SIZE
      \<or> (\<exists>k < length (thread_exec_vec (rt s')). thread_context (th (rt s') k) = d)"
      if z: "contexts (rt s') d = Some z" for d z
    proof (cases "d = tc")
      case True
      then show ?thesis using nw n2 by (auto simp: s'_def)
    next
      case False
      then show ?thesis using z I(8) [of d z] old n2 by (fastforce simp: s'_def con less_Suc_eq split: if_splits)
    qed
    show "j = k" if jk: "j < length (thread_exec_vec (rt s'))" "k < length (thread_exec_vec (rt s'))"
      "phase s' j = Switched" "phase s' k = Switched"
      "context_pre_ptr (th (rt s') j) = context_pre_ptr (th (rt s') k)" for j k
    proof -
      have pre: "context_pre_ptr (th r2 l) = context_pre_ptr (th (rt s) l) \<and> context_pre_ptr (th (rt s) l) \<noteq> tc
          \<and> phase s l = Switched" if l: "l < ?n" "phase s' l = Switched" for l
      proof -
        have "phase s l = Switched" using l by (simp add: s'_def)
        then show ?thesis using pre_role [OF I(7) [OF l(1)] l(1)] new(1) old l(1) by metis
      qed
      have e: "context_pre_ptr (th r2 j) = context_pre_ptr (th r2 k)" "j < Suc ?n" "k < Suc ?n"
        using jk n2 by (simp_all add: s'_def)
      consider "j < ?n" "k < ?n" | "j = ?n" "k < ?n" | "j < ?n" "k = ?n" | "j = k"
        using e(2,3) by linarith
      then show ?thesis
      proof cases
        case 1
        then show ?thesis using I(9) [of j k] pre [of j] pre [of k] jk(3,4) e(1) by metis
      next
        case 2
        then show ?thesis using pre [of k] jk(4) e(1) nw(2) by metis
      next
        case 3
        then show ?thesis using pre [of j] jk(3) e(1) nw(2) by metis
      qed
    qed
  qed (use I fr s2 n2 len ok in \<open>auto simp: s'_def con\<close>)
  with r show ?thesis by (auto simp: s'_def)
qed

lemma same_contexts_th:
  assumes "same_contexts r r'"
  shows "length (thread_exec_vec r') = length (thread_exec_vec r)"
    and "i < length (thread_exec_vec r) \<Longrightarrow> th r' i = th r i"
proof -
  have m: "map exec (thread_exec_vec r') = map exec (thread_exec_vec r)" using assms by (simp add: same_contexts_def)
  show l: "length (thread_exec_vec r') = length (thread_exec_vec r)" using arg_cong [OF m, of length] by simp
  show "th r' i = th r i" if "i < length (thread_exec_vec r)" using arg_cong [OF m, of "\<lambda>v. v ! i"] that l by simp
qed

lemma other_step:
  assumes inv: "co_inv s" and same: "same_contexts (rt s) r"
  shows "co_inv (s\<lparr>rt := r\<rparr>)"
proof (rule co_invI)
  note I = co_invD [OF inv] and e = same_contexts_th [OF same]
  have c: "contexts r = contexts (rt s)" "stacks r = stacks (rt s)" using same by (simp_all add: same_contexts_def)
  have pl: "plays (s\<lparr>rt := r\<rparr>) q d \<longleftrightarrow> plays s q d" for q d by (cases q) (auto simp: plays_simps e)
  show "stacks_inv (rt (s\<lparr>rt := r\<rparr>))" by (rule stacks_inv_cong [OF I(1)]) (simp_all add: c e)
  show "worker_ok (s\<lparr>rt := r\<rparr>) i" if "i < length (thread_exec_vec (rt (s\<lparr>rt := r\<rparr>)))" for i
    by (rule worker_ok_cong [OF I(7)]) (use that in \<open>simp_all add: e status_of_def c\<close>)
  show "q = q'" if "plays (s\<lparr>rt := r\<rparr>) q d" "plays (s\<lparr>rt := r\<rparr>) q' d" for q q' d using that I(3) unfolding pl by blast
  show "(\<exists>q. plays (s\<lparr>rt := r\<rparr>) q d) \<longleftrightarrow> contexts (rt (s\<lparr>rt := r\<rparr>)) d \<noteq> None" for d
    using I(4) [of _ d] I(5) [of d] unfolding pl by (auto simp: c)
  show "ec_size z = COROUTINE_STACK_SIZE
    \<or> (\<exists>k < length (thread_exec_vec (rt (s\<lparr>rt := r\<rparr>))). thread_context (th (rt (s\<lparr>rt := r\<rparr>)) k) = d)"
    if "contexts (rt (s\<lparr>rt := r\<rparr>)) d = Some z" for d z
    using I(8) [of d z] that by (auto simp: c e)
  show "j = k" if "j < length (thread_exec_vec (rt (s\<lparr>rt := r\<rparr>)))" "k < length (thread_exec_vec (rt (s\<lparr>rt := r\<rparr>)))"
    "phase (s\<lparr>rt := r\<rparr>) j = Switched" "phase (s\<lparr>rt := r\<rparr>) k = Switched"
    "context_pre_ptr (th (rt (s\<lparr>rt := r\<rparr>)) j) = context_pre_ptr (th (rt (s\<lparr>rt := r\<rparr>)) k)" for j k
    using that I(9) [of j k] by (simp add: e)
qed (use co_invD [OF inv] same_contexts_th [OF same] same in \<open>simp_all add: same_contexts_def\<close>)

lemma cstep_inv: "cstep s s' \<Longrightarrow> co_inv s \<Longrightarrow> co_inv s'"
proof (induction rule: cstep.induct)
  case (spawn s ms m1 m2 tc c t r1 r2)
  from spawn_step [OF spawn.prems spawn.hyps(1-5)] spawn.hyps(6,7) show ?case by auto
next
  case (settle i s r)
  from settle_step [OF settle.prems settle.hyps(1,2)] settle.hyps(3) show ?case by auto
next
  case (block i s m c r)
  from block_step [OF block.prems block.hyps(1-4)] block.hyps(5) show ?case by auto
next
  case (resume i s c task r)
  have "status_of (rt s) c = Some Yield"
    using resume.hyps(4) by (auto simp: back_switch_def context_at_def status_of_def split: option.splits if_splits)
  from resume_step [OF resume.prems resume.hyps(1-3) this, of task] resume.hyps(4) show ?case by auto
next
  case (drop i s r)
  from drop_step [OF drop.prems drop.hyps(1,2)] drop.hyps(3) show ?case by auto
next
  case (leave i s r)
  from leave_step [OF leave.prems leave.hyps(1,2)] leave.hyps(3) show ?case by auto
next
  case (other s r)
  show ?case by (rule other_step [OF other.prems other.hyps])
qed

lemma creach_inv: "creach s \<Longrightarrow> co_inv s"
proof (induction rule: creach.induct)
  case (start s)
  have "\<not> holds (rt s) p x" "\<not> plays s q c" for p x q c
    using start by (auto simp: no_workers_def holds_def plays_def split: place.splits role.splits)
  then show ?case
    using start by (intro co_invI stacks_invI) (auto simp: no_workers_def max_workers_def)
qed (rule cstep_inv)


section \<open>The end of the workers\<close>

text \<open>\<open>Schedule::destroy\<close> deletes the workers one by one on a thread that is none of them.\<close>

definition delete_workers :: "exec_item list \<Rightarrow> runtime \<Rightarrow> runtime result" where
  "delete_workers its r = rfold (\<lambda>it r. thread_delete (- 1) (exec it) r) its r"

lemma drain_eff:
  assumes "lq_inv q" and "length (lq_contents q) < fuel" and "distinct (lq_contents q)"
    and "\<forall>s \<in> set (lq_contents q). stacks r s = Some COROUTINE_STACK_SIZE"
  shows "\<exists>r'. drain_pool fuel q r = Inr r' \<and> contexts r' = contexts r
    \<and> stacks r' = (\<lambda>s. if s \<in> set (lq_contents q) then None else stacks r s)"
  using assms
proof (induction fuel arbitrary: q r)
  case (Suc fuel)
  obtain q' s where run: "lq_try_dequeue q = Inr (q', s)" using lq.deq_returns [OF Suc.prems(1)] by blast
  show ?case
  proof (cases s)
    case None
    then have "lq_contents q = []" using lq.deq_None_empty [OF Suc.prems(1)] run by blast
    then show ?thesis using run None by simp
  next
    case (Some st)
    have q': "lq_contents q = st # lq_contents q'" "lq_inv q'"
      using lq.deq_Some_mset [OF Suc.prems(1)] lq.deq_spec [OF Suc.prems(1)] run Some by blast+
    let ?r1 = "r\<lparr>stacks := (stacks r)(st := None)\<rparr>"
    have free: "free_stack st COROUTINE_STACK_SIZE r = Inr ?r1"
      using Suc.prems(4) q'(1) by (simp add: free_stack_def)
    obtain r' where r': "drain_pool fuel q' ?r1 = Inr r'" "contexts r' = contexts ?r1"
      "stacks r' = (\<lambda>s. if s \<in> set (lq_contents q') then None else stacks ?r1 s)"
    proof -
      have d: "distinct (lq_contents q')" "st \<notin> set (lq_contents q')" "length (lq_contents q') < fuel"
        using Suc.prems(2,3) q'(1) by auto
      have "\<forall>s \<in> set (lq_contents q'). stacks ?r1 s = Some COROUTINE_STACK_SIZE"
        using Suc.prems(4) q'(1) d(2) by auto
      then show ?thesis using Suc.IH [OF q'(2) d(3,1)] that by blast
    qed
    then show ?thesis using run Some free q'(1) by (auto simp: fun_eq_iff)
  qed
qed simp

lemma delete_outside:
  assumes "contexts r c = Some x" and "stacks r (ec_stack x) = Some (ec_size x)" and "c \<noteq> nullptr"
  shows "\<exists>r'. delete_if (- 1) c r = Inr r' \<and> contexts r' = (contexts r)(c := None)
    \<and> stacks r' = (stacks r)(ec_stack x := None) \<and> thread_exec_vec r' = thread_exec_vec r"
  using assms by (simp add: delete_if_def context_delete_def context_at_def outside free_stack_def)

text \<open>What is left to delete: two contexts and a pool for each remaining worker.\<close>

definition item_contexts :: "exec_item \<Rightarrow> ptr list" where
  "item_contexts it = [context_ptr (exec it), context_pre_ptr (exec it)]"

definition item_pool :: "exec_item \<Rightarrow> ptr list" where
  "item_pool it = lq_contents (stack_pool (exec it))"

definition left_over :: "exec_item list \<Rightarrow> runtime \<Rightarrow> bool" where
  "left_over its r \<longleftrightarrow> (let cs = concat (map item_contexts its); ps = concat (map item_pool its) in
     distinct cs \<and> distinct ps \<and> nullptr \<notin> set cs
     \<and> (\<forall>it \<in> set its. lq_inv (stack_pool (exec it)))
     \<and> dom (contexts r) = set cs
     \<and> (\<forall>c x. contexts r c = Some x \<longrightarrow> stacks r (ec_stack x) = Some (ec_size x) \<and> ec_stack x \<notin> set ps)
     \<and> (\<forall>c c' x x'. contexts r c = Some x \<longrightarrow> contexts r c' = Some x' \<longrightarrow> ec_stack x = ec_stack x' \<longrightarrow> c = c')
     \<and> (\<forall>s \<in> set ps. stacks r s = Some COROUTINE_STACK_SIZE)
     \<and> (\<forall>s. stacks r s \<noteq> None \<longrightarrow> s \<in> set ps \<or> (\<exists>c x. contexts r c = Some x \<and> ec_stack x = s)))"

lemma thread_delete_left:
  assumes "left_over (it # its) r"
  shows "\<exists>r'. thread_delete (- 1) (exec it) r = Inr r' \<and> left_over its r'"
proof -
  let ?a = "context_ptr (exec it)" and ?b = "context_pre_ptr (exec it)" and ?P = "item_pool it"
  let ?cs = "concat (map item_contexts its)" and ?ps = "concat (map item_pool its)"
  note L = assms [unfolded left_over_def Let_def]
  have cs: "?a \<noteq> ?b" "?a \<notin> set ?cs" "?b \<notin> set ?cs" "distinct ?cs" "?a \<noteq> nullptr" "?b \<noteq> nullptr" "nullptr \<notin> set ?cs"
    and ps: "distinct ?P" "distinct ?ps" "set ?P \<inter> set ?ps = {}"
    and q: "lq_inv (stack_pool (exec it))" "\<forall>it \<in> set its. lq_inv (stack_pool (exec it))"
    and dm: "dom (contexts r) = insert ?a (insert ?b (set ?cs))"
    using L by (auto simp: item_contexts_def)
  have c: "stacks r (ec_stack x) = Some (ec_size x)" "ec_stack x \<notin> set ?P" "ec_stack x \<notin> set ?ps"
    if "contexts r d = Some x" for d x using L that by auto
  have inj: "d = e" if "contexts r d = Some x" "contexts r e = Some y" "ec_stack x = ec_stack y" for d e x y
    using L that by blast
  have pool: "\<forall>s \<in> set ?P. stacks r s = Some COROUTINE_STACK_SIZE" "\<forall>s \<in> set ?ps. stacks r s = Some COROUTINE_STACK_SIZE"
    using L by auto
  have all: "s \<in> set ?P \<or> s \<in> set ?ps \<or> (\<exists>c x. contexts r c = Some x \<and> ec_stack x = s)" if "stacks r s \<noteq> None" for s
    using L that by auto
  obtain x y where x: "contexts r ?a = Some x" and y: "contexts r ?b = Some y" 
  proof -
    have "?a \<in> dom (contexts r)" "?b \<in> dom (contexts r)" using dm by simp_all
    then show ?thesis using that by blast
  qed
  have xy: "ec_stack x \<noteq> ec_stack y" using inj [OF x y] cs(1) by blast
  obtain r1 where r1: "delete_if (- 1) ?a r = Inr r1" "contexts r1 = (contexts r)(?a := None)"
    "stacks r1 = (stacks r)(ec_stack x := None)" using delete_outside [OF x c(1) [OF x] cs(5)] by blast
  have y1: "contexts r1 ?b = Some y" "stacks r1 (ec_stack y) = Some (ec_size y)"
    using y cs(1) c(1) [OF y] xy by (simp_all add: r1)
  obtain r2 where r2: "delete_if (- 1) ?b r1 = Inr r2" "contexts r2 = (contexts r1)(?b := None)"
    "stacks r2 = (stacks r1)(ec_stack y := None)" using delete_outside [OF y1 cs(6)] by blast
  have fuel: "length (lq_contents (stack_pool (exec it))) < Suc (unat (lq_size_approx (stack_pool (exec it))))"
  proof -
    obtain k where k: "lq_shape k (stack_pool (exec it))" using q(1) by (auto simp: lq_inv_def)
    then have "length (lq_contents (stack_pool (exec it))) \<le> 2 ^ k" "k \<le> 30" by (auto simp: lq_shape_def lq_contents_def)
    moreover have "(2 :: nat) ^ k \<le> 2 ^ 30" using \<open>k \<le> 30\<close> by (intro power_increasing) auto
    ultimately show ?thesis using lq.size_contents [OF q(1)] by (simp add: unat_of_nat)
  qed
  have P: "ec_stack x \<notin> set ?P" "ec_stack y \<notin> set ?P" using c(2) x y by blast+
  have "\<forall>s \<in> set (lq_contents (stack_pool (exec it))). stacks r2 s = Some COROUTINE_STACK_SIZE"
    using pool(1) P by (auto simp: r1 r2 item_pool_def)
  then obtain r3 where r3: "drain_pool (Suc (unat (lq_size_approx (stack_pool (exec it))))) (stack_pool (exec it)) r2 = Inr r3"
    "contexts r3 = contexts r2" "stacks r3 = (\<lambda>s. if s \<in> set ?P then None else stacks r2 s)"
    using drain_eff [OF q(1) fuel, of r2] ps(1) unfolding item_pool_def by blast
  have run: "thread_delete (- 1) (exec it) r = Inr r3" by (simp add: thread_delete_def r1 r2 r3 del: drain_pool.simps)
  have con: "contexts r3 d = (if d = ?a \<or> d = ?b then None else contexts r d)" for d by (simp add: r1 r2 r3)
  have stk: "stacks r3 s = (if s = ec_stack x \<or> s = ec_stack y \<or> s \<in> set ?P then None else stacks r s)" for s
    by (simp add: r1 r2 r3)
  have keep: "ec_stack z \<noteq> ec_stack x" "ec_stack z \<noteq> ec_stack y" if "contexts r3 d = Some z" for d z
    using that inj [of d z ?a x] inj [of d z ?b y] x y by (auto simp: con split: if_splits)
  have "left_over its r3"
    unfolding left_over_def Let_def
  proof (intro conjI)
    show "dom (contexts r3) = set ?cs" using dm cs(2,3) by (auto simp: con dom_def split: if_splits)
    show "\<forall>c x. contexts r3 c = Some x \<longrightarrow> stacks r3 (ec_stack x) = Some (ec_size x) \<and> ec_stack x \<notin> set ?ps"
      using c keep by (auto simp: stk con split: if_splits)
    show "\<forall>s \<in> set ?ps. stacks r3 s = Some COROUTINE_STACK_SIZE"
      using pool(2) ps(3) c(3) [OF x] c(3) [OF y] by (auto simp: stk)
    show "\<forall>s. stacks r3 s \<noteq> None \<longrightarrow> s \<in> set ?ps \<or> (\<exists>c x. contexts r3 c = Some x \<and> ec_stack x = s)"
    proof (intro allI impI)
      fix s assume "stacks r3 s \<noteq> None"
      then have s: "stacks r s \<noteq> None" "s \<noteq> ec_stack x" "s \<noteq> ec_stack y" "s \<notin> set ?P" by (auto simp: stk split: if_splits)
      then consider "s \<in> set ?ps" | d z where "contexts r d = Some z" "ec_stack z = s" using all by blast
      then show "s \<in> set ?ps \<or> (\<exists>c x. contexts r3 c = Some x \<and> ec_stack x = s)"
      proof cases
        case 2
        then have "d \<noteq> ?a" "d \<noteq> ?b" using s x y by auto
        then show ?thesis using 2 con by auto
      qed simp
    qed
    show "\<forall>c c' x x'. contexts r3 c = Some x \<longrightarrow> contexts r3 c' = Some x' \<longrightarrow> ec_stack x = ec_stack x' \<longrightarrow> c = c'"
      using inj by (auto simp: con split: if_splits)
  qed (use cs ps q in auto)
  with run show ?thesis by blast
qed

lemma delete_workers_left:
  "left_over its r \<Longrightarrow> \<exists>r'. delete_workers its r = Inr r' \<and> stacks r' = Map.empty \<and> contexts r' = Map.empty"
proof (induction its arbitrary: r)
  case Nil
  then have e: "contexts r = Map.empty" by (simp add: left_over_def)
  have "stacks r x = None" for x using Nil by (cases "stacks r x") (auto simp: left_over_def e)
  then have "stacks r = Map.empty" by blast
  with e show ?case by (simp add: delete_workers_def)
next
  case (Cons it its)
  obtain r1 where r1: "thread_delete (- 1) (exec it) r = Inr r1" "left_over its r1"
    using thread_delete_left [OF Cons.prems] by blast
  then show ?case using Cons.IH [OF r1(2)] by (simp add: delete_workers_def)
qed

lemma ended_left_over:
  assumes inv: "co_inv s" and ended: "\<forall>i < length (thread_exec_vec (rt s)). phase s i = Ended" and w: "waiting s = {}"
  shows "left_over (thread_exec_vec (rt s)) (rt s)"
proof -
  let ?r = "rt s" and ?v = "thread_exec_vec (rt s)"
  note I = co_invD [OF inv] note S = stacks_invD [OF I(1)]
  define n where "n = length ?v"
  have v: "map f ?v = map (\<lambda>i. f (?v ! i)) [0..<n]" for f :: "exec_item \<Rightarrow> ptr list"
    by (rule nth_equalityI) (simp_all add: n_def)
  have role: "plays s q c \<longleftrightarrow> (\<exists>i < n. (q = Current i \<and> context_ptr (th ?r i) = c) \<or> (q = Left_by i \<and> context_pre_ptr (th ?r i) = c))" for q c
    using ended w by (cases q) (auto simp: plays_simps n_def)
  have cs: "concat (map item_contexts ?v) = concat (map (\<lambda>i. [context_ptr (th ?r i), context_pre_ptr (th ?r i)]) [0..<n])"
    by (simp add: v item_contexts_def)
  have ps: "concat (map item_pool ?v) = concat (map (pool ?r) [0..<n])"
    by (simp add: v item_pool_def pool_def [abs_def])
  have dc: "distinct (concat (map (\<lambda>i. [context_ptr (th ?r i), context_pre_ptr (th ?r i)]) [0..<m]))" if "m \<le> n" for m
    using that
  proof (induction m)
    case (Suc m)
    have u: "q = q'" if "plays s q c" "plays s q' c" for q q' c using I(3) that .
    have roles: "plays s (Current i) (context_ptr (th ?r i))" "plays s (Left_by i) (context_pre_ptr (th ?r i))" if "i \<le> m" for i
      using that Suc.prems by (auto simp: role)
    have "context_ptr (th ?r m) \<noteq> context_pre_ptr (th ?r m)" using u roles [of m] by fastforce
    moreover have "context_ptr (th ?r m) \<noteq> context_ptr (th ?r i)" "context_ptr (th ?r m) \<noteq> context_pre_ptr (th ?r i)"
      "context_pre_ptr (th ?r m) \<noteq> context_ptr (th ?r i)" "context_pre_ptr (th ?r m) \<noteq> context_pre_ptr (th ?r i)" if "i < m" for i
      using u roles [of m] roles [of i] that by fastforce+
    ultimately show ?case using Suc by auto
  qed simp
  have dp: "distinct (concat (map (pool ?r) [0..<m]))" if "m \<le> n" for m
    using that
  proof (induction m)
    case (Suc m)
    have "set (pool ?r m) \<inter> set (pool ?r i) = {}" if i: "i < m" for i
    proof -
      have "False" if "x \<in> set (pool ?r m)" "x \<in> set (pool ?r i)" for x
        using S(2) [of "In_pool m" x "In_pool i"] that i Suc.prems by (simp add: holds_def n_def)
      then show ?thesis by blast
    qed
    then have "set (pool ?r m) \<inter> (\<Union>i < m. set (pool ?r i)) = {}" by blast
    moreover have "distinct (pool ?r m)" using S(1) [of m] Suc.prems by (simp add: n_def)
    moreover have "set (concat (map (pool ?r) [0..<m])) = (\<Union>i < m. set (pool ?r i))" by auto
    ultimately show ?case using Suc by (simp add: Int_commute)
  qed simp
  have set_ps: "x \<in> set (concat (map item_pool ?v)) \<longleftrightarrow> (\<exists>i. holds ?r (In_pool i) x)" for x
    unfolding ps by (auto simp: holds_def n_def)
  have hc: "holds ?r (In_context c) x \<longleftrightarrow> (\<exists>y. contexts ?r c = Some y \<and> ec_stack y = x)" for c x by (simp add: holds_def)
  show ?thesis
    unfolding left_over_def Let_def
  proof (intro conjI)
    show "distinct (concat (map item_contexts ?v))" using dc [of n] by (simp add: cs)
    show "distinct (concat (map item_pool ?v))" using dp [of n] by (simp add: ps)
    show "\<forall>it \<in> set ?v. lq_inv (stack_pool (exec it))" using S(1) by (auto simp: in_set_conv_nth)
    have "c \<in> set (concat (map item_contexts ?v)) \<longleftrightarrow> (\<exists>q. plays s q c)" for c
    proof -
      have "(\<exists>q. plays s q c) \<longleftrightarrow> (\<exists>i < n. context_ptr (th ?r i) = c \<or> context_pre_ptr (th ?r i) = c)"
        unfolding role by blast
      then show ?thesis unfolding cs by auto
    qed
    then show d: "dom (contexts ?r) = set (concat (map item_contexts ?v))" using I(4,5) by (auto simp: dom_def)
    show "nullptr \<notin> set (concat (map item_contexts ?v))" using I(6) unfolding d [symmetric] by auto
    show "\<forall>c x. contexts ?r c = Some x \<longrightarrow> stacks ?r (ec_stack x) = Some (ec_size x)
        \<and> ec_stack x \<notin> set (concat (map item_pool ?v))"
      using S(2) S(5) unfolding set_ps by (metis hc place.distinct(1))
    show "\<forall>c c' x x'. contexts ?r c = Some x \<longrightarrow> contexts ?r c' = Some x' \<longrightarrow> ec_stack x = ec_stack x' \<longrightarrow> c = c'"
      using S(2) by (metis hc place.inject(2))
    show "\<forall>x \<in> set (concat (map item_pool ?v)). stacks ?r x = Some COROUTINE_STACK_SIZE"
      using S(4) set_ps by blast
    show "\<forall>x. stacks ?r x \<noteq> None \<longrightarrow> x \<in> set (concat (map item_pool ?v)) \<or> (\<exists>c y. contexts ?r c = Some y \<and> ec_stack y = x)"
      using S(3) unfolding set_ps by (metis hc place.exhaust)
  qed
qed


section \<open>One worker\<close>

definition bare :: runtime where
  "bare = \<lparr>mem = \<lparr>w_nodes = (\<lambda>_. None), w_graphs = (\<lambda>_. None), inner_schedule = None,
       ready_worker_num = 0, pending_worker_num = 0, enable_qf_check_circle = False,
       enable_qf_dump_graph = False\<rparr>, contexts = (\<lambda>_. None), stacks = (\<lambda>_. None),
     thread_exec_vec = [], idle_worker_num = 0, pending_context_num = 0, backs = (\<lambda>_. None)\<rparr>"

definition bare_start :: coroutines where
  "bare_start = \<lparr>rt = bare, phase = (\<lambda>_. Ended), waiting = {}\<rparr>"

text \<open>A worker with one spare stack that has made its first switch and is in its loop.\<close>

lemma one_worker:
  "\<exists>s. creach s \<and> length (thread_exec_vec (rt s)) = 1 \<and> phase s 0 = Scheduling \<and> waiting s = {}"
proof -
  let ?s0 = "bare_start"
  have r0: "creach ?s0" by (rule start) (simp add: no_workers_def bare_start_def bare_def fun_eq_iff)
  have a: "length (thread_exec_vec (rt ?s0)) < max_workers" "fresh_stacks (101 # 102 # [100]) (rt ?s0)"
    "fresh_contexts [200, 201] (rt ?s0)" and n0: "length (thread_exec_vec (rt ?s0)) = 0"
    by (simp_all add: bare_start_def bare_def max_workers_def fresh_stacks_def fresh_contexts_def)
  obtain t r1 r2 where r: "thread_new [100] (rt ?s0) = Inr (t, r1)" "routine t 200 101 201 102 r1 = Inr r2"
    "length (thread_exec_vec r2) = 1"
    using spawn_eff [OF co_invD(1) [OF creach_inv [OF r0]] _ _ _ a(2,3)] n0 by auto
  let ?s1 = "?s0\<lparr>rt := r2, phase := (phase ?s0)(length (thread_exec_vec (rt ?s0)) := Switched)\<rparr>"
  have s1: "creach ?s1" by (rule more [OF r0 spawn [OF a(1) _ _ a(2,3) r(1,2)]]) simp_all
  have i: "0 < length (thread_exec_vec (rt ?s1))" "phase ?s1 0 = Switched" using r(3) n0 by simp_all
  obtain r3 where r3: "change_context_status 0 (rt ?s1) = Inr r3"
    using settle_step [OF creach_inv [OF s1] i] by blast
  let ?s2 = "?s1\<lparr>rt := r3, phase := (phase ?s1)(0 := Scheduling)\<rparr>"
  have "creach ?s2" by (rule more [OF s1 settle [OF i r3]])
  moreover have "length (thread_exec_vec r3) = 1"
    using r3 r(3) by (auto simp: change_context_status_def context_set_status_def split: if_splits)
  ultimately show ?thesis using n0 by (intro exI [of _ ?s2]) (simp add: bare_start_def)
qed

lemma one_ended:
  "\<exists>s. creach s \<and> length (thread_exec_vec (rt s)) = 1 \<and> phase s 0 = Ended \<and> waiting s = {}"
proof -
  obtain s where s: "creach s" "length (thread_exec_vec (rt s)) = 1" "phase s 0 = Scheduling" "waiting s = {}"
    using one_worker by blast
  have i: "0 < length (thread_exec_vec (rt s))" using s(2) by simp
  obtain r where r: "leave_schedule 0 (rt s) = Inr r" using leave_step [OF creach_inv [OF s(1)] i s(3)] by blast
  let ?s = "s\<lparr>rt := r, phase := (phase s)(0 := Ended)\<rparr>"
  have "creach ?s" by (rule more [OF s(1) leave [OF i s(3) r]])
  moreover have "length (thread_exec_vec r) = 1"
    using r s(2) by (auto simp: leave_schedule_def set_context_def)
  ultimately show ?thesis using s(4) by (intro exI [of _ ?s]) simp
qed

section \<open>Properties\<close>

text \<open>C2: no two workers ever run on the same context, and no two contexts ever have the same
  stack; a stack in the pool of a worker belongs to no context and to no other pool. So a task
  that is brought back by another worker is never continued while its old worker is still on
  its stack.\<close>

theorem contexts_never_shared:
  assumes "creach s" and "i < length (thread_exec_vec (rt s))"
  shows "(\<forall>j < length (thread_exec_vec (rt s)). j \<noteq> i \<longrightarrow> context_ptr (th (rt s) j) \<noteq> context_ptr (th (rt s) i))
    \<and> context_ptr (th (rt s) i) \<notin> waiting s
    \<and> (\<forall>c x y. contexts (rt s) (context_ptr (th (rt s) i)) = Some x \<longrightarrow> contexts (rt s) c = Some y
         \<longrightarrow> ec_stack x = ec_stack y \<longrightarrow> c = context_ptr (th (rt s) i))
    \<and> (\<forall>t \<in> set (pool (rt s) i). (\<forall>c x. contexts (rt s) c = Some x \<longrightarrow> ec_stack x \<noteq> t)
         \<and> (\<forall>j < length (thread_exec_vec (rt s)). j \<noteq> i \<longrightarrow> t \<notin> set (pool (rt s) j)))"
proof -
  have inv: "co_inv s" by (rule creach_inv [OF assms(1)])
  note I = co_invD [OF inv] and S = stacks_invD [OF co_invD(1) [OF inv]]
  have cur: "plays s (Current j) (context_ptr (th (rt s) j))" if "j < length (thread_exec_vec (rt s))" for j
    using that by (simp add: plays_simps)
  have hc: "holds (rt s) (In_context c) (ec_stack x)" if "contexts (rt s) c = Some x" for c x
    using that by (simp add: holds_def)
  have hp: "holds (rt s) (In_pool j) t" if "j < length (thread_exec_vec (rt s))" "t \<in> set (pool (rt s) j)" for j t
    using that by (simp add: holds_def)
  show ?thesis
  proof (intro conjI allI ballI impI)
    show "context_ptr (th (rt s) j) \<noteq> context_ptr (th (rt s) i)" if "j < length (thread_exec_vec (rt s))" "j \<noteq> i" for j
      using I(3) [OF cur [OF that(1)]] cur [OF assms(2)] that(2) by fastforce
    show "context_ptr (th (rt s) i) \<notin> waiting s"
      using I(3) [OF cur [OF assms(2)], of Waits] by (auto simp: plays_simps)
    show "c = context_ptr (th (rt s) i)"
      if "contexts (rt s) (context_ptr (th (rt s) i)) = Some x" "contexts (rt s) c = Some y" "ec_stack x = ec_stack y" for c x y
      using S(2) [OF hc [OF that(2)]] hc [OF that(1)] that(3) by fastforce
    show "ec_stack x \<noteq> t" if "t \<in> set (pool (rt s) i)" "contexts (rt s) c = Some x" for t c x
      using S(2) [OF hc [OF that(2)]] hp [OF assms(2) that(1)] by fastforce
    show "t \<notin> set (pool (rt s) j)" if "t \<in> set (pool (rt s) i)" "j < length (thread_exec_vec (rt s))" "j \<noteq> i" for t j
      using S(2) [OF hp [OF assms(2) that(1)]] hp [OF that(2)] that(3) by fastforce
  qed
qed

theorem contexts_never_shared_witness:
  "\<exists>s. creach s \<and> length (thread_exec_vec (rt s)) = 1 \<and> context_ptr (th (rt s) 0) \<notin> waiting s"
proof -
  obtain s where s: "creach s" "length (thread_exec_vec (rt s)) = 1" using one_worker by blast
  with contexts_never_shared [OF s(1), of 0] show ?thesis by auto
qed

text \<open>C14: the switches never fail: in every reachable state a worker can settle on the context it
  has switched to, block in a task (given fresh memory), take over a waiting context that has
  been left, delete the context a resumed task came from and leave its loop, without touching
  a deleted context or unmapping a stack twice.\<close>

theorem switches_never_fail:
  assumes "creach s" and "i < length (thread_exec_vec (rt s))"
  shows "(phase s i = Switched \<longrightarrow> (\<exists>r. change_context_status i (rt s) = Inr r))
    \<and> (phase s i = Resumed \<longrightarrow> (\<exists>r. drop_pre (of_nat i) i (rt s) = Inr r))
    \<and> (phase s i = Scheduling \<longrightarrow> (\<exists>r. leave_schedule i (rt s) = Inr r)
         \<and> (fresh_stacks [m] (rt s) \<longrightarrow> fresh_contexts [c] (rt s) \<longrightarrow>
              (\<exists>r. swap_new_context (of_nat i) i (context_ptr (th (rt s) i)) c m (rt s) = Inr r))
         \<and> (b \<in> waiting s \<longrightarrow> status_of (rt s) b = Some Yield \<longrightarrow>
              (\<exists>r. back_switch i task b (rt s) = Inr r)))"
proof -
  have inv: "co_inv s" by (rule creach_inv [OF assms(1)])
  show ?thesis
    using settle_step [OF inv assms(2)] drop_step [OF inv assms(2)] leave_step [OF inv assms(2)]
      block_step [OF inv assms(2), of m c] resume_step [OF inv assms(2), of b task] by blast
qed

theorem switches_never_fail_witness:
  "\<exists>s r. creach s \<and> phase s 0 = Scheduling \<and> leave_schedule 0 (rt s) = Inr r"
proof -
  obtain s where s: "creach s" "length (thread_exec_vec (rt s)) = 1" "phase s 0 = Scheduling"
    using one_worker by blast
  with switches_never_fail [OF s(1), of 0] show ?thesis by auto
qed

text \<open>C15: nothing leaks at the end: when every worker has left its loop and no task is blocked,
  deleting the workers succeeds and gives back every context and every mapping.\<close>

theorem workers_leave_no_stacks:
  assumes "creach s" and "\<forall>i < length (thread_exec_vec (rt s)). phase s i = Ended" and "waiting s = {}"
  shows "\<exists>r. delete_workers (thread_exec_vec (rt s)) (rt s) = Inr r
    \<and> stacks r = Map.empty \<and> contexts r = Map.empty"
  by (rule delete_workers_left [OF ended_left_over [OF creach_inv [OF assms(1)] assms(2,3)]])

theorem workers_leave_no_stacks_witness:
  "\<exists>s r. creach s \<and> length (thread_exec_vec (rt s)) = 1
    \<and> delete_workers (thread_exec_vec (rt s)) (rt s) = Inr r \<and> stacks r = Map.empty \<and> contexts r = Map.empty"
proof -
  obtain s where s: "creach s" "length (thread_exec_vec (rt s)) = 1" "phase s 0 = Ended" "waiting s = {}"
    using one_ended by blast
  have "\<forall>i < length (thread_exec_vec (rt s)). phase s i = Ended" using s(2,3) by simp
  from workers_leave_no_stacks [OF s(1) this s(4)] s show ?thesis by blast
qed

end
