(* ===== verification/Scheduler.thy ===== *)
theory Scheduler
  imports Coroutine Lifecycle Dag_Edges
begin

text \<open>
  src/schedule.cpp: \<open>Schedule::init\<close> and \<open>Schedule::destroy\<close>, the loop of a worker
  (\<open>jump_in_schedule\<close>, \<open>do_schedule\<close>, \<open>run_task\<close>) over the contexts of Executor, the task queue
  of Task_Queue and the tasks of Lifecycle. The addresses \<open>new\<close> and \<open>mmap\<close> return are arguments.
\<close>

section \<open>Construction\<close>

text \<open>The number of workers: the rounding in \<open>init_work_thread\<close>.\<close>

definition round_workers :: "u64 \<Rightarrow> u64" where
  "round_workers worker_num =
     (let n = worker_num + (if and worker_num 7 \<noteq> 0 then 8 else 0) in and n (not 7))"

text \<open>\<open>Schedule::Schedule\<close>: \<open>g\<close> is the address of the root graph.\<close>

definition schedule_new :: "gid \<Rightarrow> world \<Rightarrow> (schedule \<times> world) result" where
  "schedule_new g w =
     rbind (tq_new 4096) (\<lambda>q.
       Inr (\<lparr>root_graph = Some g, s_status = Initing, s_task_queue = q\<rparr>, put_graph g (graph_new nullptr) w))"

text \<open>\<open>Schedule::~Schedule\<close> and the \<open>delete\<close> in \<open>destroy\<close>, on a thread that is no worker.\<close>

definition schedule_delete :: "schedule \<Rightarrow> world \<Rightarrow> world result" where
  "schedule_delete s w =
     rbind (case root_graph s of
              None \<Rightarrow> Inr w
            | Some g \<Rightarrow> rbind (clear_graph False (\<lambda>_. Inr) g w) (graph_delete False (\<lambda>_. Inr) g))
       (\<lambda>w1. Inr (w1\<lparr>inner_schedule := None\<rparr>))"

text \<open>What the allocator gives a worker: the stacks of its pool, its thread context and the stack
  of that, its first scheduler context and a stack for that if the pool has none.\<close>

record worker_memory =
  wm_pool :: "ptr list"
  wm_thread_context :: ptr
  wm_thread_stack :: ptr
  wm_context :: ptr
  wm_stack :: ptr

text \<open>\<open>new Thread(routine)\<close> and the new thread up to its loop; \<open>mutex_\<close> keeps the workers apart
  while the schedule is \<open>Initing\<close>.\<close>

definition spawn_worker :: "worker_memory \<Rightarrow> runtime \<Rightarrow> runtime result" where
  "spawn_worker a r =
     (let i = length (thread_exec_vec r) in
      rbind (thread_new (wm_pool a) r) (\<lambda>(t, r1).
      rbind (routine t (wm_thread_context a) (wm_thread_stack a) (wm_context a) (wm_stack a) r1)
        (change_context_status i)))"

text \<open>The test of the last loop of \<open>init_work_thread\<close>: every thread context has been left.\<close>

definition all_yielded :: "runtime \<Rightarrow> bool" where
  "all_yielded r \<longleftrightarrow>
     list_all (\<lambda>it. map_option ec_status (contexts r (thread_context (exec it))) = Some Yield)
       (thread_exec_vec r)"

definition init_work_thread :: "u64 \<Rightarrow> (nat \<Rightarrow> worker_memory) \<Rightarrow> runtime \<Rightarrow> runtime result" where
  "init_work_thread worker_num alloc r =
     rbind (rfold (\<lambda>i. spawn_worker (alloc i)) [0 ..< unat (round_workers worker_num)]
              (r\<lparr>thread_exec_vec := []\<rparr>)) (\<lambda>r1.
       if length (thread_exec_vec r1) = unat (round_workers worker_num) \<and> all_yielded r1
       then Inr r1 else Inl Diverges)"

definition set_schedule_status :: "RunningStatus \<Rightarrow> world \<Rightarrow> world result" where
  "set_schedule_status st w =
     rbind (deref (inner_schedule w)) (\<lambda>s. Inr (w\<lparr>inner_schedule := Some (s\<lparr>s_status := st\<rparr>)\<rparr>))"

definition schedule_init :: "u64 \<Rightarrow> gid \<Rightarrow> (nat \<Rightarrow> worker_memory) \<Rightarrow> runtime \<Rightarrow> runtime result" where
  "schedule_init worker_num g alloc r =
     rbind (qf_assert (worker_num > 0) ''worker_num > 0'') (\<lambda>_.
     let w = (mem r)\<lparr>ready_worker_num := 0, pending_worker_num := 0\<rparr> in
     rbind (schedule_new g w) (\<lambda>(s, w1).
     rbind (init_work_thread worker_num alloc
              (r\<lparr>idle_worker_num := ucast worker_num, mem := w1\<lparr>inner_schedule := Some s\<rparr>\<rparr>)) (\<lambda>r1.
     rbind (set_schedule_status Running (mem r1)) (\<lambda>w2. Inr (r1\<lparr>mem := w2\<rparr>)))))"

section \<open>The loop of a worker\<close>

text \<open>
  A task that blocks may be continued by another worker, so \<open>run\<close> (the virtual \<open>run()\<close> of the
  task) takes the worker it begins on and returns the one it ends on; so do the functions that
  call it.
\<close>

definition set_current_task :: "nat \<Rightarrow> nid \<Rightarrow> runtime \<Rightarrow> runtime result" where
  "set_current_task i task r =
     rbind (vget (thread_exec_vec r) i) (\<lambda>it.
       Inr (r\<lparr>thread_exec_vec := (thread_exec_vec r)[i := it\<lparr>current_task := task\<rparr>]\<rparr>))"

fun worker_tasks ::
  "(nat \<Rightarrow> nid \<Rightarrow> runtime \<Rightarrow> (nat \<times> runtime) result) \<Rightarrow> (gid \<Rightarrow> world \<Rightarrow> world result)
   \<Rightarrow> (nid list \<Rightarrow> world \<Rightarrow> world result) \<Rightarrow> nat \<Rightarrow> nat \<Rightarrow> nid \<Rightarrow> runtime \<Rightarrow> (nat \<times> runtime) result" where
  "worker_tasks run wait_graph wait_nodes 0 i task r =
     (if task = nullptr then Inr (i, r) else Inl Diverges)"
| "worker_tasks run wait_graph wait_nodes (Suc fuel) i task r =
     (if task = nullptr then Inr (i, r) else
      rbind (set_current_task i task r) (\<lambda>r1.
      rbind (begin_task task (mem r1)) (\<lambda>w1.
      rbind (run i task (r1\<lparr>mem := w1\<rparr>)) (\<lambda>(j, r2).
      rbind (end_task wait_graph wait_nodes task (mem r2)) (\<lambda>(next_task, w3).
        worker_tasks run wait_graph wait_nodes fuel j next_task (r2\<lparr>mem := w3\<rparr>))))))"

definition worker_run_task ::
  "(nat \<Rightarrow> nid \<Rightarrow> runtime \<Rightarrow> (nat \<times> runtime) result) \<Rightarrow> (gid \<Rightarrow> world \<Rightarrow> world result)
   \<Rightarrow> (nid list \<Rightarrow> world \<Rightarrow> world result) \<Rightarrow> nat \<Rightarrow> nat \<Rightarrow> nid \<Rightarrow> runtime \<Rightarrow> (nat \<times> runtime) result" where
  "worker_run_task run wait_graph wait_nodes fuel i task r =
     worker_tasks run wait_graph wait_nodes fuel i task
       (r\<lparr>mem := (mem r)\<lparr>ready_worker_num := ready_worker_num (mem r) - 1\<rparr>\<rparr>)"

text \<open>\<open>Schedule::do_schedule\<close>: at most \<open>fuel\<close> tasks; \<open>wait_dequeue\<close> sleeps at most \<open>spins\<close> times.\<close>

fun do_schedule ::
  "(nat \<Rightarrow> nid \<Rightarrow> runtime \<Rightarrow> (nat \<times> runtime) result) \<Rightarrow> nat \<Rightarrow> nat \<Rightarrow> nat \<Rightarrow> runtime
   \<Rightarrow> (nat \<times> runtime) result" where
  "do_schedule exec_task spins 0 i r = Inl Diverges"
| "do_schedule exec_task spins (Suc fuel) i r =
     rbind (deref (inner_schedule (mem r))) (\<lambda>s.
     rbind (wait_dequeue spins (s_task_queue s)) (\<lambda>(q, task).
       let r1 = r\<lparr>mem := (mem r)\<lparr>inner_schedule := Some (s\<lparr>s_task_queue := q\<rparr>)\<rparr>\<rparr> in
       if task = flag_node then Inr (i, r1)
       else rbind (exec_task i task (r1\<lparr>idle_worker_num := idle_worker_num r1 - 1\<rparr>)) (\<lambda>(j, r2).
              do_schedule exec_task spins fuel j (r2\<lparr>idle_worker_num := idle_worker_num r2 + 1\<rparr>))))"

text \<open>\<open>Schedule::jump_in_schedule\<close> after \<open>change_context_status\<close>.\<close>

definition work_and_leave ::
  "(nat \<Rightarrow> nid \<Rightarrow> runtime \<Rightarrow> (nat \<times> runtime) result) \<Rightarrow> nat \<Rightarrow> nat \<Rightarrow> nat \<Rightarrow> runtime \<Rightarrow> runtime result" where
  "work_and_leave exec_task spins fuel i r =
     rbind (do_schedule exec_task spins fuel i r) (\<lambda>(j, r1). leave_schedule j r1)"

definition jump_in_schedule ::
  "(nat \<Rightarrow> nid \<Rightarrow> runtime \<Rightarrow> (nat \<times> runtime) result) \<Rightarrow> nat \<Rightarrow> nat \<Rightarrow> nat \<Rightarrow> runtime \<Rightarrow> runtime result" where
  "jump_in_schedule exec_task spins fuel i r =
     rbind (change_context_status i r) (work_and_leave exec_task spins fuel i)"

definition idle_worker_add :: "runtime \<Rightarrow> runtime" where
  "idle_worker_add r = r\<lparr>idle_worker_num := idle_worker_num r + 1\<rparr>"

text \<open>\<open>RootNode::RootNode\<close>, and \<open>Schedule::add_root_task\<close> in a release build.\<close>

definition root_new :: "nid \<Rightarrow> node \<Rightarrow> world \<Rightarrow> world result" where
  "root_new n raw w = mod_node n (\<lambda>x. x\<lparr>root_node := n, ghost := True\<rparr>) (node_new n raw w)"

definition add_root_task :: "nid \<Rightarrow> world \<Rightarrow> world result" where
  "add_root_task root_task w = add_new_task root_task w"

section \<open>Destruction\<close>

text \<open>Two flag nodes for every worker.\<close>

fun add_flags :: "nat \<Rightarrow> world \<Rightarrow> world result" where
  "add_flags 0 w = Inr w"
| "add_flags (Suc n) w =
     rbind (add_new_task flag_node w) (\<lambda>w1. rbind (add_new_task flag_node w1) (add_flags n))"

definition root_nodes :: "schedule \<Rightarrow> world \<Rightarrow> nid list result" where
  "root_nodes s w =
     (case root_graph s of None \<Rightarrow> Inr [] | Some g \<Rightarrow> rbind (graph_at g w) (\<lambda>gr. Inr (get_nodes gr)))"

text \<open>
  \<open>Schedule::destroy\<close> on a thread that is no worker, when the workers have come to rest: the
  loops that wait for the nodes of the root graph and for \<open>pending_worker_num_\<close> end at once or
  never. The destructor of a worker joins its thread, so all workers leave first.
\<close>

definition destroy ::
  "(nat \<Rightarrow> nid \<Rightarrow> runtime \<Rightarrow> (nat \<times> runtime) result) \<Rightarrow> nat \<Rightarrow> nat \<Rightarrow> runtime \<Rightarrow> runtime result" where
  "destroy exec_task spins fuel r =
     (case inner_schedule (mem r) of
        None \<Rightarrow> Inr r
      | Some s \<Rightarrow>
          rbind (root_nodes s (mem r)) (\<lambda>required_nodes.
          rbind (all_recoverable required_nodes (mem r)) (\<lambda>ok.
          if \<not> ok then Inl Diverges
          else if \<not> enable_qf_dump_graph (mem r) \<and> pending_worker_num (mem r) \<noteq> 0 then Inl Diverges
          else
            rbind (add_flags (length (thread_exec_vec r)) (mem r)) (\<lambda>w.
            rbind (rfold (work_and_leave exec_task spins fuel) [0 ..< length (thread_exec_vec r)]
                     (r\<lparr>mem := w\<rparr>)) (\<lambda>r1.
            rbind (delete_workers (thread_exec_vec r1) r1) (\<lambda>r2.
            rbind (deref (inner_schedule (mem r2))) (\<lambda>s2.
            rbind (schedule_delete s2 (mem r2)) (\<lambda>w2.
              Inr (r2\<lparr>thread_exec_vec := [], idle_worker_num := 0, mem := w2\<rparr>)))))))))"

section \<open>The number of workers\<close>

lemma and_7: "and n 7 = 0 \<longleftrightarrow> unat (n :: u64) mod 8 = 0"
proof -
  have "and n 7 = take_bit 3 n" by (simp add: mask_eq_exp_minus_1 take_bit_eq_mask)
  then have "unat (and n 7) = unat n mod 8" by (simp add: take_bit_eq_mod unat_mod_distrib)
  then show ?thesis by (metis unat_eq_zero)
qed

lemma and_not_7: "unat (and n (not 7) :: u64) = unat n div 8 * 8"
proof -
  have "not (7 :: u64) = not (mask 3)" by (simp add: mask_eq_exp_minus_1)
  moreover have "and n (not (mask 3)) = push_bit 3 (drop_bit 3 n)"
    by (rule bit_word_eqI) (auto simp: bit_simps not_less)
  moreover have "unat n < 2 ^ 64" using unsigned_less [of n, where ?'a = nat] by simp
  then have "unat (push_bit 3 (drop_bit 3 n)) = unat n div 8 * 8"
    by (simp add: push_bit_eq_mult drop_bit_eq_div unat_word_ariths unat_div_distrib)
  ultimately show ?thesis by (simp del: not_numeral_eq) 
qed

lemma div_up_8: "(m + 7) div 8 = (if m mod 8 = 0 then m div 8 else (m + 8) div 8)" for m :: nat
proof -
  obtain q k where "m = 8 * q + k" "k < 8" by (metis mod_less_divisor mult_div_mod_eq zero_less_numeral)
  moreover from this have "(8 * q + k + 7) div 8 = Suc q \<and> (8 * q + k + 8) div 8 = Suc q" if "k \<noteq> 0"
    using that by (auto intro!: div_nat_eqI)
  ultimately show ?thesis by (cases "k = 0") auto
qed

lemma round_workers_up:
  assumes "unat n \<le> 2 ^ 64 - 8"
  shows "unat (round_workers n) = (unat n + 7) div 8 * 8"
proof (cases "unat n mod 8 = 0")
  case True
  then show ?thesis unfolding round_workers_def Let_def and_not_7 and_7 div_up_8 by simp
next
  case False
  then have "unat n \<noteq> 2 ^ 64 - 8" by auto
  then have "unat (n + 8) = unat n + 8" using assms by (simp add: unat_word_ariths)
  then show ?thesis unfolding round_workers_def Let_def and_not_7 and_7 div_up_8 using False by simp
qed


section \<open>New workers\<close>

text \<open>What the functions on contexts and stacks leave alone.\<close>

definition kept :: "runtime \<Rightarrow> runtime \<Rightarrow> bool" where
  "kept r r' \<longleftrightarrow> mem r' = mem r \<and> idle_worker_num r' = idle_worker_num r \<and> backs r' = backs r"

lemma kept_trans [trans]: "kept r r' \<Longrightarrow> kept r' r'' \<Longrightarrow> kept r r''"
  by (simp add: kept_def)

lemma kept_simps [simp]:
  "kept r (put_thread i t r') = kept r r'" "kept r (put_context c x r') = kept r r'"
  "kept r (free_context c r') = kept r r'" "kept r (malloc_stack m z r') = kept r r'" "kept r r"
  "kept r (pending_context_num_update f r') = kept r r'" "kept r (thread_exec_vec_update g r') = kept r r'"
  "kept r (stacks_update h r') = kept r r'"
  "kept (pending_context_num_update f r) r' = kept r r'" "kept (put_thread i t r) r' = kept r r'"
  "kept (malloc_stack m z r) r' = kept r r'"
  by (simp_all add: kept_def put_thread_def put_context_def free_context_def malloc_stack_def)

lemma get_stack_kept: "get_stack i r = Inr (s, r') \<Longrightarrow> kept r r' \<and> stacks r' = stacks r"
  by (auto simp: get_stack_def)

lemma put_stack_kept: "put_stack i s r = Inr (b, r') \<Longrightarrow> kept r r'"
  by (auto simp: put_stack_def)

lemma context_new_kept:
  assumes "context_new me z c m r = Inr r'"
  shows "kept r r' \<and> dom (stacks r') \<subseteq> insert m (dom (stacks r))"
  using assms by (auto simp: context_new_def Let_def split: if_splits option.splits dest!: get_stack_kept)

lemma set_status_kept: "context_set_status c st r = Inr r' \<Longrightarrow> kept r r' \<and> stacks r' = stacks r"
  by (auto simp: context_set_status_def)

lemma swap_new_context_kept:
  assumes "swap_new_context me i out c m r = Inr r'"
  shows "kept r r' \<and> dom (stacks r') \<subseteq> insert m (dom (stacks r))"
proof -
  obtain t r1 r2 where "context_new me COROUTINE_STACK_SIZE c m r1 = Inr r2"
    "kept r r1" "stacks r1 = stacks r" "kept r r' = kept r r2" "stacks r' = stacks r2"
    using assms by (auto simp: swap_new_context_def Let_def)
  then show ?thesis using context_new_kept [of me _ c m r1 r2] kept_trans [of r r1 r2] by simp
qed

lemma fill_pool_kept:
  "fill_pool ms (q, r) = Inr (q', r') \<Longrightarrow> kept r r' \<and> dom (stacks r') \<subseteq> set ms \<union> dom (stacks r)"
proof (induction ms arbitrary: q r)
  case (Cons m ms)
  then obtain q1 b where "fill_pool ms (q1, malloc_stack m COROUTINE_STACK_SIZE r) = Inr (q', r')"
    by (auto simp: Let_def)
  from Cons.IH [OF this] show ?case by auto
qed simp

lemma routine_kept:
  assumes "routine t tc m1 c m2 r = Inr r'"
  shows "kept r r' \<and> dom (stacks r') \<subseteq> {m1, m2} \<union> dom (stacks r)"
proof -
  obtain r1 r2 where a: "context_new (of_nat (length (thread_exec_vec r))) 1 tc m1 r = Inr r1"
    "context_set_status tc Ready (r1\<lparr>thread_exec_vec := thread_exec_vec r1
        @ [\<lparr>exec = t\<lparr>thread_context := tc\<rparr>, current_task = nullptr\<rparr>]\<rparr>) = Inr r2"
    "swap_new_context (of_nat (length (thread_exec_vec r))) (length (thread_exec_vec r)) tc c m2 r2 = Inr r'"
    using assms by (auto simp: routine_def Let_def)
  have 1: "kept r r1" "dom (stacks r1) \<subseteq> insert m1 (dom (stacks r))" using context_new_kept [OF a(1)] by auto
  have 2: "kept r1 r2" "stacks r2 = stacks r1" using set_status_kept [OF a(2)] by (auto simp: kept_def)
  have 3: "kept r2 r'" "dom (stacks r') \<subseteq> insert m2 (dom (stacks r2))" using swap_new_context_kept [OF a(3)] by auto
  show ?thesis using kept_trans [OF kept_trans [OF 1(1) 2(1)] 3(1)] 1(2) 2(2) 3(2) by (simp; blast)
qed

lemma change_status_kept: "change_context_status i r = Inr r' \<Longrightarrow> kept r r' \<and> stacks r' = stacks r"
  by (auto simp: change_context_status_def context_set_status_def split: if_splits)

lemma spawn_kept:
  assumes "spawn_worker a r = Inr r'"
  shows "kept r r' \<and> dom (stacks r') \<subseteq> set (wm_thread_stack a # wm_stack a # wm_pool a) \<union> dom (stacks r)"
proof -
  obtain t r1 r2 where a: "thread_new (wm_pool a) r = Inr (t, r1)"
    "routine t (wm_thread_context a) (wm_thread_stack a) (wm_context a) (wm_stack a) r1 = Inr r2"
    "change_context_status (length (thread_exec_vec r)) r2 = Inr r'"
    using assms by (auto simp: spawn_worker_def Let_def)
  obtain q q' where "fill_pool (wm_pool a) (q, r) = Inr (q', r1)" using a(1) by (auto simp: thread_new_def)
  from fill_pool_kept [OF this] have 1: "kept r r1" "dom (stacks r1) \<subseteq> set (wm_pool a) \<union> dom (stacks r)" by auto
  have 2: "kept r1 r2" "dom (stacks r2) \<subseteq> {wm_thread_stack a, wm_stack a} \<union> dom (stacks r1)"
    using routine_kept [OF a(2)] by auto
  have 3: "kept r2 r'" "stacks r' = stacks r2" using change_status_kept [OF a(3)] by auto
  show ?thesis using kept_trans [OF kept_trans [OF 1(1) 2(1)] 3(1)] 1(2) 2(2) 3(2) by (simp; blast)
qed

text \<open>Every worker is in its loop and its thread context has been left.\<close>

definition workers_ready :: "coroutines \<Rightarrow> bool" where
  "workers_ready s \<longleftrightarrow> creach s \<and> waiting s = {}
     \<and> (\<forall>i < length (thread_exec_vec (rt s)). phase s i = Scheduling
          \<and> status_of (rt s) (thread_context (th (rt s) i)) = Some Yield)"

definition fresh_worker :: "worker_memory \<Rightarrow> runtime \<Rightarrow> bool" where
  "fresh_worker a r \<longleftrightarrow> wm_pool a \<noteq> [] \<and> length (wm_pool a) \<le> 2 ^ 30
     \<and> fresh_stacks (wm_thread_stack a # wm_stack a # wm_pool a) r
     \<and> fresh_contexts [wm_thread_context a, wm_context a] r"

lemma spawn_ready:
  assumes ready: "workers_ready s" and len: "length (thread_exec_vec (rt s)) < max_workers"
    and fresh: "fresh_worker a (rt s)"
  defines "n \<equiv> length (thread_exec_vec (rt s))"
  shows "\<exists>r. spawn_worker a (rt s) = Inr r \<and> workers_ready (s\<lparr>rt := r, phase := (phase s)(n := Scheduling)\<rparr>)
    \<and> length (thread_exec_vec r) = Suc n
    \<and> dom (contexts r) = {wm_thread_context a, wm_context a} \<union> dom (contexts (rt s))"
proof -
  let ?tc = "wm_thread_context a" and ?c = "wm_context a"
  have s: "creach s" "waiting s = {}" "\<And>i. i < n \<Longrightarrow> phase s i = Scheduling
    \<and> status_of (rt s) (thread_context (th (rt s) i)) = Some Yield"
    using ready by (auto simp: workers_ready_def n_def)
  have f: "wm_pool a \<noteq> []" "length (wm_pool a) \<le> 2 ^ 30"
    "fresh_stacks (wm_thread_stack a # wm_stack a # wm_pool a) (rt s)" "fresh_contexts [?tc, ?c] (rt s)"
    using fresh by (auto simp: fresh_worker_def)
  have c: "?tc \<noteq> ?c" "contexts (rt s) ?tc = None" "contexts (rt s) ?c = None" "?tc \<noteq> nullptr"
    using f(4) by (auto simp: fresh_contexts_def)
  obtain t r1 r2 st where r2: "thread_new (wm_pool a) (rt s) = Inr (t, r1)"
      "routine t ?tc (wm_thread_stack a) ?c (wm_stack a) r1 = Inr r2" "length (thread_exec_vec r2) = Suc n"
    and old: "\<And>j. j < n \<Longrightarrow> thread_context (th r2 j) = thread_context (th (rt s) j)"
    and new: "context_ptr (th r2 n) = ?c" "context_pre_ptr (th r2 n) = ?tc" "thread_context (th r2 n) = ?tc"
    and con: "contexts r2 = (contexts (rt s))(?tc \<mapsto> \<lparr>ec_status = Ready, ec_stack = wm_thread_stack a, ec_size = 1\<rparr>,
       ?c \<mapsto> \<lparr>ec_status = Initing, ec_stack = st, ec_size = COROUTINE_STACK_SIZE\<rparr>)"
    using spawn_eff [OF co_invD(1) [OF creach_inv [OF s(1)]] _ f] len by (fastforce simp: n_def max_workers_def)
  let ?s1 = "s\<lparr>rt := r2, phase := (phase s)(n := Switched)\<rparr>"
  have s1: "creach ?s1" using more [OF s(1) spawn [OF len f r2(1,2)]] by (simp add: n_def)
  define r3 where "r3 = put_thread n ((th r2 n)\<lparr>context_pre_ptr := nullptr\<rparr>)
    (put_context ?tc \<lparr>ec_status = Yield, ec_stack = wm_thread_stack a, ec_size = 1\<rparr>
    (put_context ?c \<lparr>ec_status = Running, ec_stack = st, ec_size = COROUTINE_STACK_SIZE\<rparr> r2))"
  have r3: "change_context_status n r2 = Inr r3"
    using r2(3) c by (simp add: change_context_status_def context_set_status_def context_at_def new con r3_def)
  let ?s2 = "?s1\<lparr>rt := r3, phase := (phase ?s1)(n := Scheduling)\<rparr>"
  have s2: "creach ?s2" by (rule more [OF s1 settle]) (use r2(3) r3 in simp_all)
  have eq: "?s2 = s\<lparr>rt := r3, phase := (phase s)(n := Scheduling)\<rparr>" by simp
  have len3: "length (thread_exec_vec r3) = Suc n" using r2(3) by (simp add: r3_def)
  have con3: "contexts r3 = (contexts r2)(?c \<mapsto> \<lparr>ec_status = Running, ec_stack = st, ec_size = COROUTINE_STACK_SIZE\<rparr>,
     ?tc \<mapsto> \<lparr>ec_status = Yield, ec_stack = wm_thread_stack a, ec_size = 1\<rparr>)"
    by (simp add: r3_def)
  have tc3: "thread_context (th r3 j) = thread_context (th r2 j)" if "j < Suc n" for j
    using that r2(3) by (simp add: r3_def)
  have "status_of r3 (thread_context (th r3 j)) = Some Yield" if "j < Suc n" for j
  proof (cases "j = n")
    case True
    then show ?thesis using c(1) by (simp add: tc3 new status_of_def con3)
  next
    case False
    with that have "status_of (rt s) (thread_context (th (rt s) j)) = Some Yield" "j < n" using s(3) by auto
    then show ?thesis using c that by (auto simp: tc3 old status_of_def con3 con)
  qed
  then have "workers_ready (s\<lparr>rt := r3, phase := (phase s)(n := Scheduling)\<rparr>)"
    using s2 s(2,3) unfolding workers_ready_def eq by (auto simp: len3)
  moreover have "spawn_worker a (rt s) = Inr r3" using r2(1,2) r3 by (simp add: spawn_worker_def n_def)
  moreover have "dom (contexts r3) = {?tc, ?c} \<union> dom (contexts (rt s))" by (auto simp: con3 con)
  ultimately show ?thesis using len3 by blast
qed

text \<open>The memory of the first \<open>n\<close> workers is fresh and no two of them share any.\<close>

definition alloc_stacks :: "worker_memory \<Rightarrow> ptr set" where
  "alloc_stacks a = set (wm_thread_stack a # wm_stack a # wm_pool a)"

definition alloc_contexts :: "worker_memory \<Rightarrow> ptr set" where
  "alloc_contexts a = {wm_thread_context a, wm_context a}"

definition alloc_ok :: "nat \<Rightarrow> (nat \<Rightarrow> worker_memory) \<Rightarrow> runtime \<Rightarrow> bool" where
  "alloc_ok n alloc r \<longleftrightarrow> (\<forall>i < n. fresh_worker (alloc i) r
     \<and> (\<forall>j < i. alloc_stacks (alloc i) \<inter> alloc_stacks (alloc j) = {}
          \<and> alloc_contexts (alloc i) \<inter> alloc_contexts (alloc j) = {}))"

lemma fresh_worker_later:
  assumes "fresh_worker a r" and "dom (stacks r') \<subseteq> S \<union> dom (stacks r)" and "dom (contexts r') \<subseteq> C \<union> dom (contexts r)"
    and "alloc_stacks a \<inter> S = {}" and "alloc_contexts a \<inter> C = {}"
  shows "fresh_worker a r'"
proof -
  have "stacks r' m = None" if "m \<in> alloc_stacks a" for m
    using assms(1,2,4) that unfolding fresh_worker_def fresh_stacks_def alloc_stacks_def by (cases "stacks r' m") auto
  moreover have "contexts r' c = None" if "c \<in> alloc_contexts a" for c
    using assms(1,3,5) that unfolding fresh_worker_def fresh_contexts_def alloc_contexts_def by (cases "contexts r' c") auto
  ultimately show ?thesis
    using assms(1) unfolding fresh_worker_def fresh_stacks_def fresh_contexts_def alloc_stacks_def alloc_contexts_def by auto
qed

lemma spawn_all:
  assumes start: "no_workers s" and alloc: "alloc_ok n alloc (rt s)" and n: "n \<le> max_workers" and k: "k \<le> n"
  shows "\<exists>s'. rfold (\<lambda>i. spawn_worker (alloc i)) [0 ..< k] (rt s) = Inr (rt s') \<and> workers_ready s'
    \<and> length (thread_exec_vec (rt s')) = k \<and> kept (rt s) (rt s')
    \<and> dom (stacks (rt s')) \<subseteq> (\<Union>i < k. alloc_stacks (alloc i))
    \<and> dom (contexts (rt s')) \<subseteq> (\<Union>i < k. alloc_contexts (alloc i))"
  using k
proof (induction k)
  case 0
  then show ?case using start by (intro exI [of _ s]) (auto simp: workers_ready_def no_workers_def creach.start)
next
  case (Suc k)
  then obtain s' where s': "rfold (\<lambda>i. spawn_worker (alloc i)) [0 ..< k] (rt s) = Inr (rt s')"
      "workers_ready s'" "length (thread_exec_vec (rt s')) = k" "kept (rt s) (rt s')"
    and dom: "dom (stacks (rt s')) \<subseteq> (\<Union>i < k. alloc_stacks (alloc i))"
      "dom (contexts (rt s')) \<subseteq> (\<Union>i < k. alloc_contexts (alloc i))" by auto
  have kn: "k < n" using Suc.prems by simp
  have dis: "alloc_stacks (alloc k) \<inter> (\<Union>i < k. alloc_stacks (alloc i)) = {}"
    "alloc_contexts (alloc k) \<inter> (\<Union>i < k. alloc_contexts (alloc i)) = {}"
    using alloc kn unfolding alloc_ok_def by blast+
  have "fresh_worker (alloc k) (rt s')"
    by (rule fresh_worker_later [of _ "rt s", OF _ _ _ dis])
      (use alloc kn dom in \<open>auto simp: alloc_ok_def\<close>)
  then obtain r where r: "spawn_worker (alloc k) (rt s') = Inr r"
      "workers_ready (s'\<lparr>rt := r, phase := (phase s')(k := Scheduling)\<rparr>)" "length (thread_exec_vec r) = Suc k"
      "dom (contexts r) = alloc_contexts (alloc k) \<union> dom (contexts (rt s'))"
    using spawn_ready [OF s'(2), of "alloc k"] s'(3) kn n by (auto simp: alloc_contexts_def)
  have kr: "kept (rt s') r" "dom (stacks r) \<subseteq> alloc_stacks (alloc k) \<union> dom (stacks (rt s'))"
    using spawn_kept [OF r(1)] by (simp_all add: alloc_stacks_def)
  have "rfold (\<lambda>i. spawn_worker (alloc i)) [0 ..< Suc k] (rt s) = Inr r"
    using s'(1) r(1) by (simp add: rfold_append)
  moreover have "dom (stacks r) \<subseteq> (\<Union>i < Suc k. alloc_stacks (alloc i))" using kr(2) dom(1) by (auto simp: lessThan_Suc)
  moreover have "dom (contexts r) \<subseteq> (\<Union>i < Suc k. alloc_contexts (alloc i))" using r(4) dom(2) by (auto simp: lessThan_Suc)
  ultimately show ?case using r(2,3) kept_trans [OF s'(4) kr(1)]
    by (intro exI [of _ "s'\<lparr>rt := r, phase := (phase s')(k := Scheduling)\<rparr>"]) simp
qed

section \<open>Schedule::init\<close>

lemma workers_ready_other:
  assumes "workers_ready s" and "same_contexts (rt s) r"
  shows "workers_ready (s\<lparr>rt := r\<rparr>)"
  using assms more [OF _ other [OF assms(2)]] same_contexts_th [OF assms(2)]
  by (auto simp: workers_ready_def status_of_def same_contexts_def)

lemma all_yielded_ready: "workers_ready s \<Longrightarrow> all_yielded (rt s)"
  by (auto simp: all_yielded_def workers_ready_def list_all_length status_of_def)

text \<open>A running schedule with an empty queue that has room for \<open>k\<close> more calls.\<close>

definition quiet_schedule :: "nat \<Rightarrow> gid \<Rightarrow> schedule \<Rightarrow> bool" where
  "quiet_schedule k g s \<longleftrightarrow> root_graph s = Some g \<and> s_status s = Running
     \<and> tq_contents (s_task_queue s) = [] \<and> tq_room k (s_task_queue s)"

text \<open>No worker, no context and no mapping.\<close>

definition nothing_runs :: "runtime \<Rightarrow> bool" where
  "nothing_runs r \<longleftrightarrow> contexts r = Map.empty \<and> stacks r = Map.empty"

lemma schedule_init_ready:
  assumes n: "0 < n" "unat (round_workers n) \<le> max_workers" and none: "nothing_runs r"
    and alloc: "alloc_ok (unat (round_workers n)) alloc r" and k: "k \<le> 2 ^ 31"
  shows "\<exists>s sc. schedule_init n g alloc r = Inr (rt s) \<and> workers_ready s
    \<and> length (thread_exec_vec (rt s)) = unat (round_workers n) \<and> idle_worker_num (rt s) = ucast n
    \<and> mem (rt s) = (put_graph g (graph_new nullptr) (mem r))
         \<lparr>inner_schedule := Some sc, ready_worker_num := 0, pending_worker_num := 0\<rparr>
    \<and> quiet_schedule k g sc"
proof -
  let ?m = "unat (round_workers n)"
  obtain q where q: "tq_new 4096 = Inr q" "tq_room k q" "tq_lanes q = ([], [])"
    using tq_new_room [of 4096 k] k by auto
  let ?sc = "\<lparr>root_graph = Some g, s_status = Initing, s_task_queue = q\<rparr>"
  let ?w = "put_graph g (graph_new nullptr) ((mem r)\<lparr>ready_worker_num := 0, pending_worker_num := 0\<rparr>)"
  define r0 where "r0 = r\<lparr>idle_worker_num := ucast n, mem := ?w\<lparr>inner_schedule := Some ?sc\<rparr>, thread_exec_vec := []\<rparr>"
  let ?s0 = "\<lparr>rt = r0, phase = (\<lambda>_. Ended), waiting = {}\<rparr>"
  have s0: "no_workers ?s0" using none by (simp add: no_workers_def nothing_runs_def r0_def)
  have a0: "alloc_ok ?m alloc (rt ?s0)"
    using alloc by (simp add: alloc_ok_def fresh_worker_def fresh_stacks_def fresh_contexts_def r0_def)
  obtain s1 where s1: "rfold (\<lambda>i. spawn_worker (alloc i)) [0 ..< ?m] r0 = Inr (rt s1)" "workers_ready s1"
    "length (thread_exec_vec (rt s1)) = ?m" "kept r0 (rt s1)"
    using spawn_all [OF s0 a0 n(2) order.refl] by auto
  let ?w2 = "(mem (rt s1))\<lparr>inner_schedule := Some (?sc\<lparr>s_status := Running\<rparr>)\<rparr>"
  let ?s = "s1\<lparr>rt := (rt s1)\<lparr>mem := ?w2\<rparr>\<rparr>"
  have m1: "mem (rt s1) = ?w\<lparr>inner_schedule := Some ?sc\<rparr>" "idle_worker_num (rt s1) = ucast n"
    using s1(4) by (simp_all add: kept_def r0_def)
  have "init_work_thread n alloc (r\<lparr>idle_worker_num := ucast n, mem := ?w\<lparr>inner_schedule := Some ?sc\<rparr>\<rparr>) = Inr (rt s1)"
    using s1(1,3) all_yielded_ready [OF s1(2)] by (simp add: init_work_thread_def r0_def)
  then have "schedule_init n g alloc r = Inr (rt ?s)"
    using n(1) q(1) m1 by (simp add: schedule_init_def schedule_new_def set_schedule_status_def deref_def)
  moreover have "workers_ready ?s"
    by (rule workers_ready_other [OF s1(2)]) (simp add: same_contexts_def)
  moreover have "quiet_schedule k g (?sc\<lparr>s_status := Running\<rparr>)"
    using q by (simp add: quiet_schedule_def tq_contents_def tq_lanes_def)
  ultimately show ?thesis using s1(3) m1 by (intro exI [of _ ?s] exI [of _ "?sc\<lparr>s_status := Running\<rparr>"]) (simp add: put_graph_def)
qed

section \<open>Schedule::destroy\<close>

text \<open>The flags wait in the queue.\<close>

definition flags_wait :: "nat \<Rightarrow> nat \<Rightarrow> world \<Rightarrow> schedule \<Rightarrow> bool" where
  "flags_wait k f w sc \<longleftrightarrow> inner_schedule w = Some sc \<and> s_status sc = Running
     \<and> tq_contents (s_task_queue sc) = replicate f flag_node \<and> tq_room k (s_task_queue sc)"

lemma add_flag:
  assumes "flags_wait (Suc k) f w sc"
  shows "\<exists>w' sc'. add_new_task flag_node w = Inr w' \<and> flags_wait k (Suc f) w' sc'
    \<and> root_graph sc' = root_graph sc \<and> w_nodes w' = w_nodes w \<and> w_graphs w' = w_graphs w
    \<and> enable_qf_dump_graph w' = enable_qf_dump_graph w"
proof -
  let ?q = "s_task_queue sc"
  have q: "tq_room (Suc k) ?q" "tq_contents ?q = replicate f flag_node" and i: "inner_schedule w = Some sc" "s_status sc = Running"
    using assms by (auto simp: flags_wait_def)
  have nz: "flag_node \<noteq> nullptr" by (simp add: flag_node_def)
  from tq_enqueue_lanes [OF q(1) nz] obtain q' where q': "tq_enqueue ?q flag_node = Inr (q', True)" "tq_room k q'" by blast
  have "tq_inv ?q" using q(1) by (simp add: tq_room_def)
  from tq_enqueue_mset [OF this nz] q' q(2) have m: "mset (tq_contents q') = mset (replicate (Suc f) flag_node)" by auto
  have "tq_contents q' = replicate (Suc f) flag_node"
    by (rule replicate_eqI) (use mset_eq_length [OF m] mset_eq_setD [OF m] in auto)
  then show ?thesis using q' i by (simp add: add_new_task_def flags_wait_def)
qed

lemma add_flags_wait:
  "flags_wait (2 * n + k) f w sc \<Longrightarrow> \<exists>w' sc'. add_flags n w = Inr w' \<and> flags_wait k (2 * n + f) w' sc'
    \<and> root_graph sc' = root_graph sc \<and> w_nodes w' = w_nodes w \<and> w_graphs w' = w_graphs w
    \<and> enable_qf_dump_graph w' = enable_qf_dump_graph w"
proof (induction n arbitrary: f w sc)
  case (Suc n)
  from Suc.prems have "flags_wait (Suc (Suc (2 * n + k))) f w sc" by simp
  from add_flag [OF this] obtain w1 s1 where 1: "add_new_task flag_node w = Inr w1"
    "flags_wait (Suc (2 * n + k)) (Suc f) w1 s1" "root_graph s1 = root_graph sc" "w_nodes w1 = w_nodes w"
    "w_graphs w1 = w_graphs w" "enable_qf_dump_graph w1 = enable_qf_dump_graph w" by blast
  from add_flag [OF 1(2)] obtain w2 s2 where 2: "add_new_task flag_node w1 = Inr w2"
    "flags_wait (2 * n + k) (Suc (Suc f)) w2 s2" "root_graph s2 = root_graph s1" "w_nodes w2 = w_nodes w1"
    "w_graphs w2 = w_graphs w1" "enable_qf_dump_graph w2 = enable_qf_dump_graph w1" by blast
  from Suc.IH [OF 2(2)] obtain w3 s3 where "add_flags n w2 = Inr w3" "flags_wait k (2 * n + Suc (Suc f)) w3 s3"
    "root_graph s3 = root_graph s2" "w_nodes w3 = w_nodes w2" "w_graphs w3 = w_graphs w2"
    "enable_qf_dump_graph w3 = enable_qf_dump_graph w2" by blast
  with 1 2 show ?case by (intro exI [of _ w3] exI [of _ s3]) simp
qed auto

text \<open>A worker in its loop takes a flag and leaves.\<close>

lemma leave_kept:
  "leave_schedule i r = Inr r' \<Longrightarrow> kept r r' \<and> length (thread_exec_vec r') = length (thread_exec_vec r)"
  by (auto simp: leave_schedule_def set_context_def)

lemma worker_takes_flag:
  assumes s: "creach s" "i < length (thread_exec_vec (rt s))" "phase s i = Scheduling"
    and w: "flags_wait (Suc k) (Suc f) (mem (rt s)) sc"
  shows "\<exists>r sc'. work_and_leave exec_task spins (Suc fuel) i (rt s) = Inr r
    \<and> creach (s\<lparr>rt := r, phase := (phase s)(i := Ended)\<rparr>) \<and> flags_wait k f (mem r) sc'
    \<and> mem r = (mem (rt s))\<lparr>inner_schedule := Some sc'\<rparr> \<and> root_graph sc' = root_graph sc
    \<and> length (thread_exec_vec r) = length (thread_exec_vec (rt s))"
proof -
  from w obtain q where q: "wait_dequeue spins (s_task_queue sc) = Inr (q, flag_node)"
    "tq_contents q = replicate f flag_node" "tq_room k q"
    using wait_dequeue_item [of k "s_task_queue sc" flag_node "replicate f flag_node" spins] by (auto simp: flags_wait_def)
  let ?sc = "sc\<lparr>s_task_queue := q\<rparr>"
  let ?r = "(rt s)\<lparr>mem := (mem (rt s))\<lparr>inner_schedule := Some ?sc\<rparr>\<rparr>"
  let ?s = "s\<lparr>rt := ?r\<rparr>"
  have sched: "do_schedule exec_task spins (Suc fuel) i (rt s) = Inr (i, ?r)"
    using w q(1) by (simp add: flags_wait_def deref_def)
  have s1: "creach ?s" by (rule more [OF s(1) other]) (simp add: same_contexts_def)
  then obtain r where r: "leave_schedule i ?r = Inr r"
    using leave_step [OF creach_inv [OF s1], of i] s(2,3) by auto
  have "creach (?s\<lparr>rt := r, phase := (phase ?s)(i := Ended)\<rparr>)"
    by (rule more [OF s1 leave]) (use s(2,3) r in simp_all)
  moreover have "mem r = mem ?r" "length (thread_exec_vec r) = length (thread_exec_vec (rt s))"
    using leave_kept [OF r] by (simp_all add: kept_def)
  moreover have "work_and_leave exec_task spins (Suc fuel) i (rt s) = Inr r"
    unfolding work_and_leave_def sched using r by simp
  ultimately show ?thesis using q(2,3) w
    by (intro exI [of _ r] exI [of _ ?sc]) (simp add: flags_wait_def)
qed

lemma workers_all_leave:
  assumes "creach s" and n: "n = length (thread_exec_vec (rt s))" and ph: "\<And>i. i < n \<Longrightarrow> phase s i = Scheduling"
    and w: "flags_wait (n + k) (n + f) (mem (rt s)) sc" and m: "m \<le> n"
  shows "\<exists>s' sc'. rfold (work_and_leave exec_task spins (Suc fuel)) [0 ..< m] (rt s) = Inr (rt s')
    \<and> creach s' \<and> length (thread_exec_vec (rt s')) = n \<and> waiting s' = waiting s
    \<and> (\<forall>i < n. phase s' i = (if i < m then Ended else Scheduling))
    \<and> flags_wait (n - m + k) (n - m + f) (mem (rt s')) sc' \<and> root_graph sc' = root_graph sc
    \<and> mem (rt s') = (mem (rt s))\<lparr>inner_schedule := Some sc'\<rparr>"
  using m
proof (induction m)
  case 0
  then show ?case using assms by (intro exI [of _ s] exI [of _ sc]) (auto simp: flags_wait_def)
next
  case (Suc m)
  then obtain s' sc' where s': "rfold (work_and_leave exec_task spins (Suc fuel)) [0 ..< m] (rt s) = Inr (rt s')"
    "creach s'" "length (thread_exec_vec (rt s')) = n" "waiting s' = waiting s"
    "\<forall>i < n. phase s' i = (if i < m then Ended else Scheduling)"
    "flags_wait (n - m + k) (n - m + f) (mem (rt s')) sc'" "root_graph sc' = root_graph sc"
    "mem (rt s') = (mem (rt s))\<lparr>inner_schedule := Some sc'\<rparr>" by auto
  have mn: "m < n" and e: "n - m + k = Suc (n - Suc m + k)" "n - m + f = Suc (n - Suc m + f)" using Suc.prems by auto
  have fl: "flags_wait (Suc (n - Suc m + k)) (Suc (n - Suc m + f)) (mem (rt s')) sc'" using s'(6) unfolding e .
  have at: "m < length (thread_exec_vec (rt s'))" "phase s' m = Scheduling" using s'(3,5) mn by simp_all
  obtain r sc2 where r: "work_and_leave exec_task spins (Suc fuel) m (rt s') = Inr r"
    "creach (s'\<lparr>rt := r, phase := (phase s')(m := Ended)\<rparr>)" "flags_wait (n - Suc m + k) (n - Suc m + f) (mem r) sc2"
    "mem r = (mem (rt s'))\<lparr>inner_schedule := Some sc2\<rparr>" "root_graph sc2 = root_graph sc'"
    "length (thread_exec_vec r) = n"
    using worker_takes_flag [OF s'(2) at fl, of exec_task spins fuel] unfolding s'(3) by blast
  have "rfold (work_and_leave exec_task spins (Suc fuel)) [0 ..< Suc m] (rt s) = Inr r"
    using s'(1) r(1) by (simp add: rfold_append)
  then show ?case using r s'
    by (intro exI [of _ "s'\<lparr>rt := r, phase := (phase s')(m := Ended)\<rparr>"] exI [of _ sc2]) (auto simp: less_Suc_eq)
qed

lemma all_recoverable_graphs [simp]: "all_recoverable ns (put_graph g gr w) = all_recoverable ns w"
  by (induction ns) (simp_all add: node_at_def put_graph_def cong: if_cong)

lemma clear_root_graph:
  assumes g: "w_graphs w g = Some gr" and ok: "all_recoverable (get_nodes gr) w = Inr True"
  shows "\<exists>gr'. clear_graph False wait_nodes g w = Inr (put_graph g gr' w)
    \<and> all_recoverable (get_nodes gr') w = Inr True"
proof -
  let ?gr = "if g_status gr = Finish then gr\<lparr>g_nodes := [], fast_nodes := []\<rparr>
    else gr\<lparr>g_status := Finish, g_nodes := [], fast_nodes := []\<rparr>"
  have same: "put_graph g gr w = w" using g by (simp add: put_graph_def fun_upd_idem)
  have twice: "put_graph g b (put_graph g a w) = put_graph g b w" for a b by (simp add: put_graph_def)
  have at: "graph_at g w = Inr gr" "graph_at g (put_graph g x w) = Inr x" for x
    using g by (simp_all add: graph_at_def put_graph_def)
  show ?thesis
  proof (cases "enable_qf_dump_graph w \<or> g_status gr = Initing")
    case True
    then show ?thesis using ok same at by (intro exI [of _ gr]) (auto simp: clear_graph_def)
  next
    case False
    then have "clear_graph False wait_nodes g w = Inr (put_graph g ?gr w)"
      using ok at twice by (auto simp: clear_graph_def mod_graph_def Let_def)
    moreover have "get_nodes ?gr = []" by (simp add: get_nodes_def)
    ultimately show ?thesis by (intro exI [of _ ?gr]) simp
  qed
qed

lemma schedule_delete_runs:
  assumes g: "root_graph sc = Some g" "w_graphs w g = Some gr" and ok: "all_recoverable (get_nodes gr) w = Inr True"
  shows "\<exists>w'. schedule_delete sc w = Inr w' \<and> w_nodes w' = w_nodes w \<and> w_graphs w' = (w_graphs w)(g := None)
    \<and> inner_schedule w' = None"
proof -
  obtain gr1 where 1: "clear_graph False (\<lambda>_. Inr) g w = Inr (put_graph g gr1 w)" "all_recoverable (get_nodes gr1) w = Inr True"
    using clear_root_graph [OF g(2) ok] by blast
  have "w_graphs (put_graph g gr1 w) g = Some gr1" by (simp add: put_graph_def)
  moreover have "all_recoverable (get_nodes gr1) (put_graph g gr1 w) = Inr True" using 1(2) by simp
  ultimately obtain gr2 where
    2: "clear_graph False (\<lambda>_. Inr) g (put_graph g gr1 w) = Inr (put_graph g gr2 (put_graph g gr1 w))"
    using clear_root_graph by blast
  show ?thesis using g(1) 1(1) 2
    by (simp add: schedule_delete_def graph_delete_def free_graph_def put_graph_def)
qed

text \<open>\<open>delete_workers\<close> leaves the store alone.\<close>

lemma context_delete_kept: "context_delete me c r = Inr r' \<Longrightarrow> kept r r'"
  by (auto simp: context_delete_def free_stack_def Let_def split: if_splits option.splits dest!: put_stack_kept)

lemma drain_pool_kept: "drain_pool fuel q r = Inr r' \<Longrightarrow> kept r r'"
proof (induction fuel arbitrary: q r)
  case (Suc fuel)
  from Suc.prems obtain q' x where q': "lq_try_dequeue q = Inr (q', x)" by auto
  show ?case
  proof (cases x)
    case None
    then show ?thesis using Suc.prems q' by simp
  next
    case (Some st)
    then have "drain_pool fuel q' (r\<lparr>stacks := (stacks r)(st := None)\<rparr>) = Inr r'"
      using Suc.prems q' by (auto simp: free_stack_def split: if_splits)
    from Suc.IH [OF this] show ?thesis by (simp add: kept_def)
  qed
qed simp

lemma thread_delete_kept: "thread_delete me t r = Inr r' \<Longrightarrow> kept r r'"
  by (auto simp: thread_delete_def delete_if_def simp del: drain_pool.simps split: if_splits
      dest!: context_delete_kept drain_pool_kept intro: kept_trans)

lemma delete_workers_kept: "delete_workers its r = Inr r' \<Longrightarrow> kept r r'"
  unfolding delete_workers_def
  by (erule rfold_invariant [where P = "kept r"]) (auto dest: thread_delete_kept intro: kept_trans)

text \<open>Everything is at rest: the nodes of the root graph have been run and no node is pending.\<close>

definition at_rest :: "gid \<Rightarrow> schedule \<Rightarrow> world \<Rightarrow> bool" where
  "at_rest g sc w \<longleftrightarrow> inner_schedule w = Some sc \<and> root_graph sc = Some g
     \<and> (\<exists>gr. w_graphs w g = Some gr \<and> all_recoverable (get_nodes gr) w = Inr True)
     \<and> (enable_qf_dump_graph w \<or> pending_worker_num w = 0)"

lemma all_recoverable_cong: "w_nodes w' = w_nodes w \<Longrightarrow> all_recoverable ns w' = all_recoverable ns w"
  by (induction ns) (simp_all add: node_at_def cong: if_cong)

lemma destroy_gives_back:
  assumes ready: "workers_ready s" and n: "n = length (thread_exec_vec (rt s))"
    and sc: "quiet_schedule (3 * n) g sc" and rest: "at_rest g sc (mem (rt s))"
  shows "\<exists>r. destroy exec_task spins (Suc fuel) (rt s) = Inr r
    \<and> contexts r = Map.empty \<and> stacks r = Map.empty \<and> thread_exec_vec r = [] \<and> idle_worker_num r = 0
    \<and> inner_schedule (mem r) = None \<and> w_nodes (mem r) = w_nodes (mem (rt s))
    \<and> w_graphs (mem r) = (w_graphs (mem (rt s)))(g := None)"
proof -
  let ?w = "mem (rt s)"
  obtain gr where w: "inner_schedule ?w = Some sc" "root_graph sc = Some g" "w_graphs ?w g = Some gr"
    "all_recoverable (get_nodes gr) ?w = Inr True" "enable_qf_dump_graph ?w \<or> pending_worker_num ?w = 0"
    using rest by (auto simp: at_rest_def)
  have "flags_wait (2 * n + n) 0 ?w sc" using sc w(1) by (simp add: flags_wait_def quiet_schedule_def)
  from add_flags_wait [OF this] obtain w1 sc1 where w1: "add_flags n ?w = Inr w1" "flags_wait n (2 * n) w1 sc1"
    "root_graph sc1 = Some g" "w_nodes w1 = w_nodes ?w" "w_graphs w1 = w_graphs ?w" using w(2) by auto
  let ?s1 = "s\<lparr>rt := (rt s)\<lparr>mem := w1\<rparr>\<rparr>"
  have s1: "workers_ready ?s1" by (rule workers_ready_other [OF ready]) (simp add: same_contexts_def)
  have c1: "creach ?s1" "n = length (thread_exec_vec (rt ?s1))" "\<And>i. i < n \<Longrightarrow> phase ?s1 i = Scheduling"
    "flags_wait (n + 0) (n + n) (mem (rt ?s1)) sc1"
    using s1 n w1(2) by (auto simp: workers_ready_def mult_2)
  obtain s2 sc2 where s2: "rfold (work_and_leave exec_task spins (Suc fuel)) [0 ..< n] (rt ?s1) = Inr (rt s2)"
    "creach s2" "length (thread_exec_vec (rt s2)) = n" "waiting s2 = {}" "\<forall>i < n. phase s2 i = Ended"
    "root_graph sc2 = Some g" "mem (rt s2) = w1\<lparr>inner_schedule := Some sc2\<rparr>"
    using workers_all_leave [OF c1 order.refl, of exec_task spins fuel] s1 w1(3)
    by (auto simp: workers_ready_def)
  obtain r3 where r3: "delete_workers (thread_exec_vec (rt s2)) (rt s2) = Inr r3" "stacks r3 = Map.empty" "contexts r3 = Map.empty"
    using delete_workers_left [OF ended_left_over [OF creach_inv [OF s2(2)]]] s2(3,4,5) by auto
  have m3: "mem r3 = w1\<lparr>inner_schedule := Some sc2\<rparr>" using delete_workers_kept [OF r3(1)] s2(7) by (simp add: kept_def)
  have "w_graphs (mem r3) g = Some gr" "all_recoverable (get_nodes gr) (mem r3) = Inr True"
    using w(3,4) w1(4,5) all_recoverable_cong [of "mem r3" ?w] by (simp_all add: m3)
  from schedule_delete_runs [OF s2(6) this] obtain w4 where w4: "schedule_delete sc2 (mem r3) = Inr w4"
    "w_nodes w4 = w_nodes (mem r3)" "w_graphs w4 = (w_graphs (mem r3))(g := None)" "inner_schedule w4 = None" by blast
  have "root_nodes sc ?w = Inr (get_nodes gr)" using w(2,3) by (simp add: root_nodes_def graph_at_def)
  moreover have "deref (inner_schedule (mem r3)) = Inr sc2" by (simp add: m3 deref_def)
  ultimately have "destroy exec_task spins (Suc fuel) (rt s)
    = Inr (r3\<lparr>thread_exec_vec := [], idle_worker_num := 0, mem := w4\<rparr>)"
    using w(1,4,5) w1(1) s2(1) r3(1) w4(1) unfolding destroy_def by (auto simp: n)
  with r3(2,3) w4 m3 w1(4,5) show ?thesis by simp
qed

section \<open>Properties\<close>

text \<open>Memory for eight workers.\<close>

definition some_memory :: "nat \<Rightarrow> worker_memory" where
  "some_memory i = \<lparr>wm_pool = [3 * i + 1], wm_thread_context = 2 * i + 1, wm_thread_stack = 3 * i + 2,
     wm_context = 2 * i + 2, wm_stack = 3 * i + 3\<rparr>"

lemma some_memory_ok: "alloc_ok n some_memory bare"
  by (auto simp: alloc_ok_def fresh_worker_def fresh_stacks_def fresh_contexts_def alloc_stacks_def
      alloc_contexts_def some_memory_def bare_def)

lemma one_round: "round_workers 1 = 8"
  by (simp add: round_workers_def)

lemma bare_nothing: "nothing_runs bare"
  by (simp add: nothing_runs_def bare_def fun_eq_iff)

text \<open>\<open>Schedule::init(n)\<close> returns with \<open>n\<close> rounded up to a multiple of 8 workers, each past its
  first switch: its thread context has been left and it runs a scheduler context of its own. The
  schedule is running and its queue is empty. Only \<open>idle_worker_num_\<close> holds \<open>n\<close> itself, so with
  one worker asked for, eight idle workers are counted as one.\<close>

theorem init_starts_workers:
  assumes "0 < n" and "unat n < 2 ^ 31 - 8" and "nothing_runs r"
    and "alloc_ok (unat (round_workers n)) alloc r"
  shows "\<exists>r' sc. schedule_init n g alloc r = Inr r'
    \<and> length (thread_exec_vec r') = (unat n + 7) div 8 * 8 \<and> idle_worker_num r' = ucast n
    \<and> (\<forall>i < length (thread_exec_vec r').
         status_of r' (thread_context (th r' i)) = Some Yield \<and> status_of r' (context_ptr (th r' i)) = Some Running
         \<and> (\<forall>j < i. context_ptr (th r' i) \<noteq> context_ptr (th r' j)))
    \<and> inner_schedule (mem r') = Some sc \<and> s_status sc = Running \<and> tq_contents (s_task_queue sc) = []"
proof -
  have m: "unat (round_workers n) = (unat n + 7) div 8 * 8" by (rule round_workers_up) (use assms(2) in simp)
  then have "unat (round_workers n) \<le> max_workers" using assms(2) by (simp add: max_workers_def)
  from schedule_init_ready [OF assms(1) this assms(3,4), of 0 g] obtain s sc where s:
    "schedule_init n g alloc r = Inr (rt s)" "workers_ready s"
    "length (thread_exec_vec (rt s)) = unat (round_workers n)" "idle_worker_num (rt s) = ucast n"
    "inner_schedule (mem (rt s)) = Some sc" "quiet_schedule 0 g sc" by auto
  note I = co_invD [OF creach_inv]
  have c: "creach s" "\<And>i. i < length (thread_exec_vec (rt s)) \<Longrightarrow> phase s i = Scheduling
    \<and> status_of (rt s) (thread_context (th (rt s) i)) = Some Yield" using s(2) by (auto simp: workers_ready_def)
  have "status_of (rt s) (context_ptr (th (rt s) i)) = Some Running" if "i < length (thread_exec_vec (rt s))" for i
    using I(7) [OF c(1) that] c(2) [OF that] by (simp add: worker_ok_def Let_def)
  moreover have "context_ptr (th (rt s) i) \<noteq> context_ptr (th (rt s) j)"
    if "i < length (thread_exec_vec (rt s))" "j < i" for i j
    using I(3) [OF c(1), of "Current i" _ "Current j"] that by (auto simp: plays_simps)
  ultimately show ?thesis using s c(2) m by (intro exI [of _ "rt s"] exI [of _ sc]) (auto simp: quiet_schedule_def)
qed

theorem init_starts_workers_witness:
  "\<exists>r'. schedule_init 1 5 some_memory bare = Inr r' \<and> length (thread_exec_vec r') = 8 \<and> idle_worker_num r' = 1"
  using init_starts_workers [of 1 bare some_memory 5] some_memory_ok bare_nothing by auto

text \<open>C23: \<open>destroy\<close> undoes \<open>init\<close>: with nothing left to run, the flags end every worker, and every
  context, every stack, the root graph and the schedule are given back; nodes are not touched.\<close>

theorem init_destroy_round_trip:
  assumes "0 < n" and "unat n \<le> 2 ^ 29" and "nothing_runs r"
    and "alloc_ok (unat (round_workers n)) alloc r"
  shows "\<exists>r1 r2. schedule_init n g alloc r = Inr r1 \<and> destroy exec_task spins (Suc fuel) r1 = Inr r2
    \<and> contexts r2 = contexts r \<and> stacks r2 = stacks r \<and> thread_exec_vec r2 = []
    \<and> inner_schedule (mem r2) = None \<and> w_nodes (mem r2) = w_nodes (mem r)
    \<and> w_graphs (mem r2) = (w_graphs (mem r))(g := None)"
proof -
  let ?m = "unat (round_workers n)"
  have m: "?m = (unat n + 7) div 8 * 8" by (rule round_workers_up) (use assms(2) in simp)
  then have b: "?m \<le> max_workers" "3 * ?m \<le> 2 ^ 31" using assms(2) by (simp_all add: max_workers_def)
  from schedule_init_ready [OF assms(1) b(1) assms(3,4) b(2), of g] obtain s sc where s:
    "schedule_init n g alloc r = Inr (rt s)" "workers_ready s" "length (thread_exec_vec (rt s)) = ?m"
    "mem (rt s) = (put_graph g (graph_new nullptr) (mem r))
         \<lparr>inner_schedule := Some sc, ready_worker_num := 0, pending_worker_num := 0\<rparr>"
    "quiet_schedule (3 * ?m) g sc" by blast
  have rest: "at_rest g sc (mem (rt s))"
    using s(5) by (simp add: at_rest_def quiet_schedule_def s(4) put_graph_def get_nodes_def graph_new_def)
  have "quiet_schedule (3 * length (thread_exec_vec (rt s))) g sc" using s(3,5) by simp
  from destroy_gives_back [OF s(2) refl this rest, of exec_task spins fuel] s(1,4) assms(3) show ?thesis
    by (auto simp: nothing_runs_def put_graph_def)
qed

theorem init_destroy_round_trip_witness:
  "\<exists>r1 r2. schedule_init 1 5 some_memory bare = Inr r1 \<and> destroy (\<lambda>i t r. Inr (i, r)) 1 (Suc 0) r1 = Inr r2
    \<and> contexts r2 = contexts bare \<and> stacks r2 = stacks bare"
  using init_destroy_round_trip [of 1 bare some_memory 5 "\<lambda>i t r. Inr (i, r)" 1 0] some_memory_ok bare_nothing by auto

lemma append_upstreams_eff:
  assumes "w_nodes w t = Some x"
  shows "\<exists>ups. append_upstreams t n w = Inr (put_node t (x\<lparr>up_streams := ups\<rparr>) w)
    \<and> (\<not> enable_qf_check_circle w \<and> \<not> enable_qf_dump_graph w \<longrightarrow> ups = up_streams x)"
proof (cases "enable_qf_check_circle w \<or> enable_qf_dump_graph w")
  case True
  then show ?thesis using assms
    by (intro exI [of _ "up_streams x @ [n]"]) (auto simp: append_upstreams_def mod_node_def node_at_def)
next
  case False
  have "put_node t x w = w" using assms by (simp add: put_node_def fun_upd_idem)
  with False show ?thesis by (intro exI [of _ "up_streams x"]) (simp add: append_upstreams_def)
qed

text \<open>The first node of a graph, without dependencies: it goes to the run queue at once.\<close>

lemma first_node:
  assumes w: "inner_schedule w = Some s" "s_status s = Running" "tq_inv (s_task_queue s)" "n \<noteq> nullptr"
      "w_graphs w g = Some (graph_new nullptr)" "w_nodes w n = Some x" "n_status x = Initing"
  shows "\<exists>w' rt ups. create_edges g n [] w = Inr w'
    \<and> w_nodes w' = (w_nodes w)(n \<mapsto> (attached_node g (graph_new nullptr) rt x)\<lparr>up_streams := ups\<rparr>)
    \<and> w_graphs w' = (w_graphs w)(g \<mapsto> grown_graph n (graph_new nullptr))
    \<and> queue w' = add_mset n (queue w) \<and> enable_qf_check_circle w' = enable_qf_check_circle w"
proof -
  from attach_node_eq [OF w(6,5)] obtain rt where
    at: "attach_node g n w = Inr (put_node n (attached_node g (graph_new nullptr) rt x)
      (put_graph g (grown_graph n (graph_new nullptr)) w))" by (auto simp: graph_new_def)
  define y where "y = attached_node g (graph_new nullptr) rt x"
  define gr where "gr = grown_graph n (graph_new nullptr)"
  let ?w = "put_node n y (put_graph g gr w)"
  have y: "n_status y = Initing" "parent_graph y = Some g" "\<not> limit_graph gr"
    using w(7) by (simp_all add: y_def attached_node_def gr_def grown_fields) (simp add: graph_new_def)
  obtain q where q: "tq_enqueue (s_task_queue s) n = Inr (q, True)"
    "mset (tq_contents q) = add_mset n (mset (tq_contents (s_task_queue s)))"
    using tq_enqueue_mset [OF w(3,4)] by blast
  let ?w4 = "?w\<lparr>ready_worker_num := ready_worker_num w + 1, inner_schedule := Some (s\<lparr>s_task_queue := q\<rparr>)\<rparr>"
  have i4: "inner_schedule ?w = inner_schedule w" "ready_worker_num ?w = ready_worker_num w"
    "w_nodes ?w n = Some y" "w_graphs ?w g = Some gr" by (simp_all add: put_node_def put_graph_def)
  have "add_new_task n ?w = Inr ?w4"
    using w(1,2) q(1) y(1) by (simp add: add_new_task_def node_at_def i4)
  then have "node_ready n ?w = Inr ?w4"
    using y(2,3) by (simp add: node_ready_def node_at_def deref_def graph_ready_def graph_at_def i4)
  then have ce: "create_edges g n [] w = append_upstreams n flag_node ?w4"
    by (simp add: create_edges_def at y_def [symmetric] gr_def [symmetric])
  have "w_nodes ?w4 n = Some y" by simp
  from append_upstreams_eff [OF this] obtain ups where
    "append_upstreams n flag_node ?w4 = Inr (put_node n (y\<lparr>up_streams := ups\<rparr>) ?w4)" by blast
  then show ?thesis
    by (intro exI [of _ "put_node n (y\<lparr>up_streams := ups\<rparr>) ?w4"] exI [of _ rt] exI [of _ ups])
      (simp add: ce q(2) queue_def w(1) put_node_def put_graph_def y_def gr_def)
qed

lemma run_queue_accepts:
  assumes "inner_schedule w = Some s" and "s_status s = Running" and "tq_inv (s_task_queue s)" and "n \<noteq> nullptr"
    and "w_nodes w n = Some x" and "n_status x = Initing"
  shows "\<exists>w'. add_new_task n w = Inr w' \<and> w_nodes w' = w_nodes w \<and> w_graphs w' = w_graphs w"
proof -
  obtain q where "tq_enqueue (s_task_queue s) n = Inr (q, True)" using tq_enqueue_mset [OF assms(3,4)] by blast
  then show ?thesis using assms by (simp add: add_new_task_def node_at_def)
qed

lemma no_bits: "bit_map_idx 0 fast_node_max_num = Inr []"
  by (simp add: bit_map_idx_def fast_node_max_num_def bit_map_idx_loop_eq)

lemma put_node_twice: "put_node n y (put_node n x w) = put_node n y w"
  by (simp add: put_node_def)

lemma node_at_put: "node_at n (put_node n x w) = Inr x"
  by (simp add: node_at_def put_node_def)

lemma begin_task_runs:
  assumes "w_nodes w n = Some x" and "n_status x = Initing"
  shows "begin_task n w = Inr (put_node n (x\<lparr>n_status := Running\<rparr>) w)"
proof -
  have "node_at n w = Inr x" using assms by (simp add: node_at_def)
  then show ?thesis using assms(2)
    by (simp add: begin_task_def set_status_def resume_enter_def mod_node_def node_at_put put_node_twice)
qed

text \<open>The end of a task without downstream nodes.\<close>

lemma end_without_downstream:
  assumes x: "w_nodes w n = Some x" "n_status x = Running" "fast_down_strams x = 0" "down_streams x = []"
  defines "y \<equiv> x\<lparr>n_status := Finish, fast_down_strams_bak := 0\<rparr>"
  shows "node_finish n w = rbind (deref (parent_graph x)) (\<lambda>g. graph_finish g [] (put_node n y w))"
proof -
  have "node_at n w = Inr x" using x(1) by (simp add: node_at_def)
  then show ?thesis using x(2,3,4)
    by (simp add: node_finish_def node_finish2_def no_bits node_at_put y_def)
qed

lemma alone_finish:
  assumes "w_graphs w g = Some gr" and "\<not> limit_graph gr" and "g_down_streams gr = []"
  shows "graph_finish g [] w = Inr (nullptr, put_graph g (gr\<lparr>g_wait_count := g_wait_count gr - 1\<rparr>) w)"
  using assms by (simp add: graph_finish_def graph_at_def finish_free_def Let_def)

lemma ghost_spins:
  assumes x: "w_nodes w n = Some x" "n_status x = Running" "fast_down_strams x = 0" "down_streams x = []"
    "ghost x" "sub_graph x = None" "parent_graph x = Some g"
    and g: "w_graphs w g = Some gr" "\<not> limit_graph gr" "g_down_streams gr = []"
  shows "end_task wait_graph wait_nodes n w = Inl Diverges"
proof -
  let ?y = "x\<lparr>n_status := Finish, fast_down_strams_bak := 0\<rparr>"
  let ?w = "put_graph g (gr\<lparr>g_wait_count := g_wait_count gr - 1\<rparr>) (put_node n ?y w)"
  have "w_graphs (put_node n ?y w) g = Some gr" using g(1) by (simp add: put_node_def)
  from alone_finish [OF this g(2,3)] have "node_finish n w = Inr (nullptr, ?w)"
    using end_without_downstream [OF x(1-4)] x(7) by (simp add: deref_def)
  moreover have "node_at n ?w = Inr ?y" by (simp add: node_at_def put_graph_def put_node_def)
  moreover have "release True wait_graph wait_nodes n ?w = Inr ?w" using calculation(2) x(6) by (simp add: release_def)
  moreover have "node_delete True wait_graph wait_nodes n ?w = Inl Diverges"
    using calculation(2) by (simp add: node_delete_def less_RunningStatus_def)
  ultimately show ?thesis using x(5) by (simp add: end_task_def)
qed

lemma root_new_eff:
  "\<exists>x w1. root_new n raw w = Inr w1 \<and> w_nodes w1 = (w_nodes w)(n \<mapsto> x) \<and> n_status x = Initing \<and> ghost x
    \<and> sub_graph x = None \<and> parent_graph x = None \<and> fast_down_strams x = 0 \<and> down_streams x = []
    \<and> w_graphs w1 = w_graphs w \<and> inner_schedule w1 = inner_schedule w"
  by (intro exI [of _ "(node_reset (raw\<lparr>ghost := False, reuse := False\<rparr>))\<lparr>root_node := n, ghost := True\<rparr>"])
    (simp add: root_new_def mod_node_def node_new_def node_at_def node_reset_def put_node_def)

text \<open>A \<open>RootNode\<close> cannot be run to its end. Handed to the queue as in a release build, it has no
  parent graph, and \<open>finish2\<close> calls a method of the null pointer; created in a graph as in a
  debug build, it is deleted by \<open>run_task\<close> while its status is \<open>Finish\<close>, and the destructor
  spins until somebody makes it \<open>Recoverable\<close>, which only \<open>run_task\<close> itself would do.\<close>

theorem root_task_fails:
  assumes "inner_schedule w = Some s" and "s_status s = Running" and "tq_inv (s_task_queue s)"
    and "n \<noteq> nullptr" and "w_graphs w g = Some (graph_new nullptr)"
  shows "(\<exists>w1 w2 w3. root_new n raw w = Inr w1 \<and> add_root_task n w1 = Inr w2 \<and> begin_task n w2 = Inr w3
      \<and> end_task wait_graph wait_nodes n w3 = Inl (Undefined ''null''))
    \<and> (\<exists>w1 w2 w3. root_new n raw w = Inr w1 \<and> create_edges g n [] w1 = Inr w2 \<and> begin_task n w2 = Inr w3
      \<and> end_task wait_graph wait_nodes n w3 = Inl Diverges)"
proof
  obtain x w1 where x: "root_new n raw w = Inr w1" "w_nodes w1 = (w_nodes w)(n \<mapsto> x)" "n_status x = Initing"
    "ghost x" "sub_graph x = None" "parent_graph x = None" "fast_down_strams x = 0" "down_streams x = []"
    "w_graphs w1 = w_graphs w" "inner_schedule w1 = inner_schedule w" using root_new_eff by blast
  let ?run = "\<lambda>x :: node. x\<lparr>n_status := Running\<rparr>"
  obtain w2 where w2: "add_new_task n w1 = Inr w2" "w_nodes w2 = w_nodes w1"
    using run_queue_accepts [of w1 s n x] assms x by auto
  have b: "begin_task n w2 = Inr (put_node n (?run x) w2)" using begin_task_runs [of w2 n x] w2(2) x(2,3) by simp
  have "node_finish n (put_node n (?run x) w2) = Inl (Undefined ''null'')"
    using end_without_downstream [of "put_node n (?run x) w2" n "?run x"] x by (simp add: put_node_def deref_def)
  then have "end_task wait_graph wait_nodes n (put_node n (?run x) w2) = Inl (Undefined ''null'')"
    by (simp add: end_task_def)
  with x(1) w2(1) b show "\<exists>w1 w2 w3. root_new n raw w = Inr w1 \<and> add_root_task n w1 = Inr w2 \<and> begin_task n w2 = Inr w3
      \<and> end_task wait_graph wait_nodes n w3 = Inl (Undefined ''null'')"
    by (auto simp: add_root_task_def)
  from first_node [of w1 s n g x] obtain w5 rt ups where w5: "create_edges g n [] w1 = Inr w5"
    "w_nodes w5 n = Some ((attached_node g (graph_new nullptr) rt x)\<lparr>up_streams := ups\<rparr>)"
    "w_graphs w5 g = Some (grown_graph n (graph_new nullptr))" using assms x by auto
  let ?y = "?run ((attached_node g (graph_new nullptr) rt x)\<lparr>up_streams := ups\<rparr>)"
  have y: "n_status ?y = Running" "fast_down_strams ?y = 0" "down_streams ?y = []" "ghost ?y" "sub_graph ?y = None"
    "parent_graph ?y = Some g" using x by (simp_all add: attached_node_def)
  have "begin_task n w5 = Inr (put_node n ?y w5)" using begin_task_runs [OF w5(2)] x(3) by (simp add: attached_node_def)
  moreover have "end_task wait_graph wait_nodes n (put_node n ?y w5) = Inl Diverges"
    by (rule ghost_spins [OF _ y, of _ _ "grown_graph n (graph_new nullptr)"])
      (use w5(3) in \<open>simp_all add: put_node_def grown_fields graph_new_def\<close>)
  ultimately show "\<exists>w1 w2 w3. root_new n raw w = Inr w1 \<and> create_edges g n [] w1 = Inr w2 \<and> begin_task n w2 = Inr w3
      \<and> end_task wait_graph wait_nodes n w3 = Inl Diverges" using x(1) w5(1) by blast
qed

theorem root_task_fails_witness:
  "\<exists>w s raw w1 w2 w3. inner_schedule w = Some s \<and> root_new 7 raw w = Inr w1 \<and> add_root_task 7 w1 = Inr w2
    \<and> begin_task 7 w2 = Inr w3 \<and> end_task (\<lambda>_. Inr) (\<lambda>_. Inr) 7 w3 = Inl (Undefined ''null'')"
proof -
  obtain q where q: "tq_new 4096 = Inr q" "tq_room 0 q" using tq_new_room [of 4096 0] by auto
  define s where "s = \<lparr>root_graph = Some 5, s_status = Running, s_task_queue = q\<rparr>"
  define w where "w = (put_graph 5 (graph_new nullptr) (mem bare))\<lparr>inner_schedule := Some s\<rparr>"
  have "inner_schedule w = Some s" "s_status s = Running" "tq_inv (s_task_queue s)" "(7 :: nid) \<noteq> nullptr"
    "w_graphs w 5 = Some (graph_new nullptr)"
    using q(2) by (simp_all add: w_def s_def put_graph_def tq_room_def)
  from root_task_fails [OF this, of undefined "\<lambda>_. Inr" "\<lambda>_. Inr"] this(1) show ?thesis by blast
qed

end
