(* ===== verification/Circle_Check.thy ===== *)
theory Circle_Check
  imports Node_Graph
begin

text \<open>
  src/aspect.cpp, \<open>check_circle\<close> and \<open>do_check_circle\<close>: before a task waits for nodes, the
  search for the task among the nodes and what they wait for. The two \<open>unordered_set\<close>s are
  lists without duplicates (the order of a traversal cannot be seen in the answer); the loop has
  no set of visited nodes and may run for ever, so it is a partial function.
\<close>

section \<open>The search\<close>

text \<open>The loops that fill \<open>a_ptr\<close>: the nodes of the list that have not finished.\<close>

fun add_unfinished :: "world \<Rightarrow> nid list \<Rightarrow> nid list \<Rightarrow> nid list result" where
  "add_unfinished w [] a = Inr a"
| "add_unfinished w (n # ns) a =
     rbind (node_at n w) (\<lambda>x. add_unfinished w ns (if n_status x < Finish then List.insert n a else a))"

text \<open>The next round: the nodes the members of \<open>b_ptr\<close> wait for.\<close>

fun next_level :: "world \<Rightarrow> nid list \<Rightarrow> nid list \<Rightarrow> nid list result" where
  "next_level w [] a = Inr a"
| "next_level w (n # ns) a =
     rbind (node_at n w) (\<lambda>x.
     rbind (add_unfinished w (filter (\<lambda>m. m \<noteq> flag_node) (up_streams x)) a) (next_level w ns))"

partial_function (option) circle_loop :: "world \<Rightarrow> nid \<Rightarrow> nid list \<Rightarrow> bool result option" where
  "circle_loop w current_task a =
     (if a = [] then Some (Inr False)
      else if current_task \<in> set a then Some (Inr True)
      else case next_level w a [] of
        Inl e \<Rightarrow> Some (Inl e)
      | Inr a' \<Rightarrow> circle_loop w current_task a')"

definition do_check_circle :: "nid \<Rightarrow> nid list \<Rightarrow> world \<Rightarrow> bool result option" where
  "do_check_circle current_task check_nodes w =
     (case add_unfinished w check_nodes [] of
        Inl e \<Rightarrow> Some (Inl e)
      | Inr a \<Rightarrow> circle_loop w current_task a)"

definition check_circle :: "nid \<Rightarrow> nid list \<Rightarrow> world \<Rightarrow> bool result option" where
  "check_circle current_task check_nodes w =
     (if current_task \<in> set check_nodes then Some (Inr True)
      else if \<not> enable_qf_check_circle w then Some (Inr False)
      else do_check_circle current_task check_nodes w)"

section \<open>What it computes\<close>

text \<open>\<open>n\<close> waits for \<open>m\<close>, which has not finished.\<close>

definition waits :: "world \<Rightarrow> (nid \<times> nid) set" where
  "waits w = {(n, m). \<exists>x y. w_nodes w n = Some x \<and> m \<in> set (up_streams x) \<and> m \<noteq> flag_node
     \<and> w_nodes w m = Some y \<and> n_status y < Finish}"

definition unfinished_of :: "world \<Rightarrow> nid list \<Rightarrow> nid set" where
  "unfinished_of w ns = {n \<in> set ns. \<exists>x. w_nodes w n = Some x \<and> n_status x < Finish}"

text \<open>The task is one of the nodes, or an unfinished node waits for it at some distance.\<close>

definition closes_circle :: "nid \<Rightarrow> nid list \<Rightarrow> world \<Rightarrow> bool" where
  "closes_circle c ns w \<longleftrightarrow> c \<in> set ns \<union> (waits w)\<^sup>* `` unfinished_of w ns"

text \<open>The upstream pointers lead to nodes; the store is finite.\<close>

definition ups_ok :: "world \<Rightarrow> bool" where
  "ups_ok w \<longleftrightarrow> finite (dom (w_nodes w)) \<and>
     (\<forall>n x. w_nodes w n = Some x \<longrightarrow> set (up_streams x) \<subseteq> insert flag_node (dom (w_nodes w)))"

lemma add_unfinished_set:
  "set ns \<subseteq> dom (w_nodes w) \<Longrightarrow>
     \<exists>b. add_unfinished w ns a = Inr b \<and> set b = set a \<union> unfinished_of w ns"
proof (induction ns arbitrary: a)
  case (Cons n ns)
  then obtain x where x: "w_nodes w n = Some x" by auto
  let ?a = "if n_status x < Finish then List.insert n a else a"
  obtain b where "add_unfinished w ns ?a = Inr b" "set b = set ?a \<union> unfinished_of w ns"
    using Cons.IH [of ?a] Cons.prems by auto
  then show ?case using x by (auto simp: node_at_def unfinished_of_def)
qed (simp add: unfinished_of_def)

lemma next_level_set:
  assumes "ups_ok w"
  shows "set ns \<subseteq> dom (w_nodes w) \<Longrightarrow> \<exists>b. next_level w ns a = Inr b \<and> set b = set a \<union> waits w `` set ns"
proof (induction ns arbitrary: a)
  case (Cons n ns)
  then obtain x where x: "w_nodes w n = Some x" by auto
  let ?up = "filter (\<lambda>m. m \<noteq> flag_node) (up_streams x)"
  have "set ?up \<subseteq> dom (w_nodes w)" using assms x by (fastforce simp: ups_ok_def)
  then obtain b where b: "add_unfinished w ?up a = Inr b" "set b = set a \<union> unfinished_of w ?up"
    using add_unfinished_set by blast
  obtain c where c: "next_level w ns b = Inr c" "set c = set b \<union> waits w `` set ns"
    using Cons.IH [of b] Cons.prems by auto
  have "unfinished_of w ?up = waits w `` {n}" using x by (auto simp: unfinished_of_def waits_def)
  then have "set c = set a \<union> waits w `` set (n # ns)" using b(2) c(2) by auto
  then show ?case using x b(1) c(1) by (simp add: node_at_def)
qed simp

lemma waits_dom: "(n, m) \<in> waits w \<Longrightarrow> n \<in> dom (w_nodes w) \<and> m \<in> dom (w_nodes w)"
  by (auto simp: waits_def)



lemma level_add: "(R ^^ (j + i)) `` A = (R ^^ i) `` (R ^^ j) `` A"
  by (simp add: relpow_add relcomp_Image)




text \<open>The part of the graph that can be reached from the frontier.\<close>

definition waits_from :: "world \<Rightarrow> nid set \<Rightarrow> (nid \<times> nid) set" where
  "waits_from w A = {(n, m) \<in> waits w. n \<in> (waits w)\<^sup>* `` A}"




lemma circle_returns:
  assumes "circle_loop w c a = Some r" and "ups_ok w" and "set a \<subseteq> dom (w_nodes w)"
  shows "\<exists>k. c \<in> (waits w ^^ k) `` set a \<or> (waits w ^^ k) `` set a = {}"
proof -
  have "ups_ok w \<longrightarrow> set a \<subseteq> dom (w_nodes w) \<longrightarrow>
      (\<exists>k. c \<in> (waits w ^^ k) `` set a \<or> (waits w ^^ k) `` set a = {})"
  proof (rule circle_loop.raw_induct [where P = "\<lambda>w c a r. ups_ok w \<longrightarrow> set a \<subseteq> dom (w_nodes w) \<longrightarrow>
      (\<exists>k. c \<in> (waits w ^^ k) `` set a \<or> (waits w ^^ k) `` set a = {})", OF _ assms(1)], intro impI)
    fix f w c a r
    assume IH: "\<And>w c a r. f w c a = Some r \<Longrightarrow> ups_ok w \<longrightarrow> set a \<subseteq> dom (w_nodes w) \<longrightarrow>
        (\<exists>k. c \<in> (waits w ^^ k) `` set a \<or> (waits w ^^ k) `` set a = {})"
      and eq: "(if a = [] then Some (Inr False) else if c \<in> set a then Some (Inr True)
        else case next_level w a [] of Inl e \<Rightarrow> Some (Inl e) | Inr a' \<Rightarrow> f w c a') = Some r"
      and ok: "ups_ok w" "set a \<subseteq> dom (w_nodes w)"
    show "\<exists>k. c \<in> (waits w ^^ k) `` set a \<or> (waits w ^^ k) `` set a = {}"
    proof (cases "a = [] \<or> c \<in> set a")
      case True
      then have "c \<in> (waits w ^^ 0) `` set a \<or> (waits w ^^ 0) `` set a = {}" by auto
      then show ?thesis by blast
    next
      case False
      obtain b where b: "next_level w a [] = Inr b" "set b = waits w `` set a"
        using next_level_set [OF ok, of "[]"] by auto
      have "set b \<subseteq> dom (w_nodes w)" using b(2) waits_dom [of _ _ w] by blast
      then obtain k where "c \<in> (waits w ^^ k) `` set b \<or> (waits w ^^ k) `` set b = {}"
        using IH [of w c b r] eq False b(1) ok(1) by auto
      moreover have "(waits w ^^ k) `` set b = (waits w ^^ Suc k) `` set a"
        using level_add [where R = "waits w" and j = 1 and i = k and A = "set a"] by (simp add: b(2) relpow_commute)
      ultimately show ?thesis by metis
    qed
  qed
  with assms(2,3) show ?thesis by blast
qed

lemma circle_hangs:
  assumes "ups_ok w" and "set a \<subseteq> dom (w_nodes w)" and "c \<notin> (waits w)\<^sup>* `` set a"
    and "\<not> acyclic (waits_from w (set a))"
  shows "circle_loop w c a = None"
proof (rule ccontr)
  assume "circle_loop w c a \<noteq> None"
  then obtain r where "circle_loop w c a = Some r" by blast
  from circle_returns [OF this assms(1,2)] obtain k where
    k: "c \<in> (waits w ^^ k) `` set a \<or> (waits w ^^ k) `` set a = {}" by blast
  have "c \<notin> (waits w ^^ k) `` set a" using assms(3) relpow_imp_rtrancl by blast
  with k have empty: "(waits w ^^ k) `` set a = {}" by simp
  obtain n where n: "(n, n) \<in> (waits_from w (set a))\<^sup>+" using assms(4) by (auto simp: acyclic_def)
  then have "(n, n) \<in> (waits w)\<^sup>+" by (rule trancl_mono) (auto simp: waits_from_def)
  then obtain l where l: "0 < l" "(n, n) \<in> waits w ^^ l" by (auto simp: trancl_power)
  have around: "(n, n) \<in> waits w ^^ (l * i)" for i
    by (induction i) (use l(2) in \<open>auto simp: relpow_add intro: relcompI\<close>)
  from n obtain m where "(n, m) \<in> waits_from w (set a)" by (meson tranclD)
  then obtain x j where x: "x \<in> set a" "(x, n) \<in> waits w ^^ j"
    using rtrancl_imp_relpow by (fastforce simp: waits_from_def)
  have "(x, n) \<in> waits w ^^ (j + l * k)" using x(2) around [of k] by (auto simp: relpow_add)
  moreover have "k \<le> j + l * k" using l(1) by (cases l) auto
  then obtain i where "j + l * k = k + i" using le_Suc_ex [of k "j + l * k"] by auto
  ultimately have "(waits w ^^ k) `` set a \<noteq> {}" using x(1) by (auto simp: relpow_add)
  with empty show False by simp
qed


section \<open>Properties\<close>


text \<open>A circle among the nodes a task waits for that the task is no part of makes the search
  run for ever: it keeps no set of visited nodes.\<close>

theorem check_circle_hangs:
  assumes "ups_ok w" and "set ns \<subseteq> dom (w_nodes w)" and "enable_qf_check_circle w"
    and "\<not> closes_circle c ns w" and "\<not> acyclic (waits_from w (unfinished_of w ns))"
  shows "check_circle c ns w = None"
proof -
  obtain a where a: "add_unfinished w ns [] = Inr a" "set a = unfinished_of w ns"
    using add_unfinished_set [OF assms(2), of "[]"] by auto
  have dom: "set a \<subseteq> dom (w_nodes w)" using a(2) by (auto simp: unfinished_of_def)
  have "circle_loop w c a = None" using circle_hangs [OF assms(1) dom] assms(4,5) unfolding a(2) closes_circle_def by blast
  then show ?thesis using assms(3,4) a(1) by (simp add: check_circle_def do_check_circle_def closes_circle_def)
qed

text \<open>Three running tasks: 10 waits for 11, 11 for 12, and 12 for 11 when \<open>back\<close> is set.\<close>

definition task_node :: "nid list \<Rightarrow> node" where
  "task_node ups = \<lparr>n_status = Running, ghost = False, reuse = False, root_node = 0, node_id = 0,
     parent_graph = None, sub_graph = None, require_sub_graph = False, up_streams = ups,
     fast_down_strams = 0, fast_down_strams_bak = fast_down_strams_bak_init, wait_count = 0,
     down_streams = []\<rparr>"

definition waiting_tasks :: "bool \<Rightarrow> world" where
  "waiting_tasks bck = \<lparr>w_nodes = [10 \<mapsto> task_node [11], 11 \<mapsto> task_node [12, flag_node],
       12 \<mapsto> task_node (if bck then [11] else []), 13 \<mapsto> task_node []],
     w_graphs = Map.empty, inner_schedule = None, ready_worker_num = 0, pending_worker_num = 4,
     enable_qf_check_circle = True, enable_qf_dump_graph = False\<rparr>"

lemma waiting_tasks_ok: "ups_ok (waiting_tasks bck)" "{10, 11, 12, 13} \<subseteq> dom (w_nodes (waiting_tasks bck))"
  "enable_qf_check_circle (waiting_tasks bck)"
  by (auto simp: ups_ok_def waiting_tasks_def task_node_def flag_node_def split: if_splits)

lemma waiting_tasks_waits:
  "waits (waiting_tasks bck) = {(10, 11), (11, 12)} \<union> (if bck then {(12, 11)} else {})"
  by (auto simp: waits_def waiting_tasks_def task_node_def flag_node_def status_order split: if_splits)

lemma waiting_tasks_unfinished: "unfinished_of (waiting_tasks bck) [10] = {10}"
  by (auto simp: unfinished_of_def waiting_tasks_def task_node_def status_order)


theorem check_circle_hangs_witness:
  "check_circle 13 [10] (waiting_tasks True) = None"
proof (rule check_circle_hangs [OF waiting_tasks_ok(1) _ waiting_tasks_ok(3)])
  show "set [10] \<subseteq> dom (w_nodes (waiting_tasks True))" using waiting_tasks_ok(2) by simp
  let ?R = "waits (waiting_tasks True)"
  have "y \<noteq> 13" if "(10, y) \<in> ?R\<^sup>*" for y
    using that by induction (auto simp: waiting_tasks_waits)
  then show "\<not> closes_circle 13 [10] (waiting_tasks True)"
    by (auto simp: waiting_tasks_unfinished closes_circle_def)
  have e: "(10, 11) \<in> ?R" "(11, 12) \<in> ?R" "(12, 11) \<in> ?R" by (simp_all add: waiting_tasks_waits)
  have r: "(10, 11) \<in> ?R\<^sup>*" using e(1) by blast
  have "(11, 12) \<in> waits_from (waiting_tasks True) {10}" "(12, 11) \<in> waits_from (waiting_tasks True) {10}"
    using r e rtrancl_into_rtrancl [OF r e(2)] by (auto simp: waits_from_def)
  then have "(11, 11) \<in> (waits_from (waiting_tasks True) {10})\<^sup>+" by (rule trancl.trancl_into_trancl [OF r_into_trancl])
  then show "\<not> acyclic (waits_from (waiting_tasks True) (unfinished_of (waiting_tasks True) [10]))"
    by (auto simp: waiting_tasks_unfinished acyclic_def)
qed

text \<open>A null pointer among the nodes, which \<open>require_node\<close> and \<open>create_edges\<close> accept, is
  dereferenced by the search: undefined behaviour, but only with \<open>enable_qf_check_circle\<close> on.\<close>

theorem check_circle_null:
  assumes "w_nodes w nullptr = None" and "nullptr \<in> set ns" and "c \<notin> set ns"
  shows "check_circle c ns w
    = (if enable_qf_check_circle w then Some (Inl (Undefined ''node'')) else Some (Inr False))"
proof -
  have "add_unfinished w ns a = Inl (Undefined ''node'')" if "nullptr \<in> set ns" for ns a
    using that assms(1) by (induction ns arbitrary: a) (auto simp: node_at_def split: option.split)
  with assms show ?thesis by (simp add: check_circle_def do_check_circle_def)
qed

theorem check_circle_null_witness:
  "check_circle 13 [10, nullptr] (waiting_tasks False) = Some (Inl (Undefined ''node''))"
proof -
  have "w_nodes (waiting_tasks False) nullptr = None" by (simp add: waiting_tasks_def)
  from check_circle_null [OF this, of "[10, nullptr]" 13] show ?thesis
    by (auto simp: waiting_tasks_def)
qed

end
