(* ===== verification/Aspect.thy ===== *)
theory Aspect
  imports Scheduler Circle_Check Dag_Exec
begin

text \<open>
  src/aspect.cpp: \<open>require_node\<close> and \<open>wait_graph\<close> block the task that calls them until nodes, or a
  graph, have finished. The task hangs a \<open>BackNode\<close> behind what it waits for and leaves its
  context; the worker that runs the \<open>BackNode\<close> continues the task on that context. A call is
  split where the context is switched: \<open>..._enter\<close> up to the switch, \<open>back_run\<close> on the worker that
  comes back, \<open>leave_wait\<close> from there on.
\<close>

section \<open>Blocking\<close>

text \<open>The first loop of \<open>require_node\<close>.\<close>

fun need_wait :: "nid list \<Rightarrow> world \<Rightarrow> bool result" where
  "need_wait [] w = Inr False"
| "need_wait (n # ns) w =
     (if n = nullptr then need_wait ns w
      else rbind (node_at n w) (\<lambda>x. rbind (need_wait ns w) (\<lambda>b. Inr (n_status x < Finish \<or> b))))"

text \<open>\<open>require_node\<close> when nothing is left to wait for.\<close>

definition note_upstreams :: "nid \<Rightarrow> nid list \<Rightarrow> world \<Rightarrow> world result" where
  "note_upstreams task nodes w = rfold (append_upstreams task) nodes w"

definition get_current_task :: "nat \<Rightarrow> runtime \<Rightarrow> nid result" where
  "get_current_task i r = rbind (vget (thread_exec_vec r) i) (\<lambda>it. Inr (current_task it))"

text \<open>The addresses of the \<open>BackNode\<close> (with the memory the constructor finds), of the local
  \<open>sub_graph_\<close>, of the new context and of its stack.\<close>

record wait_memory =
  wa_node :: nid
  wa_raw :: node
  wa_graph :: gid
  wa_context :: ptr
  wa_stack :: ptr

text \<open>The common part of \<open>require_node\<close> and \<open>wait_graph\<close>: \<open>link\<close> is the call of \<open>create_edges\<close> on
  the local graph.\<close>

definition enter_wait ::
  "i32 \<Rightarrow> nat \<Rightarrow> nid \<Rightarrow> (gid \<Rightarrow> nid \<Rightarrow> world \<Rightarrow> world result) \<Rightarrow> wait_memory \<Rightarrow> runtime \<Rightarrow> runtime result" where
  "enter_wait me i task link a r =
     (let back_node = wa_node a; w1 = node_new back_node (wa_raw a) (mem r) in
      rbind (append_upstreams task back_node w1) (\<lambda>w2.
      let w3 = put_graph (wa_graph a) (graph_new nullptr) w2 in
      rbind (thread_at i r) (\<lambda>thread_exec.
      let r3 = r\<lparr>mem := w3, backs := (backs r)(back_node \<mapsto> (task, context_ptr thread_exec))\<rparr> in
      rbind (link (wa_graph a) back_node w3) (\<lambda>w4.
      rbind (set_status task Yield w4) (\<lambda>w5.
      rbind (mod_node task (\<lambda>x. x\<lparr>require_sub_graph := True\<rparr>) w5) (\<lambda>w6.
        swap_new_context me i (context_ptr thread_exec) (wa_context a) (wa_stack a)
          (idle_worker_add (r3\<lparr>mem := w6\<rparr>))))))))"

text \<open>\<open>require_node\<close> up to the switch; the flag tells whether it switches or has returned.\<close>

definition require_node_enter ::
  "i32 \<Rightarrow> nid list \<Rightarrow> wait_memory \<Rightarrow> runtime \<Rightarrow> (bool \<times> runtime) result" where
  "require_node_enter me nodes a r =
     rbind (safe_get_cur_exec me r) (\<lambda>cur_exec.
     rbind (qf_assert (cur_exec \<noteq> None) ''safe_get_cur_exec() != nullptr'') (\<lambda>_.
     rbind (need_wait nodes (mem r)) (\<lambda>wait.
     rbind (get_cur_exec me r) (\<lambda>i.
     rbind (get_current_task i r) (\<lambda>task.
     if \<not> wait then rbind (note_upstreams task nodes (mem r)) (\<lambda>w. Inr (False, r\<lparr>mem := w\<rparr>))
     else case check_circle task nodes (mem r) of
       None \<Rightarrow> Inl Diverges
     | Some circle \<Rightarrow>
         rbind circle (\<lambda>c. rbind (qf_assert (\<not> c) ''!check_circle(current_task, nodes)'') (\<lambda>_.
         rbind (enter_wait me i task (\<lambda>g back_node. create_edges g back_node nodes) a r) (\<lambda>r1.
           Inr (True, r1)))))))))"

definition wait_graph_enter ::
  "i32 \<Rightarrow> gid \<Rightarrow> wait_memory \<Rightarrow> runtime \<Rightarrow> (bool \<times> runtime) result" where
  "wait_graph_enter me g a r =
     rbind (safe_get_cur_exec me r) (\<lambda>cur_exec.
     rbind (qf_assert (cur_exec \<noteq> None) ''safe_get_cur_exec() != nullptr'') (\<lambda>_.
     rbind (get_cur_exec me r) (\<lambda>i.
     rbind (get_current_task i r) (\<lambda>task.
     rbind (graph_at g (mem r)) (\<lambda>gr.
     if g_wait_count gr = 0 then Inr (False, r)
     else
       rbind (node_at task (mem r)) (\<lambda>x.
       rbind (qf_assert (parent_graph x \<noteq> Some g) ''current_task->parent_graph != graph'') (\<lambda>_.
       rbind (enter_wait me i task (\<lambda>s back_node. create_edges_graph s back_node g) a r) (\<lambda>r1.
         Inr (True, r1)))))))))"

section \<open>Coming back\<close>

text \<open>\<open>BackNode::run\<close> on worker \<open>i\<close>.\<close>

definition back_run :: "nat \<Rightarrow> nid \<Rightarrow> runtime \<Rightarrow> runtime result" where
  "back_run i this r =
     rbind (mod_node this (\<lambda>x. x\<lparr>n_status := Recoverable\<rparr>) (mem r)) (\<lambda>w.
     rbind (deref (backs r this)) (\<lambda>(back_task, back_run_context_ptr).
       back_switch i back_task back_run_context_ptr (r\<lparr>mem := w\<rparr>)))"

text \<open>\<open>require_node\<close> on nodes that have all finished, as \<open>clear_graph\<close> calls it.\<close>

definition require_done :: "nid \<Rightarrow> nid list \<Rightarrow> world \<Rightarrow> world result" where
  "require_done task nodes w =
     rbind (need_wait nodes w) (\<lambda>wait. if wait then Inl Diverges else note_upstreams task nodes w)"

text \<open>
  The rest of \<open>require_node\<close> and \<open>wait_graph\<close> on the worker \<open>i\<close> that came back. At the closing
  brace \<open>sub_graph_\<close> is destroyed and with it the last pointer to the \<open>BackNode\<close>.
\<close>

definition leave_wait :: "i32 \<Rightarrow> nat \<Rightarrow> nid \<Rightarrow> nid \<Rightarrow> gid \<Rightarrow> runtime \<Rightarrow> runtime result" where
  "leave_wait me i task back_node g r =
     rbind (drop_pre me i (r\<lparr>backs := (backs r)(back_node := None)\<rparr>)) (\<lambda>r1.
     rbind (set_status task Running (mem r1)) (\<lambda>w1.
     rbind (graph_delete True (require_done task) g w1) (\<lambda>w2.
     rbind (node_delete True (\<lambda>_. Inr) (require_done task) back_node w2) (\<lambda>w3.
       Inr (r1\<lparr>mem := w3\<rparr>)))))"

section \<open>Looking at the nodes\<close>

definition live_nodes :: "nid list \<Rightarrow> world \<Rightarrow> bool" where
  "live_nodes ns w \<longleftrightarrow> (\<forall>n \<in> set ns. n = nullptr \<or> w_nodes w n \<noteq> None)"

definition some_unfinished :: "nid list \<Rightarrow> world \<Rightarrow> bool" where
  "some_unfinished ns w \<longleftrightarrow>
     (\<exists>n \<in> set ns. n \<noteq> nullptr \<and> (case w_nodes w n of None \<Rightarrow> False | Some x \<Rightarrow> n_status x < Finish))"

lemma need_wait_eq: "live_nodes ns w \<Longrightarrow> need_wait ns w = Inr (some_unfinished ns w)"
proof (induction ns)
  case (Cons n ns)
  then have "need_wait ns w = Inr (some_unfinished ns w)" by (simp add: live_nodes_def)
  then show ?case using Cons.prems by (auto simp: live_nodes_def some_unfinished_def node_at_def)
qed (simp add: some_unfinished_def)

lemma note_upstreams_eff:
  "w_nodes w t = Some x \<Longrightarrow> \<exists>ups. note_upstreams t ns w = Inr (put_node t (x\<lparr>up_streams := ups\<rparr>) w)
    \<and> (\<not> enable_qf_check_circle w \<and> \<not> enable_qf_dump_graph w \<longrightarrow> ups = up_streams x)"
proof (induction ns arbitrary: w x)
  case Nil
  then have "put_node t (x\<lparr>up_streams := up_streams x\<rparr>) w = w" by (simp add: put_node_def fun_upd_idem)
  then show ?case by (intro exI [of _ "up_streams x"]) (simp add: note_upstreams_def)
next
  case (Cons n ns)
  obtain ups where u: "append_upstreams t n w = Inr (put_node t (x\<lparr>up_streams := ups\<rparr>) w)"
    "\<not> enable_qf_check_circle w \<and> \<not> enable_qf_dump_graph w \<longrightarrow> ups = up_streams x"
    using append_upstreams_eff [OF Cons.prems] by blast
  let ?w = "put_node t (x\<lparr>up_streams := ups\<rparr>) w"
  have "w_nodes ?w t = Some (x\<lparr>up_streams := ups\<rparr>)" by simp
  from Cons.IH [OF this] obtain ups2 where u2: "note_upstreams t ns ?w = Inr (put_node t (x\<lparr>up_streams := ups, up_streams := ups2\<rparr>) ?w)"
    "\<not> enable_qf_check_circle ?w \<and> \<not> enable_qf_dump_graph ?w \<longrightarrow> ups2 = ups" by auto
  have "note_upstreams t (n # ns) w = Inr (put_node t (x\<lparr>up_streams := ups2\<rparr>) w)"
    using u(1) u2(1) by (simp add: note_upstreams_def put_node_def)
  moreover have "\<not> enable_qf_check_circle w \<and> \<not> enable_qf_dump_graph w \<longrightarrow> ups2 = up_streams x"
    using u(2) u2(2) by (simp add: put_node_def)
  ultimately show ?case by blast
qed

lemma unlogged: "\<not> enable_qf_check_circle w \<Longrightarrow> \<not> enable_qf_dump_graph w \<Longrightarrow> note_upstreams t ns w = Inr w"
  unfolding note_upstreams_def by (induction ns) (simp_all add: append_upstreams_def)

lemma worker_index:
  assumes "i < length (thread_exec_vec r)" and "length (thread_exec_vec r) < 2 ^ 31"
  shows "safe_get_cur_exec (of_nat i) r = Inr (Some i)" and "get_cur_exec (of_nat i) r = Inr i"
    and "get_current_task i r = Inr (current_task (thread_exec_vec r ! i))"
proof -
  show s: "safe_get_cur_exec (of_nat i) r = Inr (Some i)" by (rule me_ok [OF assms])
  then show "get_cur_exec (of_nat i) r = Inr i" by (auto simp: safe_get_cur_exec_def split: if_splits)
  show "get_current_task i r = Inr (current_task (thread_exec_vec r ! i))" using assms(1) by (simp add: get_current_task_def)
qed

section \<open>The task blocks\<close>

text \<open>What the program has to give: addresses that are not in use.\<close>

definition fresh_wait :: "wait_memory \<Rightarrow> runtime \<Rightarrow> bool" where
  "fresh_wait a r \<longleftrightarrow> w_nodes (mem r) (wa_node a) = None \<and> wa_node a \<noteq> nullptr \<and> wa_node a \<noteq> flag_node
     \<and> w_graphs (mem r) (wa_graph a) = None \<and> fresh_stacks [wa_stack a] r \<and> fresh_contexts [wa_context a] r"

text \<open>The nodes belong to graphs, as those \<open>create_edges\<close> returns do.\<close>

definition in_graphs :: "nid list \<Rightarrow> world \<Rightarrow> bool" where
  "in_graphs ns w \<longleftrightarrow>
     (\<forall>r \<in> set ns. r = nullptr \<or> (case w_nodes w r of None \<Rightarrow> False | Some x \<Rightarrow> parent_graph x \<noteq> None))"

lemma in_graphs_live: "in_graphs ns w \<Longrightarrow> live_nodes ns w"
  by (auto simp: in_graphs_def live_nodes_def split: option.splits)

lemma linked_world:
  assumes inv: "exec_inv w (\<lambda>_. 0) h d" and x: "w_nodes w t = Some x" "n_status x = Running"
    and b: "w_nodes w b = None" "b \<noteq> nullptr" "b \<noteq> flag_node" and g: "w_graphs w g = None"
    and ns: "in_graphs ns w" "length ns < i32_lim"
  shows "\<exists>w2 w4 w5 w6 gr y z. append_upstreams t b (node_new b raw w) = Inr w2
    \<and> create_edges g b ns (put_graph g (graph_new nullptr) w2) = Inr w4
    \<and> set_status t Yield w4 = Inr w5 \<and> mod_node t (\<lambda>x. x\<lparr>require_sub_graph := True\<rparr>) w5 = Inr w6
    \<and> exec_inv w6 (\<lambda>_. 0) h (d(b := d b \<union> required b ns))
    \<and> w_nodes w6 t = Some y \<and> n_status y = Yield \<and> require_sub_graph y
    \<and> w_nodes w6 b = Some z \<and> n_status z = Initing \<and> parent_graph z = Some g
    \<and> w_graphs w6 g = Some gr \<and> get_nodes gr = [b] \<and> g_status gr = Running"
proof -
  let ?w1 = "node_new b raw w"
  have bt: "b \<noteq> t" using b(1) x(1) by auto
  have i1: "exec_inv ?w1 (\<lambda>_. 0) h d" by (rule alloc_inv [OF inv b])
  define xb where "xb = node_reset (raw\<lparr>ghost := False, reuse := False\<rparr>)"
  have n1: "w_nodes ?w1 t = Some x" "w_nodes ?w1 b = Some xb" "w_graphs ?w1 = w_graphs w"
    using x(1) bt by (simp_all add: node_new_def xb_def)
  obtain ups where a2: "append_upstreams t b ?w1 = Inr (put_node t (x\<lparr>up_streams := ups\<rparr>) ?w1)"
    using append_upstreams_eff [OF n1(1)] by blast
  let ?w2 = "put_node t (x\<lparr>up_streams := ups\<rparr>) ?w1"
  have i2: "exec_inv ?w2 (\<lambda>_. 0) h d"
    by (rule exec_inv_put_same [OF i1 n1(1)]) (simp_all add: same_links_def)
  let ?w3 = "put_graph g (graph_new nullptr) ?w2"
  have i3: "exec_inv ?w3 (\<lambda>_. 0) h d" by (rule new_graph_inv [OF i2]) (use g n1(3) in simp_all)
  have n3: "w_nodes ?w3 b = Some xb" "parent_graph xb = None" "w_nodes ?w3 t = Some (x\<lparr>up_streams := ups\<rparr>)"
    "w_graphs ?w3 g = Some (graph_new nullptr)" "node_num (graph_new nullptr) + 1 \<noteq> 0"
    using n1 bt by (simp_all add: xb_def node_reset_def graph_new_def)
  have "linkable ?w3 b ns" unfolding linkable_iff
  proof
    fix r assume "r \<in> set ns"
    then consider "r = nullptr" | y where "w_nodes w r = Some y" "parent_graph y \<noteq> None"
      using ns(1) unfolding in_graphs_def by (fastforce split: option.splits)
    then show "r = nullptr \<or> r = b \<or> (\<exists>x. w_nodes ?w3 r = Some x \<and> parent_graph x \<noteq> None)"
    proof cases
      case 2
      moreover have "r \<noteq> b" using 2(1) b(1) by auto
      ultimately show ?thesis using x(1) by (cases "r = t") (simp_all add: node_new_def)
    qed simp
  qed
  from create_edges_step [OF i3 n3(1,2,4,5) this ns(2)] obtain w4 where w4: "create_edges g b ns ?w3 = Inr w4"
    "exec_inv w4 (\<lambda>_. 0) h (d(b := d b \<union> required b ns))" "joins ?w3 b g (graph_new nullptr) w4" by blast
  have v: "map_option n_status (w_nodes w4 t) = Some Running" "map_option n_status (w_nodes w4 b) = Some Initing"
    "map_option parent_graph (w_nodes w4 b) = Some (Some g)" "w_graphs w4 g = Some (grown_graph b (graph_new nullptr))"
    "map_option parent_graph (w_nodes w4 t) = Some (parent_graph x)"
    using w4(3) n3 x(2) bt by (auto simp: joins_def xb_def node_reset_def)
  then obtain y z where y: "w_nodes w4 t = Some y" "n_status y = Running" "w_nodes w4 b = Some z" "n_status z = Initing"
    "parent_graph z = Some g" "parent_graph y = parent_graph x" by auto
  let ?y = "y\<lparr>n_status := Yield\<rparr>" let ?w5 = "put_node t ?y w4"
  have px: "parent_graph x \<noteq> None" using exec_invD(1) [OF inv x(1)] x(2) by (auto simp: links_ok_def)
  have i5: "exec_inv ?w5 (\<lambda>_. 0) h (d(b := d b \<union> required b ns))"
  proof (rule exec_inv_put [OF w4(2) y(1)])
    show "waits_ok ?y (owed w4 (\<lambda>_. 0) t) (count (queue w4 + h) t)"
      using exec_invD(2) [OF w4(2) y(1)] y(2) by (simp add: waits_ok_def)
    show "fast_down_strams_bak ?y = fast_down_strams_bak_init"
      using exec_invD(1) [OF w4(2) y(1)] y(2) by (simp add: links_ok_def status_order)
  qed (use y(2,6) px in \<open>simp_all add: same_links_def status_order\<close>)
  let ?y6 = "?y\<lparr>require_sub_graph := True\<rparr>" let ?w6 = "put_node t ?y6 ?w5"
  have "exec_inv ?w6 (\<lambda>_. 0) h (d(b := d b \<union> required b ns))"
    by (rule exec_inv_put_same [OF i5, of t ?y]) (simp_all add: same_links_def)
  moreover have "set_status t Yield w4 = Inr ?w5" "mod_node t (\<lambda>x. x\<lparr>require_sub_graph := True\<rparr>) ?w5 = Inr ?w6"
    using y(1) by (simp_all add: set_status_def mod_node_def node_at_def)
  moreover have "get_nodes (grown_graph b (graph_new nullptr)) = [b]" "g_status (grown_graph b (graph_new nullptr)) = Running"
    using b(2) replicate_Suc [of 62 nullptr]
    by (simp_all add: grown_graph_def graph_new_def get_nodes_def vec_resize_def fast_node_max_num_def)
  ultimately show ?thesis using a2 w4(1) y bt v(4)
    by (intro exI [of _ ?w2] exI [of _ w4] exI [of _ ?w5] exI [of _ ?w6] exI [of _ "grown_graph b (graph_new nullptr)"]
        exI [of _ ?y6] exI [of _ z]) simp
qed

text \<open>The runtime of a state that can be reached has fewer than \<open>2 ^ 31\<close> workers.\<close>

lemma reachable_workers: "creach s \<Longrightarrow> length (thread_exec_vec (rt s)) < 2 ^ 31"
  using co_invD(2) [OF creach_inv, of s] by (simp add: max_workers_def)

lemma thread_at_Inr: "thread_at i r = Inr t \<Longrightarrow> i < length (thread_exec_vec r) \<and> t = th r i"
  by (auto simp: thread_at_def vget_def split: if_splits)

lemma context_new_pre:
  "context_new me z c m r = Inr r' \<Longrightarrow> length (thread_exec_vec r') = length (thread_exec_vec r)
    \<and> (\<forall>j < length (thread_exec_vec r). context_pre_ptr (th r' j) = context_pre_ptr (th r j))"
  by (auto simp: context_new_def get_stack_def Let_def split: if_splits option.splits dest!: thread_at_Inr)

lemma swap_new_context_pre:
  assumes "swap_new_context me i out c m r = Inr r'"
  shows "length (thread_exec_vec r') = length (thread_exec_vec r) \<and> context_pre_ptr (th r' i) = out \<and> context_ptr (th r' i) = c"
  using assms by (auto simp: swap_new_context_def Let_def dest!: thread_at_Inr context_new_pre)

text \<open>The part of \<open>require_node\<close> and \<open>wait_graph\<close> that is common: the switch.\<close>

lemma enter_wait_switches:
  assumes s: "creach s" "i < length (thread_exec_vec (rt s))" "phase s i = Scheduling"
    and f: "fresh_stacks [wa_stack a] (rt s)" "fresh_contexts [wa_context a] (rt s)"
    and w: "append_upstreams t (wa_node a) (node_new (wa_node a) (wa_raw a) (mem (rt s))) = Inr w2"
      "link (wa_graph a) (wa_node a) (put_graph (wa_graph a) (graph_new nullptr) w2) = Inr w4"
      "set_status t Yield w4 = Inr w5" "mod_node t (\<lambda>x. x\<lparr>require_sub_graph := True\<rparr>) w5 = Inr w6"
  shows "\<exists>r. enter_wait (of_nat i) i t link a (rt s) = Inr r
    \<and> creach (s\<lparr>rt := r, phase := (phase s)(i := Switched),
               waiting := insert (context_ptr (th (rt s) i)) (waiting s)\<rparr>)
    \<and> mem r = w6 \<and> backs r (wa_node a) = Some (t, context_ptr (th (rt s) i))
    \<and> context_ptr (th r i) = wa_context a \<and> idle_worker_num r = idle_worker_num (rt s) + 1"
proof -
  let ?b = "wa_node a" and ?ctx = "context_ptr (th (rt s) i)"
  define r3 where "r3 = idle_worker_add ((rt s)\<lparr>backs := (backs (rt s))(?b \<mapsto> (t, ?ctx)), mem := w6\<rparr>)"
  let ?s = "s\<lparr>rt := r3\<rparr>"
  have same: "same_contexts (rt s) r3" by (simp add: same_contexts_def r3_def idle_worker_add_def)
  have s3: "creach ?s" by (rule creach.more [OF s(1) other [OF same]])
  have ctx: "context_ptr (th r3 i) = ?ctx" by (simp add: r3_def idle_worker_add_def)
  have "fresh_stacks [wa_stack a] r3" "fresh_contexts [wa_context a] r3"
    using f by (simp_all add: r3_def idle_worker_add_def fresh_stacks_def fresh_contexts_def)
  then obtain r where r: "swap_new_context (of_nat i) i ?ctx (wa_context a) (wa_stack a) r3 = Inr r"
    using block_step [OF creach_inv [OF s3], of i "wa_stack a" "wa_context a"] s(2,3) ctx
    by (auto simp: same_contexts_th [OF same])
  have "creach (?s\<lparr>rt := r, phase := (phase ?s)(i := Switched), waiting := insert (context_ptr (th (rt ?s) i)) (waiting ?s)\<rparr>)"
    by (rule creach.more [OF s3 block])
      (use s(2,3) r ctx f in \<open>simp_all add: r3_def idle_worker_add_def fresh_stacks_def fresh_contexts_def\<close>)
  then have reach: "creach (s\<lparr>rt := r, phase := (phase s)(i := Switched), waiting := insert ?ctx (waiting s)\<rparr>)"
    by (simp add: ctx)
  have "mem r = w6" "backs r ?b = Some (t, ?ctx)" "idle_worker_num r = idle_worker_num (rt s) + 1"
    using swap_new_context_kept [OF r] by (simp_all add: kept_def r3_def idle_worker_add_def)
  moreover have "context_ptr (th r i) = wa_context a" using swap_new_context_pre [OF r] by blast
  moreover have "enter_wait (of_nat i) i t link a (rt s) = Inr r"
    using w s(2) r by (simp add: enter_wait_def r3_def)
  ultimately show ?thesis using reach by blast
qed


section \<open>The task comes back\<close>

text \<open>What a worker runs: the task and the context.\<close>

definition runs :: "runtime \<Rightarrow> (nid \<times> ptr) list" where
  "runs r = map (\<lambda>it. (current_task it, context_ptr (exec it))) (thread_exec_vec r)"

lemma runs_put_thread:
  "i < length (thread_exec_vec r) \<Longrightarrow> context_ptr t = context_ptr (th r i) \<Longrightarrow> runs (put_thread i t r) = runs r"
  by (auto simp: runs_def put_thread_def nth_list_update intro!: nth_equalityI)

lemma runs_simps [simp]:
  "runs (free_context c r) = runs r" "runs (stacks_update f r) = runs r"
  "runs (pending_context_num_update g r) = runs r" "runs (put_context c x r) = runs r"
  by (simp_all add: runs_def free_context_def put_context_def)

lemma put_stack_runs: "put_stack i s r = Inr (b, r') \<Longrightarrow> runs r' = runs r \<and> contexts r' = contexts r \<and> kept r r'"
  by (auto simp: put_stack_def runs_put_thread dest!: thread_at_Inr)

lemma context_delete_runs:
  "context_delete me c r = Inr r' \<Longrightarrow> runs r' = runs r \<and> contexts r' = (contexts r)(c := None) \<and> kept r r'"
  by (auto simp: context_delete_def free_stack_def Let_def split: if_splits option.splits dest!: put_stack_runs)

lemma drop_pre_runs:
  assumes "drop_pre me i r = Inr r'" and "context_pre_ptr (th r i) \<noteq> nullptr"
  shows "runs r' = runs r \<and> contexts r' = (contexts r)(context_pre_ptr (th r i) := None) \<and> kept r r'"
  using assms
  by (auto simp: drop_pre_def delete_if_def runs_put_thread dest!: thread_at_Inr context_delete_runs)

lemma runs_nth: "i < length (thread_exec_vec r) \<Longrightarrow>
    runs r ! i = (current_task (thread_exec_vec r ! i), context_ptr (th r i))"
  by (simp add: runs_def)

lemma back_switch_runs:
  assumes "back_switch j t c r = Inr r'"
  shows "length (thread_exec_vec r') = length (thread_exec_vec r) \<and> j < length (thread_exec_vec r)
    \<and> current_task (thread_exec_vec r' ! j) = t \<and> context_ptr (th r' j) = c
    \<and> context_pre_ptr (th r' j) = context_ptr (th r j) \<and> kept r r'"
  using assms
  by (auto simp: back_switch_def context_set_status_def set_context_def put_thread_def kept_def put_context_def
      vget_def dest!: thread_at_Inr split: if_splits)

text \<open>The local graph and the \<open>BackNode\<close> are freed.\<close>

lemma wait_graph_freed:
  assumes b: "w_nodes w b = Some z" "n_status z = Recoverable" "b \<noteq> nullptr"
    and t: "w_nodes w t = Some x" "t \<noteq> b" and g: "w_graphs w g = Some gr" "get_nodes gr = [b]" "g_status gr = Running"
  shows "\<exists>w' ups. graph_delete True (require_done t) g w = Inr w' \<and> w_nodes w' = (w_nodes w)(t \<mapsto> x\<lparr>up_streams := ups\<rparr>)
    \<and> w_graphs w' = (w_graphs w)(g := None) \<and> pending_worker_num w' = pending_worker_num w
    \<and> inner_schedule w' = inner_schedule w"
proof (cases "enable_qf_dump_graph w")
  case True
  then show ?thesis using t(1)
    by (intro exI [of _ "free_graph g w"] exI [of _ "up_streams x"])
      (simp add: graph_delete_def clear_graph_def free_graph_def fun_upd_idem)
next
  case False
  obtain ups where n: "note_upstreams t [b] w = Inr (put_node t (x\<lparr>up_streams := ups\<rparr>) w)"
    using note_upstreams_eff [OF t(1)] by blast
  let ?w1 = "put_node t (x\<lparr>up_streams := ups\<rparr>) w"
  have "need_wait [b] w = Inr False" using b by (simp add: node_at_def status_order)
  then have r: "require_done t [b] w = Inr ?w1" using n by (simp add: require_done_def)
  let ?g2 = "gr\<lparr>g_status := Finish, g_nodes := [], fast_nodes := []\<rparr>"
  have twice: "put_graph g p (put_graph g q w) = put_graph g p w" for p q w by (simp add: put_graph_def)
  have "all_recoverable [b] (put_graph g (gr\<lparr>g_status := Finish\<rparr>) ?w1) = Inr True"
    using b t(2) by (simp add: node_at_def)
  then have "clear_graph True (require_done t) g w = Inr (put_graph g ?g2 ?w1)"
    using False g r twice by (simp del: all_recoverable.simps add: clear_graph_def graph_at_def mod_graph_def Let_def)
  moreover have "pending_worker_num (put_graph g ?g2 ?w1) = pending_worker_num w" by (simp add: put_graph_def put_node_def)
  ultimately show ?thesis
    by (intro exI [of _ "free_graph g (put_graph g ?g2 ?w1)"] exI [of _ ups])
      (simp add: graph_delete_def free_graph_def)
qed

lemma back_node_freed:
  assumes "w_nodes w b = Some z" and "n_status z = Recoverable" and "sub_graph z = None"
  shows "\<exists>w'. node_delete True f g b w = Inr w' \<and> w_nodes w' = (w_nodes w)(b := None) \<and> w_graphs w' = w_graphs w
    \<and> pending_worker_num w' = pending_worker_num w - 1 \<and> inner_schedule w' = inner_schedule w"
  using assms
  by (simp add: node_delete_def node_at_def release_def set_status_def mod_node_def free_node_def put_node_def status_order)

text \<open>A node that has been started waits for nothing.\<close>

lemma started_deps_finished:
  assumes inv: "exec_inv w e h d" and b: "w_nodes w b = Some z" "n_status z \<noteq> Initing" and q: "q \<in> d b"
  shows "\<exists>u. w_nodes w q = Some u \<and> \<not> n_status u < Finish"
proof -
  have "pend w b = 0" using exec_invD(2) [OF inv b(1)] b(2) by (simp add: waits_ok_def owed_def)
  moreover have "finite (dom (w_nodes w))" using inv by (simp add: exec_inv_def store_ok_def)
  moreover obtain u where u: "w_nodes w q = Some u" "n_status u < Finish \<longrightarrow> 0 < edge w q b"
    using inv q unfolding exec_inv_def deps_ok_def by blast
  moreover have "q \<in> dom (w_nodes w)" using u(1) by (rule domI)
  ultimately show ?thesis unfolding pend_def by auto
qed

section \<open>Two tasks on one worker\<close>

text \<open>One worker in its loop, on memory of which we know what is taken.\<close>

lemma one_ready:
  "\<exists>s. workers_ready s \<and> length (thread_exec_vec (rt s)) = 1 \<and> dom (stacks (rt s)) \<subseteq> {1, 2, 3}
    \<and> dom (contexts (rt s)) \<subseteq> {1, 2}"
proof -
  have "no_workers bare_start" by (simp add: no_workers_def bare_start_def bare_def fun_eq_iff)
  moreover have "alloc_ok 1 some_memory (rt bare_start)" using some_memory_ok by (simp add: bare_start_def)
  moreover have "1 \<le> max_workers" by (simp add: max_workers_def)
  ultimately obtain s where "workers_ready s" "length (thread_exec_vec (rt s)) = 1"
    "dom (stacks (rt s)) \<subseteq> (\<Union>i < 1. alloc_stacks (some_memory i))"
    "dom (contexts (rt s)) \<subseteq> (\<Union>i < 1. alloc_contexts (some_memory i))"
    using spawn_all [of bare_start 1 some_memory 1] by auto
  then show ?thesis
    by (intro exI [of _ s]) (auto simp: lessThan_Suc alloc_stacks_def alloc_contexts_def some_memory_def)
qed

text \<open>Nodes 10 and 11 in graph 0 and node 20 in graph 5, none waits for another; 10 and 20 run.\<close>

definition setup_tasks :: "event list" where
  "setup_tasks = [New_graph 0 0, Alloc 10 raw_node, Create 0 10 [], New_graph 5 0, Alloc 20 raw_node, Create 5 20 [],
     Alloc 11 raw_node, Create 0 11 [], Dequeue 10, Start 10, Dequeue 20, Start 20]"

lemma tasks_setup:
  "\<exists>s. run_events setup_tasks (start_sys empty_queue) = Some s
    \<and> \<not> enable_qf_check_circle (store s)
    \<and> (\<exists>x. w_nodes (store s) 10 = Some x \<and> n_status x = Running \<and> parent_graph x = Some 0)
    \<and> (\<exists>x. w_nodes (store s) 11 = Some x \<and> n_status x = Initing \<and> parent_graph x = Some 0)
    \<and> (\<exists>x. w_nodes (store s) 20 = Some x \<and> n_status x = Running \<and> sub_graph x = None)
    \<and> (\<exists>gr. w_graphs (store s) 5 = Some gr \<and> get_nodes gr = [20] \<and> g_status gr = Running
         \<and> g_wait_count gr = 1 \<and> g_down_streams gr = [] \<and> \<not> limit_graph gr)
    \<and> w_nodes (store s) 30 = None \<and> w_graphs (store s) 6 = None
    \<and> w_nodes (store s) 40 = None \<and> w_graphs (store s) 8 = None"
  using replicate_Suc [of 62 nullptr]
  by (simp add: setup_tasks_def eval_all get_nodes_def cong: rbind_weak_cong bind_weak_cong)

lemma tasks_exec: "run_events setup_tasks (start_sys empty_queue) = Some s \<Longrightarrow> exec_inv (store s) (\<lambda>_. 0) (held s) (deps s)"
  using reachable_inv [OF run_events_reachable [OF start_reachable]] by (auto simp: sys_inv_def)

text \<open>The worker of \<open>one_ready\<close> with a store of tasks; it runs task 10.\<close>

definition with_tasks :: "world \<Rightarrow> runtime \<Rightarrow> runtime" where
  "with_tasks w r = r\<lparr>mem := w, thread_exec_vec := map (\<lambda>it. it\<lparr>current_task := 10\<rparr>) (thread_exec_vec r)\<rparr>"

lemma with_tasks_same: "same_contexts r (with_tasks w r)"
  by (simp add: same_contexts_def with_tasks_def)

definition free_memory :: wait_memory where
  "free_memory = \<lparr>wa_node = 30, wa_raw = raw_node, wa_graph = 6, wa_context = 7, wa_stack = 8\<rparr>"

lemma change_context_yields:
  assumes "change_context_status i r = Inr r'" and "context_pre_ptr (th r i) \<noteq> nullptr"
  shows "length (thread_exec_vec r') = length (thread_exec_vec r) \<and> status_of r' (context_pre_ptr (th r i)) = Some Yield"
  using assms by (auto simp: change_context_status_def context_set_status_def status_of_def dest!: thread_at_Inr)

text \<open>The state after the task has blocked and the worker has settled on the new context.\<close>

lemma one_blocked:
  "\<exists>s c. creach s \<and> length (thread_exec_vec (rt s)) = 1 \<and> phase s 0 = Scheduling \<and> c \<in> waiting s
    \<and> status_of (rt s) c = Some Yield"
proof -
  obtain s where s: "workers_ready s" "length (thread_exec_vec (rt s)) = 1" "dom (stacks (rt s)) \<subseteq> {1, 2, 3}"
    "dom (contexts (rt s)) \<subseteq> {1, 2}" using one_ready by blast
  have r: "creach s" "phase s 0 = Scheduling" "0 < length (thread_exec_vec (rt s))"
    using s(1,2) by (auto simp: workers_ready_def)
  let ?c = "context_ptr (th (rt s) 0)"
  have f: "fresh_stacks [8] (rt s)" "fresh_contexts [7] (rt s)"
    using s(3,4) by (auto simp: fresh_stacks_def fresh_contexts_def)
  obtain r1 where r1: "swap_new_context (of_nat 0) 0 ?c 7 8 (rt s) = Inr r1"
    using block_step [OF creach_inv [OF r(1)] r(3,2) f] by blast
  let ?s1 = "s\<lparr>rt := r1, phase := (phase s)(0 := Switched), waiting := insert ?c (waiting s)\<rparr>"
  have s1: "creach ?s1" by (rule creach.more [OF r(1) block [OF r(3,2) f r1]])
  have n1: "length (thread_exec_vec r1) = 1" "context_pre_ptr (th r1 0) = ?c"
    using swap_new_context_pre [OF r1] s(2) by auto
  then obtain r2 where r2: "change_context_status 0 r1 = Inr r2"
    using settle_step [OF creach_inv [OF s1], of 0] by auto
  have "creach (?s1\<lparr>rt := r2, phase := (phase ?s1)(0 := Scheduling)\<rparr>)"
    by (rule creach.more [OF s1 settle]) (use n1(1) r2 in simp_all)
  moreover have "plays s (Current 0) ?c" using r(3) by (simp add: plays_simps)
  then have "?c \<noteq> nullptr"
    using co_invD(4,6) [OF creach_inv [OF r(1)]] by (metis option.distinct(1))
  then have "length (thread_exec_vec r2) = 1" "status_of r2 ?c = Some Yield"
    using change_context_yields [OF r2] n1 by auto
  ultimately show ?thesis by (intro exI [of _ "?s1\<lparr>rt := r2, phase := (phase ?s1)(0 := Scheduling)\<rparr>"] exI [of _ ?c]) simp
qed

section \<open>Properties\<close>

text \<open>C18: a task that requires unfinished nodes blocks without fail: \<open>require_node\<close> reaches the switch
  to a fresh context, the task is \<open>Yield\<close> and its context is with the \<open>BackNode\<close>, which waits in
  its graph for exactly the required nodes; the worker goes on on the new context and counts as
  idle, and the invariants of the task graph and of the contexts hold again.\<close>

theorem require_node_blocks:
  assumes s: "creach s" "i < length (thread_exec_vec (rt s))" "phase s i = Scheduling"
    and inv: "exec_inv (mem (rt s)) (\<lambda>_. 0) h d" and flag: "\<not> enable_qf_check_circle (mem (rt s))"
    and t: "current_task (thread_exec_vec (rt s) ! i) = t" "w_nodes (mem (rt s)) t = Some x" "n_status x = Running"
    and ns: "in_graphs ns (mem (rt s))" "length ns < i32_lim" "t \<notin> set ns" "some_unfinished ns (mem (rt s))"
    and a: "fresh_wait a (rt s)"
  shows "\<exists>r y z gr. require_node_enter (of_nat i) ns a (rt s) = Inr (True, r)
    \<and> creach (s\<lparr>rt := r, phase := (phase s)(i := Switched),
               waiting := insert (context_ptr (th (rt s) i)) (waiting s)\<rparr>)
    \<and> exec_inv (mem r) (\<lambda>_. 0) h (d(wa_node a := d (wa_node a) \<union> required (wa_node a) ns))
    \<and> w_nodes (mem r) t = Some y \<and> n_status y = Yield
    \<and> backs r (wa_node a) = Some (t, context_ptr (th (rt s) i))
    \<and> w_nodes (mem r) (wa_node a) = Some z \<and> n_status z = Initing \<and> parent_graph z = Some (wa_graph a)
    \<and> w_graphs (mem r) (wa_graph a) = Some gr \<and> get_nodes gr = [wa_node a] \<and> g_status gr = Running
    \<and> context_ptr (th r i) = wa_context a \<and> idle_worker_num r = idle_worker_num (rt s) + 1"
proof -
  let ?w = "mem (rt s)" and ?b = "wa_node a" and ?g = "wa_graph a" and ?ctx = "context_ptr (th (rt s) i)"
  have f: "w_nodes ?w ?b = None" "?b \<noteq> nullptr" "?b \<noteq> flag_node" "w_graphs ?w ?g = None"
    "fresh_stacks [wa_stack a] (rt s)" "fresh_contexts [wa_context a] (rt s)" using a by (auto simp: fresh_wait_def)
  obtain w2 w4 w5 w6 gr y z where w: "append_upstreams t ?b (node_new ?b (wa_raw a) ?w) = Inr w2"
    "create_edges ?g ?b ns (put_graph ?g (graph_new nullptr) w2) = Inr w4"
    "set_status t Yield w4 = Inr w5" "mod_node t (\<lambda>x. x\<lparr>require_sub_graph := True\<rparr>) w5 = Inr w6"
    "exec_inv w6 (\<lambda>_. 0) h (d(?b := d ?b \<union> required ?b ns))"
    and z: "w_nodes w6 t = Some y" "n_status y = Yield" "w_nodes w6 ?b = Some z" "n_status z = Initing"
    "parent_graph z = Some ?g" "w_graphs w6 ?g = Some gr" "get_nodes gr = [?b]" "g_status gr = Running"
    using linked_world [OF inv t(2,3) f(1-4) ns(1,2), of "wa_raw a"] by blast
  from enter_wait_switches [where link = "\<lambda>g b. create_edges g b ns", OF s f(5,6) w(1-4)] obtain r where
    r: "enter_wait (of_nat i) i t (\<lambda>g b. create_edges g b ns) a (rt s) = Inr r"
      "creach (s\<lparr>rt := r, phase := (phase s)(i := Switched), waiting := insert ?ctx (waiting s)\<rparr>)"
      "mem r = w6" "backs r ?b = Some (t, ?ctx)" "context_ptr (th r i) = wa_context a"
      "idle_worker_num r = idle_worker_num (rt s) + 1" by blast
  note worker_index [OF s(2) reachable_workers [OF s(1)]]
  moreover have "need_wait ns ?w = Inr True" using need_wait_eq [OF in_graphs_live [OF ns(1)]] ns(4) by simp
  moreover have "check_circle t ns ?w = Some (Inr False)" using ns(3) flag by (simp add: check_circle_def)
  ultimately show ?thesis
    using r w(5) z t(1) by (simp add: require_node_enter_def)
qed

theorem require_node_blocks_witness:
  "\<exists>r0 r y. require_node_enter 0 [nullptr, 11] free_memory r0 = Inr (True, r)
    \<and> w_nodes (mem r) 10 = Some y \<and> n_status y = Yield \<and> context_ptr (th r 0) = 7"
proof -
  obtain s where s: "workers_ready s" "length (thread_exec_vec (rt s)) = 1" "dom (stacks (rt s)) \<subseteq> {1, 2, 3}"
    "dom (contexts (rt s)) \<subseteq> {1, 2}" using one_ready by blast
  obtain e x u where e: "run_events setup_tasks (start_sys empty_queue) = Some e" "\<not> enable_qf_check_circle (store e)"
    "w_nodes (store e) 10 = Some x" "n_status x = Running"
    "w_nodes (store e) 11 = Some u" "n_status u = Initing" "parent_graph u = Some 0"
    "w_nodes (store e) 30 = None" "w_graphs (store e) 6 = None"
    using tasks_setup by blast
  let ?s = "s\<lparr>rt := with_tasks (store e) (rt s)\<rparr>"
  have p: "creach s" "phase s 0 = Scheduling" using s(1,2) by (auto simp: workers_ready_def)
  have "creach ?s" by (rule creach.more [OF p(1) other [OF with_tasks_same]])
  moreover have "0 < length (thread_exec_vec (rt ?s))" "current_task (thread_exec_vec (rt ?s) ! 0) = 10"
    using s(2) by (simp_all add: with_tasks_def)
  moreover have "exec_inv (mem (rt ?s)) (\<lambda>_. 0) (held e) (deps e)" using tasks_exec [OF e(1)] by (simp add: with_tasks_def)
  moreover have "in_graphs [nullptr, 11] (mem (rt ?s))" "some_unfinished [nullptr, 11] (mem (rt ?s))"
    using e(5-7) by (simp_all add: in_graphs_def some_unfinished_def with_tasks_def status_order)
  moreover have "fresh_wait free_memory (rt ?s)"
    using e(8,9) s(3,4)
    by (auto simp: fresh_wait_def free_memory_def with_tasks_def fresh_stacks_def fresh_contexts_def flag_node_def)
  moreover have "length [nullptr, 11 :: nid] < i32_lim" by (simp add: i32_lim_def)
  ultimately show ?thesis
    using require_node_blocks [of ?s 0 "held e" "deps e" 10 x "[nullptr, 11]" free_memory] p(2) e(2-4)
    by (fastforce simp: with_tasks_def free_memory_def)
qed

text \<open>C19: a blocked task is continued exactly where it left: when a worker has started the \<open>BackNode\<close>,
  all required nodes have finished; \<open>BackNode::run\<close> and the rest of \<open>require_node\<close> succeed, that
  worker runs the task, \<open>Running\<close> again, on the context the task had, the context the worker came
  from is gone, and the \<open>BackNode\<close> and the local graph are freed.\<close>

theorem blocked_task_resumes:
  assumes s: "creach s" "j < length (thread_exec_vec (rt s))" "phase s j = Scheduling"
    and inv: "exec_inv (mem (rt s)) e h d"
    and b: "w_nodes (mem (rt s)) b = Some z" "n_status z = Running" "sub_graph z = None"
    and c: "backs (rt s) b = Some (t, c)" "c \<in> waiting s" "status_of (rt s) c = Some Yield"
    and t: "w_nodes (mem (rt s)) t = Some x" "n_status x = Yield"
    and g: "w_graphs (mem (rt s)) g = Some gr" "get_nodes gr = [b]" "g_status gr = Running"
  shows "(\<forall>q \<in> d b. \<exists>u. w_nodes (mem (rt s)) q = Some u \<and> Finish \<le> n_status u)
    \<and> (\<exists>r1 r2 y. back_run j b (rt s) = Inr r1 \<and> leave_wait (of_nat j) j t b g r1 = Inr r2
      \<and> creach (s\<lparr>rt := r2, waiting := waiting s - {c}\<rparr>)
      \<and> current_task (thread_exec_vec r2 ! j) = t \<and> context_ptr (th r2 j) = c
      \<and> w_nodes (mem r2) t = Some y \<and> n_status y = Running
      \<and> contexts r2 (context_ptr (th (rt s) j)) = None
      \<and> w_nodes (mem r2) b = None \<and> w_graphs (mem r2) g = None \<and> backs r2 b = None
      \<and> pending_worker_num (mem r2) = pending_worker_num (mem (rt s)) - 1)"
proof
  show "\<forall>q \<in> d b. \<exists>u. w_nodes (mem (rt s)) q = Some u \<and> Finish \<le> n_status u"
    using started_deps_finished [OF inv b(1)] b(2) by (fastforce simp: not_less)
  let ?w = "mem (rt s)" and ?z = "z\<lparr>n_status := Recoverable\<rparr>"
  have bt: "b \<noteq> t" using b(1,2) t by auto
  have b0: "b \<noteq> nullptr" using inv b(1) by (auto simp: exec_inv_def store_ok_def)
  let ?r0 = "(rt s)\<lparr>mem := put_node b ?z ?w\<rparr>"
  let ?s0 = "s\<lparr>rt := ?r0\<rparr>"
  have same0: "same_contexts (rt s) ?r0" by (simp add: same_contexts_def)
  have s0: "creach ?s0" by (rule creach.more [OF s(1) other [OF same0]])
  have st0: "status_of (rt ?s0) c = Some Yield" using c(3) by (simp add: status_of_def)
  obtain r1 where r1: "back_switch j t c ?r0 = Inr r1"
    using resume_step [OF creach_inv [OF s0], of j c t] s(2,3) c(2) st0 by auto
  have run1: "back_run j b (rt s) = Inr r1"
    using r1 b(1) c(1) by (simp add: back_run_def mod_node_def node_at_def deref_def)
  note k1 = back_switch_runs [OF r1]
  let ?s1 = "?s0\<lparr>rt := r1, phase := (phase ?s0)(j := Resumed), waiting := waiting ?s0 - {c}\<rparr>"
  have s1: "creach ?s1" by (rule creach.more [OF s0 resume]) (use s(2,3) c(2) r1 in simp_all)
  let ?r2 = "r1\<lparr>backs := (backs r1)(b := None)\<rparr>"
  have same1: "same_contexts (rt ?s1) ?r2" by (simp add: same_contexts_def)
  have s2: "creach (?s1\<lparr>rt := ?r2\<rparr>)" by (rule creach.more [OF s1 other [OF same1]])
  have j2: "j < length (thread_exec_vec ?r2)" using k1 s(2) by simp
  obtain r3 where r3: "drop_pre (of_nat j) j ?r2 = Inr r3"
    using drop_step [OF creach_inv [OF s2], of j] j2 by auto
  have s3: "creach (?s1\<lparr>rt := r3, phase := (phase s)(j := Scheduling)\<rparr>)"
  proof -
    have "creach (?s1\<lparr>rt := ?r2\<rparr>\<lparr>rt := r3, phase := (phase (?s1\<lparr>rt := ?r2\<rparr>))(j := Scheduling)\<rparr>)"
      by (rule creach.more [OF s2 drop]) (use j2 r3 in simp_all)
    then show ?thesis by simp
  qed
  have pre: "context_pre_ptr (th ?r2 j) = context_ptr (th (rt s) j)" using k1 by simp
  have "plays s (Current j) (context_ptr (th (rt s) j))" using s(2) by (simp add: plays_simps)
  then have "context_ptr (th (rt s) j) \<noteq> nullptr"
    using co_invD(4,6) [OF creach_inv [OF s(1)]] by (metis option.distinct(1))
  then have k3: "runs r3 = runs ?r2" "contexts r3 (context_ptr (th (rt s) j)) = None" "kept ?r2 r3"
    using drop_pre_runs [OF r3] pre by auto
  have len3: "length (thread_exec_vec r3) = length (thread_exec_vec r1)"
    using arg_cong [OF k3(1), of length] by (simp add: runs_def)
  have at: "current_task (thread_exec_vec r3 ! j) = t" "context_ptr (th r3 j) = c"
    using runs_nth [of j r3] runs_nth [of j ?r2] k3(1) k1 j2 len3 by auto
  have m3: "mem r3 = put_node b ?z ?w" "backs r3 = (backs (rt s))(b := None)"
    using k3(3) k1 by (simp_all add: kept_def)
  let ?x = "x\<lparr>n_status := Running\<rparr>" and ?w3 = "put_node t (x\<lparr>n_status := Running\<rparr>) (mem r3)"
  have run3: "set_status t Running (mem r3) = Inr ?w3" using t(1) bt by (simp add: set_status_def mod_node_def node_at_def m3)
  have w3: "w_nodes ?w3 b = Some ?z" "w_nodes ?w3 t = Some ?x" "w_graphs ?w3 g = Some gr"
    "pending_worker_num ?w3 = pending_worker_num ?w"
    using bt g(1) by (simp_all add: m3 put_node_def)
  obtain w4 ups where w4: "graph_delete True (require_done t) g ?w3 = Inr w4"
    "w_nodes w4 = (w_nodes ?w3)(t \<mapsto> ?x\<lparr>up_streams := ups\<rparr>)" "w_graphs w4 = (w_graphs ?w3)(g := None)"
    "pending_worker_num w4 = pending_worker_num ?w"
    using wait_graph_freed [OF w3(1) _ b0 w3(2) bt [symmetric] w3(3) g(2,3)] w3(4) by auto
  have "w_nodes w4 b = Some ?z" using w4(2) w3(1) bt by simp
  from back_node_freed [OF this, of "\<lambda>_. Inr" "require_done t"] obtain w5 where
    w5: "node_delete True (\<lambda>_. Inr) (require_done t) b w4 = Inr w5" "w_nodes w5 = (w_nodes w4)(b := None)"
    "w_graphs w5 = w_graphs w4" "pending_worker_num w5 = pending_worker_num w4 - 1" using b(3) by auto
  let ?r5 = "r3\<lparr>mem := w5\<rparr>"
  have run5: "leave_wait (of_nat j) j t b g r1 = Inr ?r5"
    using r3 run3 w4(1) w5(1) by (simp add: leave_wait_def)
  have "creach (s\<lparr>rt := ?r5, waiting := waiting s - {c}\<rparr>)"
  proof -
    have e: "(phase s)(j := Scheduling) = phase s" using s(3) by (simp add: fun_upd_idem)
    have "same_contexts (rt (?s1\<lparr>rt := r3, phase := (phase s)(j := Scheduling)\<rparr>)) ?r5" by (simp add: same_contexts_def)
    note creach.more [OF s3 other [OF this]]
    moreover have "s\<lparr>waiting := waiting s - {c}, rt := ?r5\<rparr> = s\<lparr>rt := ?r5, waiting := waiting s - {c}\<rparr>" by (cases s) simp
    ultimately show ?thesis by (simp add: e)
  qed
  moreover have "w_nodes w5 t = Some (?x\<lparr>up_streams := ups\<rparr>)" using w5(2) w4(2) bt by simp
  ultimately show "\<exists>r1 r2 y. back_run j b (rt s) = Inr r1 \<and> leave_wait (of_nat j) j t b g r1 = Inr r2
      \<and> creach (s\<lparr>rt := r2, waiting := waiting s - {c}\<rparr>)
      \<and> current_task (thread_exec_vec r2 ! j) = t \<and> context_ptr (th r2 j) = c
      \<and> w_nodes (mem r2) t = Some y \<and> n_status y = Running
      \<and> contexts r2 (context_ptr (th (rt s) j)) = None
      \<and> w_nodes (mem r2) b = None \<and> w_graphs (mem r2) g = None \<and> backs r2 b = None
      \<and> pending_worker_num (mem r2) = pending_worker_num (mem (rt s)) - 1"
    using run1 run5 at k3(2) w5(2-4) w4(3,4) m3(2) by (intro exI [of _ r1] exI [of _ ?r5]) simp
qed

theorem blocked_task_resumes_witness:
  "\<exists>r r1 r2 c y. status_of r c = Some Yield \<and> back_run 0 20 r = Inr r1 \<and> leave_wait 0 0 10 20 5 r1 = Inr r2
    \<and> current_task (thread_exec_vec r2 ! 0) = 10 \<and> context_ptr (th r2 0) = c
    \<and> w_nodes (mem r2) 10 = Some y \<and> n_status y = Running"
proof -
  obtain s c where s: "creach s" "length (thread_exec_vec (rt s)) = 1" "phase s 0 = Scheduling" "c \<in> waiting s"
    "status_of (rt s) c = Some Yield" using one_blocked by blast
  obtain e x z gr where e: "run_events setup_tasks (start_sys empty_queue) = Some e"
    "w_nodes (store e) 10 = Some x" "n_status x = Running"
    "w_nodes (store e) 20 = Some z" "n_status z = Running" "sub_graph z = None"
    "w_graphs (store e) 5 = Some gr" "get_nodes gr = [20]" "g_status gr = Running"
    using tasks_setup by blast
  note inv = tasks_exec [OF e(1)]
  let ?x = "x\<lparr>n_status := Yield\<rparr>" let ?w = "put_node 10 ?x (store e)"
  have "parent_graph x \<noteq> None" using exec_invD(1) [OF inv e(2)] e(3) by (auto simp: links_ok_def)
  then have i: "exec_inv ?w (\<lambda>_. 0) (held e) (deps e)"
    using exec_invD [OF inv e(2)] e(3)
    by (intro exec_inv_put [OF inv e(2)]) (simp_all add: same_links_def waits_ok_def links_ok_def status_order)
  define r where "r = (with_tasks ?w (rt s))\<lparr>backs := [20 \<mapsto> (10, c)]\<rparr>"
  let ?s = "s\<lparr>rt := r\<rparr>"
  have "same_contexts (rt s) r" using with_tasks_same [of "rt s" ?w] by (simp add: same_contexts_def r_def)
  then have "creach ?s" by (rule creach.more [OF s(1) other])
  moreover have m: "mem r = ?w" "backs r 20 = Some (10, c)" "status_of r c = Some Yield"
    "length (thread_exec_vec r) = 1"
    using s(2,5) by (simp_all add: r_def with_tasks_def status_of_def)
  ultimately have "\<exists>r1 r2 y. back_run 0 20 r = Inr r1 \<and> leave_wait (of_nat 0) 0 10 20 5 r1 = Inr r2
      \<and> current_task (thread_exec_vec r2 ! 0) = 10 \<and> context_ptr (th r2 0) = c
      \<and> w_nodes (mem r2) 10 = Some y \<and> n_status y = Running"
    using blocked_task_resumes [of ?s 0 "\<lambda>_. 0" "held e" "deps e" 20 z 10 c ?x 5 gr] s(3,4) e(4-9) i by simp blast
  with m(3) show ?thesis by auto
qed



text \<open>The calls that do not block: \<open>require_node\<close> returns at once when every node is null or has
  finished, and \<open>wait_graph\<close> when the graph has no unfinished node; a task that requires itself,
  a task that waits for the graph it belongs to and a thread that is no worker get an exception.\<close>

theorem wait_guards:
  assumes "i < length (thread_exec_vec r)" and "length (thread_exec_vec r) < 2 ^ 31" and "live_nodes ns (mem r)"
    and "current_task (thread_exec_vec r ! i) = t" and "w_nodes (mem r) t = Some x" and "w_graphs (mem r) d = Some dg"
  shows "(\<not> some_unfinished ns (mem r) \<longrightarrow> (\<exists>ups. require_node_enter (of_nat i) ns a r
        = Inr (False, r\<lparr>mem := put_node t (x\<lparr>up_streams := ups\<rparr>) (mem r)\<rparr>)))
    \<and> (some_unfinished ns (mem r) \<longrightarrow> t \<in> set ns \<longrightarrow>
        require_node_enter (of_nat i) ns a r = Inl (Assert_Failed ''!check_circle(current_task, nodes)''))
    \<and> (g_wait_count dg = 0 \<longrightarrow> wait_graph_enter (of_nat i) d a r = Inr (False, r))
    \<and> (g_wait_count dg \<noteq> 0 \<longrightarrow> parent_graph x = Some d \<longrightarrow>
        wait_graph_enter (of_nat i) d a r = Inl (Assert_Failed ''current_task->parent_graph != graph''))
    \<and> require_node_enter (- 1) ns a r = Inl (Assert_Failed ''safe_get_cur_exec() != nullptr'')
    \<and> wait_graph_enter (- 1) d a r = Inl (Assert_Failed ''safe_get_cur_exec() != nullptr'')"
proof -
  note w = worker_index [OF assms(1,2)] and nw = need_wait_eq [OF assms(3)]
  obtain ups where u: "note_upstreams t ns (mem r) = Inr (put_node t (x\<lparr>up_streams := ups\<rparr>) (mem r))"
    using note_upstreams_eff [OF assms(5)] by blast
  have "require_node_enter (of_nat i) ns a r = Inr (False, r\<lparr>mem := put_node t (x\<lparr>up_streams := ups\<rparr>) (mem r)\<rparr>)"
    if "\<not> some_unfinished ns (mem r)" using that w nw u assms(4) by (simp add: require_node_enter_def)
  moreover have "require_node_enter (of_nat i) ns a r = Inl (Assert_Failed ''!check_circle(current_task, nodes)'')"
    if "some_unfinished ns (mem r)" "t \<in> set ns"
    using that w nw assms(4) by (simp add: require_node_enter_def check_circle_def)
  moreover have "wait_graph_enter (of_nat i) d a r = Inr (False, r)" if "g_wait_count dg = 0"
    using that w assms(4,6) by (simp add: wait_graph_enter_def graph_at_def)
  moreover have "wait_graph_enter (of_nat i) d a r = Inl (Assert_Failed ''current_task->parent_graph != graph'')"
    if "g_wait_count dg \<noteq> 0" "parent_graph x = Some d"
    using that w assms(4-6) by (simp add: wait_graph_enter_def graph_at_def node_at_def)
  moreover have "require_node_enter (- 1) ns a r = Inl (Assert_Failed ''safe_get_cur_exec() != nullptr'')"
    "wait_graph_enter (- 1) d a r = Inl (Assert_Failed ''safe_get_cur_exec() != nullptr'')"
    by (simp_all add: require_node_enter_def wait_graph_enter_def outside)
  ultimately show ?thesis by blast
qed

theorem wait_guards_witness:
  "\<exists>r. length (thread_exec_vec r) = 1
    \<and> require_node_enter 0 [10] free_memory r = Inl (Assert_Failed ''!check_circle(current_task, nodes)'')"
proof -
  obtain s :: coroutines where s: "length (thread_exec_vec (rt s)) = 1" using one_ready by blast
  obtain e x dg where e: "run_events setup_tasks (start_sys empty_queue) = Some e"
    "w_nodes (store e) 10 = Some x" "n_status x = Running" "w_graphs (store e) 5 = Some dg" using tasks_setup by blast
  let ?r = "with_tasks (store e) (rt s)"
  have h: "0 < length (thread_exec_vec ?r)" "length (thread_exec_vec ?r) < 2 ^ 31" "live_nodes [10] (mem ?r)"
    "current_task (thread_exec_vec ?r ! 0) = 10" "w_nodes (mem ?r) 10 = Some x" "w_graphs (mem ?r) 5 = Some dg"
    using s e by (simp_all add: with_tasks_def live_nodes_def)
  have "some_unfinished [10] (mem ?r)" using e(2,3) by (simp add: some_unfinished_def with_tasks_def status_order)
  with wait_guards [OF h, of free_memory] s show ?thesis by (intro exI [of _ ?r]) (simp add: with_tasks_def)
qed

text \<open>What \<open>safe_get_cur_exec\<close> accepts: every index below the number of workers, and also the
  number of workers itself, for which it reads past the end of the vector.\<close>

theorem worker_index_checked:
  assumes "length (thread_exec_vec r) < 2 ^ 31"
  shows "safe_get_cur_exec me r =
    (if sint me < 0 \<or> sint me > int (length (thread_exec_vec r)) then Inr None
     else if sint me = int (length (thread_exec_vec r)) then Inl (Undefined ''thread_exec_vec'')
     else Inr (Some (nat (sint me))))"
proof (cases "sint me < 0")
  case False
  then have me: "unat (to_u64 me) = nat (sint me)" by (simp add: to_u64_nonneg)
  have "to_u64 me > of_nat (length (thread_exec_vec r)) \<longleftrightarrow> sint me > int (length (thread_exec_vec r))"
    using assms False by (auto simp: word_less_nat_alt me unat_of_nat)
  then show ?thesis using False by (auto simp: safe_get_cur_exec_def get_cur_exec_def me Let_def)
qed (simp add: safe_get_cur_exec_def)

theorem worker_index_checked_witness:
  "safe_get_cur_exec 0 bare = Inl (Undefined ''thread_exec_vec'')"
  using worker_index_checked [of bare 0] by (simp add: bare_def)

end
