(* ===== verification/Time_Locks.thy ===== *)
theory Time_Locks
  imports Util
begin

text \<open>
  head/locks/thread.h, src/locks/thread.cpp and head/time_cost.h: the semaphore built on
  \<open>sem_t\<close> and the stop watch. A system call may be interrupted by a signal (\<open>EINTR\<close>) any number
  of times before it completes: the operations take the list of interruptions as an argument,
  one entry for each call made, and retry as the code does.
\<close>

section \<open>The kernel's semaphore calls\<close>

datatype errno = EINTR | EAGAIN | ETIMEDOUT | EINVAL

datatype sys_rc = Rc_ok | Rc_err errno

text \<open>
  \<open>sem_wait\<close>, \<open>sem_trywait\<close> and \<open>sem_timedwait\<close> on a count: \<open>None\<close> for a call that
  stays blocked. The flag says that a signal arrives during the call.
\<close>

fun sem_wait :: "bool \<Rightarrow> nat \<Rightarrow> (sys_rc \<times> nat) option" where
  "sem_wait True n = Some (Rc_err EINTR, n)"
| "sem_wait False 0 = None"
| "sem_wait False (Suc n) = Some (Rc_ok, n)"

fun sem_trywait :: "bool \<Rightarrow> nat \<Rightarrow> (sys_rc \<times> nat) option" where
  "sem_trywait True n = Some (Rc_err EINTR, n)"
| "sem_trywait False 0 = Some (Rc_err EAGAIN, 0)"
| "sem_trywait False (Suc n) = Some (Rc_ok, n)"

fun sem_timedwait :: "bool \<Rightarrow> nat \<Rightarrow> (sys_rc \<times> nat) option" where
  "sem_timedwait True n = Some (Rc_err EINTR, n)"
| "sem_timedwait False 0 = Some (Rc_err ETIMEDOUT, 0)"
| "sem_timedwait False (Suc n) = Some (Rc_ok, n)"

section \<open>Semaphore\<close>

record semaphore = m_sema :: nat

definition semaphore_new :: "i32 \<Rightarrow> semaphore result" where
  "semaphore_new initial_count =
     rbind (qf_assert (sint initial_count \<ge> 0) ''initial_count >= 0'')
       (\<lambda>_. Inr \<lparr>m_sema = nat (sint initial_count)\<rparr>)"

definition sema_signal :: "semaphore \<Rightarrow> semaphore" where
  "sema_signal s = s\<lparr>m_sema := Suc (m_sema s)\<rparr>"

text \<open>
  The loop \<open>do { rc = call; } while (rc == -1 && errno == EINTR)\<close>. After the listed
  interruptions the call runs undisturbed.
\<close>

fun retry_eintr :: "(bool \<Rightarrow> nat \<Rightarrow> (sys_rc \<times> nat) option) \<Rightarrow> bool list \<Rightarrow> nat
    \<Rightarrow> (sys_rc \<times> nat) option" where
  "retry_eintr call [] n = call False n"
| "retry_eintr call (b # bs) n =
     (case call b n of
        None \<Rightarrow> None
      | Some (rc, n') \<Rightarrow> if rc = Rc_err EINTR then retry_eintr call bs n' else Some (rc, n'))"

definition sema_wait :: "bool list \<Rightarrow> semaphore \<Rightarrow> semaphore result" where
  "sema_wait intr s = (case retry_eintr sem_wait intr (m_sema s) of
     None \<Rightarrow> Inl Diverges
   | Some (rc, n) \<Rightarrow> Inr (s\<lparr>m_sema := n\<rparr>))"

definition sema_try_wait :: "bool list \<Rightarrow> semaphore \<Rightarrow> (semaphore \<times> bool) result" where
  "sema_try_wait intr s = (case retry_eintr sem_trywait intr (m_sema s) of
     None \<Rightarrow> Inl Diverges
   | Some (rc, n) \<Rightarrow> Inr (s\<lparr>m_sema := n\<rparr>, \<not> (rc = Rc_err EAGAIN)))"

record timespec =
  tv_sec :: int
  tv_nsec :: int

text \<open>The absolute deadline of \<open>timed_wait\<close>, from the clock's time.\<close>

definition deadline :: "timespec \<Rightarrow> u64 \<Rightarrow> timespec" where
  "deadline now usecs =
     (let ts1 = now\<lparr>tv_sec := tv_sec now + uint (usecs div 1000000),
                  tv_nsec := tv_nsec now + uint ((usecs mod 1000000) * 1000)\<rparr> in
      if tv_nsec ts1 \<ge> 1000000000
      then ts1\<lparr>tv_nsec := tv_nsec ts1 - 1000000000, tv_sec := tv_sec ts1 + 1\<rparr>
      else ts1)"

text \<open>The call returns together with the deadline it handed to \<open>sem_timedwait\<close>.\<close>

definition sema_timed_wait ::
  "bool list \<Rightarrow> timespec \<Rightarrow> u64 \<Rightarrow> semaphore \<Rightarrow> (semaphore \<times> bool \<times> timespec) result" where
  "sema_timed_wait intr now usecs s = (case retry_eintr sem_timedwait intr (m_sema s) of
     None \<Rightarrow> Inl Diverges
   | Some (rc, n) \<Rightarrow> Inr (s\<lparr>m_sema := n\<rparr>, \<not> (rc = Rc_err ETIMEDOUT), deadline now usecs))"

text \<open>Interruptions never change the outcome.\<close>

lemma retry_sem_wait [simp]: "retry_eintr sem_wait intr n = sem_wait False n"
proof (induction intr)
  case (Cons b bs)
  then show ?case by (cases b; cases n) auto
qed simp

lemma retry_sem_trywait [simp]: "retry_eintr sem_trywait intr n = sem_trywait False n"
proof (induction intr)
  case (Cons b bs)
  then show ?case by (cases b; cases n) auto
qed simp

lemma retry_sem_timedwait [simp]: "retry_eintr sem_timedwait intr n = sem_timedwait False n"
proof (induction intr)
  case (Cons b bs)
  then show ?case by (cases b; cases n) auto
qed simp

lemma sema_wait_cases:
  "sema_wait intr s = (case m_sema s of 0 \<Rightarrow> Inl Diverges | Suc n \<Rightarrow> Inr (s\<lparr>m_sema := n\<rparr>))"
  by (cases "m_sema s") (simp_all add: sema_wait_def)

lemma sema_try_wait_cases:
  "sema_try_wait intr s =
     (case m_sema s of 0 \<Rightarrow> Inr (s\<lparr>m_sema := 0\<rparr>, False) | Suc n \<Rightarrow> Inr (s\<lparr>m_sema := n\<rparr>, True))"
  by (cases "m_sema s") (simp_all add: sema_try_wait_def)

lemma deadline_normalised:
  assumes "0 \<le> tv_nsec now" and "tv_nsec now < 1000000000"
  shows "0 \<le> tv_nsec (deadline now us) \<and> tv_nsec (deadline now us) < 1000000000
    \<and> tv_sec (deadline now us) * 1000000000 + tv_nsec (deadline now us)
      = tv_sec now * 1000000000 + tv_nsec now + uint us * 1000"
proof -
  have d: "uint (us div 1000000) = uint us div 1000000" by (simp add: uint_div)
  have m: "uint (us mod 1000000) = uint us mod 1000000" by (simp add: uint_mod)
  have "uint ((us mod 1000000) * 1000) = (uint us mod 1000000) * 1000 mod 2 ^ 64"
    by (simp add: uint_word_ariths m)
  also have "\<dots> = (uint us mod 1000000) * 1000"
    by (rule mod_pos_pos_trivial) (simp, use pos_mod_bound [of 1000000 "uint us"] in simp)
  finally have n: "uint ((us mod 1000000) * 1000) = (uint us mod 1000000) * 1000" .
  have "uint us div 1000000 * 1000000000 + uint us mod 1000000 * 1000 = uint us * 1000"
    using div_mult_mod_eq [of "uint us" 1000000] by linarith
  moreover have "0 \<le> uint us mod 1000000" "uint us mod 1000000 < 1000000" by simp_all
  ultimately show ?thesis
    using assms by (auto simp: deadline_def Let_def d n)
qed

section \<open>TimeCost\<close>

record timeval =
  tv_sec_of :: int
  tv_usec_of :: int

record time_cost = start_time :: timeval

definition tc_new :: "timeval \<Rightarrow> time_cost" where
  "tc_new now = \<lparr>start_time = now\<rparr>"

definition tc_reset :: "timeval \<Rightarrow> time_cost \<Rightarrow> time_cost" where
  "tc_reset now t = t\<lparr>start_time := now\<rparr>"

definition get_elapsed :: "timeval \<Rightarrow> time_cost \<Rightarrow> int" where
  "get_elapsed end_time t =
     (tv_sec_of end_time - tv_sec_of (start_time t)) * 1000 * 1000
     + (tv_usec_of end_time - tv_usec_of (start_time t))"

definition curr_us :: "timeval \<Rightarrow> int" where
  "curr_us end_time = tv_sec_of end_time * 1000 * 1000 + tv_usec_of end_time"

lemma get_elapsed_diff: "get_elapsed e t = curr_us e - curr_us (start_time t)"
  by (simp add: get_elapsed_def curr_us_def algebra_simps)

lemma get_elapsed_after_reset: "get_elapsed now (tc_reset now t) = 0"
  by (simp add: get_elapsed_def tc_reset_def)

section \<open>Properties\<close>

text \<open>Signals never change what the semaphore does. With any number of \<open>EINTR\<close> returns,
  \<open>wait\<close> takes a count when there is one and blocks otherwise, \<open>try_wait\<close> and \<open>timed_wait\<close>
  take one and report true, or report false and take nothing.\<close>

theorem semaphore_survives_signals:
  "sema_wait intr (sema_signal s) = Inr s \<and> sema_wait intr \<lparr>m_sema = 0\<rparr> = Inl Diverges
    \<and> sema_try_wait intr s = Inr (if m_sema s = 0 then (s, False) else (\<lparr>m_sema = m_sema s - 1\<rparr>, True))
    \<and> sema_timed_wait intr now us s
      = Inr (if m_sema s = 0 then (s, False, deadline now us)
             else (\<lparr>m_sema = m_sema s - 1\<rparr>, True, deadline now us))"
  by (cases s; cases "m_sema s")
    (simp_all add: sema_wait_def sema_try_wait_def sema_timed_wait_def sema_signal_def)

text \<open>The deadline \<open>timed_wait\<close> hands to the kernel is a normalised time, exactly \<open>usecs\<close>
  microseconds after the clock's, for every 64-bit \<open>usecs\<close>.\<close>

theorem timed_wait_deadline:
  assumes "0 \<le> tv_nsec now" and "tv_nsec now < 1000000000"
  shows "\<exists>s' b d. sema_timed_wait intr now us s = Inr (s', b, d)
    \<and> 0 \<le> tv_nsec d \<and> tv_nsec d < 1000000000
    \<and> tv_sec d * 1000000000 + tv_nsec d = tv_sec now * 1000000000 + tv_nsec now + uint us * 1000"
  using deadline_normalised [OF assms, of us]
  by (cases "m_sema s") (auto simp: sema_timed_wait_def)

theorem timed_wait_deadline_witness:
  "\<exists>s' b d. sema_timed_wait [True] \<lparr>tv_sec = 5, tv_nsec = 999999999\<rparr> 1500000 \<lparr>m_sema = 0\<rparr> = Inr (s', b, d)
    \<and> 0 \<le> tv_nsec d \<and> tv_nsec d < 1000000000
    \<and> tv_sec d * 1000000000 + tv_nsec d
      = tv_sec \<lparr>tv_sec = 5, tv_nsec = 999999999\<rparr> * 1000000000
        + tv_nsec \<lparr>tv_sec = 5, tv_nsec = 999999999\<rparr> + uint (1500000 :: u64) * 1000"
  by (rule timed_wait_deadline) simp_all

end
