(* ===== verification/Futures.thy ===== *)
theory Futures
  imports Aspect Time_Locks
begin

text \<open>
  head/cpp3rd/folly_future.h (the stand-in for folly's futures) and
  head/async_extension/folly_future.h, src/async_extension/folly_future.cpp: a task waits for a future
  by requiring an end node that the future's last callback puts into a graph. The value type \<open>'v\<close>
  and the state \<open>'s\<close> that the callbacks work on are parameters.
\<close>

section \<open>Futures and promises\<close>

text \<open>A callback gets the value by reference: it may change it, and it may throw (the flag).\<close>

type_synonym ('v, 's) call_back = "'v \<Rightarrow> 's \<Rightarrow> bool \<times> 'v \<times> 's"

record ('v, 's) inner_future =
  fut_finish :: bool
  fut_sema :: semaphore
  call_backs :: "('v, 's) call_back list"
  error_call_backs :: "('v, 's) call_back list"
  finish_call_back :: "'s \<Rightarrow> 's result"
  fut_v :: 'v

text \<open>\<open>Promise::Promise\<close>; \<open>v0\<close> is what the value member starts as.\<close>

definition promise_new :: "'v \<Rightarrow> ('v, 's) inner_future result" where
  "promise_new v0 = rbind (semaphore_new 0) (\<lambda>sm.
     Inr \<lparr>fut_finish = False, fut_sema = sm, call_backs = [], error_call_backs = [],
          finish_call_back = Inr, fut_v = v0\<rparr>)"

definition future_then :: "('v, 's) call_back \<Rightarrow> ('v, 's) inner_future \<Rightarrow> ('v, 's) inner_future" where
  "future_then func f = f\<lparr>call_backs := call_backs f @ [func]\<rparr>"

definition future_on_error :: "('v, 's) call_back \<Rightarrow> ('v, 's) inner_future \<Rightarrow> ('v, 's) inner_future" where
  "future_on_error func f = f\<lparr>error_call_backs := error_call_backs f @ [func]\<rparr>"

definition future_ensure ::
  "('s \<Rightarrow> 's result) \<Rightarrow> ('v, 's) inner_future \<Rightarrow> 's \<Rightarrow> (('v, 's) inner_future \<times> 's) result" where
  "future_ensure func f s =
     (if fut_finish f then rbind (func s) (\<lambda>s1. Inr (f, s1))
      else Inr (f\<lparr>finish_call_back := func\<rparr>, s))"

definition future_get :: "bool list \<Rightarrow> ('v, 's) inner_future \<Rightarrow> ('v \<times> ('v, 's) inner_future) result" where
  "future_get intr f = rbind (sema_wait intr (fut_sema f)) (\<lambda>sm. Inr (fut_v f, f\<lparr>fut_sema := sm\<rparr>))"

text \<open>The loops of \<open>setValue\<close>: an exception ends them.\<close>

fun run_call_backs :: "('v, 's) call_back list \<Rightarrow> 'v \<Rightarrow> 's \<Rightarrow> bool \<times> 'v \<times> 's" where
  "run_call_backs [] v s = (False, v, s)"
| "run_call_backs (c # cs) v s =
     (case c v s of (threw, v1, s1) \<Rightarrow> if threw then (True, v1, s1) else run_call_backs cs v1 s1)"

definition set_value :: "'v \<Rightarrow> ('v, 's) inner_future \<Rightarrow> 's \<Rightarrow> (('v, 's) inner_future \<times> 's) result" where
  "set_value v f s =
     (case run_call_backs (call_backs f) v s of (threw, v1, s1) \<Rightarrow>
      case (if threw then run_call_backs (error_call_backs f) v1 s1 else (False, v1, s1)) of (escapes, v2, s2) \<Rightarrow>
      if escapes then Inl (Thrown ''call_back'') else
      rbind (finish_call_back f s2) (\<lambda>s3.
        Inr (f\<lparr>fut_finish := True, fut_v := v2, fut_sema := sema_signal (fut_sema f)\<rparr>, s3)))"

section \<open>FutureAspect::Assistant::require_node\<close>

text \<open>The state of the caller: the variable that takes the value, and the runtime.\<close>

record 'v future_world =
  f_value :: 'v
  f_rt :: runtime

definition store_value :: "('v, 'v future_world) call_back" where
  "store_value ret_value s = (False, ret_value, s\<lparr>f_value := ret_value\<rparr>)"

definition store_error :: "'v \<Rightarrow> ('v, 'v future_world) call_back" where
  "store_error error_value v s = (False, v, s\<lparr>f_value := error_value\<rparr>)"

definition hook_up :: "'v \<Rightarrow> ('v, 'v future_world) inner_future \<Rightarrow> ('v, 'v future_world) inner_future" where
  "hook_up error_value f = future_on_error (store_error error_value) (future_then store_value f)"

text \<open>\<open>FutureAspect::Assistant::make_future\<close>.\<close>

definition make_future :: "nid \<Rightarrow> node \<Rightarrow> world \<Rightarrow> world" where
  "make_future end_node raw w = node_new end_node raw w"

text \<open>The callback of \<open>ensure\<close>: \<open>sub_graph_->create_edges(end_node, {})\<close>.\<close>

definition end_edges :: "gid \<Rightarrow> nid \<Rightarrow> 'v future_world \<Rightarrow> 'v future_world result" where
  "end_edges g end_node s =
     rbind (create_edges g end_node [] (mem (f_rt s))) (\<lambda>w. Inr (s\<lparr>f_rt := (f_rt s)\<lparr>mem := w\<rparr>\<rparr>))"

text \<open>A thread that is no worker hooks its callbacks up and calls \<open>get\<close>, which returns after \<open>setValue\<close>.\<close>

definition future_outside ::
  "bool list \<Rightarrow> 'v \<Rightarrow> ('v, 'v future_world) inner_future \<Rightarrow> ('v \<times> ('v, 'v future_world) inner_future) result" where
  "future_outside intr error_value f = future_get intr (hook_up error_value f)"

text \<open>On a worker: up to the switch in \<open>require_node\<close>; \<open>e\<close>, \<open>raw\<close> and \<open>g\<close> are the memory of the end
  node and the address of the local graph.\<close>

definition future_enter ::
  "i32 \<Rightarrow> 'v \<Rightarrow> nid \<Rightarrow> node \<Rightarrow> gid \<Rightarrow> wait_memory \<Rightarrow> ('v, 'v future_world) inner_future \<Rightarrow> 'v future_world
   \<Rightarrow> (bool \<times> ('v, 'v future_world) inner_future \<times> 'v future_world) result" where
  "future_enter me error_value e raw g a f s =
     (let w1 = make_future e raw (mem (f_rt s));
          s1 = s\<lparr>f_rt := (f_rt s)\<lparr>mem := put_graph g (graph_new nullptr) w1\<rparr>\<rparr> in
      rbind (future_ensure (end_edges g e) (hook_up error_value f) s1) (\<lambda>(f1, s2).
      rbind (require_node_enter me [e] a (f_rt s2)) (\<lambda>(switched, r).
        Inr (switched, f1, s2\<lparr>f_rt := r\<rparr>))))"

text \<open>The whole call, up to where the thread sleeps or the context is switched; outside the workers the result
  of \<open>get\<close> is dropped.\<close>

definition future_require_node ::
  "bool list \<Rightarrow> i32 \<Rightarrow> 'v \<Rightarrow> nid \<Rightarrow> node \<Rightarrow> gid \<Rightarrow> wait_memory \<Rightarrow> ('v, 'v future_world) inner_future \<Rightarrow> 'v future_world
   \<Rightarrow> (bool \<times> ('v, 'v future_world) inner_future \<times> 'v future_world) result" where
  "future_require_node intr me error_value e raw g a f s =
     rbind (safe_get_cur_exec me (f_rt s)) (\<lambda>cur_exec.
       if cur_exec = None
       then rbind (future_outside intr error_value f) (\<lambda>(_, f1). Inr (False, f1, s))
       else future_enter me error_value e raw g a f s)"

text \<open>The closing brace: the local graph goes, and with it the end node.\<close>

definition future_leave :: "nid \<Rightarrow> nid \<Rightarrow> gid \<Rightarrow> 'v future_world \<Rightarrow> 'v future_world result" where
  "future_leave task e g s =
     rbind (graph_delete True (require_done task) g (mem (f_rt s))) (\<lambda>w1.
     rbind (node_delete True (\<lambda>_. Inr) (require_done task) e w1) (\<lambda>w2.
       Inr (s\<lparr>f_rt := (f_rt s)\<lparr>mem := w2\<rparr>\<rparr>)))"

section \<open>The value on its way\<close>

lemma run_call_backs_snoc:
  "run_call_backs (cs @ [c]) v s =
     (case run_call_backs cs v s of (threw, v1, s1) \<Rightarrow> if threw then (True, v1, s1) else c v1 s1)"
proof (induction cs arbitrary: v s)
  case Nil
  show ?case by (cases "c v s") auto
next
  case (Cons d cs)
  then show ?case by (cases "d v s") auto
qed

text \<open>Which value a hooked up future ends with, and what its last callback sees.\<close>

lemma set_value_hooked:
  "set_value v ((hook_up e f)\<lparr>finish_call_back := fin\<rparr>) s =
     (case run_call_backs (call_backs f) v s of (threw, v1, s1) \<Rightarrow>
      if \<not> threw then
        rbind (fin (s1\<lparr>f_value := v1\<rparr>)) (\<lambda>s3.
          Inr ((hook_up e f)\<lparr>finish_call_back := fin, fut_finish := True, fut_v := v1, fut_sema := sema_signal (fut_sema f)\<rparr>, s3))
      else case run_call_backs (error_call_backs f) v1 s1 of (escapes, v2, s2) \<Rightarrow>
        if escapes then Inl (Thrown ''call_back'') else
        rbind (fin (s2\<lparr>f_value := e\<rparr>)) (\<lambda>s3.
          Inr ((hook_up e f)\<lparr>finish_call_back := fin, fut_finish := True, fut_v := v2, fut_sema := sema_signal (fut_sema f)\<rparr>, s3)))"
  by (auto simp: set_value_def hook_up_def future_then_def future_on_error_def run_call_backs_snoc store_value_def
      store_error_def split: prod.splits)

lemma hook_up_simps [simp]:
  "fut_finish (hook_up e f) = fut_finish f" "fut_sema (hook_up e f) = fut_sema f" "fut_v (hook_up e f) = fut_v f"
  "finish_call_back (hook_up e f) = finish_call_back f"
  by (simp_all add: hook_up_def future_then_def future_on_error_def)

text \<open>The call blocks or returns with the variable as it was; on a pending future nothing has run yet.\<close>

lemma future_enter_value:
  assumes "future_enter me e end_node raw g a f s = Inr (switched, f1, s1)"
  shows "f_value s1 = f_value s"
    and "\<not> fut_finish f \<Longrightarrow> f1 = (hook_up e f)\<lparr>finish_call_back := end_edges g end_node\<rparr>"
    and "fut_finish f \<Longrightarrow> f1 = hook_up e f"
  using assms
  by (auto simp: future_enter_def future_ensure_def Let_def end_edges_def split: if_splits)

text \<open>A pending promise and a task on the one worker of \<open>one_ready\<close>.\<close>

definition pending_future :: "(nat, nat future_world) inner_future" where
  "pending_future = \<lparr>fut_finish = False, fut_sema = \<lparr>m_sema = 0\<rparr>, call_backs = [], error_call_backs = [],
     finish_call_back = Inr, fut_v = 0\<rparr>"

lemma pending_future_new: "promise_new 0 = Inr pending_future"
  by (simp add: promise_new_def semaphore_new_def pending_future_def)

section \<open>The end node is required\<close>

text \<open>The end node is in no graph yet, or in the local graph \<open>g\<close>, when the task requires it.\<close>

lemma linked_to_end:
  assumes x: "w_nodes w t = Some x" and b: "w_nodes w b = None" "b \<noteq> nullptr" and g: "w_graphs w g = None"
    and e: "w_nodes w e = Some z" "n_status z < Finish" "parent_graph z \<noteq> Some g" "e \<noteq> nullptr" "e \<noteq> t"
  shows "\<exists>w2 w4 w5 w6 z' y. append_upstreams t b (node_new b raw w) = Inr w2
    \<and> create_edges g b [e] (put_graph g (graph_new nullptr) w2) = Inr w4
    \<and> set_status t Yield w4 = Inr w5 \<and> mod_node t (\<lambda>x. x\<lparr>require_sub_graph := True\<rparr>) w5 = Inr w6
    \<and> w_nodes w6 e = Some z' \<and> down_streams z' = down_streams z @ [b] \<and> n_status z' = n_status z
    \<and> w_nodes w6 b = Some y \<and> wait_count y = 1
    \<and> w_graphs w6 = (w_graphs w)(g \<mapsto> grown_graph b (graph_new nullptr)) \<and> inner_schedule w6 = inner_schedule w"
proof -
  let ?w1 = "node_new b raw w"
  have bt: "b \<noteq> t" "b \<noteq> e" using b(1) x e(1) by auto
  define xb where "xb = node_reset (raw\<lparr>ghost := False, reuse := False\<rparr>)"
  have xb: "wait_count xb = 0" by (simp add: xb_def node_reset_def)
  have n1: "w_nodes ?w1 t = Some x" "w_nodes ?w1 b = Some xb" "w_nodes ?w1 e = Some z"
    using x e(1) bt by (simp_all add: node_new_def xb_def)
  obtain ups where a2: "append_upstreams t b ?w1 = Inr (put_node t (x\<lparr>up_streams := ups\<rparr>) ?w1)"
    using append_upstreams_eff [OF n1(1)] by blast
  let ?gr = "grown_graph b (graph_new nullptr)"
  let ?w3 = "put_graph g (graph_new nullptr) (put_node t (x\<lparr>up_streams := ups\<rparr>) ?w1)"
  have n3: "w_nodes ?w3 b = Some xb" "w_graphs ?w3 g = Some (graph_new nullptr)" "w_nodes ?w3 e = Some z"
    "w_nodes ?w3 t = Some (x\<lparr>up_streams := ups\<rparr>)" using n1 bt e(5) by simp_all
  from attach_node_eq [OF n3(1,2)] obtain root where
    at: "attach_node g b ?w3 = Inr (put_node b (attached_node g (graph_new nullptr) root xb) (put_graph g ?gr ?w3))"
    by (auto simp: graph_new_def)
  let ?xb = "attached_node g (graph_new nullptr) root xb"
  let ?y = "?xb\<lparr>wait_count := 1\<rparr>"
  define w31 where "w31 = put_node b ?y (put_graph g ?gr ?w3)"
  have xb': "wait_count ?xb = 0" "parent_graph ?xb = Some g" using xb by (simp_all add: attached_node_def)
  have n31: "w_nodes w31 b = Some ?y" "w_nodes w31 e = Some z" "w_nodes w31 t = Some (x\<lparr>up_streams := ups\<rparr>)"
    using n3 bt by (simp_all add: w31_def)
  obtain ub where ub: "append_upstreams b e w31 = Inr (put_node b (?y\<lparr>up_streams := ub\<rparr>) w31)"
    using append_upstreams_eff [OF n31(1)] by blast
  let ?z = "z\<lparr>down_streams := down_streams z @ [b]\<rparr>"
  let ?w32 = "put_node e ?z (put_node b (?y\<lparr>up_streams := ub\<rparr>) w31)"
  have "add_downstream e b (put_node b (?y\<lparr>up_streams := ub\<rparr>) w31) = Inr (0, ?w32)"
    using n31(2) e(2,3) bt(2) xb'(2) by (simp add: add_downstream_def node_at_def not_le [symmetric])
  then have link: "link_required b e w31 = Inr ?w32" using ub e(4) by (simp add: link_required_def)
  have nb: "w_nodes ?w32 b = Some (?y\<lparr>up_streams := ub\<rparr>)" "w_nodes ?w32 e = Some ?z" "w_nodes ?w32 t = Some (x\<lparr>up_streams := ups\<rparr>)"
    using n31 bt e(5) by simp_all
  obtain uc where uc: "append_upstreams b flag_node ?w32 = Inr (put_node b (?y\<lparr>up_streams := uc\<rparr>) ?w32)"
    using append_upstreams_eff [OF nb(1), of flag_node] by auto
  let ?w4 = "put_node b (?y\<lparr>up_streams := uc\<rparr>) ?w32"
  have "add_wait_count b 1 (put_node b ?xb (put_graph g ?gr ?w3)) = Inr (0, w31)"
    using xb'(1) by (simp add: add_wait_count_def node_at_def w31_def)
  then have ce: "create_edges g b [e] ?w3 = Inr ?w4" using link uc by (simp add: create_edges_def at)
  let ?x5 = "x\<lparr>up_streams := ups, n_status := Yield\<rparr>" let ?w5 = "put_node t ?x5 ?w4"
  have t4: "w_nodes ?w4 t = Some (x\<lparr>up_streams := ups\<rparr>)" using nb(3) bt e(5) by auto
  have s5: "set_status t Yield ?w4 = Inr ?w5" unfolding set_status_def mod_node_def node_at_def t4 by simp
  let ?w6 = "put_node t (?x5\<lparr>require_sub_graph := True\<rparr>) ?w5"
  have s6: "mod_node t (\<lambda>x. x\<lparr>require_sub_graph := True\<rparr>) ?w5 = Inr ?w6" by (simp add: mod_node_def node_at_def)
  have "w_nodes ?w6 e = Some ?z" "down_streams ?z = down_streams z @ [b]" "n_status ?z = n_status z"
    "w_nodes ?w6 b = Some (?y\<lparr>up_streams := uc\<rparr>)" "wait_count (?y\<lparr>up_streams := uc\<rparr>) = 1"
    "w_graphs ?w6 = (w_graphs w)(g \<mapsto> ?gr)" "inner_schedule ?w6 = inner_schedule w" using e(5) bt by (simp_all add: w31_def node_new_def)
  with a2 ce s5 s6 show ?thesis by blast
qed

lemma require_end_node:
  assumes s: "creach s" "i < length (thread_exec_vec (rt s))" "phase s i = Scheduling"
    and t: "current_task (thread_exec_vec (rt s) ! i) = t" "w_nodes (mem (rt s)) t = Some x"
    and e: "w_nodes (mem (rt s)) e = Some z" "n_status z < Finish" "parent_graph z \<noteq> Some (wa_graph a)" "e \<noteq> nullptr" "e \<noteq> t"
    and c: "\<not> enable_qf_check_circle (mem (rt s))" and a: "fresh_wait a (rt s)"
  shows "\<exists>r z' y. require_node_enter (of_nat i) [e] a (rt s) = Inr (True, r)
    \<and> w_nodes (mem r) e = Some z' \<and> down_streams z' = down_streams z @ [wa_node a] \<and> n_status z' = n_status z
    \<and> w_nodes (mem r) (wa_node a) = Some y \<and> wait_count y = 1
    \<and> w_graphs (mem r) = (w_graphs (mem (rt s)))(wa_graph a \<mapsto> grown_graph (wa_node a) (graph_new nullptr))
    \<and> inner_schedule (mem r) = inner_schedule (mem (rt s))"
proof -
  have f: "w_nodes (mem (rt s)) (wa_node a) = None" "wa_node a \<noteq> nullptr" "w_graphs (mem (rt s)) (wa_graph a) = None"
    "fresh_stacks [wa_stack a] (rt s)" "fresh_contexts [wa_context a] (rt s)" using a by (auto simp: fresh_wait_def)
  obtain w2 w4 w5 w6 z' y where w: "append_upstreams t (wa_node a) (node_new (wa_node a) (wa_raw a) (mem (rt s))) = Inr w2"
    "create_edges (wa_graph a) (wa_node a) [e] (put_graph (wa_graph a) (graph_new nullptr) w2) = Inr w4"
    "set_status t Yield w4 = Inr w5" "mod_node t (\<lambda>x. x\<lparr>require_sub_graph := True\<rparr>) w5 = Inr w6"
    and w6: "w_nodes w6 e = Some z'" "down_streams z' = down_streams z @ [wa_node a]" "n_status z' = n_status z"
    "w_nodes w6 (wa_node a) = Some y" "wait_count y = 1"
    "w_graphs w6 = (w_graphs (mem (rt s)))(wa_graph a \<mapsto> grown_graph (wa_node a) (graph_new nullptr))"
    "inner_schedule w6 = inner_schedule (mem (rt s))"
    using linked_to_end [OF t(2) f(1-3) e, of "wa_raw a"] by blast
  from enter_wait_switches [where link = "\<lambda>g b. create_edges g b [e]", OF s f(4,5) w] obtain r where
    r: "enter_wait (of_nat i) i t (\<lambda>g b. create_edges g b [e]) a (rt s) = Inr r" "mem r = w6" by blast
  note worker_index [OF s(2) reachable_workers [OF s(1)]]
  moreover have "need_wait [e] (mem (rt s)) = Inr True" using e(1,2,4) by (simp add: node_at_def)
  moreover have "check_circle t [e] (mem (rt s)) = Some (Inr False)" using e(5) c by (simp add: check_circle_def)
  ultimately have "require_node_enter (of_nat i) [e] a (rt s) = Inr (True, r)"
    using t(1) r(1) by (simp add: require_node_enter_def del: need_wait.simps)
  then show ?thesis using w6 r(2) by blast
qed

section \<open>A task waits for a future\<close>

text \<open>What the callbacks make of the value: the one the future ends with, and the state.\<close>

definition delivered ::
  "'v \<Rightarrow> ('v, 'v future_world) inner_future \<Rightarrow> 'v \<Rightarrow> 'v future_world \<Rightarrow> ('v \<times> 'v future_world) option" where
  "delivered error_value f v s =
     (case run_call_backs (call_backs f) v s of (threw, v1, s1) \<Rightarrow>
      if \<not> threw then Some (v1, s1\<lparr>f_value := v1\<rparr>)
      else case run_call_backs (error_call_backs f) v1 s1 of (escapes, v2, s2) \<Rightarrow>
        if escapes then None else Some (v2, s2\<lparr>f_value := error_value\<rparr>))"

lemma set_value_delivered:
  assumes "delivered error_value f v s = Some (v1, s1)"
  shows "set_value v ((hook_up error_value f)\<lparr>finish_call_back := fin\<rparr>) s = rbind (fin s1) (\<lambda>s2.
    Inr ((hook_up error_value f)\<lparr>finish_call_back := fin, fut_finish := True, fut_v := v1, fut_sema := sema_signal (fut_sema f)\<rparr>, s2))"
  using assms by (auto simp: set_value_hooked delivered_def split: prod.splits if_splits)

lemma on_worker:
  assumes "creach s" "i < length (thread_exec_vec (rt s))"
  shows "future_require_node intr (of_nat i) error_value e raw g a f \<lparr>f_value = u, f_rt = rt s\<rparr>
    = future_enter (of_nat i) error_value e raw g a f \<lparr>f_value = u, f_rt = rt s\<rparr>"
  using worker_index [OF assms(2) reachable_workers [OF assms(1)]] by (simp add: future_require_node_def)

lemma future_enter_pending:
  assumes s: "creach s" "i < length (thread_exec_vec (rt s))" "phase s i = Scheduling"
    and t: "current_task (thread_exec_vec (rt s) ! i) = t" "w_nodes (mem (rt s)) t = Some x"
    and e: "w_nodes (mem (rt s)) e = None" "e \<noteq> nullptr" "w_graphs (mem (rt s)) g = None"
    and a: "fresh_wait a (rt s)" "wa_node a \<noteq> e" "wa_graph a \<noteq> g"
    and c: "\<not> enable_qf_check_circle (mem (rt s))" and f: "\<not> fut_finish f"
  shows "\<exists>r z y. future_enter (of_nat i) error_value e raw g a f \<lparr>f_value = u, f_rt = rt s\<rparr>
      = Inr (True, (hook_up error_value f)\<lparr>finish_call_back := end_edges g e\<rparr>, \<lparr>f_value = u, f_rt = r\<rparr>)
    \<and> w_nodes (mem r) e = Some z \<and> down_streams z = [wa_node a] \<and> n_status z = Initing
    \<and> w_nodes (mem r) (wa_node a) = Some y \<and> wait_count y = 1 \<and> w_graphs (mem r) g = Some (graph_new nullptr)
    \<and> inner_schedule (mem r) = inner_schedule (mem (rt s))"
proof -
  let ?w = "put_graph g (graph_new nullptr) (make_future e raw (mem (rt s)))"
  let ?r = "(rt s)\<lparr>mem := ?w\<rparr>" and ?z = "node_reset (raw\<lparr>ghost := False, reuse := False\<rparr>)"
  have "same_contexts (rt s) ?r" by (simp add: same_contexts_def)
  then have reach: "creach (s\<lparr>rt := ?r\<rparr>)" by (rule creach.more [OF s(1) other])
  have et: "e \<noteq> t" using e(1) t(2) by auto
  have n: "w_nodes ?w e = Some ?z" "w_nodes ?w t = Some x" "\<not> enable_qf_check_circle ?w"
    using t(2) et c by (simp_all add: make_future_def node_new_def) (simp add: put_graph_def put_node_def)
  have z: "n_status ?z = Initing" "parent_graph ?z = None" "down_streams ?z = []" by (simp_all add: node_reset_def)
  have "fresh_wait a ?r"
    using a by (auto simp: fresh_wait_def fresh_stacks_def fresh_contexts_def make_future_def node_new_def)
  then obtain r z' y where r: "require_node_enter (of_nat i) [e] a ?r = Inr (True, r)" "w_nodes (mem r) e = Some z'"
    "down_streams z' = [wa_node a]" "n_status z' = Initing" "w_nodes (mem r) (wa_node a) = Some y" "wait_count y = 1"
    "w_graphs (mem r) = (w_graphs ?w)(wa_graph a \<mapsto> grown_graph (wa_node a) (graph_new nullptr))"
    "inner_schedule (mem r) = inner_schedule ?w"
    using require_end_node [of "s\<lparr>rt := ?r\<rparr>" i t x e ?z a] reach s(2,3) t(1) n z e(2) et
    by (auto simp: status_order)
  then have "w_graphs (mem r) g = Some (graph_new nullptr)" "inner_schedule (mem r) = inner_schedule (mem (rt s))"
    using a(3) by (simp_all add: make_future_def node_new_def)
  moreover have "future_enter (of_nat i) error_value e raw g a f \<lparr>f_value = u, f_rt = rt s\<rparr>
      = Inr (True, (hook_up error_value f)\<lparr>finish_call_back := end_edges g e\<rparr>, \<lparr>f_value = u, f_rt = r\<rparr>)"
    using f r(1) by (simp add: future_enter_def future_ensure_def)
  ultimately show ?thesis using r by blast
qed

text \<open>On a finished future \<open>ensure\<close> queues the end node at once, and the task waits for it all the same.\<close>

lemma future_enter_finished:
  assumes s: "creach s" "i < length (thread_exec_vec (rt s))" "phase s i = Scheduling"
    and t: "current_task (thread_exec_vec (rt s) ! i) = t" "w_nodes (mem (rt s)) t = Some x"
    and e: "w_nodes (mem (rt s)) e = None" "e \<noteq> nullptr" "w_graphs (mem (rt s)) g = None"
    and a: "fresh_wait a (rt s)" "wa_node a \<noteq> e" "wa_graph a \<noteq> g"
    and c: "\<not> enable_qf_check_circle (mem (rt s))" and f: "fut_finish f" and q: "sched_ok (mem (rt s))"
  shows "\<exists>r. future_enter (of_nat i) error_value e raw g a f \<lparr>f_value = u, f_rt = rt s\<rparr>
      = Inr (True, hook_up error_value f, \<lparr>f_value = u, f_rt = r\<rparr>)"
proof -
  let ?w = "put_graph g (graph_new nullptr) (make_future e raw (mem (rt s)))"
  let ?z = "node_reset (raw\<lparr>ghost := False, reuse := False\<rparr>)"
  obtain sc where sc: "inner_schedule ?w = Some sc" "s_status sc = Running" "tq_inv (s_task_queue sc)"
    using q by (auto simp: sched_ok_def make_future_def node_new_def)
  have et: "e \<noteq> t" using e(1) t(2) by auto
  have n: "w_nodes ?w e = Some ?z" "w_nodes ?w t = Some x" "w_graphs ?w g = Some (graph_new nullptr)"
    "\<not> enable_qf_check_circle ?w"
    using t(2) et c by (simp_all add: make_future_def node_new_def) (simp add: put_graph_def put_node_def)
  obtain w' rt0 ups where w': "create_edges g e [] ?w = Inr w'"
    "w_nodes w' = (w_nodes ?w)(e \<mapsto> (attached_node g (graph_new nullptr) rt0 ?z)\<lparr>up_streams := ups\<rparr>)"
    "w_graphs w' = (w_graphs ?w)(g \<mapsto> grown_graph e (graph_new nullptr))" "\<not> enable_qf_check_circle w'"
    using first_node [OF sc e(2) n(3,1)] n(4) by (auto simp: node_reset_def)
  let ?r = "(rt s)\<lparr>mem := w'\<rparr>" and ?y = "(attached_node g (graph_new nullptr) rt0 ?z)\<lparr>up_streams := ups\<rparr>"
  have "same_contexts (rt s) ?r" by (simp add: same_contexts_def)
  then have reach: "creach (s\<lparr>rt := ?r\<rparr>)" by (rule creach.more [OF s(1) other])
  have y: "n_status ?y < Finish" "parent_graph ?y \<noteq> Some (wa_graph a)"
    using a(3) by (simp_all add: attached_node_def node_reset_def status_order)
  have "fresh_wait a ?r"
    using a by (auto simp: fresh_wait_def fresh_stacks_def fresh_contexts_def w'(2,3) make_future_def node_new_def)
  then obtain r where "require_node_enter (of_nat i) [e] a ?r = Inr (True, r)"
    using require_end_node [of "s\<lparr>rt := ?r\<rparr>" i t x e ?y a] reach s(2,3) t(1) n(2) y e(2) et w'(2,4) by auto
  then show ?thesis using f w'(1) by (simp add: future_enter_def future_ensure_def end_edges_def)
qed

text \<open>When the end node has run, the closing brace frees it and the local graph.\<close>

lemma future_leaves:
  assumes "w_nodes (mem (f_rt s)) e = Some z" "n_status z = Recoverable" "sub_graph z = None" "e \<noteq> nullptr"
    and "w_nodes (mem (f_rt s)) t = Some x" "t \<noteq> e"
    and "w_graphs (mem (f_rt s)) g = Some gr" "get_nodes gr = [e]" "g_status gr = Running"
  shows "\<exists>s1. future_leave t e g s = Inr s1 \<and> f_value s1 = f_value s
    \<and> w_nodes (mem (f_rt s1)) e = None \<and> w_graphs (mem (f_rt s1)) g = None
    \<and> pending_worker_num (mem (f_rt s1)) = pending_worker_num (mem (f_rt s)) - 1"
proof -
  let ?w = "mem (f_rt s)"
  obtain w1 ups where w1: "graph_delete True (require_done t) g ?w = Inr w1"
    "w_nodes w1 = (w_nodes ?w)(t \<mapsto> x\<lparr>up_streams := ups\<rparr>)" "w_graphs w1 = (w_graphs ?w)(g := None)"
    "pending_worker_num w1 = pending_worker_num ?w"
    using wait_graph_freed [OF assms(1,2,4-9)] by blast
  have "w_nodes w1 e = Some z" using w1(2) assms(1,6) by simp
  from back_node_freed [OF this assms(2,3), of "\<lambda>_. Inr" "require_done t"] show ?thesis
    using w1 by (auto simp: future_leave_def)
qed

lemma free_memory_ids: "wa_node free_memory = 30" "wa_graph free_memory = 6" by (simp_all add: free_memory_def)

text \<open>A task on the one worker of \<open>one_ready\<close>, and memory for what the call creates.\<close>

lemma future_task:
  "\<exists>s x. creach s \<and> 0 < length (thread_exec_vec (rt s)) \<and> phase s 0 = Scheduling
    \<and> current_task (thread_exec_vec (rt s) ! 0) = 10 \<and> w_nodes (mem (rt s)) 10 = Some x
    \<and> w_nodes (mem (rt s)) 40 = None \<and> w_graphs (mem (rt s)) 8 = None \<and> fresh_wait free_memory (rt s)
    \<and> \<not> enable_qf_check_circle (mem (rt s)) \<and> sched_ok (mem (rt s))"
proof -
  obtain s where s: "workers_ready s" "length (thread_exec_vec (rt s)) = 1" "dom (stacks (rt s)) \<subseteq> {1, 2, 3}"
    "dom (contexts (rt s)) \<subseteq> {1, 2}" using one_ready by blast
  obtain e x where e: "run_events setup_tasks (start_sys empty_queue) = Some e" "\<not> enable_qf_check_circle (store e)"
    "w_nodes (store e) 10 = Some x" "w_nodes (store e) 30 = None" "w_graphs (store e) 6 = None"
    "w_nodes (store e) 40 = None" "w_graphs (store e) 8 = None"
    using tasks_setup by blast
  let ?r = "with_tasks (store e) (rt s)"
  have "creach (s\<lparr>rt := ?r\<rparr>)"
    using s(1) by (intro creach.more [OF _ other]) (simp_all add: workers_ready_def with_tasks_same)
  moreover have "sched_ok (store e)" using tasks_exec [OF e(1)] by (simp add: exec_inv_def store_ok_def)
  ultimately show ?thesis using s e
    by (intro exI [of _ "s\<lparr>rt := ?r\<rparr>"] exI [of _ x])
      (auto simp: workers_ready_def with_tasks_def fresh_wait_def free_memory_def fresh_stacks_def fresh_contexts_def flag_node_def)
qed

section \<open>Properties\<close>

text \<open>C20: a task that requires a pending future blocks without fail, its variable untouched, and the end node it
  waits for is in no graph, so that nothing can run it. Whenever another thread later sets the value, the callbacks
  run first, then the variable is written (with the error value if one of them has thrown), and only then
  is the end node queued, behind which the task's \<open>BackNode\<close> waits; \<open>get\<close> returns the value.\<close>

theorem future_wakes_task:
  assumes "creach s" "i < length (thread_exec_vec (rt s))" "phase s i = Scheduling"
    and "current_task (thread_exec_vec (rt s) ! i) = t" "w_nodes (mem (rt s)) t = Some x"
    and "w_nodes (mem (rt s)) e = None" "e \<noteq> nullptr" "w_graphs (mem (rt s)) g = None"
    and "fresh_wait a (rt s)" "wa_node a \<noteq> e" "wa_graph a \<noteq> g"
    and "\<not> enable_qf_check_circle (mem (rt s))" and "\<not> fut_finish f"
  shows "\<exists>f1 s1 z y. future_require_node intr (of_nat i) error_value e raw g a f \<lparr>f_value = u, f_rt = rt s\<rparr> = Inr (True, f1, s1)
    \<and> f_value s1 = u \<and> w_nodes (mem (f_rt s1)) e = Some z \<and> down_streams z = [wa_node a]
    \<and> w_nodes (mem (f_rt s1)) (wa_node a) = Some y \<and> wait_count y = 1
    \<and> w_graphs (mem (f_rt s1)) g = Some (graph_new nullptr) \<and> inner_schedule (mem (f_rt s1)) = inner_schedule (mem (rt s))
    \<and> (\<forall>v v' s2 s3. delivered error_value f v s2 = Some (v', s3)
        \<and> w_nodes (mem (f_rt s3)) e = w_nodes (mem (f_rt s1)) e
        \<and> w_graphs (mem (f_rt s3)) g = w_graphs (mem (f_rt s1)) g \<and> sched_ok (mem (f_rt s3)) \<longrightarrow>
          (\<exists>f2 s4. set_value v f1 s2 = Inr (f2, s4) \<and> f_value s4 = f_value s3
            \<and> queue (mem (f_rt s4)) = add_mset e (queue (mem (f_rt s3)))
            \<and> (\<exists>z'. w_nodes (mem (f_rt s4)) e = Some z' \<and> down_streams z' = [wa_node a])
            \<and> (\<exists>f3. future_get intr f2 = Inr (v', f3))))"
proof -
  obtain r z y where r: "future_enter (of_nat i) error_value e raw g a f \<lparr>f_value = u, f_rt = rt s\<rparr>
      = Inr (True, (hook_up error_value f)\<lparr>finish_call_back := end_edges g e\<rparr>, \<lparr>f_value = u, f_rt = r\<rparr>)"
    "w_nodes (mem r) e = Some z" "down_streams z = [wa_node a]" "n_status z = Initing"
    "w_nodes (mem r) (wa_node a) = Some y" "wait_count y = 1" "w_graphs (mem r) g = Some (graph_new nullptr)"
    "inner_schedule (mem r) = inner_schedule (mem (rt s))"
    using future_enter_pending [OF assms, of error_value raw u] by blast
  let ?f = "(hook_up error_value f)\<lparr>finish_call_back := end_edges g e\<rparr>"
  have "\<exists>f2 s4. set_value v ?f s2 = Inr (f2, s4) \<and> f_value s4 = f_value s3
      \<and> queue (mem (f_rt s4)) = add_mset e (queue (mem (f_rt s3)))
      \<and> (\<exists>z'. w_nodes (mem (f_rt s4)) e = Some z' \<and> down_streams z' = [wa_node a])
      \<and> (\<exists>f3. future_get intr f2 = Inr (v', f3))"
    if d: "delivered error_value f v s2 = Some (v', s3)" and w: "w_nodes (mem (f_rt s3)) e = Some z"
      "w_graphs (mem (f_rt s3)) g = Some (graph_new nullptr)" "sched_ok (mem (f_rt s3))" for v v' s2 s3
  proof -
    obtain sc where "inner_schedule (mem (f_rt s3)) = Some sc" "s_status sc = Running" "tq_inv (s_task_queue sc)"
      using w(3) by (auto simp: sched_ok_def)
    from first_node [OF this assms(7) w(2,1) r(4)] obtain w' rt ups where
      w': "create_edges g e [] (mem (f_rt s3)) = Inr w'" "queue w' = add_mset e (queue (mem (f_rt s3)))"
      "w_nodes w' e = Some ((attached_node g (graph_new nullptr) rt z)\<lparr>up_streams := ups\<rparr>)" by auto
    then show ?thesis using set_value_delivered [OF d, of "end_edges g e"] r(3)
      by (simp add: end_edges_def attached_node_def future_get_def sema_signal_def sema_wait_def)
  qed
  moreover have "future_require_node intr (of_nat i) error_value e raw g a f \<lparr>f_value = u, f_rt = rt s\<rparr>
      = Inr (True, ?f, \<lparr>f_value = u, f_rt = r\<rparr>)" by (simp add: on_worker [OF assms(1,2)] r(1))
  ultimately show ?thesis using r by (intro exI [of _ ?f] exI [of _ "\<lparr>f_value = u, f_rt = r\<rparr>"] exI [of _ z] exI [of _ y]) simp
qed

theorem future_wakes_task_witness:
  "\<exists>s f1 s1 f2 s4 f3. future_require_node [True] 0 99 40 raw_node 8 free_memory pending_future s = Inr (True, f1, s1)
    \<and> f_value s1 = (5 :: nat) \<and> set_value 7 f1 s1 = Inr (f2, s4) \<and> f_value s4 = 7
    \<and> 40 \<in># queue (mem (f_rt s4)) \<and> future_get [True] f2 = Inr (7, f3)"
proof -
  obtain s x where s: "creach s" "0 < length (thread_exec_vec (rt s))" "phase s 0 = Scheduling"
    "current_task (thread_exec_vec (rt s) ! 0) = 10" "w_nodes (mem (rt s)) 10 = Some x"
    "w_nodes (mem (rt s)) 40 = None" "(40 :: nid) \<noteq> nullptr" "w_graphs (mem (rt s)) 8 = None"
    "fresh_wait free_memory (rt s)" "wa_node free_memory \<noteq> 40" "wa_graph free_memory \<noteq> 8"
    "\<not> enable_qf_check_circle (mem (rt s))" "sched_ok (mem (rt s))" "\<not> fut_finish (pending_future)"
    using future_task by (auto simp: pending_future_def free_memory_ids)
  from future_wakes_task [OF s(1-12,14), of "[True]" 99 raw_node "5 :: nat"] obtain f1 s1 where
    e: "future_require_node [True] (of_nat 0) 99 40 raw_node 8 free_memory pending_future \<lparr>f_value = 5, f_rt = rt s\<rparr> = Inr (True, f1, s1)"
      "f_value s1 = 5" "inner_schedule (mem (f_rt s1)) = inner_schedule (mem (rt s))"
      "\<forall>v v' s2 s3. delivered 99 pending_future v s2 = Some (v', s3)
        \<and> w_nodes (mem (f_rt s3)) 40 = w_nodes (mem (f_rt s1)) 40
        \<and> w_graphs (mem (f_rt s3)) 8 = w_graphs (mem (f_rt s1)) 8 \<and> sched_ok (mem (f_rt s3)) \<longrightarrow>
          (\<exists>f2 s4. set_value v f1 s2 = Inr (f2, s4) \<and> f_value s4 = f_value s3
            \<and> queue (mem (f_rt s4)) = add_mset 40 (queue (mem (f_rt s3)))
            \<and> (\<exists>z'. w_nodes (mem (f_rt s4)) 40 = Some z' \<and> down_streams z' = [wa_node free_memory])
            \<and> (\<exists>f3. future_get [True] f2 = Inr (v', f3)))" by blast
  have "delivered 99 pending_future 7 s1 = Some (7, s1\<lparr>f_value := 7\<rparr>)" by (simp add: delivered_def pending_future_def)
  moreover have "sched_ok (mem (f_rt (s1\<lparr>f_value := 7\<rparr>)))" using s(13) e(3) by (simp add: sched_ok_def)
  ultimately obtain f2 s4 f3 where "set_value 7 f1 s1 = Inr (f2, s4)" "f_value s4 = 7"
    "queue (mem (f_rt s4)) = add_mset 40 (queue (mem (f_rt s1)))" "future_get [True] f2 = Inr (7, f3)"
    using e(4) [rule_format, of 7 s1 7 "s1\<lparr>f_value := 7\<rparr>"] by auto
  then show ?thesis using e(1,2) by (intro exI) auto
qed

text \<open>C32: a future that is set before the task asks for it loses its value. \<open>then\<close> only appends to the callbacks,
  which nobody runs any more: on a worker the variable keeps what it was, and what \<open>require_node\<close> waits for
  is only the end node. Outside the workers the result of \<open>get\<close> is dropped, and a second \<open>get\<close> on
  the same future never returns.\<close>

theorem late_future_value_is_lost:
  assumes "promise_new v0 = Inr f" and "set_value v f s = Inr (f1, s1)"
  shows "s1 = s \<and> fut_finish f1 \<and> fut_v f1 = v
    \<and> (\<forall>me e raw g a f2 s2. future_require_node intr me error_value e raw g a f1 s = Inr (b, f2, s2) \<longrightarrow> f_value s2 = f_value s)
    \<and> (\<exists>f2. future_outside intr error_value f1 = Inr (v, f2) \<and> future_outside intr error_value f2 = Inl Diverges)"
proof -
  have f: "f = \<lparr>fut_finish = False, fut_sema = \<lparr>m_sema = 0\<rparr>, call_backs = [], error_call_backs = [],
     finish_call_back = Inr, fut_v = v0\<rparr>" using assms(1) by (simp add: promise_new_def semaphore_new_def)
  have f1: "f1 = f\<lparr>fut_finish := True, fut_v := v, fut_sema := \<lparr>m_sema = 1\<rparr>\<rparr>" "s1 = s"
    using assms(2) by (auto simp: f set_value_def sema_signal_def)
  have "f_value s2 = f_value s" if "future_require_node intr me error_value e raw g a f1 s = Inr (b, f2, s2)" for me e raw g a f2 s2
    using that by (auto simp: future_require_node_def split: if_splits dest: future_enter_value(1))
  then show ?thesis by (auto simp: f f1 future_outside_def future_get_def sema_wait_def)
qed

theorem late_future_value_is_lost_witness:
  "\<exists>s f f1 s1 f2 s2. promise_new 0 = Inr f \<and> set_value 7 f s = Inr (f1, s1) \<and> s1 = s
    \<and> future_require_node [] 0 99 40 raw_node 8 free_memory f1 s1 = Inr (True, f2, s2) \<and> f_value s = 5 \<and> f_value s2 = (5 :: nat)"
proof -
  obtain s x where s: "creach s" "0 < length (thread_exec_vec (rt s))" "phase s 0 = Scheduling"
    "current_task (thread_exec_vec (rt s) ! 0) = 10" "w_nodes (mem (rt s)) 10 = Some x"
    "w_nodes (mem (rt s)) 40 = None" "(40 :: nid) \<noteq> nullptr" "w_graphs (mem (rt s)) 8 = None"
    "fresh_wait free_memory (rt s)" "wa_node free_memory \<noteq> 40" "wa_graph free_memory \<noteq> 8"
    "\<not> enable_qf_check_circle (mem (rt s))" "sched_ok (mem (rt s))"
    using future_task by (auto simp: free_memory_ids)
  let ?s = "\<lparr>f_value = (5 :: nat), f_rt = rt s\<rparr>"
  obtain f f1 s1 where f: "promise_new 0 = Inr f" "set_value (7 :: nat) f ?s = Inr (f1, s1)"
    by (simp add: promise_new_def semaphore_new_def set_value_def)
  note lost = late_future_value_is_lost [OF f, of "[]" 99 True]
  obtain r where "future_enter (of_nat 0) 99 40 raw_node 8 free_memory f1 ?s = Inr (True, hook_up 99 f1, \<lparr>f_value = 5, f_rt = r\<rparr>)"
    using future_enter_finished [OF s(1-12) _ s(13), of f1 99 raw_node 5] lost by blast
  then have "future_require_node [] 0 99 40 raw_node 8 free_memory f1 s1 = Inr (True, hook_up 99 f1, \<lparr>f_value = 5, f_rt = r\<rparr>)"
    using lost on_worker [OF s(1,2), of "[]" 99 40 raw_node 8 free_memory f1 5] by simp
  moreover from this lost have "f_value \<lparr>f_value = 5, f_rt = r\<rparr> = f_value ?s" by blast
  ultimately show ?thesis using f lost by (intro exI) auto
qed

end
