(* ===== verification/Thread_Wait.thy ===== *)
theory Thread_Wait
  imports Aspect Time_Locks
begin

text \<open>
  src/node.cpp: \<open>Node::block_thread_for_group\<close>, with which a thread that is no worker waits for
  a graph. It hangs a \<open>NodeRunWaiter\<close> behind the graph and sleeps on its semaphore, which the
  worker that runs the waiter signals. The call is split where the thread sleeps.
\<close>

section \<open>The call\<close>

text \<open>The semaphores of the waiters, by the address of the node.\<close>

type_synonym semas = "nid \<Rightarrow> semaphore option"

definition waiter_new :: "nid \<Rightarrow> node \<Rightarrow> world \<Rightarrow> semas \<Rightarrow> (world \<times> semas) result" where
  "waiter_new n raw w sm = rbind (semaphore_new 0) (\<lambda>s. Inr (node_new n raw w, sm(n \<mapsto> s)))"


text \<open>How the first part ends: returned, switched to another context in \<open>wait_graph\<close>, or asleep.\<close>

datatype block_result = Returned | Switches | Sleeps

definition block_thread_enter ::
  "i32 \<Rightarrow> gid \<Rightarrow> wait_memory \<Rightarrow> runtime \<Rightarrow> semas \<Rightarrow> (block_result \<times> runtime \<times> semas) result" where
  "block_thread_enter me d a r sm =
     rbind (graph_at d (mem r)) (\<lambda>gr.
     if g_status gr = Finish then Inr (Returned, r, sm)
     else if g_status gr = Initing then Inr (Returned, r, sm)
     else rbind (safe_get_cur_exec me r) (\<lambda>cur_exec.
       if cur_exec \<noteq> None
       then rbind (wait_graph_enter me d a r) (\<lambda>(switched, r1).
              Inr (if switched then Switches else Returned, r1, sm))
       else
         let w1 = put_graph (wa_graph a) (graph_new nullptr) (mem r) in
         rbind (waiter_new (wa_node a) (wa_raw a) w1 sm) (\<lambda>(w2, sm1).
         rbind (create_edges_graph (wa_graph a) (wa_node a) d w2) (\<lambda>w3.
           Inr (Sleeps, r\<lparr>mem := w3\<rparr>, sm1)))))"


section \<open>Going to sleep\<close>





section \<open>Waking up\<close>




section \<open>One wait, from start to end\<close>





section \<open>Properties\<close>





text \<open>A graph that has no nodes yet, and one that has been cleared, is not waited for; on a worker the call is
  \<open>wait_graph\<close>.\<close>

lemma block_thread_guards:
  assumes "w_graphs (mem r) d = Some dg"
  shows "g_status dg \<in> {Initing, Finish} \<Longrightarrow> block_thread_enter me d a r sm = Inr (Returned, r, sm)"
    and "g_status dg \<notin> {Initing, Finish} \<Longrightarrow> safe_get_cur_exec me r = Inr (Some i) \<Longrightarrow>
      block_thread_enter me d a r sm
        = rbind (wait_graph_enter me d a r) (\<lambda>(sw, r1). Inr (if sw then Switches else Returned, r1, sm))"
  using assms by (auto simp: block_thread_enter_def graph_at_def)

end
