(* ===== verification/Node_Pool.thy ===== *)
theory Node_Pool
  imports Dag_Exec Coroutine
begin

text \<open>
  src/graph.cpp: the nodes that are used again. A \<open>ReuseNode\<close> whose last pointer is dropped goes into
  a pool, a lock-free bounded queue, instead of being deleted; \<open>create_edges\<close> with a callable takes its
  \<open>LambdaNode\<close> from there. The callable is the user's: its type and what it does are parameters.
\<close>

section \<open>The pool\<close>

text \<open>\<open>ReuseNode::init_pool\<close>: the \<open>int\<close> becomes a \<open>size_t\<close>.\<close>

definition init_pool :: "i32 \<Rightarrow> free_queue result" where
  "init_pool sz = fq_new (to_u64 sz)"

definition lambda_pool :: "free_queue result" where
  "lambda_pool = init_pool (push_bit 14 1)"

definition get_from_pool :: "free_queue \<Rightarrow> world \<Rightarrow> (nid \<times> free_queue \<times> world) result" where
  "get_from_pool q w =
     rbind (fq_try_dequeue q) (\<lambda>(q1, r). case r of
       None \<Rightarrow> Inr (nullptr, q1, w)
     | Some n \<Rightarrow> rbind (mod_node n node_reset w) (\<lambda>w1.
         Inr (n, q1, w1\<lparr>pending_worker_num := pending_worker_num w1 + 1\<rparr>)))"

text \<open>\<open>ReuseNode::NodeDelete::operator()\<close>, the deleter of a reused node.\<close>

definition pool_dispose ::
  "bool \<Rightarrow> (gid \<Rightarrow> world \<Rightarrow> world result) \<Rightarrow> (nid list \<Rightarrow> world \<Rightarrow> world result) \<Rightarrow> free_queue
   \<Rightarrow> nid \<Rightarrow> world \<Rightarrow> (free_queue \<times> world) result" where
  "pool_dispose in_worker wait_graph wait_nodes q n w =
     rbind (release in_worker wait_graph wait_nodes n w) (\<lambda>w1.
     rbind (fq_try_enqueue q n) (\<lambda>(q1, b).
       if b then Inr (q1, w1\<lparr>pending_worker_num := pending_worker_num w1 - 1\<rparr>)
       else rbind (node_delete in_worker wait_graph wait_nodes n w1) (\<lambda>w2. Inr (q1, w2))))"

section \<open>Lambda nodes\<close>

text \<open>What \<open>lambda_holder\<close> has captured: the sub-graph and the callable.\<close>

type_synonym 'c holders = "nid \<Rightarrow> (gid \<times> 'c) option"

definition reuse_node_new :: "nid \<Rightarrow> node \<Rightarrow> world \<Rightarrow> world result" where
  "reuse_node_new n raw w = mod_node n (\<lambda>x. x\<lparr>reuse := True\<rparr>) (node_new n raw w)"

text \<open>\<open>LambdaNode::New\<close>: \<open>addr\<close>, \<open>raw\<close> and \<open>g\<close> are the memory of a new node and of its sub-graph.\<close>

definition lambda_new ::
  "'c \<Rightarrow> nid \<Rightarrow> node \<Rightarrow> gid \<Rightarrow> free_queue \<Rightarrow> 'c holders \<Rightarrow> world \<Rightarrow> (nid \<times> free_queue \<times> 'c holders \<times> world) result" where
  "lambda_new callable addr raw g q hs w =
     rbind (get_from_pool q w) (\<lambda>(node, q1, w1).
     rbind (if node \<noteq> nullptr then Inr (node, w1)
            else rbind (reuse_node_new addr raw w1) (\<lambda>w2. Inr (addr, w2))) (\<lambda>(n, w2).
     rbind (get_graph n g w2) (\<lambda>(s, w3). Inr (n, q1, hs(n \<mapsto> (s, callable)), w3))))"

text \<open>\<open>LambdaNode::run\<close>: \<open>call\<close> runs the callable on the sub-graph.\<close>

definition lambda_run ::
  "('c \<Rightarrow> gid \<Rightarrow> world \<Rightarrow> world result) \<Rightarrow> (gid \<Rightarrow> world \<Rightarrow> world result) \<Rightarrow> nid \<Rightarrow> gid \<Rightarrow> 'c holders
   \<Rightarrow> world \<Rightarrow> world result" where
  "lambda_run call wait_graph n g hs w =
     rbind (case hs n of None \<Rightarrow> Inl (Thrown ''bad_function_call'') | Some (s, callable) \<Rightarrow> call callable s w) (\<lambda>w1.
     rbind (get_graph n g w1) (\<lambda>(s, w2). wait_graph s w2))"

text \<open>The deleter that goes with the \<open>shared_ptr\<close> of a node.\<close>

datatype deleter = Deletes | Recycles

definition create_edges_node :: "gid \<Rightarrow> nid \<Rightarrow> nid list \<Rightarrow> world \<Rightarrow> (deleter \<times> world) result" where
  "create_edges_node g n required_nodes w =
     rbind (node_at n w) (\<lambda>x. rbind (create_edges g n required_nodes w) (\<lambda>w1.
       Inr (if \<not> reuse x then Deletes else Recycles, w1)))"

definition create_edges_lambda ::
  "gid \<Rightarrow> 'c \<Rightarrow> nid list \<Rightarrow> nid \<Rightarrow> node \<Rightarrow> gid \<Rightarrow> free_queue \<Rightarrow> 'c holders \<Rightarrow> world
   \<Rightarrow> (nid \<times> free_queue \<times> 'c holders \<times> world) result" where
  "create_edges_lambda g callable required_nodes addr raw sg q hs w =
     rbind (lambda_new callable addr raw sg q hs w) (\<lambda>(n, q1, hs1, w1).
     rbind (create_edges g n required_nodes w1) (\<lambda>w2. Inr (n, q1, hs1, w2)))"

section \<open>Who owns the nodes\<close>

text \<open>A node as the constructor leaves it, apart from the members it never sets.\<close>

definition blank :: "node \<Rightarrow> bool" where
  "blank x \<longleftrightarrow> n_status x = Initing \<and> wait_count x = 0 \<and> parent_graph x = None \<and> up_streams x = []
     \<and> down_streams x = [] \<and> fast_down_strams x = 0 \<and> fast_down_strams_bak x = fast_down_strams_bak_init"

lemma reset_blank: "blank (node_reset x)" "sub_graph (node_reset x) = None" "reuse (node_reset x) = reuse x"
  by (simp_all add: blank_def node_reset_def)

text \<open>
  The nodes of the pool and the nodes \<open>U\<close> in use are apart; \<open>pending_worker_num\<close> counts those in
  use, on top of the \<open>base\<close> of other nodes.
\<close>

definition pool_inv :: "i32 \<Rightarrow> free_queue \<Rightarrow> world \<Rightarrow> nid set \<Rightarrow> bool" where
  "pool_inv base q w U \<longleftrightarrow> fq_inv q \<and> distinct (fq_contents q) \<and> finite U \<and> U \<inter> set (fq_contents q) = {}
     \<and> nullptr \<notin> U \<and> pending_worker_num w = base + of_nat (card U)
     \<and> (\<forall>n \<in> U \<union> set (fq_contents q). \<exists>x. w_nodes w n = Some x \<and> reuse x)
     \<and> (\<forall>n \<in> set (fq_contents q). \<exists>x. w_nodes w n = Some x \<and> sub_graph x = None)"

lemma pool_invI:
  assumes "fq_inv q" "distinct (fq_contents q)" "finite U" "U \<inter> set (fq_contents q) = {}" "nullptr \<notin> U"
    "pending_worker_num w = base + of_nat (card U)"
    "\<And>n. n \<in> U \<union> set (fq_contents q) \<Longrightarrow> \<exists>x. w_nodes w n = Some x \<and> reuse x"
    "\<And>n. n \<in> set (fq_contents q) \<Longrightarrow> \<exists>x. w_nodes w n = Some x \<and> sub_graph x = None"
  shows "pool_inv base q w U"
  using assms unfolding pool_inv_def by blast

lemma pool_invD:
  assumes "pool_inv base q w U"
  shows "fq_inv q" "distinct (fq_contents q)" "finite U" "U \<inter> set (fq_contents q) = {}" "nullptr \<notin> U"
    "pending_worker_num w = base + of_nat (card U)"
    "\<And>n. n \<in> U \<union> set (fq_contents q) \<Longrightarrow> \<exists>x. w_nodes w n = Some x \<and> reuse x"
    "\<And>n. n \<in> set (fq_contents q) \<Longrightarrow> \<exists>x. w_nodes w n = Some x \<and> sub_graph x = None"
  using assms unfolding pool_inv_def by blast+

lemma get_graph_new:
  "w_nodes w n = Some x \<Longrightarrow> sub_graph x = None \<Longrightarrow>
     get_graph n g w = Inr (g, put_node n (x\<lparr>sub_graph := Some g\<rparr>) (put_graph g (graph_new n) w))"
  by (simp add: get_graph_def node_at_def)

text \<open>The node \<open>LambdaNode::New\<close> takes: the oldest of the pool, or a new one.\<close>

lemma pool_take:
  fixes hs :: "'c holders"
  assumes inv: "pool_inv base q w U" and fits: "fits_int (fq_read q)"
    and new: "w_nodes w addr = None" "addr \<noteq> nullptr" "addr \<notin> U"
  shows "\<exists>n q' w' x. lambda_new callable addr raw g q hs w = Inr (n, q', hs(n \<mapsto> (g, callable)), w')
    \<and> n = (case fq_contents q of [] \<Rightarrow> addr | m # ms \<Rightarrow> m) \<and> n \<notin> U
    \<and> w_nodes w' n = Some x \<and> blank x \<and> sub_graph x = Some g \<and> w_graphs w' = (w_graphs w)(g \<mapsto> graph_new n)
    \<and> (\<forall>m. m \<noteq> n \<longrightarrow> w_nodes w' m = w_nodes w m) \<and> pool_inv base q' w' (insert n U)"
proof -
  note I = pool_invD [OF inv]
  have "\<exists>n q' w1 x. get_from_pool q w = Inr (if fq_contents q = [] then nullptr else n, q', if fq_contents q = [] then w else w1)
      \<and> n = (case fq_contents q of [] \<Rightarrow> addr | m # ms \<Rightarrow> m) \<and> n \<noteq> nullptr \<and> n \<notin> U
      \<and> (if fq_contents q = [] then reuse_node_new addr raw w = Inr w1 else True)
      \<and> w_nodes w1 = (w_nodes w)(n \<mapsto> x) \<and> blank x \<and> sub_graph x = None \<and> reuse x \<and> w_graphs w1 = w_graphs w
      \<and> pending_worker_num w1 = pending_worker_num w + 1
      \<and> fq_inv q' \<and> fq_contents q' = tl (fq_contents q)"
  proof (cases "fq_contents q")
    case Nil
    let ?x = "(node_reset (raw\<lparr>ghost := False, reuse := False\<rparr>))\<lparr>reuse := True\<rparr>"
    let ?w = "put_node addr ?x (node_new addr raw w)"
    have "get_from_pool q w = Inr (nullptr, q, w)" using fq.deq_empty [OF I(1) Nil] by (simp add: get_from_pool_def)
    moreover have "reuse_node_new addr raw w = Inr ?w"
      by (simp add: reuse_node_new_def mod_node_def node_at_def node_new_def put_node_def)
    moreover have "blank ?x" "sub_graph ?x = None" by (simp_all add: blank_def node_reset_def)
    ultimately show ?thesis using Nil new I(1)
      by (intro exI [of _ addr] exI [of _ q] exI [of _ ?w] exI [of _ ?x]) (simp add: node_new_def put_node_def)
  next
    case (Cons n ms)
    from fq_deq_item [OF I(1) Cons fits] obtain q' where q': "fq_try_dequeue q = Inr (q', Some n)" "fq_inv q'"
      "fq_contents q' = ms" by blast
    obtain x where x: "w_nodes w n = Some x" "reuse x" using I(7) [of n] Cons by auto
    let ?w = "(put_node n (node_reset x) w)\<lparr>pending_worker_num := pending_worker_num w + 1\<rparr>"
    have "get_from_pool q w = Inr (n, q', ?w)"
      using q'(1) x(1) by (simp add: get_from_pool_def mod_node_def node_at_def put_node_def)
    moreover have "n \<noteq> nullptr" using fq.no_null [OF I(1)] Cons by auto
    moreover have "n \<notin> U" using I(4) Cons by auto
    ultimately show ?thesis using Cons q' x(2) reset_blank [of x]
      by (intro exI [of _ n] exI [of _ q'] exI [of _ ?w] exI [of _ "node_reset x"]) (simp add: put_node_def)
  qed
  then obtain n q' w1 x where
    g1: "get_from_pool q w = Inr (if fq_contents q = [] then nullptr else n, q', if fq_contents q = [] then w else w1)"
    and n: "n = (case fq_contents q of [] \<Rightarrow> addr | m # ms \<Rightarrow> m)" "n \<noteq> nullptr" "n \<notin> U"
    and w1: "if fq_contents q = [] then reuse_node_new addr raw w = Inr w1 else True" "w_nodes w1 = (w_nodes w)(n \<mapsto> x)"
      "blank x" "sub_graph x = None" "reuse x" "w_graphs w1 = w_graphs w" "pending_worker_num w1 = pending_worker_num w + 1"
    and q': "fq_inv q'" "fq_contents q' = tl (fq_contents q)" by blast
  let ?w' = "put_node n (x\<lparr>sub_graph := Some g\<rparr>) (put_graph g (graph_new n) w1)"
  have "get_graph n g w1 = Inr (g, ?w')" using get_graph_new [of w1 n x g] w1(2,4) by simp
  then have run: "lambda_new callable addr raw g q hs w = Inr (n, q', hs(n \<mapsto> (g, callable)), ?w')"
    using g1 n w1(1) by (cases "fq_contents q") (simp_all add: lambda_new_def)
  have sub: "set (fq_contents q') \<subseteq> set (fq_contents q)" using q'(2) by (cases "fq_contents q") auto
  have out: "n \<notin> set (fq_contents q')"
  proof (cases "fq_contents q")
    case Nil then show ?thesis using q'(2) by simp
  next
    case (Cons m ms) then show ?thesis using q'(2) n(1) I(2) by simp
  qed
  have "pool_inv base q' ?w' (insert n U)"
  proof (rule pool_invI)
    show "fq_inv q'" by (rule q'(1))
    show "distinct (fq_contents q')" using I(2) q'(2) by (simp add: distinct_tl)
    show "finite (insert n U)" "nullptr \<notin> insert n U" using I(3,5) n(2) by auto
    show "insert n U \<inter> set (fq_contents q') = {}" using I(4) sub out by auto
    show "pending_worker_num ?w' = base + of_nat (card (insert n U))"
      using I(3,6) n(3) w1(7) by (simp add: put_node_def put_graph_def)
    show "\<exists>x. w_nodes ?w' m = Some x \<and> reuse x" if "m \<in> insert n U \<union> set (fq_contents q')" for m
      using that I(7) [of m] sub w1(2,5) by (cases "m = n") auto
    show "\<exists>x. w_nodes ?w' m = Some x \<and> sub_graph x = None" if "m \<in> set (fq_contents q')" for m
      using that I(8) [of m] sub out w1(2) by auto
  qed
  moreover have "blank (x\<lparr>sub_graph := Some g\<rparr>)" using w1(3) by (simp add: blank_def)
  ultimately show ?thesis using run n w1(2,6)
    by (intro exI [of _ n] exI [of _ q'] exI [of _ ?w'] exI [of _ "x\<lparr>sub_graph := Some g\<rparr>"]) auto
qed

text \<open>
  A node that can be dropped: it has ended, and so has its sub-graph, if it has one. On a worker
  \<open>release\<close> calls \<open>wait_graph\<close> and \<open>require_node\<close>, which have nothing to wait for then.
\<close>

definition droppable ::
  "bool \<Rightarrow> (gid \<Rightarrow> world \<Rightarrow> world result) \<Rightarrow> (nid list \<Rightarrow> world \<Rightarrow> world result) \<Rightarrow> world \<Rightarrow> nid \<Rightarrow> bool" where
  "droppable in_worker wait_graph wait_nodes w n \<longleftrightarrow> (case w_nodes w n of None \<Rightarrow> False | Some x \<Rightarrow>
     n_status x = Recoverable \<and> (case sub_graph x of None \<Rightarrow> True | Some s \<Rightarrow>
       (in_worker \<longrightarrow> wait_graph s w = Inr w) \<and> (case w_graphs w s of None \<Rightarrow> False | Some gr \<Rightarrow>
         all_recoverable (get_nodes gr) w = Inr True \<and> (in_worker \<longrightarrow> wait_nodes (get_nodes gr) w = Inr w))))"

lemma all_recoverable_put_graph [simp]: "all_recoverable ns (put_graph g gr w) = all_recoverable ns w"
proof (induction ns)
  case (Cons n ns)
  then show ?case by (cases "w_nodes w n") (simp_all add: node_at_def)
qed simp

lemma clear_graph_settled:
  assumes g: "w_graphs w s = Some gr" "all_recoverable (get_nodes gr) w = Inr True"
    and wn: "in_worker \<longrightarrow> g_status gr \<notin> {Initing, Finish} \<longrightarrow> wait_nodes (get_nodes gr) w = Inr w"
  shows "\<exists>gr'. clear_graph in_worker wait_nodes s w = Inr (put_graph s gr' w)
    \<and> (gr' = gr \<or> g_status gr' = Finish \<and> get_nodes gr' = [])"
proof -
  have same: "put_graph s gr w = w" using g(1) by (simp add: put_graph_def fun_upd_idem)
  consider "enable_qf_dump_graph w \<or> g_status gr = Initing" | "\<not> enable_qf_dump_graph w" "g_status gr = Finish"
    | "\<not> enable_qf_dump_graph w" "g_status gr \<noteq> Initing" "g_status gr \<noteq> Finish" by blast
  then show ?thesis
  proof cases
    case 1
    then show ?thesis using g(1) same
      by (intro exI [of _ gr]) (auto simp: clear_graph_def graph_at_def)
  next
    case 2
    then show ?thesis using g(1)
      by (intro exI [of _ "gr\<lparr>g_nodes := [], fast_nodes := []\<rparr>"]) (simp add: clear_graph_def graph_at_def get_nodes_def)
  next
    case 3
    then show ?thesis using g wn
      by (intro exI [of _ "gr\<lparr>g_status := Finish, g_nodes := [], fast_nodes := []\<rparr>"])
        (auto simp: clear_graph_def graph_at_def get_nodes_def [of "gr\<lparr>g_status := Finish, g_nodes := [], fast_nodes := []\<rparr>"]
          mod_graph_def Let_def put_graph_def all_recoverable_put_graph [unfolded put_graph_def])
  qed
qed

lemma release_settled:
  assumes d: "droppable in_worker wait_graph wait_nodes w n" and x: "w_nodes w n = Some x"
  shows "\<exists>w'. release in_worker wait_graph wait_nodes n w = Inr w'
    \<and> w_nodes w' = (w_nodes w)(n \<mapsto> x\<lparr>sub_graph := None\<rparr>) \<and> pending_worker_num w' = pending_worker_num w
    \<and> w_graphs w' = (case sub_graph x of None \<Rightarrow> w_graphs w | Some s \<Rightarrow> (w_graphs w)(s := None))"
proof (cases "sub_graph x")
  case None
  then have "x\<lparr>sub_graph := None\<rparr> = x" by simp
  then show ?thesis using None x by (intro exI [of _ w]) (simp add: release_def node_at_def fun_upd_idem)
next
  case (Some s)
  then obtain gr where gr: "w_graphs w s = Some gr" "all_recoverable (get_nodes gr) w = Inr True"
    "in_worker \<longrightarrow> wait_graph s w = Inr w" "in_worker \<longrightarrow> wait_nodes (get_nodes gr) w = Inr w"
    using d x by (auto simp: droppable_def split: option.splits)
  from clear_graph_settled [of w s gr in_worker wait_nodes] gr obtain gr1 where
    c1: "clear_graph in_worker wait_nodes s w = Inr (put_graph s gr1 w)" "gr1 = gr \<or> g_status gr1 = Finish \<and> get_nodes gr1 = []"
    by blast
  let ?w1 = "put_graph s gr1 w"
  have "all_recoverable (get_nodes gr1) ?w1 = Inr True" using c1(2) gr(2) by auto
  moreover have "in_worker \<longrightarrow> g_status gr1 \<notin> {Initing, Finish} \<longrightarrow> wait_nodes (get_nodes gr1) ?w1 = Inr ?w1"
    using c1(2) gr(1,4) by (auto simp: put_graph_def fun_upd_idem)
  ultimately obtain gr2 where c2: "clear_graph in_worker wait_nodes s ?w1 = Inr (put_graph s gr2 ?w1)"
    using clear_graph_settled [of ?w1 s gr1 in_worker wait_nodes] by auto
  let ?w3 = "free_graph s (put_graph s gr2 ?w1)"
  have w3: "w_nodes ?w3 n = Some x" using x by (simp add: free_graph_def put_graph_def)
  have r: "release in_worker wait_graph wait_nodes n w = Inr (put_node n (x\<lparr>sub_graph := None\<rparr>) ?w3)"
    using x Some gr(3) c1(1) c2 w3
    by (cases in_worker) (simp_all add: release_def node_at_def graph_delete_def mod_node_def del: rbind_eq_Inr)
  show ?thesis
    by (intro exI conjI, rule r) (simp_all add: Some put_node_def put_graph_def free_graph_def fun_eq_iff)
qed

text \<open>Dropping a node: back into the pool while there is room, deleted otherwise.\<close>

lemma pool_drop:
  assumes inv: "pool_inv base q w U" and n: "n \<in> U" "droppable in_worker wait_graph wait_nodes w n"
  shows "\<exists>q' w' x. pool_dispose in_worker wait_graph wait_nodes q n w = Inr (q', w')
    \<and> w_nodes w n = Some x \<and> pool_inv base q' w' (U - {n})
    \<and> w_graphs w' = (case sub_graph x of None \<Rightarrow> w_graphs w | Some s \<Rightarrow> (w_graphs w)(s := None))
    \<and> (\<forall>m. m \<noteq> n \<longrightarrow> w_nodes w' m = w_nodes w m)
    \<and> (if has_room (fq_limit q) (fq_contents q)
       then fq_contents q' = fq_contents q @ [n] \<and> w_nodes w' n = Some (x\<lparr>sub_graph := None\<rparr>)
       else q' = q \<and> w_nodes w' n = None)"
proof -
  note I = pool_invD [OF inv]
  obtain x where x: "w_nodes w n = Some x" "reuse x" using I(7) n(1) by auto
  obtain w1 where w1: "release in_worker wait_graph wait_nodes n w = Inr w1"
    "w_nodes w1 = (w_nodes w)(n \<mapsto> x\<lparr>sub_graph := None\<rparr>)" "pending_worker_num w1 = pending_worker_num w"
    "w_graphs w1 = (case sub_graph x of None \<Rightarrow> w_graphs w | Some s \<Rightarrow> (w_graphs w)(s := None))"
    using release_settled [OF n(2) x(1)] by blast
  have n0: "n \<noteq> nullptr" "n \<notin> set (fq_contents q)" using I(4,5) n(1) by auto
  have card: "of_nat (card U) = (1 :: i32) + of_nat (card (U - {n}))"
    using card_Suc_Diff1 [OF I(3) n(1)] by (metis of_nat_Suc)
  show ?thesis
  proof (cases "has_room (fq_limit q) (fq_contents q)")
    case True
    obtain q' where q': "fq_try_enqueue q n = Inr (q', True)" "fq_inv q'" "fq_contents q' = fq_contents q @ [n]"
      using fq.enq_room [OF I(1) n0(1) True] by blast
    let ?w' = "w1\<lparr>pending_worker_num := pending_worker_num w1 - 1\<rparr>"
    have "pool_inv base q' ?w' (U - {n})"
    proof (rule pool_invI)
      show "\<exists>y. w_nodes ?w' m = Some y \<and> reuse y" if "m \<in> U - {n} \<union> set (fq_contents q')" for m
        using that I(7) [of m] x(2) w1(2) q'(3) by (cases "m = n") auto
      show "\<exists>y. w_nodes ?w' m = Some y \<and> sub_graph y = None" if "m \<in> set (fq_contents q')" for m
        using that I(8) [of m] w1(2) q'(3) by (cases "m = n") auto
    qed (use I q' n0(2) w1(3) card in auto)
    moreover have "pool_dispose in_worker wait_graph wait_nodes q n w = Inr (q', ?w')"
      by (simp add: pool_dispose_def w1(1) q'(1))
    ultimately show ?thesis using x(1) w1(2,4) q'(3) True
      by (intro exI [of _ q'] exI [of _ ?w'] exI [of _ x]) auto
  next
    case False
    have st: "n_status x = Recoverable" using n(2) x(1) by (simp add: droppable_def split: option.splits)
    let ?w2 = "w1\<lparr>pending_worker_num := pending_worker_num w1 - 1\<rparr>"
    let ?w' = "free_node n (put_node n (x\<lparr>sub_graph := None, n_status := Destroy\<rparr>) ?w2)"
    have "node_delete in_worker wait_graph wait_nodes n w1 = Inr ?w'"
      using w1(2) st by (simp add: node_delete_def node_at_def release_def set_status_def mod_node_def status_order)
    moreover have "fq_try_enqueue q n = Inr (q, False)" by (rule fq.enq_full [OF I(1) False])
    ultimately have run: "pool_dispose in_worker wait_graph wait_nodes q n w = Inr (q, ?w')"
      by (simp add: pool_dispose_def w1(1))
    have w': "w_nodes ?w' = (w_nodes w)(n := None)" "w_graphs ?w' = w_graphs w1"
      "pending_worker_num ?w' = pending_worker_num w - 1"
      by (simp_all add: free_node_def put_node_def w1(2,3))
    have "pool_inv base q ?w' (U - {n})"
    proof (rule pool_invI)
      show "\<exists>y. w_nodes ?w' m = Some y \<and> reuse y" if "m \<in> U - {n} \<union> set (fq_contents q)" for m
        using that I(7) [of m] n0(2) w'(1) by (cases "m = n") auto
      show "\<exists>y. w_nodes ?w' m = Some y \<and> sub_graph y = None" if "m \<in> set (fq_contents q)" for m
        using that I(8) [of m] n0(2) w'(1) by (cases "m = n") auto
    qed (use I w'(3) card in auto)
    then show ?thesis using run x(1) w1(4) w'(1,2) False
      by (intro exI [of _ q] exI [of _ ?w'] exI [of _ x]) auto
  qed
qed

section \<open>Any sequence of calls\<close>

text \<open>\<open>others\<close> is the number of nodes that do not belong to the pool, \<open>takes\<close> the number of calls of
  \<open>LambdaNode::New\<close>.\<close>

record pool_sys =
  pq :: free_queue
  pw :: world
  used :: "nid set"
  others :: i32
  takes :: nat

text \<open>Between the calls of the pool the rest of the program may do anything but touch the nodes in the
  pool, free a node of the pool or change its kind; it counts the nodes it makes itself.\<close>

inductive pool_step ::
  "bool \<Rightarrow> (gid \<Rightarrow> world \<Rightarrow> world result) \<Rightarrow> (nid list \<Rightarrow> world \<Rightarrow> world result) \<Rightarrow> pool_sys \<Rightarrow> pool_sys \<Rightarrow> bool"
  for in_worker wait_graph wait_nodes where
  take_node: "w_nodes (pw s) addr = None \<Longrightarrow> addr \<noteq> nullptr \<Longrightarrow>
    lambda_new () addr raw g (pq s) Map.empty (pw s) = Inr (n, q, hs, w) \<Longrightarrow>
    pool_step in_worker wait_graph wait_nodes s (s\<lparr>pq := q, pw := w, used := insert n (used s), takes := Suc (takes s)\<rparr>)"
| drop_node: "n \<in> used s \<Longrightarrow> droppable in_worker wait_graph wait_nodes (pw s) n \<Longrightarrow>
    pool_dispose in_worker wait_graph wait_nodes (pq s) n (pw s) = Inr (q, w) \<Longrightarrow>
    pool_step in_worker wait_graph wait_nodes s (s\<lparr>pq := q, pw := w, used := used s - {n}\<rparr>)"
| use_nodes: "\<forall>n \<in> set (fq_contents (pq s)). w_nodes w n = w_nodes (pw s) n \<Longrightarrow>
    \<forall>n \<in> used s. \<exists>x. w_nodes w n = Some x \<and> reuse x \<Longrightarrow>
    pending_worker_num w = pending_worker_num (pw s) + b \<Longrightarrow>
    pool_step in_worker wait_graph wait_nodes s (s\<lparr>pw := w, others := others s + b\<rparr>)"

inductive pool_reach ::
  "bool \<Rightarrow> (gid \<Rightarrow> world \<Rightarrow> world result) \<Rightarrow> (nid list \<Rightarrow> world \<Rightarrow> world result) \<Rightarrow> pool_sys \<Rightarrow> bool"
  for in_worker wait_graph wait_nodes where
  pool_start: "lambda_pool = Inr q \<Longrightarrow>
    pool_reach in_worker wait_graph wait_nodes
      \<lparr>pq = q, pw = w, used = {}, others = pending_worker_num w, takes = 0\<rparr>"
| pool_more: "pool_reach in_worker wait_graph wait_nodes s \<Longrightarrow> pool_step in_worker wait_graph wait_nodes s s' \<Longrightarrow>
    pool_reach in_worker wait_graph wait_nodes s'"

lemma get_from_pool_read:
  assumes "fq_inv q" "get_from_pool q w = Inr (n, q', w')"
  shows "(fq_read q' = fq_read q \<or> fq_read q' = fq_read q + 1) \<and> fq_limit q' = fq_limit q"
proof (cases "fq_contents q")
  case Nil
  then show ?thesis using assms fq.deq_empty [OF assms(1) Nil] by (simp add: get_from_pool_def)
next
  case (Cons m ms)
  show ?thesis
  proof (cases "fits_int (fq_read q)")
    case True
    from fq_deq_item [OF assms(1) Cons True] show ?thesis using assms(2) by (auto simp: get_from_pool_def)
  next
    case False
    then show ?thesis using fq_deq_diverges [OF assms(1) _ False] assms(2) Cons by (simp add: get_from_pool_def)
  qed
qed

lemma lambda_new_read:
  assumes "fq_inv q" "lambda_new c addr raw g q hs w = Inr (n, q', hs', w')"
  shows "(fq_read q' = fq_read q \<or> fq_read q' = fq_read q + 1) \<and> fq_limit q' = fq_limit q"
proof -
  obtain m w1 where "get_from_pool q w = Inr (m, q', w1)"
    using assms(2) by (auto simp: lambda_new_def split: if_splits)
  from get_from_pool_read [OF assms(1) this] show ?thesis .
qed

lemma lambda_pool_new:
  obtains q where "lambda_pool = Inr q" "fq_inv q" "fq_contents q = []" "fq_limit q = Some 16384" "fq_read q = 0"
proof -
  have u: "unat (to_u64 (push_bit 14 1)) = 16384" by (simp add: to_u64_def)
  have b: "0 < unat (to_u64 (push_bit 14 1))" "unat (to_u64 (push_bit 14 1)) \<le> 2 ^ 30" unfolding u by simp_all
  obtain q c where q: "fq_new (to_u64 (push_bit 14 1)) = Inr q" "fq_inv q" "fq_contents q = []" "fq_limit q = Some c"
    "fq_read q = 0" by (rule fq_new_inv [OF b])
  have "fq_capacity q = 2 ^ 14"
    using q(1) align_size_of_pow2 [of 14] by (auto simp: fq_new_def to_u64_def)
  then have "c = 16384" using q(4) by (simp add: fq_limit_def)
  with q that show thesis by (simp add: lambda_pool_def init_pool_def)
qed

definition pool_sys_inv :: "pool_sys \<Rightarrow> bool" where
  "pool_sys_inv s \<longleftrightarrow> pool_inv (others s) (pq s) (pw s) (used s) \<and> fq_limit (pq s) = Some 16384
     \<and> unat (fq_read (pq s)) \<le> takes s"

lemma read_fits: "pool_sys_inv s \<Longrightarrow> takes s < 2 ^ 31 \<Longrightarrow> fits_int (fq_read (pq s))"
  by (intro fits_int_small) (simp add: pool_sys_inv_def)

lemma pool_step_inv:
  assumes "pool_step in_worker wait_graph wait_nodes s s'" "pool_sys_inv s" "takes s' \<le> 2 ^ 31"
  shows "pool_sys_inv s' \<and> takes s \<le> takes s'"
  using assms
proof (induction rule: pool_step.induct)
  case (take_node s addr raw g n q hs w)
  have I: "pool_inv (others s) (pq s) (pw s) (used s)" "fq_limit (pq s) = Some 16384" "unat (fq_read (pq s)) \<le> takes s"
    using take_node.prems(1) by (auto simp: pool_sys_inv_def)
  have lt: "takes s < 2 ^ 31" using take_node.prems(2) by simp
  have "addr \<notin> used s" using pool_invD(7) [OF I(1), of addr] take_node.hyps(1) by auto
  from pool_take [OF I(1) read_fits [OF take_node.prems(1) lt] take_node.hyps(1,2) this, of "()" raw g Map.empty]
  have inv: "pool_inv (others s) q w (insert n (used s))" using take_node.hyps(3) by auto
  have r: "fq_read q = fq_read (pq s) \<or> fq_read q = fq_read (pq s) + 1" "fq_limit q = fq_limit (pq s)"
    using lambda_new_read [OF pool_invD(1) [OF I(1)] take_node.hyps(3)] by auto
  have "fq_read (pq s) < 2 ^ 31" using I(3) lt by (simp add: word_less_nat_alt)
  then have "unat (fq_read (pq s) + 1) = Suc (unat (fq_read (pq s)))" by (rule unat_inc)
  then show ?case using inv I r by (auto simp: pool_sys_inv_def)
next
  case (drop_node n s q w)
  have I: "pool_inv (others s) (pq s) (pw s) (used s)" "fq_limit (pq s) = Some 16384" "unat (fq_read (pq s)) \<le> takes s"
    using drop_node.prems(1) by (auto simp: pool_sys_inv_def)
  obtain b where e: "fq_try_enqueue (pq s) n = Inr (q, b)"
    using drop_node.hyps(3) by (auto simp: pool_dispose_def split: if_splits)
  have "n \<noteq> nullptr" using drop_node.hyps(1) pool_invD(5) [OF I(1)] by metis
  then have "fq_limit q = fq_limit (pq s)" using fq.enq_spec [OF pool_invD(1) [OF I(1)], of n] e by auto
  then show ?case
    using pool_drop [OF I(1) drop_node.hyps(1,2)] drop_node.hyps(3) fq_enq_keeps_read [OF pool_invD(1) [OF I(1)] e] I
    by (auto simp: pool_sys_inv_def)
next
  case (use_nodes s w b)
  have I: "pool_inv (others s) (pq s) (pw s) (used s)" using use_nodes.prems(1) by (simp add: pool_sys_inv_def)
  note D = pool_invD [OF I]
  have "pool_inv (others s + b) (pq s) w (used s)"
  proof (rule pool_invI)
    show "\<exists>x. w_nodes w m = Some x \<and> reuse x" if "m \<in> used s \<union> set (fq_contents (pq s))" for m
      using that D(7) [of m] use_nodes.hyps by auto
    show "\<exists>x. w_nodes w m = Some x \<and> sub_graph x = None" if "m \<in> set (fq_contents (pq s))" for m
      using that D(8) [of m] use_nodes.hyps by auto
  qed (use D use_nodes.hyps in \<open>auto simp: algebra_simps\<close>)
  then show ?case using use_nodes.prems(1) by (simp add: pool_sys_inv_def)
qed

lemma pool_reach_inv:
  assumes "pool_reach in_worker wait_graph wait_nodes s" "takes s \<le> 2 ^ 31"
  shows "pool_sys_inv s"
  using assms
proof (induction rule: pool_reach.induct)
  case (pool_start q w)
  obtain q1 where "lambda_pool = Inr q1" "fq_inv q1" "fq_contents q1 = []" "fq_limit q1 = Some 16384" "fq_read q1 = 0"
    using lambda_pool_new by blast
  moreover have "q1 = q" using calculation(1) pool_start.hyps by (metis sum.inject(2))
  ultimately show ?case by (simp add: pool_sys_inv_def pool_inv_def)
next
  case (pool_more s s')
  have "takes s \<le> takes s'" using pool_more.hyps(2) by (cases rule: pool_step.cases) auto
  then show ?case using pool_more pool_step_inv by auto
qed

section \<open>A node in use\<close>

lemma one_used:
  "\<exists>s x. pool_reach False no_wait no_wait s \<and> takes s = 1 \<and> used s = {10} \<and> fq_contents (pq s) = []
    \<and> droppable False no_wait no_wait (pw s) 10 \<and> w_nodes (pw s) 11 = None \<and> w_nodes (pw s) 10 = Some x"
proof -
  obtain q0 where q0: "lambda_pool = Inr q0" "fq_contents q0 = []" by (rule lambda_pool_new)
  let ?w0 = "mem bare"
  let ?s0 = "\<lparr>pq = q0, pw = ?w0, used = {}, others = pending_worker_num ?w0, takes = 0\<rparr>"
  have r0: "pool_reach False no_wait no_wait ?s0" by (rule pool_start [OF q0(1)])
  have S0: "pool_sys_inv ?s0" by (rule pool_reach_inv [OF r0]) simp
  have "fits_int (fq_read q0)" using read_fits [OF S0] by simp
  moreover have p0: "pool_inv (others ?s0) q0 ?w0 {}" "w_nodes ?w0 10 = None" using S0 by (simp_all add: pool_sys_inv_def bare_def)
  ultimately obtain q w x where t: "lambda_new () 10 raw_node 5 q0 Map.empty ?w0 = Inr (10, q, [10 \<mapsto> (5, ())], w)"
    "w_nodes w 10 = Some x" "sub_graph x = Some 5" "w_graphs w 5 = Some (graph_new 10)"
    "\<forall>m. m \<noteq> 10 \<longrightarrow> w_nodes w m = w_nodes ?w0 m" "pool_inv (others ?s0) q w {10}"
    using pool_take [of "others ?s0" q0 ?w0 "{}" 10 "()" raw_node 5 Map.empty] q0(2) by auto
  let ?s1 = "?s0\<lparr>pq := q, pw := w, used := insert 10 (used ?s0), takes := Suc (takes ?s0)\<rparr>"
  have r1: "pool_reach False no_wait no_wait ?s1"
    by (rule pool_more [OF r0 take_node]) (use t(1) in \<open>simp_all add: bare_def\<close>)
  have c: "10 \<notin> set (fq_contents q)" using pool_invD(4) [OF t(6)] by simp
  have sub: "set (fq_contents q) = {}"
  proof -
    have "fq_try_dequeue q0 = Inr (q0, None)" by (rule fq.deq_empty [OF pool_invD(1) [OF p0(1)] q0(2)])
    then have "q = q0" using t(1) by (auto simp: lambda_new_def get_from_pool_def)
    then show ?thesis using q0(2) by simp
  qed
  let ?x = "x\<lparr>n_status := Recoverable\<rparr>" let ?w = "put_node 10 ?x w"
  obtain y where "w_nodes w 10 = Some y" "reuse y" using pool_invD(7) [OF t(6), of 10] by auto
  then have "reuse x" using t(2) by simp
  let ?s2 = "?s1\<lparr>pw := ?w, others := others ?s1 + 0\<rparr>"
  have r2: "pool_reach False no_wait no_wait ?s2"
    by (rule pool_more [OF r1 use_nodes]) (use sub \<open>reuse x\<close> in \<open>simp_all add: put_node_def\<close>)
  moreover have "droppable False no_wait no_wait ?w 10" using t(3,4) by (simp add: droppable_def get_nodes_def graph_new_def)
  moreover have "w_nodes ?w 11 = None" "w_nodes ?w 10 = Some ?x" using t(5) by (simp_all add: bare_def)
  ultimately show ?thesis using sub by (intro exI [of _ ?s2] exI [of _ ?x]) simp
qed

section \<open>Properties\<close>

text \<open>C13: the pool of lambda nodes under any sequence of takes and drops, with anything happening to the nodes in use between
  them, up to \<open>2 ^ 31\<close> takes: a node in use is never in the pool, \<open>pending_worker_num\<close> counts the nodes in
  use, at most \<open>2 ^ 14\<close> wait in the pool; a node that is taken was not in use, is blank, with a fresh sub-graph of
  its own, and its callable is the new one; dropping a node that has ended never fails and frees its sub-graph.\<close>

theorem pool_gives_blank_nodes:
  assumes s: "pool_reach in_worker wait_graph wait_nodes s" "takes s < 2 ^ 31"
    and new: "w_nodes (pw s) addr = None" "addr \<noteq> nullptr"
    and n: "n \<in> used s \<longrightarrow> droppable in_worker wait_graph wait_nodes (pw s) n"
  shows "used s \<inter> set (fq_contents (pq s)) = {} \<and> distinct (fq_contents (pq s)) \<and> length (fq_contents (pq s)) \<le> 16384
    \<and> pending_worker_num (pw s) = others s + of_nat (card (used s))
    \<and> (\<exists>m q w x. lambda_new callable addr raw g (pq s) hs (pw s) = Inr (m, q, hs(m \<mapsto> (g, callable)), w)
        \<and> m \<notin> used s \<and> w_nodes w m = Some x \<and> blank x \<and> sub_graph x = Some g \<and> w_graphs w g = Some (graph_new m)
        \<and> pending_worker_num w = pending_worker_num (pw s) + 1)
    \<and> (n \<in> used s \<longrightarrow> (\<exists>q w x. pool_dispose in_worker wait_graph wait_nodes (pq s) n (pw s) = Inr (q, w)
        \<and> w_nodes (pw s) n = Some x \<and> (\<forall>sg. sub_graph x = Some sg \<longrightarrow> w_graphs w sg = None)
        \<and> pending_worker_num w = pending_worker_num (pw s) - 1))"
proof -
  have "takes s \<le> 2 ^ 31" using s(2) by simp
  note S = pool_reach_inv [OF s(1) this]
  then have I: "pool_inv (others s) (pq s) (pw s) (used s)" "fq_limit (pq s) = Some 16384" by (auto simp: pool_sys_inv_def)
  note D = pool_invD [OF I(1)]
  have "addr \<notin> used s" using D(7) [of addr] new(1) by auto
  from pool_take [OF I(1) read_fits [OF S s(2)] new this, of callable raw g hs] obtain m q w x where
    t: "lambda_new callable addr raw g (pq s) hs (pw s) = Inr (m, q, hs(m \<mapsto> (g, callable)), w)" "m \<notin> used s"
    "w_nodes w m = Some x" "blank x" "sub_graph x = Some g" "w_graphs w = (w_graphs (pw s))(g \<mapsto> graph_new m)"
    "pool_inv (others s) q w (insert m (used s))" by blast
  have tp: "pending_worker_num w = pending_worker_num (pw s) + 1"
    using pool_invD(6) [OF t(7)] D(3,6) t(2) by simp
  have "\<exists>q w x. pool_dispose in_worker wait_graph wait_nodes (pq s) n (pw s) = Inr (q, w)
        \<and> w_nodes (pw s) n = Some x \<and> (\<forall>sg. sub_graph x = Some sg \<longrightarrow> w_graphs w sg = None)
        \<and> pending_worker_num w = pending_worker_num (pw s) - 1" if u: "n \<in> used s"
  proof -
    obtain q w x where d: "pool_dispose in_worker wait_graph wait_nodes (pq s) n (pw s) = Inr (q, w)"
      "w_nodes (pw s) n = Some x" "pool_inv (others s) q w (used s - {n})"
      "w_graphs w = (case sub_graph x of None \<Rightarrow> w_graphs (pw s) | Some sg \<Rightarrow> (w_graphs (pw s))(sg := None))"
      using pool_drop [OF I(1) u] n u by blast
    have "(of_nat (card (used s)) :: i32) = of_nat (card (used s - {n})) + 1"
      using card_Suc_Diff1 [OF D(3) u] by (metis add.commute of_nat_Suc)
    then have "pending_worker_num w = pending_worker_num (pw s) - 1"
      using pool_invD(6) [OF d(3)] D(6) by simp
    with d show ?thesis by auto
  qed
  moreover have "length (fq_contents (pq s)) \<le> 16384"
  proof -
    obtain k where "fq_shape k (pq s)" using D(1) by (auto simp: fq_inv_def)
    then have "length (fq_contents (pq s)) \<le> unat (fq_capacity (pq s))"
      using fq_shape_cap [of k "pq s"] by (simp add: fq_contents_def fq_shape_def)
    then show ?thesis using I(2) by (simp add: fq_limit_def)
  qed
  ultimately show ?thesis using D(2,4,6) t(1-6) tp by auto
qed

theorem pool_gives_blank_nodes_witness:
  "\<exists>s. pool_reach False no_wait no_wait s \<and> used s = {10}
    \<and> (\<exists>m q w. lambda_new (7 :: nat) 11 raw_node 6 (pq s) Map.empty (pw s) = Inr (m, q, [m \<mapsto> (6, 7)], w) \<and> m \<noteq> 10)
    \<and> (\<exists>q w. pool_dispose False no_wait no_wait (pq s) 10 (pw s) = Inr (q, w)
        \<and> pending_worker_num w = pending_worker_num (pw s) - 1)"
proof -
  obtain s where s: "pool_reach False no_wait no_wait s" "takes s = 1" "used s = {10}"
    "droppable False no_wait no_wait (pw s) 10" "w_nodes (pw s) 11 = None" using one_used by blast
  have h: "takes s < 2 ^ 31" "(11 :: nid) \<noteq> nullptr" "10 \<in> used s \<longrightarrow> droppable False no_wait no_wait (pw s) 10"
    using s(2,4) by simp_all
  from pool_gives_blank_nodes [OF s(1) h(1) s(5) h(2,3), of "7 :: nat" raw_node 6 Map.empty] s(1,3) show ?thesis by fastforce
qed

text \<open>A dropped node comes back blank. When the pool was empty, the node just dropped is the one the next
  \<open>create_edges\<close> with a callable gets, at the same address and with a new sub-graph and callable, and neither node
  nor graph is allocated or lost on the way; but \<open>root_node\<close>, \<open>node_id\<close> and \<open>require_sub_graph\<close> are those of its
  former life.\<close>

theorem pool_recycles:
  assumes inv: "pool_inv base q w U" and empty: "fq_contents q = []" and fits: "fits_int (fq_read q)"
    and n: "n \<in> U" "droppable in_worker wait_graph wait_nodes w n" "w_nodes w n = Some x"
    and new: "w_nodes w addr = None" "addr \<noteq> nullptr"
  shows "\<exists>q1 w1 q2 w2 y. pool_dispose in_worker wait_graph wait_nodes q n w = Inr (q1, w1)
    \<and> lambda_new callable addr raw g q1 hs w1 = Inr (n, q2, hs(n \<mapsto> (g, callable)), w2)
    \<and> fq_contents q2 = [] \<and> dom (w_nodes w2) = dom (w_nodes w) \<and> pending_worker_num w2 = pending_worker_num w
    \<and> w_nodes w2 n = Some y \<and> blank y \<and> sub_graph y = Some g
    \<and> root_node y = root_node x \<and> node_id y = node_id x \<and> require_sub_graph y = require_sub_graph x"
proof -
  have inv_q: "fq_inv q" by (rule pool_invD(1) [OF inv])
  then obtain k where "fq_shape k q" by (auto simp: fq_inv_def)
  then have room: "has_room (fq_limit q) (fq_contents q)"
    by (simp add: empty has_room_def fq_limit_def fq_shape_cap)
  obtain q1 w1 where d: "pool_dispose in_worker wait_graph wait_nodes q n w = Inr (q1, w1)" "pool_inv base q1 w1 (U - {n})"
    "\<forall>m. m \<noteq> n \<longrightarrow> w_nodes w1 m = w_nodes w m" "fq_contents q1 = [n]" "w_nodes w1 n = Some (x\<lparr>sub_graph := None\<rparr>)"
    using pool_drop [OF inv n(1,2)] n(3) room empty by auto
  have n0: "n \<noteq> nullptr" using pool_invD(5) [OF inv] n(1) by metis
  obtain b where e: "fq_try_enqueue q n = Inr (q1, b)" using d(1) by (auto simp: pool_dispose_def split: if_splits)
  have rd: "fq_read q1 = fq_read q" by (rule fq_enq_keeps_read [OF inv_q e])
  have fits1: "fits_int (fq_read q1)" unfolding rd by (rule fits)
  have "addr \<noteq> n" using n(3) new(1) by auto
  then have na: "w_nodes w1 addr = None" using d(3) new(1) by simp
  have au: "addr \<notin> U - {n}" using pool_invD(7) [OF inv, of addr] new(1) by auto
  from pool_take [OF d(2) fits1 na new(2) au, of callable raw g hs] d(4) obtain q2 w2 y where
    t: "lambda_new callable addr raw g q1 hs w1 = Inr (n, q2, hs(n \<mapsto> (g, callable)), w2)" "w_nodes w2 n = Some y" "blank y"
    "sub_graph y = Some g" "\<forall>m. m \<noteq> n \<longrightarrow> w_nodes w2 m = w_nodes w1 m" "pool_inv base q2 w2 (insert n (U - {n}))" by auto
  from fq_deq_item [OF pool_invD(1) [OF d(2)] d(4) fits1] obtain q3 where
    q3: "fq_try_dequeue q1 = Inr (q3, Some n)" "fq_contents q3 = []" by blast
  have "q2 = q3 \<and> y = (node_reset (x\<lparr>sub_graph := None\<rparr>))\<lparr>sub_graph := Some g\<rparr>"
    using t(1,2) q3(1) d(5) n0
    by (auto simp: lambda_new_def get_from_pool_def mod_node_def node_at_def get_graph_def put_node_def put_graph_def node_reset_def)
  then have "fq_contents q2 = []" "root_node y = root_node x" "node_id y = node_id x" "require_sub_graph y = require_sub_graph x"
    using q3(2) by (simp_all add: node_reset_def)
  moreover have "insert n (U - {n}) = U" using n(1) by auto
  then have "pending_worker_num w2 = pending_worker_num w" using pool_invD(6) [OF t(6)] pool_invD(6) [OF inv] by simp
  moreover have "dom (w_nodes w2) = dom (w_nodes w)"
    using d(3) t(2,5) n(3) by (auto simp: dom_def)
  ultimately show ?thesis using d(1) t by blast
qed

theorem pool_recycles_witness:
  "\<exists>s q1 w1 q2 w2. pool_reach False no_wait no_wait s \<and> 10 \<in> used s
    \<and> pool_dispose False no_wait no_wait (pq s) 10 (pw s) = Inr (q1, w1)
    \<and> lambda_new (7 :: nat) 11 raw_node 6 q1 Map.empty w1 = Inr (10, q2, [10 \<mapsto> (6, 7)], w2)"
proof -
  obtain s x where s: "pool_reach False no_wait no_wait s" "takes s = 1" "used s = {10}" "fq_contents (pq s) = []"
    "droppable False no_wait no_wait (pw s) 10" "w_nodes (pw s) 11 = None" "w_nodes (pw s) 10 = Some x" using one_used by blast
  have S: "pool_sys_inv s" by (rule pool_reach_inv [OF s(1)]) (simp add: s(2))
  have h: "pool_inv (others s) (pq s) (pw s) (used s)" "fits_int (fq_read (pq s))" "10 \<in> used s" "(11 :: nid) \<noteq> nullptr"
    using S read_fits [OF S] s(2,3) by (simp_all add: pool_sys_inv_def)
  from pool_recycles [OF h(1) s(4) h(2,3) s(5,7,6) h(4), of "7 :: nat" raw_node 6 Map.empty] s(1) h(3) show ?thesis by blast
qed

end
