(* ===== verification/Edge_Protocol.thy ===== *)
theory Edge_Protocol
  imports Node_Graph
begin

text \<open>
  src/graph.cpp (\<open>Node::add_downstream\<close>) and src/node.cpp (\<open>Node::finish\<close>, \<open>finish2\<close>) on one
  upstream node, interleaved: threads that add edges to it run while a worker finishes it. A step
  is one access to the members both sides share (\<open>status\<close>, \<open>fast_down_strams\<close>,
  \<open>fast_down_strams_bak\<close>, \<open>down_streams\<close>) or one critical section of \<open>mutex_\<close> that makes a
  single access; memory is sequentially consistent. The call on the node itself (line 409) shares
  nothing and is left out.
\<close>

section \<open>The protocol\<close>

type_synonym tid = nat

text \<open>A downstream node: by its number where the edge is a bit of \<open>fast_down_strams\<close> (same graph,
  number below \<open>fast_node_max_num\<close>), by its address otherwise.\<close>

datatype target = Fast u64 | Slow nid

text \<open>Where a thread is in \<open>add_downstream\<close>: before the first test of \<open>status\<close>, after it, between
  \<open>bit_map_get\<close> and the read and the write of \<open>bit_map |= ...\<close>, before and after its copy of
  \<open>fast_down_strams_bak\<close>, and behind the second test of \<open>status\<close> that found the node finished.\<close>

datatype add_pc =
  Idle | Called target | Checked target | Or_read u64 | Or_write u64 i64 | Marked u64
  | Copied u64 i64 | Late nid

text \<open>Where the worker is in \<open>finish\<close>: it has set \<open>status\<close>; it holds the mutex and has read
  \<open>fast_down_strams\<close>; the nodes it still has to count down, first of \<open>idx_vec\<close>, then, holding the
  mutex, of \<open>down_streams\<close>.\<close>

datatype fin_pc = Work | Flagged | Copying i64 | Bits "u64 list" | Downs "nid list" | Over

text \<open>\<open>calls\<close> and \<open>counted\<close> count the calls of \<open>add_downstream\<close> and of \<open>sub_wait_count\<close> for every
  downstream node; they are no state of the program.\<close>

record edges =
  up_status :: RunningStatus
  fast :: i64
  bak :: i64
  downs :: "nid list"
  fin :: fin_pc
  adder :: "tid \<Rightarrow> add_pc"
  calls :: "target \<Rightarrow> nat"
  counted :: "target \<Rightarrow> nat"

definition has_mark :: "i64 \<Rightarrow> u64 \<Rightarrow> bool" where
  "has_mark m i \<longleftrightarrow> bit_map_get m i fast_node_max_num = Inr True"

definition with_mark :: "i64 \<Rightarrow> u64 \<Rightarrow> i64" where
  "with_mark m i = (case bit_map_set m i fast_node_max_num of Inl e \<Rightarrow> m | Inr m' \<Rightarrow> m')"

definition mutex_free :: "edges \<Rightarrow> bool" where
  "mutex_free s \<longleftrightarrow> (case fin s of Copying r \<Rightarrow> False | Downs ds \<Rightarrow> False | _ \<Rightarrow> True)"

definition goto :: "tid \<Rightarrow> add_pc \<Rightarrow> edges \<Rightarrow> edges" where
  "goto t p s = s\<lparr>adder := (adder s)(t := p)\<rparr>"

definition count_off :: "target \<Rightarrow> edges \<Rightarrow> edges" where
  "count_off e s = s\<lparr>counted := (counted s)(e := Suc (counted s e))\<rparr>"

text \<open>The next access of thread \<open>t\<close> in \<open>add_downstream\<close>; it waits while the mutex is taken.\<close>

definition add_step :: "tid \<Rightarrow> edges \<Rightarrow> edges option" where
  "add_step t s = (case adder s t of
     Idle \<Rightarrow> None
   | Called e \<Rightarrow>
       Some (if up_status s \<ge> Finish then goto t Idle (count_off e s) else goto t (Checked e) s)
   | Checked (Fast i) \<Rightarrow>
       Some (if has_mark (fast s) i then goto t (Marked i) (count_off (Fast i) s)
             else goto t (Or_read i) s)
   | Or_read i \<Rightarrow> Some (goto t (Or_write i (fast s)) s)
   | Or_write i m \<Rightarrow> Some (goto t (Marked i) (s\<lparr>fast := with_mark m i\<rparr>))
   | Marked i \<Rightarrow> if mutex_free s then Some (goto t (Copied i (bak s)) s) else None
   | Copied i f \<Rightarrow>
       Some (if f = fast_down_strams_bak_init \<or> has_mark f i then goto t Idle s
             else goto t Idle (count_off (Fast i) s))
   | Checked (Slow n) \<Rightarrow>
       if mutex_free s
       then Some (if up_status s \<ge> Finish then goto t (Late n) s
                  else goto t Idle (s\<lparr>downs := downs s @ [n]\<rparr>))
       else None
   | Late n \<Rightarrow> Some (goto t Idle (count_off (Slow n) s)))"

text \<open>The next access of the worker in \<open>finish\<close> and \<open>finish2\<close>.\<close>

definition fin_step :: "edges \<Rightarrow> edges option" where
  "fin_step s = (case fin s of
     Work \<Rightarrow> if up_status s = Running then Some (s\<lparr>up_status := Finish, fin := Flagged\<rparr>) else None
   | Flagged \<Rightarrow> Some (s\<lparr>fin := Copying (fast s)\<rparr>)
   | Copying r \<Rightarrow> (case bit_map_idx r fast_node_max_num of
         Inl e \<Rightarrow> None
       | Inr idx_vec \<Rightarrow> Some (s\<lparr>bak := r, fin := Bits idx_vec\<rparr>))
   | Bits (i # ix) \<Rightarrow> Some (count_off (Fast i) (s\<lparr>fin := Bits ix\<rparr>))
   | Bits [] \<Rightarrow> Some (s\<lparr>fin := Downs (downs s)\<rparr>)
   | Downs (d # ds) \<Rightarrow> Some (count_off (Slow d) (s\<lparr>fin := Downs ds\<rparr>))
   | Downs [] \<Rightarrow> Some (s\<lparr>fin := Over\<rparr>)
   | Over \<Rightarrow> None)"

text \<open>The events: a thread enters \<open>add_downstream\<close>, a thread or the worker makes its next access,
  and the changes of \<open>status\<close> before and after \<open>finish\<close>.\<close>

datatype edge_event = Call tid target | Add tid | Fin | Status RunningStatus

definition edge_step :: "edge_event \<Rightarrow> edges \<Rightarrow> edges option" where
  "edge_step ev s = (case ev of
     Call t e \<Rightarrow>
       if adder s t = Idle \<and> (case e of Fast i \<Rightarrow> i < fast_node_max_num | Slow n \<Rightarrow> True)
       then Some (goto t (Called e) (s\<lparr>calls := (calls s)(e := Suc (calls s e))\<rparr>)) else None
   | Add t \<Rightarrow> add_step t s
   | Fin \<Rightarrow> fin_step s
   | Status st \<Rightarrow>
       if (fin s = Work \<and> st < Finish) \<or> (fin s = Over \<and> st \<ge> Finish)
       then Some (s\<lparr>up_status := st\<rparr>) else None)"

definition edges_new :: edges where
  "edges_new = \<lparr>up_status = Initing, fast = 0, bak = fast_down_strams_bak_init, downs = [],
     fin = Work, adder = (\<lambda>_. Idle), calls = (\<lambda>_. 0), counted = (\<lambda>_. 0)\<rparr>"

fun edge_run :: "edge_event list \<Rightarrow> edges \<Rightarrow> edges option" where
  "edge_run [] s = Some s"
| "edge_run (ev # evs) s = Option.bind (edge_step ev s) (edge_run evs)"

text \<open>The edges of one downstream node are all added by the thread that runs its
  \<open>create_edges\<close>: \<open>maker\<close>.\<close>

definition made_by :: "(target \<Rightarrow> tid) \<Rightarrow> edge_event \<Rightarrow> bool" where
  "made_by maker ev \<longleftrightarrow> (case ev of Call t e \<Rightarrow> maker e = t | _ \<Rightarrow> True)"

text \<open>No two threads are between the read and the write of \<open>bit_map |= ...\<close>.\<close>

definition or_alone :: "edges \<Rightarrow> bool" where
  "or_alone s \<longleftrightarrow>
     (\<forall>t t' i i' m m'. adder s t = Or_write i m \<longrightarrow> adder s t' = Or_write i' m' \<longrightarrow> t = t')"

inductive edge_reach :: "(target \<Rightarrow> tid) \<Rightarrow> edges \<Rightarrow> bool" for maker where
  new: "edge_reach maker edges_new"
| step: "edge_reach maker s \<Longrightarrow> made_by maker ev \<Longrightarrow> edge_step ev s = Some s' \<Longrightarrow> or_alone s'
    \<Longrightarrow> edge_reach maker s'"

section \<open>Its invariant\<close>

text \<open>The copy of \<open>fast_down_strams\<close> that \<open>finish\<close> works on, once it has read it.\<close>

definition snap :: "edges \<Rightarrow> i64 option" where
  "snap s = (case fin s of Work \<Rightarrow> None | Flagged \<Rightarrow> None | Copying r \<Rightarrow> Some r | _ \<Rightarrow> Some (bak s))"

definition seen :: "edges \<Rightarrow> u64 \<Rightarrow> bool" where
  "seen s i \<longleftrightarrow> (case snap s of None \<Rightarrow> True | Some r \<Rightarrow> has_mark r i)"

fun target_of :: "add_pc \<Rightarrow> target option" where
  "target_of Idle = None"
| "target_of (Called e) = Some e"
| "target_of (Checked e) = Some e"
| "target_of (Or_read i) = Some (Fast i)"
| "target_of (Or_write i m) = Some (Fast i)"
| "target_of (Marked i) = Some (Fast i)"
| "target_of (Copied i f) = Some (Fast i)"
| "target_of (Late n) = Some (Slow n)"

text \<open>The thread has neither counted the node down nor left a trace of the edge.\<close>

fun silent :: "add_pc \<Rightarrow> bool" where
  "silent (Called e) = True"
| "silent (Checked e) = True"
| "silent (Or_read i) = True"
| "silent (Or_write i m) = True"
| "silent (Late n) = True"
| "silent _ = False"

definition in_thread :: "target \<Rightarrow> add_pc \<Rightarrow> nat" where
  "in_thread e p = (if target_of p = Some e \<and> silent p then 1 else 0)"

text \<open>What a trace of an edge still stands for: the bit is in the copy and not yet counted, or
  will be; or it came too late for the copy and the thread that set it will notice.\<close>

definition in_mark :: "u64 \<Rightarrow> add_pc \<Rightarrow> edges \<Rightarrow> nat" where
  "in_mark i p s =
     (if \<not> has_mark (fast s) i then 0
      else if seen s i
      then (case fin s of Bits ix \<Rightarrow> (if i \<in> set ix then 1 else 0)
            | Downs ds \<Rightarrow> 0 | Over \<Rightarrow> 0 | _ \<Rightarrow> 1)
      else if target_of p = Some (Fast i) \<and> \<not> silent p then 1 else 0)"

definition in_downs :: "nid \<Rightarrow> edges \<Rightarrow> nat" where
  "in_downs n s = (case fin s of Downs ds \<Rightarrow> count_list ds n | Over \<Rightarrow> 0 | _ \<Rightarrow> count_list (downs s) n)"

definition outstanding :: "target \<Rightarrow> add_pc \<Rightarrow> edges \<Rightarrow> nat" where
  "outstanding e p s = in_thread e p
     + (case e of Fast i \<Rightarrow> in_mark i p s | Slow n \<Rightarrow> in_downs n s)"

definition pc_ok :: "edges \<Rightarrow> add_pc \<Rightarrow> bool" where
  "pc_ok s p \<longleftrightarrow> (case p of
     Checked (Fast i) \<Rightarrow> has_mark (fast s) i \<longrightarrow> seen s i
   | Or_read i \<Rightarrow> \<not> has_mark (fast s) i
   | Or_write i m \<Rightarrow> \<not> has_mark (fast s) i \<and> m = fast s
   | Marked i \<Rightarrow> has_mark (fast s) i
   | Copied i f \<Rightarrow> has_mark (fast s) i
       \<and> (if f = fast_down_strams_bak_init then seen s i else snap s = Some f)
   | _ \<Rightarrow> True)"

definition fin_ok :: "edges \<Rightarrow> bool" where
  "fin_ok s \<longleftrightarrow>
     (up_status s < Finish \<longleftrightarrow> fin s = Work)
     \<and> (case fin s of Work \<Rightarrow> bak s = fast_down_strams_bak_init
        | Flagged \<Rightarrow> bak s = fast_down_strams_bak_init
        | Copying r \<Rightarrow> bak s = fast_down_strams_bak_init
        | Bits ix \<Rightarrow> distinct ix \<and> (\<forall>i \<in> set ix. has_mark (bak s) i)
        | _ \<Rightarrow> True)
     \<and> (\<forall>r. snap s = Some r \<longrightarrow> \<not> bit r 63 \<and> (\<forall>i. has_mark r i \<longrightarrow> has_mark (fast s) i))
     \<and> \<not> bit (fast s) 63"

definition edges_inv :: "(target \<Rightarrow> tid) \<Rightarrow> edges \<Rightarrow> bool" where
  "edges_inv maker s \<longleftrightarrow>
     fin_ok s
     \<and> (\<forall>t. pc_ok s (adder s t)
          \<and> (\<forall>e. target_of (adder s t) = Some e \<longrightarrow> maker e = t
               \<and> (case e of Fast i \<Rightarrow> i < fast_node_max_num | Slow n \<Rightarrow> True)))
     \<and> (\<forall>e. calls s e = counted s e + outstanding e (adder s (maker e)) s)"

lemma has_mark_eq: "has_mark m i \<longleftrightarrow> i < 63 \<and> bit m (unat i)"
  by (simp add: has_mark_def fast_node_max_num_def bit_map_get_eq)

lemma with_mark_eq: "i < 63 \<Longrightarrow> with_mark m i = m OR 2 ^ unat i"
  by (simp add: with_mark_def fast_node_max_num_def bit_map_set_eq)

lemma has_mark_with:
  assumes "i < 63"
  shows "has_mark (with_mark m i) j \<longleftrightarrow> has_mark m j \<or> j = i"
proof -
  have "unat i < 63" using assms by (simp add: word_less_nat_alt)
  then show ?thesis
    using assms by (auto simp: has_mark_eq with_mark_eq bit_or_pow2 word_less_nat_alt word_unat_eq_iff)
qed

lemma with_mark_63: "i < 63 \<Longrightarrow> bit (with_mark m i) 63 \<longleftrightarrow> bit m 63"
  by (auto simp: with_mark_eq bit_or_pow2 word_less_nat_alt)


lemma init_bit_63: "bit fast_down_strams_bak_init 63"
  by (simp add: fast_down_strams_bak_init_def bit_simps)

lemma goto_simps [simp]:
  "adder (goto t p s) = (adder s)(t := p)" "calls (goto t p s) = calls s" "counted (goto t p s) = counted s"
  "up_status (goto t p s) = up_status s" "fast (goto t p s) = fast s" "bak (goto t p s) = bak s"
  "downs (goto t p s) = downs s" "fin (goto t p s) = fin s"
  by (simp_all add: goto_def)

lemma count_off_simps [simp]:
  "adder (count_off e s) = adder s" "calls (count_off e s) = calls s"
  "counted (count_off e s) = (counted s)(e := Suc (counted s e))"
  "up_status (count_off e s) = up_status s" "fast (count_off e s) = fast s" "bak (count_off e s) = bak s"
  "downs (count_off e s) = downs s" "fin (count_off e s) = fin s"
  by (simp_all add: count_off_def)

text \<open>The views depend on the shared members alone.\<close>

lemma view_cong:
  assumes "fin s' = fin s" and "bak s' = bak s" and "fast s' = fast s" and "downs s' = downs s"
  shows "snap s' = snap s" "seen s' = seen s" "in_mark i p s' = in_mark i p s"
    "in_downs n s' = in_downs n s" "outstanding e p s' = outstanding e p s" "pc_ok s' q = pc_ok s q"
    "up_status s' = up_status s \<Longrightarrow> fin_ok s' = fin_ok s"
proof -
  show sn: "snap s' = snap s" unfolding snap_def assms by (rule refl)
  show se: "seen s' = seen s" by (simp add: seen_def sn fun_eq_iff)
  show im: "in_mark i p s' = in_mark i p s" for i unfolding in_mark_def se assms by (rule refl)
  show id: "in_downs n s' = in_downs n s" for n unfolding in_downs_def assms by (rule refl)
  show "outstanding e p s' = outstanding e p s" unfolding outstanding_def im id by (rule refl)
  show "pc_ok s' q = pc_ok s q" unfolding pc_ok_def sn se assms by (rule refl)
  show "fin_ok s' = fin_ok s" if "up_status s' = up_status s"
    unfolding fin_ok_def sn that assms by (rule refl)
qed

lemma pc_ok_cong: "snap s' = snap s \<Longrightarrow> fast s' = fast s \<Longrightarrow> pc_ok s' r = pc_ok s r"
proof -
  assume a: "snap s' = snap s" "fast s' = fast s"
  then have "seen s' = seen s" by (simp add: seen_def fun_eq_iff)
  with a show ?thesis unfolding pc_ok_def by (simp only: a)
qed

lemma outstanding_other:
  "target_of p \<noteq> Some e \<Longrightarrow> target_of q \<noteq> Some e \<Longrightarrow> outstanding e p s = outstanding e q s"
  by (cases e) (auto simp: outstanding_def in_thread_def in_mark_def)

text \<open>A step of one thread: it moves between two places of the same call, and what it does to the
  shared members concerns no other node.\<close>

definition fast_target :: "target \<Rightarrow> bool" where
  "fast_target e = (case e of Fast i \<Rightarrow> i < fast_node_max_num | Slow n \<Rightarrow> True)"

lemma thread_inv:
  assumes inv: "edges_inv mk s" and m: "mk e = t" and fe: "fast_target e"
    and e: "target_of (adder s t) = Some e \<or> target_of (adder s t) = None"
    and q: "target_of p = Some e \<or> target_of p = None"
    and a: "adder s' = (adder s)(t := p)"
    and c: "\<And>b. b \<noteq> e \<Longrightarrow> calls s' b = calls s b" "\<And>b. b \<noteq> e \<Longrightarrow> counted s' b = counted s b"
    and f: "fin_ok s'" and ok: "pc_ok s' p"
    and others: "\<And>r. target_of r \<noteq> Some e \<Longrightarrow> r \<in> range (adder s) \<Longrightarrow> pc_ok s r \<Longrightarrow> pc_ok s' r"
    and out: "\<And>b r. b \<noteq> e \<Longrightarrow> outstanding b r s' = outstanding b r s"
    and bal: "calls s' e = counted s' e + outstanding e p s'"
  shows "edges_inv mk s'"
proof -
  have i: "fin_ok s" "\<And>t. pc_ok s (adder s t)" "\<And>t b. target_of (adder s t) = Some b \<Longrightarrow> mk b = t \<and> fast_target b"
    "\<And>b. calls s b = counted s b + outstanding b (adder s (mk b)) s"
    using inv unfolding edges_inv_def fast_target_def by auto
  have "pc_ok s' (adder s' u) \<and> (\<forall>b. target_of (adder s' u) = Some b \<longrightarrow> mk b = u \<and> fast_target b)" for u
  proof (cases "u = t")
    case True
    then show ?thesis using q ok m fe unfolding a by (auto simp del: fun_upd_apply simp: fun_upd_same)
  next
    case False
    then have "target_of (adder s u) \<noteq> Some e" using i(3) [of u e] m by auto
    then have "pc_ok s' (adder s u)" using others [OF _ rangeI i(2)] by simp
    moreover have "adder s' u = adder s u" using False a by simp
    ultimately show ?thesis using i(3) by simp
  qed
  moreover have "calls s' b = counted s' b + outstanding b (adder s' (mk b)) s'" for b
  proof (cases "b = e")
    case True
    then show ?thesis using bal a m by simp
  next
    case False
    have "outstanding b (adder s' (mk b)) s = outstanding b (adder s (mk b)) s"
    proof (cases "mk b = t")
      case True
      then have "target_of p \<noteq> Some b" "target_of (adder s t) \<noteq> Some b" using q e False by auto
      then have "outstanding b p s = outstanding b (adder s t) s" by (rule outstanding_other)
      then show ?thesis using a True by simp
    qed (use a in simp)
    with c [OF False] i(4) [of b] out [OF False, of "adder s' (mk b)"] show ?thesis by linarith
  qed
  ultimately show ?thesis using f unfolding edges_inv_def fast_target_def by blast
qed

text \<open>The special case of a step that leaves the shared members alone.\<close>

lemma quiet_thread_inv:
  assumes inv: "edges_inv mk s" and m: "mk e = t" and fe: "fast_target e"
    and e: "target_of (adder s t) = Some e \<or> target_of (adder s t) = None"
    and q: "target_of p = Some e \<or> target_of p = None"
    and a: "adder s' = (adder s)(t := p)" 
    and c: "\<And>b. b \<noteq> e \<Longrightarrow> calls s' b = calls s b" "\<And>b. b \<noteq> e \<Longrightarrow> counted s' b = counted s b"
    and same: "fin s' = fin s" "bak s' = bak s" "fast s' = fast s" "downs s' = downs s" "up_status s' = up_status s"
    and ok: "pc_ok s p"
    and bal: "calls s' e = counted s' e + outstanding e p s"
  shows "edges_inv mk s'"
proof (rule thread_inv [OF inv m fe e q a c])
  note v = view_cong [OF same(1-4)]
  show "fin_ok s'" using v(7) [OF same(5)] inv by (simp add: edges_inv_def)
  show "pc_ok s' p" using ok by (simp add: v)
  show "pc_ok s' r" if "pc_ok s r" for r using that by (simp add: v)
  show "outstanding b r s' = outstanding b r s" for b r by (simp add: v)
  show "calls s' e = counted s' e + outstanding e p s'" using bal by (simp add: v)
qed


lemma seen_cases: "seen s i \<longleftrightarrow> (\<forall>r. snap s = Some r \<longrightarrow> has_mark r i)"
  by (simp add: seen_def split: option.split)

lemma add_step_inv:
  assumes inv: "edges_inv mk s" and alone: "or_alone s" and st: "add_step t s = Some s'"
  shows "edges_inv mk s'"
proof -
  define p where "p = adder s t"
  have ok: "pc_ok s p" and fo: "fin_ok s" using inv by (simp_all add: edges_inv_def p_def)
  obtain e where e: "target_of p = Some e" using st by (cases p) (auto simp: add_step_def p_def)
  then have m: "mk e = t" and fe: "fast_target e"
    using inv by (auto simp: edges_inv_def p_def fast_target_def)
  have bal: "calls s e = counted s e + outstanding e p s" using inv m by (auto simp: edges_inv_def p_def)
  have quiet: "edges_inv mk s'"
    if "adder s' = (adder s)(t := q)" "target_of q = Some e \<or> target_of q = None" "pc_ok s q"
      "fin s' = fin s" "bak s' = bak s" "fast s' = fast s" "downs s' = downs s" "up_status s' = up_status s"
      "calls s' = calls s" "\<And>b. b \<noteq> e \<Longrightarrow> counted s' b = counted s b"
      "counted s' e + outstanding e q s = counted s e + outstanding e p s" for q
    by (rule quiet_thread_inv [OF inv m fe _ that(2,1)]) (use e that bal in \<open>auto simp: p_def\<close>)
  show ?thesis
  proof (cases p)
    case Idle
    then show ?thesis using e by simp
  next
    case (Called c)
    show ?thesis
    proof (cases "up_status s \<ge> Finish")
      case True
      then have "s' = goto t Idle (count_off e s)" using st Called e by (simp add: add_step_def p_def)
      then show ?thesis using Called e
        by (intro quiet [of Idle]) (auto simp: pc_ok_def outstanding_def in_thread_def in_mark_def split: target.split)
    next
      case False
      then have "s' = goto t (Checked e) s" using st Called e by (simp add: add_step_def p_def)
      moreover have "pc_ok s (Checked e)"
        using False fo by (auto simp: pc_ok_def seen_def snap_def fin_ok_def not_le split: target.split)
      ultimately show ?thesis using Called e
        by (intro quiet [of "Checked e"]) (auto simp: outstanding_def in_thread_def in_mark_def split: target.split)
    qed
  next
    case (Checked c)
    show ?thesis
    proof (cases c)
      case (Fast i)
      then have ee: "e = Fast i" using Checked e by simp
      show ?thesis
      proof (cases "has_mark (fast s) i")
        case True
        then have "s' = goto t (Marked i) (count_off e s)"
          using st Checked Fast ee by (simp add: add_step_def p_def)
        then show ?thesis using Checked Fast ee True ok
          by (intro quiet [of "Marked i"]) (auto simp: pc_ok_def outstanding_def in_thread_def in_mark_def)
      next
        case False
        then have "s' = goto t (Or_read i) s" using st Checked Fast ee by (simp add: add_step_def p_def)
        then show ?thesis using Checked Fast ee False
          by (intro quiet [of "Or_read i"]) (auto simp: pc_ok_def outstanding_def in_thread_def in_mark_def)
      qed
    next
      case (Slow n)
      then have c: "e = Slow n" using Checked e by simp
      have free: "mutex_free s" using st Checked Slow by (simp add: add_step_def p_def split: if_splits)
      show ?thesis
      proof (cases "up_status s \<ge> Finish")
        case True
        then have "s' = goto t (Late n) s" using st Checked Slow free by (simp add: add_step_def p_def)
        then show ?thesis using Checked Slow c
          by (intro quiet [of "Late n"]) (auto simp: pc_ok_def outstanding_def in_thread_def)
      next
        case False
        then have w: "fin s = Work" using fo by (simp add: fin_ok_def not_le)
        from False have s': "s' = goto t Idle (s\<lparr>downs := downs s @ [n]\<rparr>)"
          using st Checked Slow free by (simp add: add_step_def p_def)
        have v: "snap s' = snap s" "seen s' = seen s" by (simp_all add: s' snap_def seen_def fun_eq_iff w)
        have im: "in_mark i r s' = in_mark i r s" for i r unfolding in_mark_def v by (simp add: s' w)
        have out: "outstanding b r s' = outstanding b r s" if "b \<noteq> e" for b r
          using that c unfolding outstanding_def im in_downs_def by (simp add: s' w split: target.split)
        have "pc_ok s' r = pc_ok s r" for r by (rule pc_ok_cong [OF v(1)]) (simp add: s')
        moreover have "fin_ok s'" using fo unfolding fin_ok_def v by (simp add: s' w)
        moreover have "calls s' e = counted s' e + outstanding e Idle s'"
          using bal Checked Slow c w by (simp add: outstanding_def in_thread_def s' in_downs_def)
        ultimately show ?thesis
          by (intro thread_inv [OF inv m fe, of Idle]) (use e out in \<open>auto simp: s' p_def pc_ok_def\<close>)
      qed
    qed
  next
    case (Or_read i)
    then have "s' = goto t (Or_write i (fast s)) s" using st e by (simp add: add_step_def p_def)
    then show ?thesis using Or_read e ok
      by (intro quiet [of "Or_write i (fast s)"]) (auto simp: pc_ok_def outstanding_def in_thread_def in_mark_def)
  next
    case (Marked i)
    then have s': "s' = goto t (Copied i (bak s)) s" and free: "mutex_free s"
      using st by (auto simp: add_step_def p_def split: if_splits)
    have "pc_ok s (Copied i (bak s))"
      using ok Marked free fo init_bit_63
      by (cases "fin s") (auto simp: pc_ok_def seen_def snap_def mutex_free_def fin_ok_def)
    then show ?thesis using s' Marked e
      by (intro quiet [of "Copied i (bak s)"]) (auto simp: outstanding_def in_thread_def in_mark_def)
  next
    case (Copied i f)
    show ?thesis
    proof (cases "f = fast_down_strams_bak_init \<or> has_mark f i")
      case True
      then have s': "s' = goto t Idle s" using st Copied by (simp add: add_step_def p_def)
      have "seen s i" using ok Copied True by (auto simp: pc_ok_def seen_def split: if_splits)
      then show ?thesis using s' Copied e
        by (intro quiet [of Idle]) (auto simp: pc_ok_def outstanding_def in_thread_def in_mark_def)
    next
      case False
      then have s': "s' = goto t Idle (count_off e s)" using st Copied e by (simp add: add_step_def p_def)
      have "\<not> seen s i" "has_mark (fast s) i" using ok Copied False by (auto simp: pc_ok_def seen_def)
      then show ?thesis using s' Copied e
        by (intro quiet [of Idle]) (auto simp: pc_ok_def outstanding_def in_thread_def in_mark_def)
    qed
  next
    case (Late n)
    then have "s' = goto t Idle (count_off e s)" using st e by (auto simp: add_step_def p_def)
    then show ?thesis using Late e
      by (intro quiet [of Idle]) (auto simp: pc_ok_def outstanding_def in_thread_def)
  next
    case (Or_write i m)
    then have s': "s' = goto t (Marked i) (s\<lparr>fast := fast s'\<rparr>)" "fast s' = with_mark (fast s) i"
      and c: "e = Fast i" and i: "i < 63" and new: "\<not> has_mark (fast s) i"
      using st e ok fe by (auto simp: add_step_def p_def pc_ok_def fast_target_def fast_node_max_num_def)
    have mark: "has_mark (fast s') j \<longleftrightarrow> has_mark (fast s) j \<or> j = i" for j
      by (simp add: s'(2) has_mark_with [OF i])
    have fin: "fin s' = fin s" "bak s' = bak s" "downs s' = downs s" "up_status s' = up_status s"
      "calls s' = calls s" "counted s' = counted s" and ad: "adder s' = (adder s)(t := Marked i)"
      by (subst s'(1), simp)+
    have sn: "snap s' = snap s" unfolding snap_def fin by (rule refl)
    then have se: "seen s' = seen s" by (simp add: seen_def fun_eq_iff)
    have dn: "in_downs n s' = in_downs n s" for n unfolding in_downs_def fin by (rule refl)
    have old: "snap s = None \<or> \<not> seen s i" using fo new by (auto simp: fin_ok_def seen_def)
    show ?thesis
    proof (rule thread_inv [OF inv m fe, of "Marked i"])
      show "fin_ok s'"
        using fo with_mark_63 [OF i] unfolding fin_ok_def sn fin mark by (auto simp: s'(2))
      show "pc_ok s' (Marked i)" by (simp add: pc_ok_def mark)
      show "pc_ok s' r" if r: "target_of r \<noteq> Some e" "r \<in> range (adder s)" "pc_ok s r" for r
      proof -
        have "r \<noteq> Or_write j k" for j k
          using r(1,2) alone Or_write c unfolding or_alone_def p_def by (metis rangeE target_of.simps(5))
        then show ?thesis
          using r(1,3) c by (cases r) (auto simp: pc_ok_def mark sn se split: target.splits)
      qed
      show "outstanding b r s' = outstanding b r s" if "b \<noteq> e" for b r
        using that c unfolding outstanding_def dn by (auto simp: in_mark_def fin mark se split: target.splits)
      have "outstanding e (Marked i) s' = 1"
        using old c by (auto simp: outstanding_def in_thread_def in_mark_def mark se fin seen_def snap_def
            split: fin_pc.splits)
      moreover have "outstanding e p s = 1" using Or_write c new
        by (simp add: outstanding_def in_thread_def in_mark_def)
      ultimately show "calls s' e = counted s' e + outstanding e (Marked i) s'" using bal by (simp add: fin)
    qed (use e c ad fin in \<open>auto simp: p_def\<close>)
  qed
qed

text \<open>The worker's steps.\<close>

lemma fin_inv:
  assumes inv: "edges_inv mk s" and a: "adder s' = adder s" "calls s' = calls s" "fast s' = fast s"
    and f: "fin_ok s'" and ok: "\<And>r. pc_ok s r \<Longrightarrow> pc_ok s' r"
    and bal: "\<And>e p. pc_ok s p \<Longrightarrow> counted s' e + outstanding e p s' = counted s e + outstanding e p s"
  shows "edges_inv mk s'"
  using inv f ok bal unfolding edges_inv_def a by simp

lemma idx_vec:
  assumes "bit_map_idx r fast_node_max_num = Inr ix"
  shows "distinct ix \<and> (\<forall>i. i \<in> set ix \<longleftrightarrow> has_mark r i)"
proof -
  have n: "(fast_node_max_num :: u64) < 64" by (simp add: fast_node_max_num_def)
  from assms have ix: "ix = map of_nat (filter (bit r) [0..<unat fast_node_max_num])"
    using n by (simp add: bit_map_idx_eq)
  have "distinct ix"
    using idx_list(1) [OF n, of r] unfolding ix by (rule sorted_wrt_distinct)
  moreover have "i \<in> set ix \<longleftrightarrow> has_mark r i" for i
    unfolding ix idx_list(2) [OF n] has_mark_eq by (simp add: fast_node_max_num_def)
  ultimately show ?thesis by blast
qed

lemma fin_step_inv:
  assumes inv: "edges_inv mk s" and st: "fin_step s = Some s'"
  shows "edges_inv mk s'"
proof -
  have fo: "fin_ok s" using inv by (simp add: edges_inv_def)
  show ?thesis
  proof (cases "fin s")
    case Work
    then have s': "s' = s\<lparr>up_status := Finish, fin := Flagged\<rparr>" using st by (simp add: fin_step_def split: if_splits)
    have v: "snap s' = snap s" "seen s' = seen s" by (simp_all add: s' Work snap_def seen_def fun_eq_iff)
    show ?thesis
    proof (rule fin_inv [OF inv])
      show "pc_ok s' r" if "pc_ok s r" for r using that pc_ok_cong [OF v(1)] by (simp add: s')
      show "fin_ok s'" using fo unfolding fin_ok_def v by (simp add: s' Work)
      show "counted s' e + outstanding e p s' = counted s e + outstanding e p s" for e p
        unfolding outstanding_def in_mark_def in_downs_def v by (simp add: s' Work split: target.split)
    qed (simp_all add: s')
  next
    case Flagged
    then have s': "s' = s\<lparr>fin := Copying (fast s)\<rparr>" using st by (simp add: fin_step_def)
    have v: "snap s = None" "snap s' = Some (fast s)" by (simp_all add: s' Flagged snap_def)
    show ?thesis
    proof (rule fin_inv [OF inv])
      show "pc_ok s' r" if "pc_ok s r" for r
        using that v by (cases r) (auto simp: pc_ok_def seen_def s' split: target.splits)
      show "fin_ok s'" using fo unfolding fin_ok_def v by (simp add: s' Flagged)
      show "counted s' e + outstanding e p s' = counted s e + outstanding e p s" for e p
        unfolding outstanding_def in_mark_def in_downs_def seen_def v
        by (simp add: s' Flagged split: target.split)
    qed (simp_all add: s')
  next
    case (Copying r)
    then obtain ix where ix: "bit_map_idx r fast_node_max_num = Inr ix"
      and s': "s' = s\<lparr>bak := r, fin := Bits ix\<rparr>"
      using st by (auto simp: fin_step_def split: sum.splits)
    have v: "snap s' = snap s" "seen s' = seen s" by (simp_all add: s' Copying snap_def seen_def fun_eq_iff)
    have sn: "seen s i \<longleftrightarrow> has_mark r i" for i by (simp add: seen_def snap_def Copying)
    show ?thesis
    proof (rule fin_inv [OF inv])
      show "pc_ok s' q" if "pc_ok s q" for q using that pc_ok_cong [OF v(1)] by (simp add: s')
      show "fin_ok s'" using fo idx_vec [OF ix] unfolding fin_ok_def v by (simp add: s' Copying)
      show "counted s' e + outstanding e p s' = counted s e + outstanding e p s" for e p
        unfolding outstanding_def in_mark_def in_downs_def v
        using idx_vec [OF ix] by (simp add: s' Copying sn split: target.split)
    qed (simp_all add: s')
  next
    case (Bits is0)
    show ?thesis
    proof (cases is0)
      case (Cons i ix)
      then have s': "s' = count_off (Fast i) (s\<lparr>fin := Bits ix\<rparr>)" using st Bits by (simp add: fin_step_def)
      have v: "snap s' = snap s" "seen s' = seen s" by (simp_all add: s' Bits snap_def seen_def fun_eq_iff)
      have d: "distinct (i # ix)" "\<forall>j \<in> set (i # ix). has_mark (bak s) j" "has_mark (fast s) i"
        using fo Bits Cons by (auto simp: fin_ok_def snap_def)
      then have sn: "seen s i" by (simp add: seen_def snap_def Bits)
      show ?thesis
      proof (rule fin_inv [OF inv])
        show "pc_ok s' q" if "pc_ok s q" for q using that pc_ok_cong [OF v(1)] by (simp add: s')
        show "fin_ok s'" using fo d unfolding fin_ok_def v by (simp add: s' Bits)
        show "counted s' e + outstanding e p s' = counted s e + outstanding e p s" for e p
          unfolding outstanding_def in_mark_def in_downs_def v
          using d sn by (auto simp: s' Bits Cons split: target.split)
      qed (simp_all add: s')
    next
      case Nil
      then have s': "s' = s\<lparr>fin := Downs (downs s)\<rparr>" using st Bits by (simp add: fin_step_def)
      have v: "snap s' = snap s" "seen s' = seen s" by (simp_all add: s' Bits snap_def seen_def fun_eq_iff)
      show ?thesis
      proof (rule fin_inv [OF inv])
        show "pc_ok s' q" if "pc_ok s q" for q using that pc_ok_cong [OF v(1)] by (simp add: s')
        show "fin_ok s'" using fo unfolding fin_ok_def v by (simp add: s' Bits)
        show "counted s' e + outstanding e p s' = counted s e + outstanding e p s" for e p
          unfolding outstanding_def in_mark_def in_downs_def v
          by (auto simp: s' Bits Nil split: target.split)
      qed (simp_all add: s')
    qed
  next
    case (Downs ds0)
    have v: "snap s' = snap s" "seen s' = seen s" and s': "fast s' = fast s" "up_status s' = up_status s"
      "calls s' = calls s" "adder s' = adder s"
      "fin s' = (case ds0 of [] \<Rightarrow> Over | d # ds \<Rightarrow> Downs ds)"
      "counted s' = (case ds0 of [] \<Rightarrow> counted s | d # ds \<Rightarrow> (counted s)(Slow d := Suc (counted s (Slow d))))"
      using st Downs by (auto simp: fin_step_def snap_def seen_def fun_eq_iff split: list.splits)
    show ?thesis
    proof (rule fin_inv [OF inv])
      show "pc_ok s' q" if "pc_ok s q" for q using that pc_ok_cong [OF v(1)] by (simp add: s')
      show "fin_ok s'" using fo unfolding fin_ok_def v by (simp add: s' Downs split: list.split)
      show "counted s' e + outstanding e p s' = counted s e + outstanding e p s" for e p
        unfolding outstanding_def in_mark_def in_downs_def v
        by (auto simp: s' Downs split: target.split list.split)
    qed (simp_all add: s')
  next
    case Over
    then show ?thesis using st by (simp add: fin_step_def)
  qed
qed

lemma edge_step_inv:
  assumes inv: "edges_inv mk s" and "or_alone s" and by_: "made_by mk ev" and st: "edge_step ev s = Some s'"
  shows "edges_inv mk s'"
proof (cases ev)
  case (Add t)
  then show ?thesis using add_step_inv [OF inv assms(2)] st by (simp add: edge_step_def)
next
  case Fin
  then show ?thesis using fin_step_inv [OF inv] st by (simp add: edge_step_def)
next
  case (Call t e)
  then have s': "s' = goto t (Called e) (s\<lparr>calls := (calls s)(e := Suc (calls s e))\<rparr>)"
    and i: "adder s t = Idle" "fast_target e" and m: "mk e = t"
    using st by_ by (auto simp: edge_step_def made_by_def fast_target_def split: if_splits)
  have "calls s e = counted s e + outstanding e Idle s" using inv i(1) m by (auto simp: edges_inv_def)
  moreover have "outstanding e (Called e) s = Suc (outstanding e Idle s)"
    by (simp add: outstanding_def in_thread_def in_mark_def split: target.split)
  ultimately show ?thesis
    by (intro quiet_thread_inv [OF inv m i(2), of "Called e"]) (simp_all add: s' i(1) pc_ok_def)
next
  case (Status st1)
  then have s': "s' = s\<lparr>up_status := st1\<rparr>" and c: "fin s = Work \<and> st1 < Finish \<or> fin s = Over \<and> st1 \<ge> Finish"
    using st by (auto simp: edge_step_def split: if_splits)
  note v = view_cong [of s' s]
  show ?thesis
  proof (rule fin_inv [OF inv])
    have "snap s' = snap s" by (rule v) (simp_all add: s')
    then show "fin_ok s'" using inv c unfolding edges_inv_def fin_ok_def by (auto simp: s' not_le)
    show "pc_ok s' r" if "pc_ok s r" for r using that v(6) by (simp add: s')
    show "counted s' e + outstanding e p s' = counted s e + outstanding e p s" for e p
      using v(5) by (simp add: s')
  qed (simp_all add: s')
qed

lemma edges_new_inv: "edges_inv mk edges_new"
  by (auto simp: edges_inv_def fin_ok_def edges_new_def snap_def pc_ok_def outstanding_def in_thread_def
      in_mark_def in_downs_def has_mark_eq status_order split: target.split)

lemma edge_reach_inv: "edge_reach mk s \<Longrightarrow> edges_inv mk s \<and> or_alone s"
proof (induction rule: edge_reach.induct)
  case new
  then show ?case using edges_new_inv by (simp add: or_alone_def edges_new_def)
next
  case (step s ev s')
  then show ?case using edge_step_inv by blast
qed


section \<open>Runs\<close>

text \<open>A run in which one thread adds edges is never disturbed between the read and the write of
  \<open>bit_map |= ...\<close>.\<close>

definition only_thread :: "tid \<Rightarrow> edge_event \<Rightarrow> bool" where
  "only_thread t ev \<longleftrightarrow> (case ev of Call u e \<Rightarrow> u = t | Add u \<Rightarrow> u = t | _ \<Rightarrow> True)"

lemma step_adder:
  assumes "edge_step ev s = Some s'" and "only_thread t ev" and "u \<noteq> t"
  shows "adder s' u = adder s u"
proof (cases ev)
  case (Add v)
  then show ?thesis
    using assms by (auto simp: edge_step_def add_step_def only_thread_def split: add_pc.splits target.splits if_splits)
next
  case Fin
  then show ?thesis
    using assms by (auto simp: edge_step_def fin_step_def split: fin_pc.splits list.splits if_splits sum.splits)
qed (use assms in \<open>auto simp: edge_step_def only_thread_def split: if_splits\<close>)

lemma edge_run_reach:
  assumes "edge_reach (\<lambda>_. t) s" and "\<And>u. u \<noteq> t \<Longrightarrow> adder s u = Idle"
    and "\<forall>ev \<in> set evs. only_thread t ev" and "edge_run evs s = Some s'"
  shows "edge_reach (\<lambda>_. t) s'"
  using assms
proof (induction evs arbitrary: s)
  case (Cons ev evs)
  then obtain s1 where s1: "edge_step ev s = Some s1" "edge_run evs s1 = Some s'"
    by (auto simp: bind_eq_Some_conv)
  have i: "adder s1 u = Idle" if "u \<noteq> t" for u using step_adder [OF s1(1) _ that] Cons.prems that by simp
  then have "or_alone s1" unfolding or_alone_def by (metis add_pc.distinct(7))
  moreover have "made_by (\<lambda>_. t) ev"
    using Cons.prems(3) by (auto simp: only_thread_def made_by_def split: edge_event.splits)
  ultimately have "edge_reach (\<lambda>_. t) s1" using edge_reach.step [OF Cons.prems(1) _ s1(1)] by blast
  then show ?case using Cons.IH [OF _ i _ s1(2)] Cons.prems(3) by simp
qed simp

text \<open>How many accesses of its own a call has left at most.\<close>

fun pc_rank :: "add_pc \<Rightarrow> nat" where
  "pc_rank Idle = 0"
| "pc_rank (Called e) = 6"
| "pc_rank (Checked e) = 5"
| "pc_rank (Or_read i) = 4"
| "pc_rank (Or_write i m) = 3"
| "pc_rank (Marked i) = 2"
| "pc_rank (Copied i f) = 1"
| "pc_rank (Late n) = 1"

fun fin_rank :: "fin_pc \<Rightarrow> nat \<Rightarrow> nat" where
  "fin_rank Work n = 68 + n"
| "fin_rank Flagged n = 67 + n"
| "fin_rank (Copying r) n = 66 + n"
| "fin_rank (Bits ix) n = 2 + length ix + n"
| "fin_rank (Downs ds) n = 1 + length ds"
| "fin_rank Over n = 0"


definition late_edge :: "edge_event list" where
  "late_edge = [Call 0 (Fast 4), Add 0, Add 0, Add 0, Add 0, Add 0, Add 0, Status Running,
     Call 0 (Slow 7), Add 0, Add 0, Call 0 (Fast 5), Add 0, Add 0, Add 0, Fin, Fin, Add 0, Fin, Add 0,
     Add 0, Fin, Fin, Fin, Fin]"

lemmas edge_eval = edge_step_def add_step_def fin_step_def edges_new_def goto_def count_off_def
  mutex_free_def has_mark_eq with_mark_eq status_order fast_node_max_num_def fast_down_strams_bak_init_def

lemma late_edge_run:
  "\<exists>s. edge_run late_edge edges_new = Some s \<and> fin s = Over \<and> adder s 0 = Idle
    \<and> calls s (Fast 5) = 1"
  by (simp add: edge_eval late_edge_def bit_map_idx_eq upt_rec)

section \<open>A call without interference\<close>

text \<open>\<open>Node_Graph\<close> takes a call of \<open>add_downstream\<close> as one step; the accesses of a call that
  nobody interrupts have the same effect.\<close>

fun alone :: "nat \<Rightarrow> tid \<Rightarrow> edges \<Rightarrow> edges option" where
  "alone 0 t s = Some s"
| "alone (Suc k) t s = (if adder s t = Idle then Some s else Option.bind (add_step t s) (alone k t))"













section \<open>Properties\<close>

text \<open>C1: whatever the interleaving of the threads that add edges to a node with the worker that
  finishes it, every edge counts its downstream node down at most once, and exactly once when
  both are through, as long as no two threads are inside \<open>fast_down_strams |= ...\<close> at the same
  time.\<close>

theorem edge_counted_exactly_once:
  assumes "edge_reach maker s"
  shows "counted s e \<le> calls s e
    \<and> (fin s = Over \<longrightarrow> adder s (maker e) = Idle \<longrightarrow> counted s e = calls s e)"
proof -
  have c: "calls s e = counted s e + outstanding e (adder s (maker e)) s"
    using edge_reach_inv [OF assms] by (simp add: edges_inv_def)
  moreover have "outstanding e Idle s = 0" if "fin s = Over"
    using that by (simp add: outstanding_def in_thread_def in_mark_def in_downs_def split: target.split)
  ultimately show ?thesis by simp
qed

theorem edge_counted_exactly_once_witness:
  "\<exists>s. edge_run late_edge edges_new = Some s \<and> calls s (Fast 5) = 1 \<and> counted s (Fast 5) = 1"
proof -
  obtain s where s: "edge_run late_edge edges_new = Some s" "fin s = Over" "adder s 0 = Idle"
    "calls s (Fast 5) = 1" using late_edge_run by blast
  have "edge_reach (\<lambda>_. 0) s"
    by (rule edge_run_reach [OF edge_reach.new _ _ s(1)])
       (simp_all add: edges_new_def late_edge_def only_thread_def)
  from edge_counted_exactly_once [OF this, of "Fast 5"] s show ?thesis by simp
qed

text \<open>C25: \<open>add_downstream\<close> and \<open>finish\<close> do not block each other for ever: a thread inside
  \<open>add_downstream\<close> or the worker can always make a step; a call makes at most six accesses, and
  \<open>finish\<close> gets nearer to its end with each of its steps.\<close>

theorem edge_protocol_never_stuck:
  assumes "edge_reach maker s" and "adder s t \<noteq> Idle \<or> (fin s \<noteq> Work \<and> fin s \<noteq> Over)"
  shows "((\<exists>s'. edge_step (Add t) s = Some s') \<or> (\<exists>s'. edge_step Fin s = Some s'))
    \<and> (\<forall>s'. edge_step (Add t) s = Some s' \<longrightarrow> pc_rank (adder s' t) < pc_rank (adder s t))
    \<and> (\<forall>s'. edge_step Fin s = Some s' \<longrightarrow>
         fin_rank (fin s') (length (downs s')) < fin_rank (fin s) (length (downs s)))"
proof (intro conjI allI impI)
  have idx: "\<exists>ix. bit_map_idx r fast_node_max_num = Inr ix \<and> length ix \<le> 63" for r
  proof -
    have "length (filter (bit r) [0..<63]) \<le> length [0..<63]" by (rule length_filter_le)
    then show ?thesis by (simp add: bit_map_idx_eq fast_node_max_num_def)
  qed
  have "\<exists>s'. edge_step Fin s = Some s'" if "fin s \<noteq> Work" "fin s \<noteq> Over"
  proof (cases "fin s")
    case (Copying r)
    then show ?thesis using idx [of r] by (auto simp: edge_step_def fin_step_def)
  next
    case (Bits ix)
    then show ?thesis by (cases ix) (simp_all add: edge_step_def fin_step_def)
  next
    case (Downs ds)
    then show ?thesis by (cases ds) (simp_all add: edge_step_def fin_step_def)
  qed (use that in \<open>simp_all add: edge_step_def fin_step_def\<close>)
  moreover have "\<exists>s'. edge_step (Add t) s = Some s'" if "adder s t \<noteq> Idle" "fin s = Work \<or> fin s = Over"
    using that by (cases "adder s t") (auto simp: edge_step_def add_step_def mutex_free_def split: target.split)
  ultimately show "(\<exists>s'. edge_step (Add t) s = Some s') \<or> (\<exists>s'. edge_step Fin s = Some s')"
    using assms(2) by blast
  show "pc_rank (adder s' t) < pc_rank (adder s t)" if "edge_step (Add t) s = Some s'" for s'
    using that by (auto simp: edge_step_def add_step_def split: add_pc.splits target.splits if_splits)
  show "fin_rank (fin s') (length (downs s')) < fin_rank (fin s) (length (downs s))"
    if st: "edge_step Fin s = Some s'" for s'
  proof (cases "fin s")
    case (Copying r)
    then show ?thesis using st idx [of r] by (auto simp: edge_step_def fin_step_def)
  qed (use st in \<open>auto simp: edge_step_def fin_step_def split: list.splits if_splits\<close>)
qed

theorem edge_protocol_never_stuck_witness:
  "\<exists>s s'. edge_run [Status Running, Fin, Call 0 (Slow 7)] edges_new = Some s
    \<and> (edge_step (Add 0) s = Some s' \<or> edge_step Fin s = Some s')"
proof -
  have "\<exists>s. edge_run [Status Running, Fin, Call 0 (Slow 7)] edges_new = Some s \<and> adder s 0 \<noteq> Idle"
    by (simp add: edge_eval)
  then obtain s where s: "edge_run [Status Running, Fin, Call 0 (Slow 7)] edges_new = Some s" "adder s 0 \<noteq> Idle"
    by blast
  have "edge_reach (\<lambda>_. 0) s"
    by (rule edge_run_reach [OF edge_reach.new _ _ s(1)]) (simp_all add: edges_new_def only_thread_def)
  from edge_protocol_never_stuck [OF this, of 0] s show ?thesis by blast
qed




end
