(* ===== verification/Free_Lock_Conc.thy ===== *)
theory Free_Lock_Conc
  imports Free_Lock_Queue
begin

text \<open>
  The lock-free bounded queue of src/queue/free_lock.cpp with any number of threads inside
  \<open>try_enqueue\<close> and \<open>try_dequeue\<close> at once: one access to a shared member is one step, under
  sequential consistency. A thread that finds another version in its slot waits; it has no step
  until the version changes.
\<close>

section \<open>A call, access by access\<close>

text \<open>Where a thread is and the local variables it still needs. The constructors are named after the
  access that comes next.\<close>

datatype fl_pc =
    Outside
  | D_load_write
  | D_load_missed u64
  | D_load_ahead u64 u64
  | D_claim u64
  | D_check u64 u64
  | D_ticket u64
  | D_missed u64
  | D_wait u64
  | D_item u64
  | D_clear u64 ptr
  | D_release u64 ptr
  | Got "ptr option"
  | E_load_read ptr
  | E_load_missed ptr u64
  | E_load_ahead ptr u64 u64
  | E_claim ptr u64
  | E_check ptr u64 u64
  | E_ticket ptr u64
  | E_missed u64
  | E_wait ptr u64
  | E_item ptr u64
  | E_release u64
  | Put bool
  | Broken fault

definition slot :: "free_queue \<Rightarrow> u64 \<Rightarrow> nat" where
  "slot q n = unat (and n (fq_capacity_bitmap q))"

definition lift_step :: "(free_queue \<times> fl_pc) result \<Rightarrow> free_queue \<Rightarrow> (free_queue \<times> fl_pc) option" where
  "lift_step r q = (case r of Inl e \<Rightarrow> Some (q, Broken e) | Inr x \<Rightarrow> Some x)"

text \<open>The next access of \<open>try_dequeue\<close>.\<close>

fun deq_step :: "free_queue \<Rightarrow> fl_pc \<Rightarrow> (free_queue \<times> fl_pc) option" where
  "deq_step q D_load_write = Some (q, D_load_missed (fq_write q))"
| "deq_step q (D_load_missed wr) = Some (q, D_load_ahead wr (read_missed q))"
| "deq_step q (D_load_ahead wr rd_missed) =
     (if fq_is_empty (read_ahead q - rd_missed) wr then Some (q, Got None)
      else Some (q, D_claim rd_missed))"
| "deq_step q (D_claim rd_missed) =
     Some (q\<lparr>read_ahead := read_ahead q + 1\<rparr>, D_check rd_missed (read_ahead q))"
| "deq_step q (D_check rd_missed rd_ahead) =
     (if fq_is_empty (rd_ahead - rd_missed) (fq_write q) then Some (q, D_missed rd_ahead)
      else Some (q, D_ticket rd_ahead))"
| "deq_step q (D_ticket rd_ahead) = Some (q\<lparr>fq_read := fq_read q + 1\<rparr>, D_wait (fq_read q))"
| "deq_step q (D_missed rd_ahead) = Some (q\<lparr>read_missed := read_missed q + 1\<rparr>, Got None)"
| "deq_step q (D_wait rd) =
     (case vget (flag_vec q) (slot q rd) of
        Inl e \<Rightarrow> Some (q, Broken e)
      | Inr cur_version \<Rightarrow> if deq_version_ready cur_version rd then Some (q, D_item rd) else None)"
| "deq_step q (D_item rd) =
     lift_step (rbind (vget (fq_vec q) (slot q rd)) (\<lambda>item.
       rbind (qf_assert (item \<noteq> nullptr) ''*item != nullptr'') (\<lambda>_. Inr (q, D_clear rd item)))) q"
| "deq_step q (D_clear rd item) =
     lift_step (rbind (vset (fq_vec q) (slot q rd) nullptr) (\<lambda>v.
       Inr (q\<lparr>fq_vec := v\<rparr>, D_release rd item))) q"
| "deq_step q (D_release rd item) =
     lift_step (rbind (vset (flag_vec q) (slot q rd) (rd + 1)) (\<lambda>f.
       Inr (q\<lparr>flag_vec := f\<rparr>, Got (Some item)))) q"
| "deq_step q _ = None"

text \<open>The next access of \<open>try_enqueue\<close>.\<close>

fun enq_step :: "free_queue \<Rightarrow> fl_pc \<Rightarrow> (free_queue \<times> fl_pc) option" where
  "enq_step q (E_load_read item) = Some (q, E_load_missed item (fq_read q))"
| "enq_step q (E_load_missed item rd) = Some (q, E_load_ahead item rd (write_missed q))"
| "enq_step q (E_load_ahead item rd wr_missed) =
     (if fq_is_full q rd (write_ahead q - wr_missed) then Some (q, Put False)
      else Some (q, E_claim item wr_missed))"
| "enq_step q (E_claim item wr_missed) =
     Some (q\<lparr>write_ahead := write_ahead q + 1\<rparr>, E_check item wr_missed (write_ahead q))"
| "enq_step q (E_check item wr_missed wr_ahead) =
     (if fq_is_full q (fq_read q) (wr_ahead - wr_missed) then Some (q, E_missed wr_ahead)
      else Some (q, E_ticket item wr_ahead))"
| "enq_step q (E_ticket item wr_ahead) =
     Some (q\<lparr>fq_write := fq_write q + 1\<rparr>, E_wait item (fq_write q))"
| "enq_step q (E_missed wr_ahead) = Some (q\<lparr>write_missed := write_missed q + 1\<rparr>, Put False)"
| "enq_step q (E_wait item wr) =
     (case vget (flag_vec q) (slot q wr) of
        Inl e \<Rightarrow> Some (q, Broken e)
      | Inr cur_version \<Rightarrow>
          if cur_version = wr - fq_capacity_bitmap q then Some (q, E_item item wr) else None)"
| "enq_step q (E_item item wr) =
     lift_step (rbind (vset (fq_vec q) (slot q wr) item) (\<lambda>v.
       Inr (q\<lparr>fq_vec := v\<rparr>, E_release wr))) q"
| "enq_step q (E_release wr) =
     lift_step (rbind (vset (flag_vec q) (slot q wr) wr) (\<lambda>f.
       Inr (q\<lparr>flag_vec := f\<rparr>, Put True))) q"
| "enq_step q _ = None"

definition fl_step :: "free_queue \<Rightarrow> fl_pc \<Rightarrow> (free_queue \<times> fl_pc) option" where
  "fl_step q p = (case deq_step q p of None \<Rightarrow> enq_step q p | Some x \<Rightarrow> Some x)"

section \<open>A call with no other thread\<close>

fun alone :: "nat \<Rightarrow> free_queue \<Rightarrow> fl_pc \<Rightarrow> (free_queue \<times> fl_pc) option" where
  "alone 0 q p = Some (q, p)"
| "alone (Suc n) q p = (case fl_step q p of None \<Rightarrow> Some (q, p) | Some (q', p') \<Rightarrow> alone n q' p')"

definition deq_result :: "free_queue \<Rightarrow> fl_pc \<Rightarrow> (free_queue \<times> ptr option) result" where
  "deq_result q p = (case p of Got r \<Rightarrow> Inr (q, r) | Broken e \<Rightarrow> Inl e | _ \<Rightarrow> Inl Diverges)"

definition enq_result :: "free_queue \<Rightarrow> fl_pc \<Rightarrow> (free_queue \<times> bool) result" where
  "enq_result q p = (case p of Put r \<Rightarrow> Inr (q, r) | Broken e \<Rightarrow> Inl e | _ \<Rightarrow> Inl Diverges)"

lemmas alone_eval = fl_step_def lift_step_def slot_def deq_result_def enq_result_def

lemma alone_more: "alone (Suc n) q p = (case fl_step q p of None \<Rightarrow> Some (q, p) | Some (q', p') \<Rightarrow> alone n q' p')"
  by simp

lemma deq_alone: "\<exists>q' p. alone 12 q D_load_write = Some (q', p) \<and> deq_result q' p = fq_try_dequeue q"
proof -
  have "case alone 12 q D_load_write of None \<Rightarrow> False | Some (q', p) \<Rightarrow> deq_result q' p = fq_try_dequeue q"
    by (simp add: eval_nat_numeral alone_eval fq_try_dequeue_def Let_def vget_def vset_def qf_assert_def rbind_def)
  then show ?thesis by (auto split: option.splits)
qed

lemma enq_alone: "\<exists>q' p. alone 12 q (E_load_read x) = Some (q', p) \<and> enq_result q' p = fq_try_enqueue q x"
proof -
  have "case alone 12 q (E_load_read x) of None \<Rightarrow> False | Some (q', p) \<Rightarrow> enq_result q' p = fq_try_enqueue q x"
    by (simp add: eval_nat_numeral alone_eval fq_try_enqueue_def Let_def vget_def vset_def rbind_def)
  then show ?thesis by (auto split: option.splits)
qed

section \<open>Any number of threads\<close>

text \<open>
  What the proof keeps beside the program: what became of each attempt (by the number
  \<open>fetch_add\<close> on \<open>read_ahead\<close>, \<open>write_ahead\<close> gave it), the items by write ticket, the number of
  read tickets, the items handed out by read ticket, and for each slot the number of quarter
  turns it has made: written, released full, cleared, released empty.
\<close>

datatype outcome = Open | Passed | Ticketed | Missed

record fl_sys =
  fq :: free_queue
  pcs :: "fl_pc list"
  r_outs :: "outcome list"
  w_outs :: "outcome list"
  put_log :: "ptr list"
  taken :: nat
  turn :: "nat \<Rightarrow> nat"
  handed :: "nat \<Rightarrow> ptr option"

definition next_turn :: "u64 \<Rightarrow> fl_sys \<Rightarrow> fl_sys" where
  "next_turn n s = s\<lparr>turn := (turn s)(slot (fq s) n := Suc (turn s (slot (fq s) n)))\<rparr>"

definition record_step :: "fl_pc \<Rightarrow> fl_pc \<Rightarrow> fl_sys \<Rightarrow> fl_sys" where
  "record_step p p' s = (case p of
     D_claim rm \<Rightarrow> s\<lparr>r_outs := r_outs s @ [Open]\<rparr>
   | D_check rm x \<Rightarrow> if p' = D_ticket x then s\<lparr>r_outs := (r_outs s)[unat x := Passed]\<rparr> else s
   | D_missed x \<Rightarrow> s\<lparr>r_outs := (r_outs s)[unat x := Missed]\<rparr>
   | D_ticket x \<Rightarrow> s\<lparr>r_outs := (r_outs s)[unat x := Ticketed], taken := Suc (taken s)\<rparr>
   | D_clear rd item \<Rightarrow> next_turn rd s
   | D_release rd item \<Rightarrow> (next_turn rd s)\<lparr>handed := (handed s)(unat rd \<mapsto> item)\<rparr>
   | E_claim item wm \<Rightarrow> s\<lparr>w_outs := w_outs s @ [Open]\<rparr>
   | E_check item wm x \<Rightarrow> if p' = E_ticket item x then s\<lparr>w_outs := (w_outs s)[unat x := Passed]\<rparr> else s
   | E_missed x \<Rightarrow> s\<lparr>w_outs := (w_outs s)[unat x := Missed]\<rparr>
   | E_ticket item x \<Rightarrow> s\<lparr>w_outs := (w_outs s)[unat x := Ticketed], put_log := put_log s @ [item]\<rparr>
   | E_item item wr \<Rightarrow> next_turn wr s
   | E_release wr \<Rightarrow> next_turn wr s
   | _ \<Rightarrow> s)"

text \<open>The next step of a call under way, or its return.\<close>

inductive fl_inner :: "fl_sys \<Rightarrow> fl_sys \<Rightarrow> bool" where
  act: "t < length (pcs s) \<Longrightarrow> fl_step (fq s) (pcs s ! t) = Some (q, p) \<Longrightarrow>
    fl_inner s (record_step (pcs s ! t) p (s\<lparr>fq := q, pcs := (pcs s)[t := p]\<rparr>))"
| return_dequeue: "t < length (pcs s) \<Longrightarrow> pcs s ! t = Got r \<Longrightarrow> fl_inner s (s\<lparr>pcs := (pcs s)[t := Outside]\<rparr>)"
| return_enqueue: "t < length (pcs s) \<Longrightarrow> pcs s ! t = Put b \<Longrightarrow> fl_inner s (s\<lparr>pcs := (pcs s)[t := Outside]\<rparr>)"

inductive fl_next :: "fl_sys \<Rightarrow> fl_sys \<Rightarrow> bool" where
  call_dequeue: "t < length (pcs s) \<Longrightarrow> pcs s ! t = Outside \<Longrightarrow>
    fl_next s (s\<lparr>pcs := (pcs s)[t := D_load_write]\<rparr>)"
| call_enqueue: "t < length (pcs s) \<Longrightarrow> pcs s ! t = Outside \<Longrightarrow> item \<noteq> nullptr \<Longrightarrow>
    fl_next s (s\<lparr>pcs := (pcs s)[t := E_load_read item]\<rparr>)"
| inner: "fl_inner s s' \<Longrightarrow> fl_next s s'"

definition fl_start :: "free_queue \<Rightarrow> nat \<Rightarrow> fl_sys" where
  "fl_start q threads = \<lparr>fq = q, pcs = replicate threads Outside, r_outs = [], w_outs = [],
     put_log = [], taken = 0, turn = (\<lambda>_. 0), handed = (\<lambda>_. None)\<rparr>"

inductive fl_reach :: "free_queue \<Rightarrow> nat \<Rightarrow> fl_sys \<Rightarrow> bool" for q0 threads where
  fl_begin: "fl_reach q0 threads (fl_start q0 threads)"
| fl_more: "fl_reach q0 threads s \<Longrightarrow> fl_next s s' \<Longrightarrow> fl_reach q0 threads s'"

section \<open>Attempts\<close>

text \<open>Readers and writers pass the same checks: \<open>limit\<close> is the number of write tickets for readers, the
  number of read tickets plus the capacity for writers.\<close>

datatype attempt = No | Knows u64 | Checks u64 u64 | Passes u64 | Misses u64

fun r_att :: "fl_pc \<Rightarrow> attempt" where
  "r_att (D_load_ahead wr rm) = Knows rm"
| "r_att (D_claim rm) = Knows rm"
| "r_att (D_check rm x) = Checks rm x"
| "r_att (D_ticket x) = Passes x"
| "r_att (D_missed x) = Misses x"
| "r_att _ = No"

fun w_att :: "fl_pc \<Rightarrow> attempt" where
  "w_att (E_load_ahead item rd wm) = Knows wm"
| "w_att (E_claim item wm) = Knows wm"
| "w_att (E_check item wm x) = Checks wm x"
| "w_att (E_ticket item x) = Passes x"
| "w_att (E_missed x) = Misses x"
| "w_att _ = No"

definition misses :: "outcome list \<Rightarrow> nat" where
  "misses os = length (filter ((=) Missed) os)"

definition live :: "outcome list \<Rightarrow> nat" where
  "live os = length (filter ((\<noteq>) Missed) os)"

definition ticketed :: "outcome list \<Rightarrow> nat" where
  "ticketed os = length (filter ((=) Ticketed) os)"

definition passed :: "outcome list \<Rightarrow> nat" where
  "passed os = length (filter (\<lambda>x. x \<in> {Passed, Ticketed}) os)"

fun att_ok :: "outcome list \<Rightarrow> attempt \<Rightarrow> bool" where
  "att_ok os No = True"
| "att_ok os (Knows m) = (unat m \<le> misses os)"
| "att_ok os (Checks m x) = (unat x < length os \<and> os ! unat x = Open \<and> unat m \<le> misses (take (unat x) os))"
| "att_ok os (Passes x) = (unat x < length os \<and> os ! unat x = Passed)"
| "att_ok os (Misses x) = (unat x < length os \<and> os ! unat x = Open)"

fun number :: "attempt \<Rightarrow> u64 option" where
  "number (Checks m x) = Some x"
| "number (Passes x) = Some x"
| "number (Misses x) = Some x"
| "number _ = None"

definition side_inv :: "outcome list \<Rightarrow> nat \<Rightarrow> nat \<Rightarrow> u64 \<Rightarrow> u64 \<Rightarrow> attempt list \<Rightarrow> bool" where
  "side_inv os limit tickets ahead missed atts \<longleftrightarrow>
     ahead = of_nat (length os) \<and> missed = of_nat (misses os) \<and> tickets = ticketed os
     \<and> (\<forall>x < length os. os ! x \<in> {Passed, Ticketed} \<longrightarrow> live (take x os) < limit)
     \<and> (\<forall>t < length atts. att_ok os (atts ! t))
     \<and> (\<forall>t < length atts. \<forall>t' < length atts. number (atts ! t) \<noteq> None \<longrightarrow>
          number (atts ! t) = number (atts ! t') \<longrightarrow> t = t')"

lemma live_misses: "live os + misses os = length os"
  by (induction os) (auto simp: live_def misses_def)

lemma ticketed_passed: "ticketed os \<le> passed os"
  by (induction os) (auto simp: ticketed_def passed_def)

lemma passed_live: "passed os \<le> live os"
  by (induction os) (auto simp: live_def passed_def)

text \<open>Never more passes than the limit: look at the last one.\<close>

lemma passed_limit:
  "(\<forall>x < length os. os ! x \<in> {Passed, Ticketed} \<longrightarrow> live (take x os) < limit) \<Longrightarrow> passed os \<le> limit"
proof (induction os rule: rev_induct)
  case (snoc y os)
  have IH: "passed os \<le> limit"
    by (rule snoc.IH) (use snoc.prems in \<open>fastforce simp: nth_append\<close>)
  show ?case
  proof (cases "y \<in> {Passed, Ticketed}")
    case True
    then have "live os < limit" using snoc.prems by (auto dest!: spec [of _ "length os"])
    then show ?thesis using passed_live [of os] True by (auto simp: passed_def)
  qed (use IH in \<open>simp add: passed_def\<close>)
qed (simp add: passed_def)

lemma filter_upd_length:
  "i < length xs \<Longrightarrow> length (filter P (xs[i := y])) + (if P (xs ! i) then 1 else 0)
     = length (filter P xs) + (if P y then 1 else 0)"
proof (induction xs arbitrary: i)
  case (Cons x xs)
  then show ?case by (cases i) auto
qed simp

lemma filter_upd_same:
  "P y = P (xs ! i) \<Longrightarrow> i < length xs \<Longrightarrow> length (filter P (xs[i := y])) = length (filter P xs)"
  using filter_upd_length [of i xs P y] by (simp split: if_splits)

lemma take_upd: "take n (xs[i := y]) = (take n xs)[i := y]"
  by (simp add: take_update_swap)

lemma upd_beyond: "n \<le> i \<Longrightarrow> (take n xs)[i := y] = take n xs"
  by (simp add: list_update_beyond)

lemma side_invD:
  assumes "side_inv os l k ah mi atts"
  shows "ah = of_nat (length os)" "mi = of_nat (misses os)" "k = ticketed os"
    "\<And>x. x < length os \<Longrightarrow> os ! x \<in> {Passed, Ticketed} \<Longrightarrow> live (take x os) < l"
    "\<And>t. t < length atts \<Longrightarrow> att_ok os (atts ! t)"
    "\<And>t t'. t < length atts \<Longrightarrow> t' < length atts \<Longrightarrow> number (atts ! t) \<noteq> None \<Longrightarrow>
       number (atts ! t) = number (atts ! t') \<Longrightarrow> t = t'"
  using assms unfolding side_inv_def by blast+

lemma side_invI:
  assumes "ah = of_nat (length os)" "mi = of_nat (misses os)" "k = ticketed os"
    "\<And>x. x < length os \<Longrightarrow> os ! x \<in> {Passed, Ticketed} \<Longrightarrow> live (take x os) < l"
    "\<And>t. t < length atts \<Longrightarrow> att_ok os (atts ! t)"
    "\<And>t t'. t < length atts \<Longrightarrow> t' < length atts \<Longrightarrow> number (atts ! t) \<noteq> None \<Longrightarrow>
       number (atts ! t) = number (atts ! t') \<Longrightarrow> t = t'"
  shows "side_inv os l k ah mi atts"
  unfolding side_inv_def using assms by blast

lemma side_tickets: "side_inv os l k ah mi atts \<Longrightarrow> k \<le> l"
  using side_invD(3,4) [of os l k ah mi atts] ticketed_passed [of os] passed_limit [of os l] by auto

lemma side_limit: "side_inv os l k ah mi atts \<Longrightarrow> l \<le> l' \<Longrightarrow> side_inv os l' k ah mi atts"
  unfolding side_inv_def by (meson less_le_trans)

text \<open>A thread that takes over the number it has, or gives it up, keeps the numbers apart.\<close>

lemma numbers_upd:
  assumes "\<And>u v. u < length xs \<Longrightarrow> v < length xs \<Longrightarrow> f (xs ! u) \<noteq> None \<Longrightarrow> f (xs ! u) = f (xs ! v) \<Longrightarrow> u = v"
    and "t < length xs" and "f a = None \<or> f a = f (xs ! t)"
    and "u < length xs" "v < length xs" "f (xs[t := a] ! u) \<noteq> None" "f (xs[t := a] ! u) = f (xs[t := a] ! v)"
  shows "u = v"
proof -
  have at: "f (xs[t := a] ! w) = (if w = t then f a else f (xs ! w))" if "w < length xs" for w using that by simp
  have "f (xs[t := a] ! w) = f (xs ! w)" if "w < length xs" "f (xs[t := a] ! w) \<noteq> None" for w
    using at [OF that(1)] that(2) assms(3) by (cases "w = t") auto
  then have e: "f (xs ! u) \<noteq> None" "f (xs ! u) = f (xs ! v)"
    using assms(4-7) by metis+
  show ?thesis by (rule assms(1) [OF assms(4,5) e])
qed

lemma side_att:
  assumes inv: "side_inv os l k ah mi atts" and t: "t < length atts" and ok: "att_ok os a"
    and n: "number a = None \<or> number a = number (atts ! t)"
  shows "side_inv os l k ah mi (atts[t := a])"
proof (rule side_invI [OF side_invD(1-4) [OF inv]])
  note I = side_invD [OF inv]
  show "att_ok os (atts[t := a] ! u)" if "u < length (atts[t := a])" for u
    using that I(5) ok by (cases "u = t") auto
  show "u = v" if "u < length (atts[t := a])" "v < length (atts[t := a])" "number (atts[t := a] ! u) \<noteq> None"
    "number (atts[t := a] ! u) = number (atts[t := a] ! v)" for u v
    using that numbers_upd [of atts number t a u v, OF I(6) t n] by simp
qed

text \<open>Results of attempts that leave the attempts of other threads what they are.\<close>

definition kinder :: "outcome list \<Rightarrow> outcome list \<Rightarrow> nat \<Rightarrow> bool" where
  "kinder os os' x \<longleftrightarrow> length os \<le> length os' \<and> misses os \<le> misses os'
     \<and> (\<forall>y < length os. y \<noteq> x \<longrightarrow> os' ! y = os ! y) \<and> (\<forall>y < length os. misses (take y os) \<le> misses (take y os'))"

lemma kinder_att: "kinder os os' (unat x) \<Longrightarrow> att_ok os a \<Longrightarrow> number a \<noteq> Some x \<Longrightarrow> att_ok os' a"
  by (cases a) (auto simp: kinder_def word_unat_eq_iff intro: order_trans)

lemma upd_kinder:
  assumes "x < length os" and "y = Missed \<or> os ! x \<noteq> Missed"
  shows "kinder os (os[x := y]) x"
proof -
  have m: "misses zs \<le> misses (zs[i := y])" if "i < length zs \<Longrightarrow> y = Missed \<or> zs ! i \<noteq> Missed" for zs i
  proof (cases "i < length zs")
    case True
    then show ?thesis
      using that filter_upd_length [OF True, of "(=) Missed" y] by (auto simp: misses_def split: if_splits)
  qed (simp add: list_update_beyond)
  have "misses (take z os) \<le> misses (take z (os[x := y]))" for z
    unfolding take_upd by (rule m) (use assms in auto)
  then show ?thesis using m [of x os] assms by (simp add: kinder_def)
qed

lemma side_upd:
  assumes inv: "side_inv os l k ah mi atts" and t: "t < length atts" and x: "number (atts ! t) = Some x"
    and ki: "kinder os os' (unat x)" and len: "length os' = length os"
    and lv: "\<And>z. z < length os' \<Longrightarrow> os' ! z \<in> {Passed, Ticketed} \<Longrightarrow> live (take z os') < l"
    and a: "att_ok os' a" "number a = None \<or> number a = Some x"
  shows "side_inv os' l (ticketed os') ah (of_nat (misses os')) (atts[t := a])"
proof (rule side_invI [OF _ refl refl lv])
  note I = side_invD [OF inv]
  show "ah = of_nat (length os')" using I(1) len by simp
  show "att_ok os' (atts[t := a] ! u)" if u: "u < length (atts[t := a])" for u
  proof (cases "u = t")
    case False
    then have "number (atts ! u) \<noteq> Some x" using I(6) [of t u] t x u by auto
    then show ?thesis using kinder_att [OF ki I(5)] u False by simp
  qed (use a u in simp)
  show "u = v" if "u < length (atts[t := a])" "v < length (atts[t := a])" "number (atts[t := a] ! u) \<noteq> None"
    "number (atts[t := a] ! u) = number (atts[t := a] ! v)" for u v
    using that numbers_upd [of atts number t a u v, OF I(6) t] a(2) x by simp
qed

lemma side_claim:
  assumes inv: "side_inv os l k ah mi atts" and t: "t < length atts" "atts ! t = Knows m" and len: "length os < 2 ^ 31"
  shows "side_inv (os @ [Open]) l k (ah + 1) mi (atts[t := Checks m ah])"
proof (rule side_invI)
  note I = side_invD [OF inv]
  have ah: "unat ah = length os" using I(1) len by (simp add: unat_of_nat)
  have kind: "kinder os (os @ [Open]) (length os)" by (simp add: kinder_def nth_append misses_def)
  have fresh: "number (atts ! u) \<noteq> Some ah" if "u < length atts" for u
    using I(5) [OF that] ah by (cases "atts ! u") auto
  show "ah + 1 = of_nat (length (os @ [Open]))" using I(1) by simp
  show "mi = of_nat (misses (os @ [Open]))" using I(2) by (simp add: misses_def)
  show "k = ticketed (os @ [Open])" using I(3) by (simp add: ticketed_def)
  show "live (take x (os @ [Open])) < l" if "x < length (os @ [Open])" "(os @ [Open]) ! x \<in> {Passed, Ticketed}" for x
    using that I(4) [of x] by (auto simp: nth_append split: if_splits)
  show "att_ok (os @ [Open]) (atts[t := Checks m ah] ! u)" if "u < length (atts[t := Checks m ah])" for u
  proof (cases "u = t")
    case True
    then show ?thesis using t I(5) [OF t(1)] ah by simp
  next
    case False
    have "kinder os (os @ [Open]) (unat ah)" using kind ah by simp
    from kinder_att [OF this I(5) fresh] show ?thesis using that False by simp
  qed
  show "u = v" if "u < length (atts[t := Checks m ah])" "v < length (atts[t := Checks m ah])"
    "number (atts[t := Checks m ah] ! u) \<noteq> None" "number (atts[t := Checks m ah] ! u) = number (atts[t := Checks m ah] ! v)" for u v
    using that I(6) [of u v] fresh [of u] fresh [of v] by (cases "u = t"; cases "v = t") auto
qed

text \<open>The second check succeeds when fewer than \<open>limit\<close> earlier attempts can have passed.\<close>

lemma side_pass:
  assumes inv: "side_inv os l k ah mi atts" and t: "t < length atts" "atts ! t = Checks m x"
    and enough: "unat x < unat m + l"
  shows "side_inv (os[unat x := Passed]) l k ah mi (atts[t := Passes x])"
proof -
  note I = side_invD [OF inv]
  have x: "unat x < length os" "os ! unat x = Open" "unat m \<le> misses (take (unat x) os)" using I(5) [OF t(1)] t(2) by auto
  let ?os = "os[unat x := Passed]"
  have lv: "live (take z ?os) = live (take z os)" for z
  proof (cases "unat x < z")
    case True
    then show ?thesis using x unfolding live_def take_upd by (intro filter_upd_same) auto
  qed (simp add: take_upd upd_beyond)
  have "live (take (unat x) os) + misses (take (unat x) os) = unat x" using live_misses [of "take (unat x) os"] x(1) by simp
  then have "live (take z ?os) < l" if "z < length ?os" "?os ! z \<in> {Passed, Ticketed}" for z
    using that I(4) [of z] x enough unfolding lv by (cases "z = unat x") auto
  moreover have "misses ?os = misses os" unfolding misses_def by (rule filter_upd_same) (use x in auto)
  moreover have "ticketed ?os = ticketed os" unfolding ticketed_def by (rule filter_upd_same) (use x in auto)
  moreover have "kinder os ?os (unat x)" by (rule upd_kinder) (use x in auto)
  ultimately show ?thesis
    using side_upd [OF inv t(1), of x ?os "Passes x"] t(2) x I(2,3) by simp
qed

lemma side_miss:
  assumes inv: "side_inv os l k ah mi atts" and t: "t < length atts" "atts ! t = Misses x"
  shows "side_inv (os[unat x := Missed]) l k ah (mi + 1) (atts[t := No])"
proof -
  note I = side_invD [OF inv]
  have x: "unat x < length os" "os ! unat x = Open" using I(5) [OF t(1)] t(2) by auto
  let ?os = "os[unat x := Missed]"
  have lv: "live (take z ?os) \<le> live (take z os)" for z
  proof (cases "unat x < z")
    case True
    then show ?thesis
      using x filter_upd_length [of "unat x" "take z os" "(\<noteq>) Missed" Missed]
      unfolding live_def take_upd by (auto split: if_splits)
  qed (simp add: take_upd upd_beyond)
  have "live (take z ?os) < l" if "z < length ?os" "?os ! z \<in> {Passed, Ticketed}" for z
    using that I(4) [of z] lv [of z] x by (cases "z = unat x") auto
  moreover have "misses ?os = Suc (misses os)"
    using filter_upd_length [OF x(1), of "(=) Missed" Missed] x(2) by (simp add: misses_def)
  moreover have "ticketed ?os = ticketed os" unfolding ticketed_def by (rule filter_upd_same) (use x in auto)
  moreover have "kinder os ?os (unat x)" by (rule upd_kinder) (use x in auto)
  ultimately show ?thesis
    using side_upd [OF inv t(1), of x ?os No] t(2) x I(2,3) by (simp add: add.commute)
qed

lemma side_ticket:
  assumes inv: "side_inv os l k ah mi atts" and t: "t < length atts" "atts ! t = Passes x"
  shows "side_inv (os[unat x := Ticketed]) l (Suc k) ah mi (atts[t := No]) \<and> k < l"
proof -
  note I = side_invD [OF inv]
  have x: "unat x < length os" "os ! unat x = Passed" using I(5) [OF t(1)] t(2) by auto
  let ?os = "os[unat x := Ticketed]"
  have lv: "live (take z ?os) = live (take z os)" for z
  proof (cases "unat x < z")
    case True
    then show ?thesis using x unfolding live_def take_upd by (intro filter_upd_same) auto
  qed (simp add: take_upd upd_beyond)
  have "live (take z ?os) < l" if "z < length ?os" "?os ! z \<in> {Passed, Ticketed}" for z
    using that I(4) [of z] x unfolding lv by (cases "z = unat x") auto
  moreover have "misses ?os = misses os" unfolding misses_def by (rule filter_upd_same) (use x in auto)
  moreover have tk: "ticketed ?os = Suc (ticketed os)"
    using filter_upd_length [OF x(1), of "(=) Ticketed" Ticketed] x(2) by (simp add: ticketed_def)
  moreover have "kinder os ?os (unat x)" by (rule upd_kinder) (use x in auto)
  ultimately have "side_inv ?os l (Suc k) ah mi (atts[t := No])"
    using side_upd [OF inv t(1), of x ?os No] t(2) x I(2,3) by simp
  then show ?thesis using side_tickets by fastforce
qed

end
