(* ===== verification/Free_Lock_Slots.thy ===== *)
theory Free_Lock_Slots
  imports Free_Lock_Conc
begin

text \<open>
  The slots of the lock-free bounded queue under any number of threads (Free_Lock_Conc): each slot
  makes quarter turns, written, released full, cleared, released empty, and each ticket waits for its turn.
\<close>

section \<open>Tickets and turns\<close>

text \<open>The ticket a thread holds: \<open>True\<close> for a writer's.\<close>

fun tk :: "fl_pc \<Rightarrow> (bool \<times> nat) option" where
  "tk (D_wait n) = Some (False, unat n)"
| "tk (D_item n) = Some (False, unat n)"
| "tk (D_clear n x) = Some (False, unat n)"
| "tk (D_release n x) = Some (False, unat n)"
| "tk (E_wait x n) = Some (True, unat n)"
| "tk (E_item x n) = Some (True, unat n)"
| "tk (E_release n) = Some (True, unat n)"
| "tk _ = None"

fun phase :: "fl_pc \<Rightarrow> nat" where
  "phase (E_release n) = 1"
| "phase (D_wait n) = 2"
| "phase (D_item n) = 2"
| "phase (D_clear n x) = 2"
| "phase (D_release n x) = 3"
| "phase _ = 0"

fun waits :: "fl_pc \<Rightarrow> bool" where
  "waits (D_wait n) = True"
| "waits (E_wait x n) = True"
| "waits _ = False"

fun item_ok :: "ptr list \<Rightarrow> fl_pc \<Rightarrow> bool" where
  "item_ok ws (D_clear n x) = (x = ws ! unat n)"
| "item_ok ws (D_release n x) = (x = ws ! unat n)"
| "item_ok ws (E_wait x n) = (x = ws ! unat n)"
| "item_ok ws (E_item x n) = (x = ws ! unat n)"
| "item_ok ws _ = True"

definition holder_ok :: "nat \<Rightarrow> ptr list \<Rightarrow> nat \<Rightarrow> (nat \<Rightarrow> nat) \<Rightarrow> fl_pc \<Rightarrow> bool" where
  "holder_ok c ws R tn p \<longleftrightarrow> (\<forall>w n. tk p = Some (w, n) \<longrightarrow> item_ok ws p \<and> n < (if w then length ws else R)
     \<and> tn (n mod c) \<le> 4 * (n div c) + phase p \<and> (\<not> waits p \<longrightarrow> tn (n mod c) = 4 * (n div c) + phase p))"

text \<open>Version and content of slot \<open>j\<close> after \<open>a\<close> quarter turns.\<close>

definition version_at :: "nat \<Rightarrow> nat \<Rightarrow> nat \<Rightarrow> u64" where
  "version_at c j a = (if a mod 4 < 2 then of_nat (j + a div 4 * c) - of_nat (c - 1) else of_nat (j + a div 4 * c))"

definition item_at :: "nat \<Rightarrow> ptr list \<Rightarrow> nat \<Rightarrow> nat \<Rightarrow> ptr" where
  "item_at c ws j a = (if a mod 4 \<in> {1, 2} then ws ! (j + a div 4 * c) else nullptr)"

text \<open>How many quarter turns ticket \<open>n\<close> starts after, and whether its holder is through.\<close>

definition base :: "nat \<Rightarrow> nat \<Rightarrow> nat" where
  "base c n = 4 * (n div c)"

definition through :: "nat \<Rightarrow> (nat \<Rightarrow> nat) \<Rightarrow> bool \<Rightarrow> nat \<Rightarrow> bool" where
  "through c tn w n \<longleftrightarrow> base c n + (if w then 2 else 4) \<le> tn (n mod c)"

definition slots_inv ::
  "nat \<Rightarrow> ptr list \<Rightarrow> nat \<Rightarrow> (nat \<Rightarrow> nat) \<Rightarrow> (nat \<Rightarrow> ptr option) \<Rightarrow> u64 list \<Rightarrow> ptr list \<Rightarrow> fl_pc list \<Rightarrow> bool" where
  "slots_inv c ws R tn ho fs vs ps \<longleftrightarrow>
     (length fs = c \<and> length vs = c \<and> nullptr \<notin> set ws \<and> 0 < c)
     \<and> (\<forall>j < c. fs ! j = version_at c j (tn j) \<and> vs ! j = item_at c ws j (tn j))
     \<and> (\<forall>t < length ps. holder_ok c ws R tn (ps ! t))
     \<and> (\<forall>t < length ps. \<forall>t' < length ps. tk (ps ! t) \<noteq> None \<longrightarrow> tk (ps ! t) = tk (ps ! t') \<longrightarrow> t = t')
     \<and> (\<forall>w n. n < (if w then length ws else R) \<longrightarrow> through c tn w n \<or> (\<exists>t < length ps. tk (ps ! t) = Some (w, n)))
     \<and> (\<forall>n. (base c n < tn (n mod c) \<longrightarrow> n < length ws) \<and> (base c n + 2 < tn (n mod c) \<longrightarrow> n < R))
     \<and> (\<forall>n. ho n = (if through c tn False n then Some (ws ! n) else None))"

lemma slots_invD:
  assumes "slots_inv c ws R tn ho fs vs ps"
  shows "length fs = c" "length vs = c" "nullptr \<notin> set ws" "0 < c"
    "\<And>j. j < c \<Longrightarrow> fs ! j = version_at c j (tn j)" "\<And>j. j < c \<Longrightarrow> vs ! j = item_at c ws j (tn j)"
    "\<And>t. t < length ps \<Longrightarrow> holder_ok c ws R tn (ps ! t)"
    "\<And>t t'. t < length ps \<Longrightarrow> t' < length ps \<Longrightarrow> tk (ps ! t) \<noteq> None \<Longrightarrow> tk (ps ! t) = tk (ps ! t') \<Longrightarrow> t = t'"
    "\<And>w n. n < (if w then length ws else R) \<Longrightarrow> through c tn w n \<or> (\<exists>t < length ps. tk (ps ! t) = Some (w, n))"
    "\<And>n. base c n < tn (n mod c) \<Longrightarrow> n < length ws" "\<And>n. base c n + 2 < tn (n mod c) \<Longrightarrow> n < R"
    "\<And>n. ho n = (if through c tn False n then Some (ws ! n) else None)"
  using assms unfolding slots_inv_def by blast+

lemma slots_invI:
  assumes "length fs = c" "length vs = c" "nullptr \<notin> set ws" "0 < c"
    "\<And>j. j < c \<Longrightarrow> fs ! j = version_at c j (tn j)" "\<And>j. j < c \<Longrightarrow> vs ! j = item_at c ws j (tn j)"
    "\<And>t. t < length ps \<Longrightarrow> holder_ok c ws R tn (ps ! t)"
    "\<And>t t'. t < length ps \<Longrightarrow> t' < length ps \<Longrightarrow> tk (ps ! t) \<noteq> None \<Longrightarrow> tk (ps ! t) = tk (ps ! t') \<Longrightarrow> t = t'"
    "\<And>w n. n < (if w then length ws else R) \<Longrightarrow> through c tn w n \<or> (\<exists>t < length ps. tk (ps ! t) = Some (w, n))"
    "\<And>n. base c n < tn (n mod c) \<Longrightarrow> n < length ws" "\<And>n. base c n + 2 < tn (n mod c) \<Longrightarrow> n < R"
    "\<And>n. ho n = (if through c tn False n then Some (ws ! n) else None)"
  shows "slots_inv c ws R tn ho fs vs ps"
  unfolding slots_inv_def using assms by blast

lemma holder_okD:
  "holder_ok c ws R tn p \<Longrightarrow> tk p = Some (w, n) \<Longrightarrow> item_ok ws p"
  "holder_ok c ws R tn p \<Longrightarrow> tk p = Some (w, n) \<Longrightarrow> n < (if w then length ws else R)"
  "holder_ok c ws R tn p \<Longrightarrow> tk p = Some (w, n) \<Longrightarrow> tn (n mod c) \<le> base c n + phase p"
  "holder_ok c ws R tn p \<Longrightarrow> tk p = Some (w, n) \<Longrightarrow> \<not> waits p \<Longrightarrow> tn (n mod c) = base c n + phase p"
  by (auto simp: holder_ok_def base_def)

lemma holder_okI:
  "(\<And>w n. tk p = Some (w, n) \<Longrightarrow> item_ok ws p \<and> n < (if w then length ws else R)
     \<and> tn (n mod c) \<le> base c n + phase p \<and> (\<not> waits p \<longrightarrow> tn (n mod c) = base c n + phase p))
   \<Longrightarrow> holder_ok c ws R tn p"
  unfolding holder_ok_def base_def by blast

lemma holder_ok_None: "tk p = None \<Longrightarrow> holder_ok c ws R tn p"
  by (simp add: holder_ok_def)

lemma phase_writer: "tk p = Some (w, n) \<Longrightarrow> (phase p < 2) = w \<and> phase p < 4"
  by (cases p) auto

lemma quarters: "4 * (a::nat) + x = 4 * b + y \<Longrightarrow> x < 4 \<Longrightarrow> y < 4 \<Longrightarrow> a = b \<and> x = y"
  by presburger

lemma base_quarters:
  assumes "base c n + x = base c m + y" "x < 4" "y < 4"
  shows "n div c = m div c" "x = y" "n mod c = m mod c \<Longrightarrow> n = m"
  using quarters [of "n div c" x "m div c" y] assms div_mult_mod_eq [of n c] div_mult_mod_eq [of m c]
  by (auto simp: base_def)

text \<open>Two tickets due at the same quarter turn of one slot are the same ticket.\<close>

lemma same_due:
  assumes "tk p = Some (w, n)" "tk q = Some (v, m)" "n mod c = m mod c" "base c n + phase p = base c m + phase q"
  shows "(w, n) = (v, m)"
proof -
  note pq = phase_writer [OF assms(1)] phase_writer [OF assms(2)]
  have "phase p = phase q" "n = m" using base_quarters [OF assms(4)] pq assms(3) by auto
  then show ?thesis using pq by auto
qed

section \<open>Steps that leave the slots alone\<close>

lemma tk_upd:
  assumes "\<And>u v. u < length ps \<Longrightarrow> v < length ps \<Longrightarrow> tk (ps ! u) \<noteq> None \<Longrightarrow> tk (ps ! u) = tk (ps ! v) \<Longrightarrow> u = v"
    and "t < length ps" and "tk p = None \<or> tk p = tk (ps ! t)"
    and "u < length (ps[t := p])" "v < length (ps[t := p])" "tk (ps[t := p] ! u) \<noteq> None"
      "tk (ps[t := p] ! u) = tk (ps[t := p] ! v)"
  shows "u = v"
  using numbers_upd [of ps tk t p u v, OF assms(1-3)] assms(4-7) by simp

lemma slots_pc:
  assumes inv: "slots_inv c ws R tn ho fs vs ps" and t: "t < length ps" and same: "tk p = tk (ps ! t)"
    and ok: "holder_ok c ws R tn p"
  shows "slots_inv c ws R tn ho fs vs (ps[t := p])"
proof (rule slots_invI [OF slots_invD(1-6) [OF inv] _ _ _ slots_invD(10-12) [OF inv]])
  note I = slots_invD [OF inv]
  show "holder_ok c ws R tn (ps[t := p] ! u)" if "u < length (ps[t := p])" for u
    using that I(7) ok by (cases "u = t") auto
  show "u = v" if "u < length (ps[t := p])" "v < length (ps[t := p])" "tk (ps[t := p] ! u) \<noteq> None"
    "tk (ps[t := p] ! u) = tk (ps[t := p] ! v)" for u v
    using tk_upd [OF I(8) t _ that] same by blast
  show "through c tn w n \<or> (\<exists>u < length (ps[t := p]). tk (ps[t := p] ! u) = Some (w, n))"
    if "n < (if w then length ws else R)" for w n
    using I(9) [OF that] same t by (metis length_list_update nth_list_update_eq nth_list_update_neq)
qed

section \<open>A quarter turn\<close>

lemma at_due:
  assumes "0 < c" "ph < 4"
  shows "version_at c (n mod c) (base c n + ph) = (if ph < 2 then of_nat n - of_nat (c - 1) else of_nat n)"
    "item_at c ws (n mod c) (base c n + ph) = (if ph \<in> {1, 2} then ws ! n else nullptr)"
proof -
  have "(base c n + ph) mod 4 = ph" "(base c n + ph) div 4 = n div c" using assms(2) by (simp_all add: base_def)
  then show "version_at c (n mod c) (base c n + ph) = (if ph < 2 then of_nat n - of_nat (c - 1) else of_nat n)"
    "item_at c ws (n mod c) (base c n + ph) = (if ph \<in> {1, 2} then ws ! n else nullptr)"
    by (simp_all only: version_at_def item_at_def mod_div_mult_eq)
qed

lemma at_next:
  assumes "0 < c"
  shows "version_at c (n mod c) (base c n + 4) = of_nat n + 1" "item_at c ws (n mod c) (base c n + 4) = nullptr"
proof -
  have "(base c n + 4) mod 4 = 0" "(base c n + 4) div 4 = Suc (n div c)" by (simp_all add: base_def)
  moreover have "n mod c + Suc (n div c) * c = n + c" using div_mult_mod_eq [of n c] by simp
  moreover have "(of_nat (n + c) :: u64) - of_nat (c - 1) = of_nat n + 1"
    using assms by (simp add: of_nat_diff)
  ultimately show "version_at c (n mod c) (base c n + 4) = of_nat n + 1" "item_at c ws (n mod c) (base c n + 4) = nullptr"
    by (simp_all add: version_at_def item_at_def)
qed

text \<open>The holder whose turn it is excludes every other at its slot.\<close>

lemma others_later:
  assumes inv: "slots_inv c ws R tn ho fs vs ps" and t: "t < length ps" "u < length ps" "u \<noteq> t"
    and n: "tk (ps ! t) = Some (w, n)" "tn (n mod c) = base c n + phase (ps ! t)"
    and m: "tk (ps ! u) = Some (v, m)" "m mod c = n mod c"
  shows "tn (m mod c) < base c m + phase (ps ! u) \<and> waits (ps ! u)"
proof -
  note I = slots_invD [OF inv]
  note H = holder_okD(3,4) [OF I(7) [OF t(2)] m(1)]
  have "(w, n) \<noteq> (v, m)" using I(8) [OF t(1,2)] n(1) m(1) t(3) by auto
  then have "base c n + phase (ps ! t) \<noteq> base c m + phase (ps ! u)"
    using same_due [OF n(1) m(1) m(2) [symmetric]] by blast
  then have "tn (m mod c) \<noteq> base c m + phase (ps ! u)" using n(2) m(2) by simp
  then show ?thesis using H by linarith
qed

lemma slots_turn:
  assumes inv: "slots_inv c ws R tn ho fs vs ps" and t: "t < length ps"
    and n: "tk (ps ! t) = Some (w, n)" "tn (n mod c) = base c n + phase (ps ! t)"
    and p: "tk p = Some (w, n) \<and> phase p = Suc (phase (ps ! t)) \<and> item_ok ws p
      \<or> tk p = None \<and> phase (ps ! t) \<in> {1, 3}"
    and tn': "tn' = tn(n mod c := Suc (tn (n mod c)))"
    and fs': "fs' = fs[n mod c := version_at c (n mod c) (Suc (tn (n mod c)))]"
    and vs': "vs' = vs[n mod c := item_at c ws (n mod c) (Suc (tn (n mod c)))]"
    and ho': "ho' = (if phase (ps ! t) = 3 then ho(n \<mapsto> ws ! n) else ho)"
  shows "slots_inv c ws R tn' ho' fs' vs' (ps[t := p])"
proof (rule slots_invI)
  note I = slots_invD [OF inv]
  note H = holder_okD [OF I(7) [OF t] n(1)]
  note ph = phase_writer [OF n(1)]
  have keep: "tk p = None \<or> tk p = tk (ps ! t)" using p n(1) by auto
  have thr: "through c tn' v m \<longleftrightarrow> through c tn v m \<or> tk p = None \<and> (v, m) = (w, n)" for v m
  proof (cases "m mod c = n mod c")
    case True
    have b: "base c m + (if v then 2 else 4) = Suc (base c n + phase (ps ! t)) \<longleftrightarrow> tk p = None \<and> (v, m) = (w, n)"
    proof
      assume a: "base c m + (if v then 2 else 4) = Suc (base c n + phase (ps ! t))"
      then have a': "base c m + (if v then 1 else 3) = base c n + phase (ps ! t)" by (auto split: if_splits)
      have "phase (ps ! t) = (if v then 1 else 3)" "m = n" using base_quarters [OF a'] ph True by auto
      moreover from this have "v = w" using ph by (auto split: if_splits)
      moreover have "tk p = None" using p phase_writer [of p w n] calculation by (auto split: if_splits)
      ultimately show "tk p = None \<and> (v, m) = (w, n)" by simp
    next
      assume "tk p = None \<and> (v, m) = (w, n)"
      then show "base c m + (if v then 2 else 4) = Suc (base c n + phase (ps ! t))"
        using p ph by (cases w) auto
    qed
    show ?thesis unfolding through_def tn' using b n(2) True by auto
  next
    case False
    then show ?thesis by (auto simp: through_def tn')
  qed
  show "length fs' = c" "length vs' = c" "nullptr \<notin> set ws" "0 < c" using I(1-4) by (simp_all add: fs' vs')
  show "fs' ! j = version_at c j (tn' j)" if "j < c" for j
    using that I(1,5) by (cases "j = n mod c") (simp_all add: fs' tn')
  show "vs' ! j = item_at c ws j (tn' j)" if "j < c" for j
    using that I(2,6) by (cases "j = n mod c") (simp_all add: vs' tn')
  show "holder_ok c ws R tn' (ps[t := p] ! u)" if u: "u < length (ps[t := p])" for u
  proof (cases "u = t")
    case True
    show ?thesis
      by (rule holder_okI) (use True t p H(2) n(2) in \<open>auto simp: tn'\<close>)
  next
    case False
    have u': "u < length ps" using u by simp
    show ?thesis
    proof (rule holder_okI)
      fix v m assume "tk (ps[t := p] ! u) = Some (v, m)"
      then have m: "tk (ps ! u) = Some (v, m)" using False by simp
      note K = holder_okD [OF I(7) [OF u'] m]
      show "item_ok ws (ps[t := p] ! u) \<and> m < (if v then length ws else R)
        \<and> tn' (m mod c) \<le> base c m + phase (ps[t := p] ! u)
        \<and> (\<not> waits (ps[t := p] ! u) \<longrightarrow> tn' (m mod c) = base c m + phase (ps[t := p] ! u))"
        using K others_later [OF inv t u' False n m] False by (cases "m mod c = n mod c") (auto simp: tn')
    qed
  qed
  show "u = v" if "u < length (ps[t := p])" "v < length (ps[t := p])" "tk (ps[t := p] ! u) \<noteq> None"
    "tk (ps[t := p] ! u) = tk (ps[t := p] ! v)" for u v
    by (rule tk_upd [OF I(8) t keep that])
  show "through c tn' v m \<or> (\<exists>u < length (ps[t := p]). tk (ps[t := p] ! u) = Some (v, m))"
    if m: "m < (if v then length ws else R)" for v m
  proof -
    consider "through c tn v m" | u where "u < length ps" "tk (ps ! u) = Some (v, m)" using I(9) [OF m] by blast
    then show ?thesis
    proof cases
      case 2
      show ?thesis
      proof (cases "u = t")
        case True
        then have "(v, m) = (w, n)" using 2 n(1) by simp
        then show ?thesis using p t thr by (metis length_list_update nth_list_update_eq)
      next
        case False
        then show ?thesis using 2 by (metis length_list_update nth_list_update_neq)
      qed
    qed (simp add: thr)
  qed
  show "m < length ws" if "base c m < tn' (m mod c)" for m
  proof (cases "base c m < tn (m mod c)")
    case False
    then have e: "m mod c = n mod c" "base c m = base c n + phase (ps ! t)" using that n(2) by (auto simp: tn' split: if_splits)
    then have "phase (ps ! t) = 0" "m = n" using base_quarters [of c m 0 n "phase (ps ! t)"] ph by auto
    then have "m = n" "w" using ph by auto
    then show ?thesis using H(2) by simp
  qed (rule I(10))
  show "m < R" if "base c m + 2 < tn' (m mod c)" for m
  proof (cases "base c m + 2 < tn (m mod c)")
    case False
    then have e: "m mod c = n mod c" "base c m + 2 = base c n + phase (ps ! t)" using that n(2) by (auto simp: tn' split: if_splits)
    then have "phase (ps ! t) = 2" "m = n" using base_quarters [of c m 2 n "phase (ps ! t)"] ph by auto
    then have "m = n" "\<not> w" using ph by auto
    then show ?thesis using H(2) by simp
  qed (rule I(11))
  show "ho' m = (if through c tn' False m then Some (ws ! m) else None)" for m
    using I(12) [of m] thr [of False m] p ph phase_writer [of p w n] by (auto simp: ho')
qed

section \<open>A new ticket\<close>

lemma tk_fresh:
  assumes "\<And>u v. u < length ps \<Longrightarrow> v < length ps \<Longrightarrow> tk (ps ! u) \<noteq> None \<Longrightarrow> tk (ps ! u) = tk (ps ! v) \<Longrightarrow> u = v"
    and "t < length ps" and "\<And>u. u < length ps \<Longrightarrow> tk (ps ! u) \<noteq> tk p"
    and "u < length (ps[t := p])" "v < length (ps[t := p])" "tk (ps[t := p] ! u) \<noteq> None"
      "tk (ps[t := p] ! u) = tk (ps[t := p] ! v)"
  shows "u = v"
  using assms(1) [of u v] assms(3) [of u] assms(3) [of v] assms(2,4-7) by (cases "u = t"; cases "v = t") auto

lemma held_upd:
  assumes "\<exists>u < length ps. tk (ps ! u) = Some y" and "t < length ps" "tk (ps ! t) = None"
  shows "\<exists>u < length (ps[t := p]). tk (ps[t := p] ! u) = Some y"
  using assms by (metis length_list_update nth_list_update_neq option.distinct(1))

lemma item_at_snoc:
  assumes "slots_inv c ws R tn ho fs vs ps" "j < c"
  shows "item_at c (ws @ zs) j (tn j) = item_at c ws j (tn j)"
proof -
  note I = slots_invD [OF assms(1)]
  have "(j + tn j div 4 * c) mod c = j" "base c (j + tn j div 4 * c) = 4 * (tn j div 4)"
    using assms(2) I(4) by (simp_all add: base_def)
  then have "tn j mod 4 \<noteq> 0 \<Longrightarrow> j + tn j div 4 * c < length ws"
    using I(10) [of "j + tn j div 4 * c"] div_mult_mod_eq [of "tn j" 4] by (simp add: mult.commute)
  then show ?thesis by (auto simp: item_at_def nth_append)
qed

lemma slots_put:
  assumes inv: "slots_inv c ws R tn ho fs vs ps" and t: "t < length ps" "tk (ps ! t) = None"
    and x: "x \<noteq> nullptr" and nr: "unat nr = length ws"
  shows "slots_inv c (ws @ [x]) R tn ho fs vs (ps[t := E_wait x nr])"
proof (rule slots_invI)
  note I = slots_invD [OF inv]
  let ?ws = "ws @ [x]"
  show "length fs = c" "length vs = c" "nullptr \<notin> set ?ws" "0 < c" using I(1-4) x by auto
  show "fs ! j = version_at c j (tn j)" if "j < c" for j by (rule I(5) [OF that])
  show "vs ! j = item_at c ?ws j (tn j)" if "j < c" for j
    unfolding item_at_snoc [OF inv that] by (rule I(6) [OF that])
  show "holder_ok c ?ws R tn (ps[t := E_wait x nr] ! u)" if u: "u < length (ps[t := E_wait x nr])" for u
  proof (cases "u = t")
    case True
    then show ?thesis
      using t nr I(10) [of "length ws"] by (intro holder_okI) (auto simp: nth_append not_less [symmetric])
  next
    case False
    have u': "u < length ps" using u by simp
    note H = holder_okD [OF I(7) [OF u']]
    show ?thesis
    proof (rule holder_okI)
      fix v m assume "tk (ps[t := E_wait x nr] ! u) = Some (v, m)"
      then have m: "tk (ps ! u) = Some (v, m)" using False by simp
      have "item_ok ?ws (ps ! u)"
      proof -
        have "m < length ws" if "\<not> waits (ps ! u)" "\<not> v"
          using H(4) [OF m that(1)] I(10) [of m] phase_writer [OF m] that(2) by auto
        then have "waits (ps ! u) \<or> m < length ws" using H(2) [OF m] by (cases v) auto
        then show ?thesis using H(1,2) [OF m] m by (cases "ps ! u") (auto simp: nth_append)
      qed
      then show "item_ok ?ws (ps[t := E_wait x nr] ! u) \<and> m < (if v then length ?ws else R)
        \<and> tn (m mod c) \<le> base c m + phase (ps[t := E_wait x nr] ! u)
        \<and> (\<not> waits (ps[t := E_wait x nr] ! u) \<longrightarrow> tn (m mod c) = base c m + phase (ps[t := E_wait x nr] ! u))"
        using H(2-4) [OF m] False by auto
    qed
  qed
  have fresh: "tk (ps ! u) \<noteq> tk (E_wait x nr)" if "u < length ps" for u
    using holder_okD(2) [OF I(7) [OF that], of True "length ws"] nr by auto
  show "u = v" if "u < length (ps[t := E_wait x nr])" "v < length (ps[t := E_wait x nr])"
    "tk (ps[t := E_wait x nr] ! u) \<noteq> None" "tk (ps[t := E_wait x nr] ! u) = tk (ps[t := E_wait x nr] ! v)" for u v
    by (rule tk_fresh [OF I(8) t(1) fresh that])
  show "through c tn v m \<or> (\<exists>u < length (ps[t := E_wait x nr]). tk (ps[t := E_wait x nr] ! u) = Some (v, m))"
    if m: "m < (if v then length ?ws else R)" for v m
  proof (cases "v \<and> m = length ws")
    case True
    then show ?thesis using t nr by (intro disjI2 exI [of _ t]) simp
  next
    case False
    then have "m < (if v then length ws else R)" using m by (auto split: if_splits)
    then show ?thesis using I(9) held_upd [OF _ t] by meson
  qed
  show "m < length ?ws" if "base c m < tn (m mod c)" for m using I(10) [OF that] by simp
  show "m < R" if "base c m + 2 < tn (m mod c)" for m by (rule I(11) [OF that])
  show "ho m = (if through c tn False m then Some (?ws ! m) else None)" for m
    using I(12) [of m] I(10) [of m] by (auto simp: nth_append through_def)
qed

lemma slots_take:
  assumes inv: "slots_inv c ws R tn ho fs vs ps" and t: "t < length ps" "tk (ps ! t) = None"
    and nr: "unat nr = R"
  shows "slots_inv c ws (Suc R) tn ho fs vs (ps[t := D_wait nr])"
proof (rule slots_invI [OF slots_invD(1-6) [OF inv] _ _ _ slots_invD(10) [OF inv] _ slots_invD(12) [OF inv]])
  note I = slots_invD [OF inv]
  show "holder_ok c ws (Suc R) tn (ps[t := D_wait nr] ! u)" if u: "u < length (ps[t := D_wait nr])" for u
  proof (cases "u = t")
    case True
    then show ?thesis
      using t nr I(11) [of R] by (intro holder_okI) (auto simp: not_less [symmetric])
  next
    case False
    have u': "u < length ps" using u by simp
    show ?thesis
      using I(7) [OF u'] False by (auto simp: holder_ok_def split: if_splits intro: less_SucI)
  qed
  have fresh: "tk (ps ! u) \<noteq> tk (D_wait nr)" if "u < length ps" for u
    using holder_okD(2) [OF I(7) [OF that], of False R] nr by auto
  show "u = v" if "u < length (ps[t := D_wait nr])" "v < length (ps[t := D_wait nr])"
    "tk (ps[t := D_wait nr] ! u) \<noteq> None" "tk (ps[t := D_wait nr] ! u) = tk (ps[t := D_wait nr] ! v)" for u v
    by (rule tk_fresh [OF I(8) t(1) fresh that])
  show "through c tn v m \<or> (\<exists>u < length (ps[t := D_wait nr]). tk (ps[t := D_wait nr] ! u) = Some (v, m))"
    if m: "m < (if v then length ws else Suc R)" for v m
  proof (cases "\<not> v \<and> m = R")
    case True
    then show ?thesis using t nr by (intro disjI2 exI [of _ t]) simp
  next
    case False
    then have "m < (if v then length ws else R)" using m by (auto split: if_splits)
    then show ?thesis using I(9) held_upd [OF _ t] by meson
  qed
  show "m < Suc R" if "base c m + 2 < tn (m mod c)" for m using I(11) [OF that] by simp
qed

end
