(* ===== verification/Free_Lock_Safe.thy ===== *)
theory Free_Lock_Safe
  imports Free_Lock_Slots
begin

text \<open>
  The lock-free bounded queue under any number of threads: the invariant of the whole system, from
  Free_Lock_Conc (attempts) and Free_Lock_Slots (slots), and what follows from it.
\<close>

section \<open>The invariant\<close>

fun call_ok :: "fl_pc \<Rightarrow> bool" where
  "call_ok (E_load_read x) = (x \<noteq> nullptr)"
| "call_ok (E_load_missed x rd) = (x \<noteq> nullptr)"
| "call_ok (E_load_ahead x rd wm) = (x \<noteq> nullptr)"
| "call_ok (E_claim x wm) = (x \<noteq> nullptr)"
| "call_ok (E_check x wm n) = (x \<noteq> nullptr)"
| "call_ok (E_ticket x n) = (x \<noteq> nullptr)"
| "call_ok (Broken e) = False"
| "call_ok _ = True"

definition fl_inv :: "nat \<Rightarrow> fl_sys \<Rightarrow> bool" where
  "fl_inv k s \<longleftrightarrow>
     (1 \<le> k \<and> k \<le> 30 \<and> fq_capacity (fq s) = 2 ^ k \<and> fq_capacity_bitmap (fq s) = 2 ^ k - 1
       \<and> fq_write (fq s) = of_nat (length (put_log s)) \<and> fq_read (fq s) = of_nat (taken s))
     \<and> side_inv (r_outs s) (length (put_log s)) (taken s) (read_ahead (fq s)) (read_missed (fq s)) (map r_att (pcs s))
     \<and> side_inv (w_outs s) (taken s + 2 ^ k) (length (put_log s)) (write_ahead (fq s)) (write_missed (fq s)) (map w_att (pcs s))
     \<and> slots_inv (2 ^ k) (put_log s) (taken s) (turn s) (handed s) (flag_vec (fq s)) (fq_vec (fq s)) (pcs s)
     \<and> (\<forall>t < length (pcs s). call_ok (pcs s ! t))"

lemma fl_invD:
  assumes "fl_inv k s"
  shows "1 \<le> k" "k \<le> 30" "fq_capacity (fq s) = 2 ^ k" "fq_capacity_bitmap (fq s) = 2 ^ k - 1"
    "fq_write (fq s) = of_nat (length (put_log s))" "fq_read (fq s) = of_nat (taken s)"
    "side_inv (r_outs s) (length (put_log s)) (taken s) (read_ahead (fq s)) (read_missed (fq s)) (map r_att (pcs s))"
    "side_inv (w_outs s) (taken s + 2 ^ k) (length (put_log s)) (write_ahead (fq s)) (write_missed (fq s)) (map w_att (pcs s))"
    "slots_inv (2 ^ k) (put_log s) (taken s) (turn s) (handed s) (flag_vec (fq s)) (fq_vec (fq s)) (pcs s)"
    "\<And>t. t < length (pcs s) \<Longrightarrow> call_ok (pcs s ! t)"
  using assms unfolding fl_inv_def by blast+

definition few :: "fl_sys \<Rightarrow> bool" where
  "few s \<longleftrightarrow> length (r_outs s) < 2 ^ 31 \<and> length (w_outs s) < 2 ^ 31"

lemma ticketed_length: "ticketed os \<le> length os"
  by (simp add: ticketed_def)

lemma misses_length: "misses os \<le> length os"
  by (simp add: misses_def)

lemma fl_few:
  assumes "fl_inv k s" "few s"
  shows "taken s < 2 ^ 31" "length (put_log s) < 2 ^ 31" "unat (fq_read (fq s)) = taken s"
    "unat (fq_write (fq s)) = length (put_log s)"
proof -
  show l: "taken s < 2 ^ 31" "length (put_log s) < 2 ^ 31"
    using side_invD(3) [OF fl_invD(7) [OF assms(1)]] side_invD(3) [OF fl_invD(8) [OF assms(1)]] assms(2)
      ticketed_length [of "r_outs s"] ticketed_length [of "w_outs s"] by (simp_all add: few_def)
  show "unat (fq_read (fq s)) = taken s" "unat (fq_write (fq s)) = length (put_log s)"
    using l by (simp_all add: fl_invD(5,6) [OF assms(1)] unat_of_nat)
qed

text \<open>The tests of the counters say what they mean while the counters are small.\<close>

lemma small_diff:
  fixes x m :: u64
  assumes "unat m \<le> unat x" "unat x < 2 ^ 31" "L \<le> unat x - unat m"
  shows "x - m - of_nat L < 0xffffffff"
proof -
  have "x - m = of_nat (unat x - unat m)" using assms(1) by (simp add: of_nat_diff)
  then have "x - m - of_nat L = of_nat (unat x - unat m - L)" by (metis of_nat_diff assms(3))
  moreover have "unat (of_nat (unat x - unat m - L) :: u64) < 2 ^ 31"
    using assms(2) by (subst unat_of_nat) simp
  ultimately show ?thesis by (simp add: word_less_nat_alt)
qed

lemma check_ok:
  assumes "att_ok os (Checks m x)" "length os < 2 ^ 31"
  shows "unat m \<le> unat x" "unat x < 2 ^ 31"
  using assms misses_length [of "take (unat x) os"] by auto

lemma not_empty:
  assumes "\<not> fq_is_empty (x - m) (of_nat W)" "unat m \<le> unat x" "unat x < 2 ^ 31"
  shows "unat x < unat m + W"
proof (rule ccontr)
  assume "\<not> ?thesis"
  then have "W \<le> unat x - unat m" by simp
  from small_diff [OF assms(2,3) this] show False using assms(1) by (simp add: fq_is_empty_def Let_def)
qed

lemma not_full:
  assumes "\<not> fq_is_full q (of_nat R) (x - m)" "fq_capacity q = 2 ^ k" "unat m \<le> unat x" "unat x < 2 ^ 31"
  shows "unat x < unat m + (R + 2 ^ k)"
proof (rule ccontr)
  assume "\<not> ?thesis"
  then have "R + 2 ^ k \<le> unat x - unat m" by simp
  from small_diff [OF assms(3,4) this] show False
    using assms(1,2) by (simp add: fq_is_full_def Let_def algebra_simps)
qed

section \<open>Steps of one thread that touch no shared counter or slot\<close>

lemma side_other:
  "side_inv os l k ah mi (map f ps) \<Longrightarrow> t < length ps \<Longrightarrow> f p = No \<Longrightarrow> side_inv os l k ah mi (map f (ps[t := p]))"
  using side_att [of os l k ah mi "map f ps" t No] by (simp add: map_update)

lemma call_upd:
  "(\<And>t. t < length ps \<Longrightarrow> call_ok (ps ! t)) \<Longrightarrow> call_ok p \<Longrightarrow> \<forall>u < length (ps[t := p]). call_ok (ps[t := p] ! u)"
  by (metis length_list_update nth_list_update_eq nth_list_update_neq)

lemma fl_local:
  assumes inv: "fl_inv k s" and t: "t < length (pcs s)"
    and r: "att_ok (r_outs s) (r_att p)" "number (r_att p) = None \<or> number (r_att p) = number (r_att (pcs s ! t))"
    and w: "att_ok (w_outs s) (w_att p)" "number (w_att p) = None \<or> number (w_att p) = number (w_att (pcs s ! t))"
    and h: "tk p = tk (pcs s ! t)" "holder_ok (2 ^ k) (put_log s) (taken s) (turn s) p" and c: "call_ok p"
  shows "fl_inv k (s\<lparr>pcs := (pcs s)[t := p]\<rparr>)"
proof -
  note I = fl_invD [OF inv]
  have "side_inv (r_outs s) (length (put_log s)) (taken s) (read_ahead (fq s)) (read_missed (fq s)) (map r_att ((pcs s)[t := p]))"
    using side_att [OF I(7), of t "r_att p"] t r by (simp add: map_update)
  moreover have "side_inv (w_outs s) (taken s + 2 ^ k) (length (put_log s)) (write_ahead (fq s)) (write_missed (fq s))
      (map w_att ((pcs s)[t := p]))"
    using side_att [OF I(8), of t "w_att p"] t w by (simp add: map_update)
  moreover note slots_pc [OF I(9) t h] call_upd [OF I(10) c, of t]
  ultimately show ?thesis using I(1-6) by (simp add: fl_inv_def)
qed

text \<open>With no attempt under way and no ticket there is nothing to show but \<open>call_ok\<close>.\<close>

lemma fl_plain:
  assumes "fl_inv k s" "t < length (pcs s)" "r_att p = No" "w_att p = No" "tk p = None" "tk (pcs s ! t) = None" "call_ok p"
  shows "fl_inv k (s\<lparr>pcs := (pcs s)[t := p]\<rparr>)"
  using fl_local [OF assms(1,2), of p] assms(3-7) by (simp add: holder_ok_None)

section \<open>Claims, checks and tickets\<close>

lemma fl_claim:
  assumes inv: "fl_inv k s" "few s" and t: "t < length (pcs s)"
  shows "pcs s ! t = D_claim rm \<Longrightarrow>
      fl_inv k (s\<lparr>fq := (fq s)\<lparr>read_ahead := read_ahead (fq s) + 1\<rparr>, pcs := (pcs s)[t := D_check rm (read_ahead (fq s))],
        r_outs := r_outs s @ [Open]\<rparr>)"
    "pcs s ! t = E_claim x wm \<Longrightarrow>
      fl_inv k (s\<lparr>fq := (fq s)\<lparr>write_ahead := write_ahead (fq s) + 1\<rparr>, pcs := (pcs s)[t := E_check x wm (write_ahead (fq s))],
        w_outs := w_outs s @ [Open]\<rparr>)"
proof -
  note I = fl_invD [OF inv(1)]
  have l: "length (r_outs s) < 2 ^ 31" "length (w_outs s) < 2 ^ 31" using inv(2) by (auto simp: few_def)
  show "fl_inv k (s\<lparr>fq := (fq s)\<lparr>read_ahead := read_ahead (fq s) + 1\<rparr>, pcs := (pcs s)[t := D_check rm (read_ahead (fq s))],
        r_outs := r_outs s @ [Open]\<rparr>)" if p: "pcs s ! t = D_claim rm"
  proof -
    let ?p = "D_check rm (read_ahead (fq s))"
    have "tk ?p = tk (pcs s ! t)" using p by simp
    note slots_pc [OF I(9) t this holder_ok_None]
    moreover note side_claim [OF I(7), of t rm] side_other [OF I(8) t, of ?p] call_upd [OF I(10), of ?p t]
    ultimately show ?thesis using I(1-6) t p l(1) by (simp add: fl_inv_def map_update)
  qed
  show "fl_inv k (s\<lparr>fq := (fq s)\<lparr>write_ahead := write_ahead (fq s) + 1\<rparr>, pcs := (pcs s)[t := E_check x wm (write_ahead (fq s))],
        w_outs := w_outs s @ [Open]\<rparr>)" if p: "pcs s ! t = E_claim x wm"
  proof -
    let ?p = "E_check x wm (write_ahead (fq s))"
    have "tk ?p = tk (pcs s ! t)" using p by simp
    note slots_pc [OF I(9) t this holder_ok_None]
    moreover note side_claim [OF I(8), of t wm] side_other [OF I(7) t, of ?p] call_upd [OF I(10), of ?p t]
    ultimately show ?thesis using I(1-6) I(10) [OF t] t p l(2) by (simp add: fl_inv_def map_update)
  qed
qed

lemma fl_pass:
  assumes inv: "fl_inv k s" "few s" and t: "t < length (pcs s)"
  shows "pcs s ! t = D_check m x \<Longrightarrow> \<not> fq_is_empty (x - m) (fq_write (fq s)) \<Longrightarrow>
      fl_inv k (s\<lparr>pcs := (pcs s)[t := D_ticket x], r_outs := (r_outs s)[unat x := Passed]\<rparr>)"
    "pcs s ! t = E_check i m x \<Longrightarrow> \<not> fq_is_full (fq s) (fq_read (fq s)) (x - m) \<Longrightarrow>
      fl_inv k (s\<lparr>pcs := (pcs s)[t := E_ticket i x], w_outs := (w_outs s)[unat x := Passed]\<rparr>)"
proof -
  note I = fl_invD [OF inv(1)]
  have l: "length (r_outs s) < 2 ^ 31" "length (w_outs s) < 2 ^ 31" using inv(2) by (auto simp: few_def)
  show "fl_inv k (s\<lparr>pcs := (pcs s)[t := D_ticket x], r_outs := (r_outs s)[unat x := Passed]\<rparr>)"
    if p: "pcs s ! t = D_check m x" and ne: "\<not> fq_is_empty (x - m) (fq_write (fq s))"
  proof -
    have at: "map r_att (pcs s) ! t = Checks m x" using p t by simp
    have ok: "att_ok (r_outs s) (Checks m x)" using side_invD(5) [OF I(7), of t] at t by simp
    note side_pass [OF I(7) _ at not_empty [OF ne [unfolded I(5)] check_ok [OF ok l(1)]]]
    moreover have "tk (D_ticket x) = tk (pcs s ! t)" using p by simp
    note slots_pc [OF I(9) t this holder_ok_None]
    moreover note side_other [OF I(8) t, of "D_ticket x"] call_upd [OF I(10), of "D_ticket x" t]
    ultimately show ?thesis using I(1-6) t by (simp add: fl_inv_def map_update)
  qed
  show "fl_inv k (s\<lparr>pcs := (pcs s)[t := E_ticket i x], w_outs := (w_outs s)[unat x := Passed]\<rparr>)"
    if p: "pcs s ! t = E_check i m x" and nf: "\<not> fq_is_full (fq s) (fq_read (fq s)) (x - m)"
  proof -
    have at: "map w_att (pcs s) ! t = Checks m x" using p t by simp
    have ok: "att_ok (w_outs s) (Checks m x)" using side_invD(5) [OF I(8), of t] at t by simp
    note side_pass [OF I(8) _ at not_full [OF nf [unfolded I(6)] I(3) check_ok [OF ok l(2)]]]
    moreover have "tk (E_ticket i x) = tk (pcs s ! t)" using p by simp
    note slots_pc [OF I(9) t this holder_ok_None]
    moreover note side_other [OF I(7) t, of "E_ticket i x"] call_upd [OF I(10), of "E_ticket i x" t]
    ultimately show ?thesis using I(1-6) I(10) [OF t] p t by (simp add: fl_inv_def map_update)
  qed
qed

lemma fl_miss:
  assumes inv: "fl_inv k s" and t: "t < length (pcs s)"
  shows "pcs s ! t = D_missed x \<Longrightarrow>
      fl_inv k (s\<lparr>fq := (fq s)\<lparr>read_missed := read_missed (fq s) + 1\<rparr>, pcs := (pcs s)[t := Got None],
        r_outs := (r_outs s)[unat x := Missed]\<rparr>)"
    "pcs s ! t = E_missed x \<Longrightarrow>
      fl_inv k (s\<lparr>fq := (fq s)\<lparr>write_missed := write_missed (fq s) + 1\<rparr>, pcs := (pcs s)[t := Put False],
        w_outs := (w_outs s)[unat x := Missed]\<rparr>)"
proof -
  note I = fl_invD [OF inv]
  show "fl_inv k (s\<lparr>fq := (fq s)\<lparr>read_missed := read_missed (fq s) + 1\<rparr>, pcs := (pcs s)[t := Got None],
        r_outs := (r_outs s)[unat x := Missed]\<rparr>)" if p: "pcs s ! t = D_missed x"
  proof -
    have "tk (Got None) = tk (pcs s ! t)" using p by simp
    note slots_pc [OF I(9) t this holder_ok_None]
    moreover note side_miss [OF I(7), of t x] side_other [OF I(8) t, of "Got None"] call_upd [OF I(10), of "Got None" t]
    ultimately show ?thesis using I(1-6) t p by (simp add: fl_inv_def map_update)
  qed
  show "fl_inv k (s\<lparr>fq := (fq s)\<lparr>write_missed := write_missed (fq s) + 1\<rparr>, pcs := (pcs s)[t := Put False],
        w_outs := (w_outs s)[unat x := Missed]\<rparr>)" if p: "pcs s ! t = E_missed x"
  proof -
    have "tk (Put False) = tk (pcs s ! t)" using p by simp
    note slots_pc [OF I(9) t this holder_ok_None]
    moreover note side_miss [OF I(8), of t x] side_other [OF I(7) t, of "Put False"] call_upd [OF I(10), of "Put False" t]
    ultimately show ?thesis using I(1-6) t p by (simp add: fl_inv_def map_update)
  qed
qed

lemma fl_ticket:
  assumes inv: "fl_inv k s" "few s" and t: "t < length (pcs s)"
  shows "pcs s ! t = D_ticket x \<Longrightarrow>
      fl_inv k (s\<lparr>fq := (fq s)\<lparr>fq_read := fq_read (fq s) + 1\<rparr>, pcs := (pcs s)[t := D_wait (fq_read (fq s))],
        r_outs := (r_outs s)[unat x := Ticketed], taken := Suc (taken s)\<rparr>)"
    "pcs s ! t = E_ticket i x \<Longrightarrow>
      fl_inv k (s\<lparr>fq := (fq s)\<lparr>fq_write := fq_write (fq s) + 1\<rparr>, pcs := (pcs s)[t := E_wait i (fq_write (fq s))],
        w_outs := (w_outs s)[unat x := Ticketed], put_log := put_log s @ [i]\<rparr>)"
proof -
  note I = fl_invD [OF inv(1)]
  note F = fl_few [OF inv]
  show "fl_inv k (s\<lparr>fq := (fq s)\<lparr>fq_read := fq_read (fq s) + 1\<rparr>, pcs := (pcs s)[t := D_wait (fq_read (fq s))],
        r_outs := (r_outs s)[unat x := Ticketed], taken := Suc (taken s)\<rparr>)" if p: "pcs s ! t = D_ticket x"
  proof -
    let ?p = "D_wait (fq_read (fq s))"
    have "side_inv (w_outs s) (Suc (taken s) + 2 ^ k) (length (put_log s)) (write_ahead (fq s)) (write_missed (fq s))
        (map w_att ((pcs s)[t := ?p]))"
      by (rule side_limit [OF side_other [OF I(8) t, of ?p]]) simp_all
    moreover note slots_take [OF I(9) t, of "fq_read (fq s)"] side_ticket [OF I(7), of t x] call_upd [OF I(10), of ?p t]
    ultimately show ?thesis using I(1-6) F(3) t p by (simp add: fl_inv_def map_update)
  qed
  show "fl_inv k (s\<lparr>fq := (fq s)\<lparr>fq_write := fq_write (fq s) + 1\<rparr>, pcs := (pcs s)[t := E_wait i (fq_write (fq s))],
        w_outs := (w_outs s)[unat x := Ticketed], put_log := put_log s @ [i]\<rparr>)" if p: "pcs s ! t = E_ticket i x"
  proof -
    let ?p = "E_wait i (fq_write (fq s))"
    have "side_inv (r_outs s) (length (put_log s @ [i])) (taken s) (read_ahead (fq s)) (read_missed (fq s))
        (map r_att ((pcs s)[t := ?p]))"
      by (rule side_limit [OF side_other [OF I(7) t, of ?p]]) simp_all
    moreover note slots_put [OF I(9) t, of i "fq_write (fq s)"] side_ticket [OF I(8), of t x] call_upd [OF I(10), of ?p t]
    ultimately show ?thesis using I(1-6) I(10) [OF t] F(4) t p by (simp add: fl_inv_def map_update)
  qed
qed

section \<open>Slots\<close>

lemma slot_mod: "fl_inv k s \<Longrightarrow> slot (fq s) n = unat n mod 2 ^ k"
  using fl_invD(2,4) [of k s] by (simp add: slot_def unat_and_mask)

text \<open>Comparing tickets with versions: modulo the capacity, the version of a slot that has been read, or was
  never written, is one more than its ticket.\<close>

lemma versions_apart:
  fixes f :: u64
  assumes k: "1 \<le> k" "k \<le> 30" and f: "f + of_nat (2 ^ k - 1) = g" and m: "unat f mod 2 ^ k = unat g mod 2 ^ k"
  shows False
proof -
  have two: "(2::nat) ^ 1 \<le> 2 ^ k" by (rule power_increasing) (use k in auto)
  have "unat g mod 2 ^ k = (unat f + unat (of_nat (2 ^ k - 1) :: u64)) mod 2 ^ k"
    using unat_add_mod_pow2 [of k f "of_nat (2 ^ k - 1)"] k(2) f by simp
  also have "unat (of_nat (2 ^ k - 1) :: u64) = 2 ^ k - 1"
    using pow2_le30 [OF k(2)] by (subst unat_of_nat) simp
  finally have "(unat f + (2 ^ k - 1)) mod 2 ^ k = (unat f + 0) mod 2 ^ k" using m by simp
  from add_mod_inj [OF this] two show False by simp
qed

lemma ready_mod:
  assumes "deq_version_ready f rd" "k \<le> 30"
  shows "unat f mod 2 ^ k = unat rd mod 2 ^ k"
proof -
  have "take_bit k (to_u64 (ucast f)) = take_bit k f"
    by (rule bit_word_eqI) (use assms(2) in \<open>auto simp: bit_take_bit_iff to_u64_def bit_signed_iff bit_unsigned_iff\<close>)
  then have "unat (take_bit k f) = unat (take_bit k rd)" using assms(1) by (simp add: deq_version_ready_def Let_def)
  then show ?thesis by (simp add: unsigned_take_bit_eq take_bit_nat_def)
qed

lemma bitmap_of_nat: "(2 ^ k - 1 :: u64) = of_nat (2 ^ k - 1)"
  by (simp add: of_nat_diff)

text \<open>What a waiting thread finds, by the write ticket \<open>m\<close> of the round its slot is in.\<close>

lemma wait_version:
  assumes inv: "slots_inv (2 ^ k) ws R tn ho fs vs ps" and t: "t < length ps" and n: "tk (ps ! t) = Some (w, n)"
    and ph: "phase (ps ! t) \<in> {0, 2}"
  obtains m where "m \<le> n" "m mod 2 ^ k = n mod 2 ^ k" "base (2 ^ k) m + tn (n mod 2 ^ k) mod 4 = tn (n mod 2 ^ k)"
    "vget fs (n mod 2 ^ k) = Inr (if tn (n mod 2 ^ k) mod 4 < 2 then of_nat m - of_nat (2 ^ k - 1) else of_nat m)"
proof -
  note I = slots_invD [OF inv]
  let ?a = "tn (n mod 2 ^ k)"
  let ?m = "n mod 2 ^ k + ?a div 4 * 2 ^ k"
  have j: "n mod 2 ^ k < (2::nat) ^ k" by simp
  have d: "?m div 2 ^ k = ?a div 4" "?m mod 2 ^ k = n mod 2 ^ k" by simp_all
  have "?a \<le> base (2 ^ k) n + 2" using holder_okD(3) [OF I(7) [OF t] n] ph by auto
  then have "?a div 4 \<le> (4 * (n div 2 ^ k) + 2) div 4" unfolding base_def by (rule div_le_mono)
  then have "?a div 4 * 2 ^ k \<le> n div 2 ^ k * 2 ^ k" by simp
  then have "?m \<le> n" using div_mult_mod_eq [of n "2 ^ k"] by linarith
  moreover have "base (2 ^ k) ?m + ?a mod 4 = ?a" unfolding base_def d by simp
  moreover have "vget fs (n mod 2 ^ k) = Inr (if ?a mod 4 < 2 then of_nat ?m - of_nat (2 ^ k - 1) else of_nat ?m)"
    using I(1) I(5) [OF j] j by (simp add: version_at_def)
  ultimately show thesis using that d(2) by blast
qed

lemma unat_small: "m < 2 ^ 31 \<Longrightarrow> unat (of_nat m :: u64) = m"
  by (simp add: unat_of_nat)

lemma same_base: "m mod c = n mod c \<Longrightarrow> base c m = base c n \<Longrightarrow> m = n"
  using base_quarters(3) [of c m 0 n 0] by simp

lemma turn_mod: "a = base c n \<Longrightarrow> a mod 4 < 2" "a = base c n + 2 \<Longrightarrow> \<not> a mod 4 < 2"
proof -
  have "4 * b mod 4 < (2::nat)" "\<not> (4 * b + 2) mod 4 < (2::nat)" for b by presburger+
  then show "a = base c n \<Longrightarrow> a mod 4 < 2" "a = base c n + 2 \<Longrightarrow> \<not> a mod 4 < 2" by (auto simp only: base_def)
qed

text \<open>A waiting thread goes on exactly when it is its turn.\<close>

lemma enq_wait_turn:
  assumes inv: "slots_inv (2 ^ k) ws R tn ho fs vs ps" and k: "1 \<le> k" "k \<le> 30" and t: "t < length ps"
    and p: "ps ! t = E_wait x wr" and small: "unat wr < 2 ^ 31"
  shows "\<exists>f. vget fs (unat wr mod 2 ^ k) = Inr f
    \<and> (f = wr - (2 ^ k - 1) \<longleftrightarrow> tn (unat wr mod 2 ^ k) = base (2 ^ k) (unat wr))"
proof -
  let ?n = "unat wr" let ?a = "tn (?n mod 2 ^ k)"
  have n: "tk (ps ! t) = Some (True, ?n)" "phase (ps ! t) \<in> {0, 2}" using p by auto
  have le: "?a \<le> base (2 ^ k) ?n" using holder_okD(3) [OF slots_invD(7) [OF inv t] n(1)] p by simp
  from wait_version [OF inv t n] obtain m where m: "m \<le> ?n" "m mod 2 ^ k = ?n mod 2 ^ k"
    "base (2 ^ k) m + ?a mod 4 = ?a"
    "vget fs (?n mod 2 ^ k) = Inr (if ?a mod 4 < 2 then of_nat m - of_nat (2 ^ k - 1) else of_nat m)" .
  have um: "unat (of_nat m :: u64) = m" by (rule unat_small) (use m(1) small in simp)
  show ?thesis
  proof (cases "?a mod 4 < 2")
    case True
    have "(of_nat m :: u64) = wr \<longleftrightarrow> ?a = base (2 ^ k) ?n"
    proof
      assume "?a = base (2 ^ k) ?n"
      then have "base (2 ^ k) m + ?a mod 4 = base (2 ^ k) ?n + 0" using m(3) by simp
      from base_quarters(3) [OF this] m(2) show "(of_nat m :: u64) = wr" by simp
    next
      assume "(of_nat m :: u64) = wr"
      then have "m = ?n" using um by simp
      then show "?a = base (2 ^ k) ?n" using m(3) le by simp
    qed
    then show ?thesis using m(4) True unfolding bitmap_of_nat by (simp only: if_True ex_simps simp_thms) auto
  next
    case False
    have "?a \<noteq> base (2 ^ k) ?n" using turn_mod(1) False by metis
    moreover have "(of_nat m :: u64) \<noteq> wr - of_nat (2 ^ k - 1)"
    proof
      assume "(of_nat m :: u64) = wr - of_nat (2 ^ k - 1)"
      then have "(of_nat m :: u64) + of_nat (2 ^ k - 1) = wr" by simp
      from versions_apart [OF k this] um m(2) show False by simp
    qed
    ultimately show ?thesis using m(4) False unfolding bitmap_of_nat by simp
  qed
qed

lemma deq_wait_turn:
  assumes inv: "slots_inv (2 ^ k) ws R tn ho fs vs ps" and k: "1 \<le> k" "k \<le> 30" and t: "t < length ps"
    and p: "ps ! t = D_wait rd" and small: "unat rd < 2 ^ 31"
  shows "\<exists>f. vget fs (unat rd mod 2 ^ k) = Inr f
    \<and> (deq_version_ready f rd \<longleftrightarrow> tn (unat rd mod 2 ^ k) = base (2 ^ k) (unat rd) + 2)"
proof -
  let ?n = "unat rd" let ?a = "tn (?n mod 2 ^ k)"
  have n: "tk (ps ! t) = Some (False, ?n)" "phase (ps ! t) \<in> {0, 2}" using p by auto
  have le: "?a \<le> base (2 ^ k) ?n + 2" using holder_okD(3) [OF slots_invD(7) [OF inv t] n(1)] p by simp
  from wait_version [OF inv t n] obtain m where m: "m \<le> ?n" "m mod 2 ^ k = ?n mod 2 ^ k"
    "base (2 ^ k) m + ?a mod 4 = ?a"
    "vget fs (?n mod 2 ^ k) = Inr (if ?a mod 4 < 2 then of_nat m - of_nat (2 ^ k - 1) else of_nat m)" .
  have um: "unat (of_nat m :: u64) = m" by (rule unat_small) (use m(1) small in simp)
  show ?thesis
  proof (cases "?a mod 4 < 2")
    case True
    have "?a \<noteq> base (2 ^ k) ?n + 2" using turn_mod(2) True by metis
    moreover have "\<not> deq_version_ready (of_nat m - of_nat (2 ^ k - 1)) rd"
    proof
      assume "deq_version_ready (of_nat m - of_nat (2 ^ k - 1)) rd"
      from ready_mod [OF this k(2)] show False
        using versions_apart [OF k, of "of_nat m - of_nat (2 ^ k - 1)" "of_nat m"] um m(2) by simp
    qed
    ultimately show ?thesis using m(4) True by simp
  next
    case False
    have "deq_version_ready (of_nat m) rd \<longleftrightarrow> m = ?n"
      using to_u64_cut_small [of "of_nat m"] um m(1) small by (auto simp: deq_version_ready_def Let_def)
    moreover have "m = ?n \<longleftrightarrow> ?a = base (2 ^ k) ?n + 2"
    proof
      assume "?a = base (2 ^ k) ?n + 2"
      then have "base (2 ^ k) m + ?a mod 4 = base (2 ^ k) ?n + 2" using m(3) by simp
      from base_quarters(3) [OF this] m(2) show "m = ?n" by simp
    next
      assume "m = ?n"
      then show "?a = base (2 ^ k) ?n + 2" using m(3) le False by simp
    qed
    ultimately show ?thesis using m(4) False by simp
  qed
qed

text \<open>A step on a slot: the four quarter turns.\<close>

lemma fl_turn:
  assumes inv: "fl_inv k s" and t: "t < length (pcs s)"
    and n: "tk (pcs s ! t) = Some (w, n)" "\<not> waits (pcs s ! t)"
    and p: "tk p = Some (w, n) \<and> phase p = Suc (phase (pcs s ! t)) \<and> item_ok (put_log s) p
      \<or> tk p = None \<and> phase (pcs s ! t) \<in> {1, 3}"
    and none: "r_att p = No" "w_att p = No" "call_ok p"
    and q: "q = (fq s)\<lparr>flag_vec := (flag_vec (fq s))[n mod 2 ^ k := version_at (2 ^ k) (n mod 2 ^ k) (Suc (turn s (n mod 2 ^ k)))],
      fq_vec := (fq_vec (fq s))[n mod 2 ^ k := item_at (2 ^ k) (put_log s) (n mod 2 ^ k) (Suc (turn s (n mod 2 ^ k)))]\<rparr>"
    and ho: "ho = (if phase (pcs s ! t) = 3 then (handed s)(n \<mapsto> put_log s ! n) else handed s)"
  shows "fl_inv k (s\<lparr>fq := q, pcs := (pcs s)[t := p], turn := (turn s)(n mod 2 ^ k := Suc (turn s (n mod 2 ^ k))), handed := ho\<rparr>)"
proof -
  note I = fl_invD [OF inv]
  have "turn s (n mod 2 ^ k) = base (2 ^ k) n + phase (pcs s ! t)"
    using holder_okD(4) [OF slots_invD(7) [OF I(9) t] n] .
  note slots_turn [OF I(9) t n(1) this p refl refl refl ho]
  moreover note side_other [OF I(7) t none(1)] side_other [OF I(8) t none(2)] call_upd [OF I(10) none(3)]
  ultimately show ?thesis using I(1-6) by (simp add: fl_inv_def q)
qed

lemma fl_at:
  assumes inv: "fl_inv k s" and t: "t < length (pcs s)" and n: "tk (pcs s ! t) = Some (w, n)" "\<not> waits (pcs s ! t)"
  shows "version_at (2 ^ k) (n mod 2 ^ k) (Suc (turn s (n mod 2 ^ k)))
      = (if phase (pcs s ! t) = 1 then of_nat n else if phase (pcs s ! t) = 3 then of_nat n + 1
         else flag_vec (fq s) ! (n mod 2 ^ k))"
    "item_at (2 ^ k) (put_log s) (n mod 2 ^ k) (Suc (turn s (n mod 2 ^ k)))
      = (if phase (pcs s ! t) < 2 then put_log s ! n else nullptr)"
    "phase (pcs s ! t) \<in> {1, 2} \<Longrightarrow> fq_vec (fq s) ! (n mod 2 ^ k) = put_log s ! n"
    "phase (pcs s ! t) \<in> {0, 3} \<Longrightarrow> fq_vec (fq s) ! (n mod 2 ^ k) = nullptr"
    "n mod 2 ^ k < length (flag_vec (fq s))" "n mod 2 ^ k < length (fq_vec (fq s))"
proof -
  note I = fl_invD [OF inv] note S = slots_invD [OF I(9)]
  have a: "turn s (n mod 2 ^ k) = base (2 ^ k) n + phase (pcs s ! t)"
    using holder_okD(4) [OF slots_invD(7) [OF I(9) t] n] .
  have j: "n mod 2 ^ k < (2::nat) ^ k" by simp
  have c: "(0::nat) < 2 ^ k" by simp
  let ?p = "phase (pcs s ! t)"
  note at = at_due(1) [OF c, of ?p n] at_due(1) [OF c, of "Suc ?p" n] at_next(1) [OF c, of n]
    at_due(2) [OF c, of ?p "put_log s" n] at_due(2) [OF c, of "Suc ?p" "put_log s" n] at_next(2) [OF c, of "put_log s" n]
  have S3: "Suc (base (2 ^ k) n + 3) = base (2 ^ k) n + 4" by simp
  have Sa: "Suc (turn s (n mod 2 ^ k)) = base (2 ^ k) n + Suc (phase (pcs s ! t))" using a by simp
  consider "phase (pcs s ! t) = 0" | "phase (pcs s ! t) = 1" | "phase (pcs s ! t) = 2" | "phase (pcs s ! t) = 3"
    using phase_writer [OF n(1)] by linarith
  note cs = this
  have f: "flag_vec (fq s) ! (n mod 2 ^ k) = version_at (2 ^ k) (n mod 2 ^ k) (base (2 ^ k) n + phase (pcs s ! t))"
    using S(5) [OF j] a by simp
  have v: "fq_vec (fq s) ! (n mod 2 ^ k) = item_at (2 ^ k) (put_log s) (n mod 2 ^ k) (base (2 ^ k) n + phase (pcs s ! t))"
    using S(6) [OF j] a by simp
  show "version_at (2 ^ k) (n mod 2 ^ k) (Suc (turn s (n mod 2 ^ k)))
      = (if phase (pcs s ! t) = 1 then of_nat n else if phase (pcs s ! t) = 3 then of_nat n + 1
         else flag_vec (fq s) ! (n mod 2 ^ k))"
    unfolding f Sa by (rule cs; use at in \<open>simp add: S3\<close>)
  show "item_at (2 ^ k) (put_log s) (n mod 2 ^ k) (Suc (turn s (n mod 2 ^ k)))
      = (if phase (pcs s ! t) < 2 then put_log s ! n else nullptr)"
    unfolding Sa by (rule cs; use at in \<open>simp add: S3\<close>)
  show "phase (pcs s ! t) \<in> {1, 2} \<Longrightarrow> fq_vec (fq s) ! (n mod 2 ^ k) = put_log s ! n"
    "phase (pcs s ! t) \<in> {0, 3} \<Longrightarrow> fq_vec (fq s) ! (n mod 2 ^ k) = nullptr"
    unfolding v using at_due(2) [OF c, of "phase (pcs s ! t)" "put_log s" n] by auto
  show "n mod 2 ^ k < length (flag_vec (fq s))" "n mod 2 ^ k < length (fq_vec (fq s))" using S(1,2) j by simp_all
qed

section \<open>Every step keeps the invariant\<close>

text \<open>The item a reader finds: never null, so its assertion holds.\<close>

lemma fl_item:
  assumes inv: "fl_inv k s" and t: "t < length (pcs s)" and p: "pcs s ! t = D_item rd"
  shows "vget (fq_vec (fq s)) (slot (fq s) rd) = Inr (put_log s ! unat rd) \<and> put_log s ! unat rd \<noteq> nullptr"
proof -
  note I = fl_invD [OF inv] note S = slots_invD [OF I(9)]
  have n: "tk (pcs s ! t) = Some (False, unat rd)" "\<not> waits (pcs s ! t)" using p by auto
  have "turn s (unat rd mod 2 ^ k) = base (2 ^ k) (unat rd) + 2" using holder_okD(4) [OF S(7) [OF t] n] p by simp
  then have "unat rd < length (put_log s)" using S(10) [of "unat rd"] by simp
  then have "put_log s ! unat rd \<noteq> nullptr" using S(3) by (metis nth_mem)
  moreover have "vget (fq_vec (fq s)) (unat rd mod 2 ^ k) = Inr (put_log s ! unat rd)"
    using fl_at(3,6) [OF inv t n] p by simp
  ultimately show ?thesis by (simp add: slot_mod [OF inv])
qed

lemma fl_turn_step:
  assumes inv: "fl_inv k s" and t: "t < length (pcs s)" and st: "fl_step (fq s) (pcs s ! t) = Some (q, p)"
    and c: "pcs s ! t = D_clear rd x \<or> pcs s ! t = D_release rd x \<or> pcs s ! t = E_item x rd \<or> pcs s ! t = E_release rd"
  shows "fl_inv k (record_step (pcs s ! t) p (s\<lparr>fq := q, pcs := (pcs s)[t := p]\<rparr>))"
proof -
  note I = fl_invD [OF inv]
  obtain w where n: "tk (pcs s ! t) = Some (w, unat rd)" "\<not> waits (pcs s ! t)"
    by (rule that [of "pcs s ! t = E_item x rd \<or> pcs s ! t = E_release rd"]) (use c in auto)
  note at = fl_at [OF inv t n] note turn = fl_turn [OF inv t n, of p]
  have ok: "item_ok (put_log s) (pcs s ! t)" using holder_okD(1) [OF slots_invD(7) [OF I(9) t] n(1)] .
  have sl: "slot (fq s) rd = unat rd mod 2 ^ k" "slot (fq s\<lparr>fq_vec := a\<rparr>) rd = unat rd mod 2 ^ k"
    "slot (fq s\<lparr>flag_vec := b\<rparr>) rd = unat rd mod 2 ^ k" for a b
    using slot_mod [OF inv, of rd] by (simp_all add: slot_def)
  have v0: "(fq_vec (fq s))[unat rd mod 2 ^ k := nullptr] = fq_vec (fq s)" if "phase (pcs s ! t) \<in> {0, 3}"
    using at(4) [OF that] by (metis list_update_id)
  have v1: "(fq_vec (fq s))[unat rd mod 2 ^ k := put_log s ! unat rd] = fq_vec (fq s)" if "phase (pcs s ! t) \<in> {1, 2}"
    using at(3) [OF that] by (metis list_update_id)
  from c show ?thesis
  proof (elim disjE)
    assume p1: "pcs s ! t = D_clear rd x"
    then have "q = (fq s)\<lparr>fq_vec := (fq_vec (fq s))[unat rd mod 2 ^ k := nullptr]\<rparr>" "p = D_release rd x"
      using st at(6) by (auto simp: fl_step_def lift_step_def sl)
    then show ?thesis
      using turn p1 n at(1,2,5) ok by (simp add: record_step_def next_turn_def sl)
  next
    assume p1: "pcs s ! t = D_release rd x"
    then have "q = (fq s)\<lparr>flag_vec := (flag_vec (fq s))[unat rd mod 2 ^ k := rd + 1]\<rparr>" "p = Got (Some x)"
      using st at(5) by (auto simp: fl_step_def lift_step_def sl)
    then show ?thesis
      using turn p1 n at(1,2) ok v0 by (simp add: record_step_def next_turn_def sl)
  next
    assume p1: "pcs s ! t = E_item x rd"
    then have "q = (fq s)\<lparr>fq_vec := (fq_vec (fq s))[unat rd mod 2 ^ k := x]\<rparr>" "p = E_release rd"
      using st at(6) by (auto simp: fl_step_def lift_step_def sl)
    then show ?thesis
      using turn p1 n at(1,2,5) ok by (simp add: record_step_def next_turn_def sl)
  next
    assume p1: "pcs s ! t = E_release rd"
    then have "q = (fq s)\<lparr>flag_vec := (flag_vec (fq s))[unat rd mod 2 ^ k := rd]\<rparr>" "p = Put True"
      using st at(5) by (auto simp: fl_step_def lift_step_def sl)
    then show ?thesis
      using turn p1 n at(1,2) ok v1 by (simp add: record_step_def next_turn_def sl)
  qed
qed

text \<open>Steps that only look.\<close>

lemma fl_look:
  assumes inv: "fl_inv k s" "few s" and t: "t < length (pcs s)" and st: "fl_step (fq s) (pcs s ! t) = Some (q, p)"
    and c: "pcs s ! t \<in> {D_load_write, D_load_missed a, D_load_ahead a b, D_wait a, D_item a,
      E_load_read i, E_load_missed i a, E_load_ahead i a b, E_wait i a}
      \<or> pcs s ! t = D_check a b \<and> p = D_missed b \<or> pcs s ! t = E_check i a b \<and> p = E_missed b"
  shows "fl_inv k (s\<lparr>pcs := (pcs s)[t := p]\<rparr>) \<and> q = fq s"
proof -
  note I = fl_invD [OF inv(1)]
  note S = slots_invD [OF I(9)] note H = S(7) [OF t]
  note plain = fl_plain [OF inv(1) t, of p] note loc = fl_local [OF inv(1) t, of p]
  have ra: "att_ok (r_outs s) (r_att (pcs s ! t))" using side_invD(5) [OF I(7), of t] t by simp
  have wa: "att_ok (w_outs s) (w_att (pcs s ! t))" using side_invD(5) [OF I(8), of t] t by simp
  have ok: "call_ok (pcs s ! t)" by (rule I(10) [OF t])
  have mis: "unat (read_missed (fq s)) = misses (r_outs s)" "unat (write_missed (fq s)) = misses (w_outs s)"
    using inv(2) misses_length [of "r_outs s"] misses_length [of "w_outs s"]
    by (simp_all add: few_def side_invD(2) [OF I(7)] side_invD(2) [OF I(8)] unat_of_nat)
  have small: "unat a < 2 ^ 31" if "pcs s ! t = D_wait a \<or> pcs s ! t = E_wait i a"
    using that holder_okD(2) [OF H, of False "unat a"] holder_okD(2) [OF H, of True "unat a"] fl_few [OF inv] by auto
  consider "pcs s ! t = D_load_write" | "pcs s ! t = D_load_missed a" | "pcs s ! t = D_load_ahead a b" | "pcs s ! t = D_wait a"
    | "pcs s ! t = D_item a" | "pcs s ! t = E_load_read i" | "pcs s ! t = E_load_missed i a"
    | "pcs s ! t = E_load_ahead i a b" | "pcs s ! t = E_wait i a"
    | "pcs s ! t = D_check a b" "p = D_missed b" | "pcs s ! t = E_check i a b" "p = E_missed b"
    using c by blast
  then show ?thesis
  proof cases
    case 1 then show ?thesis using st plain by (auto simp: fl_step_def)
  next
    case 2 then show ?thesis using st loc mis by (auto simp: fl_step_def holder_ok_None)
  next
    case 3 then show ?thesis using st loc ra by (auto simp: fl_step_def holder_ok_None split: if_splits)
  next
    case 4
    obtain f where "vget (flag_vec (fq s)) (unat a mod 2 ^ k) = Inr f"
      "deq_version_ready f a \<longleftrightarrow> turn s (unat a mod 2 ^ k) = base (2 ^ k) (unat a) + 2"
      using deq_wait_turn [OF I(9,1,2) t 4 small] 4 by auto
    with 4 st have "q = fq s" "p = D_item a" "turn s (unat a mod 2 ^ k) = base (2 ^ k) (unat a) + 2"
      by (auto simp: fl_step_def slot_mod [OF inv(1)] split: if_splits)
    moreover have "holder_ok (2 ^ k) (put_log s) (taken s) (turn s) (D_item a)"
      using holder_okD(2) [OF H, of False "unat a"] 4 calculation(3) by (intro holder_okI) auto
    ultimately show ?thesis using loc 4 by simp
  next
    case 5
    have "q = fq s" "p = D_clear a (put_log s ! unat a)"
      using st 5 fl_item [OF inv(1) t 5] by (auto simp: fl_step_def lift_step_def)
    moreover have "holder_ok (2 ^ k) (put_log s) (taken s) (turn s) (D_clear a (put_log s ! unat a))"
      using holder_okD(2,4) [OF H, of False "unat a"] 5 by (intro holder_okI) auto
    ultimately show ?thesis using loc 5 by simp
  next
    case 6 then show ?thesis using st plain ok by (auto simp: fl_step_def)
  next
    case 7 then show ?thesis using st loc mis ok by (auto simp: fl_step_def holder_ok_None)
  next
    case 8 then show ?thesis using st loc wa ok by (auto simp: fl_step_def holder_ok_None split: if_splits)
  next
    case 9
    obtain f where "vget (flag_vec (fq s)) (unat a mod 2 ^ k) = Inr f"
      "f = a - (2 ^ k - 1) \<longleftrightarrow> turn s (unat a mod 2 ^ k) = base (2 ^ k) (unat a)"
      using enq_wait_turn [OF I(9,1,2) t 9 small] 9 by auto
    with 9 st have "q = fq s" "p = E_item i a" "turn s (unat a mod 2 ^ k) = base (2 ^ k) (unat a)"
      by (auto simp: fl_step_def slot_mod [OF inv(1)] I(4) split: if_splits)
    moreover have "holder_ok (2 ^ k) (put_log s) (taken s) (turn s) (E_item i a)"
      using holder_okD(1,2) [OF H, of True "unat a"] 9 calculation(3) by (intro holder_okI) auto
    ultimately show ?thesis using loc 9 by simp
  next
    case 10
    then show ?thesis using st loc ra by (auto simp: fl_step_def holder_ok_None split: if_splits)
  next
    case 11
    then show ?thesis using st loc wa by (auto simp: fl_step_def holder_ok_None split: if_splits)
  qed
qed

lemma fl_act:
  assumes inv: "fl_inv k s" "few s" and t: "t < length (pcs s)" and st: "fl_step (fq s) (pcs s ! t) = Some (q, p)"
  shows "fl_inv k (record_step (pcs s ! t) p (s\<lparr>fq := q, pcs := (pcs s)[t := p]\<rparr>))"
proof (cases "pcs s ! t")
  case (D_claim m)
  then show ?thesis using st fl_claim(1) [OF inv t D_claim] by (simp add: fl_step_def record_step_def)
next
  case (E_claim i m)
  then show ?thesis using st fl_claim(2) [OF inv t E_claim] by (simp add: fl_step_def record_step_def)
next
  case (D_check m x)
  show ?thesis
  proof (cases "fq_is_empty (x - m) (fq_write (fq s))")
    case True
    then have "q = fq s" "p = D_missed x" using st D_check by (auto simp: fl_step_def)
    then show ?thesis using fl_look [OF inv t st, of m x] D_check by (simp add: record_step_def)
  next
    case False
    then have "q = fq s" "p = D_ticket x" using st D_check by (auto simp: fl_step_def)
    then show ?thesis using fl_pass(1) [OF inv t D_check False] D_check by (simp add: record_step_def)
  qed
next
  case (E_check i m x)
  show ?thesis
  proof (cases "fq_is_full (fq s) (fq_read (fq s)) (x - m)")
    case True
    then have "q = fq s" "p = E_missed x" using st E_check by (auto simp: fl_step_def)
    then show ?thesis using fl_look [OF inv t st, of m x i] E_check by (simp add: record_step_def)
  next
    case False
    then have "q = fq s" "p = E_ticket i x" using st E_check by (auto simp: fl_step_def)
    then show ?thesis using fl_pass(2) [OF inv t E_check False] E_check by (simp add: record_step_def)
  qed
next
  case (D_ticket x)
  then show ?thesis using st fl_ticket(1) [OF inv t D_ticket] by (simp add: fl_step_def record_step_def)
next
  case (E_ticket i x)
  then show ?thesis using st fl_ticket(2) [OF inv t E_ticket] by (simp add: fl_step_def record_step_def)
next
  case (D_missed x)
  then show ?thesis using st fl_miss(1) [OF inv(1) t D_missed] by (simp add: fl_step_def record_step_def)
next
  case (E_missed x)
  then show ?thesis using st fl_miss(2) [OF inv(1) t E_missed] by (simp add: fl_step_def record_step_def)
next
  case (D_clear n x)
  then show ?thesis using fl_turn_step [OF inv(1) t st, of n x] by simp
next
  case (D_release n x)
  then show ?thesis using fl_turn_step [OF inv(1) t st, of n x] by simp
next
  case (E_item x n)
  then show ?thesis using fl_turn_step [OF inv(1) t st, of n x] by simp
next
  case (E_release n)
  then show ?thesis using fl_turn_step [OF inv(1) t st, of n] by simp
next
  case D_load_write
  then show ?thesis using fl_look [OF inv t st] by (simp add: record_step_def)
next
  case (D_load_missed a)
  then show ?thesis using fl_look [OF inv t st, of a] by (simp add: record_step_def)
next
  case (D_load_ahead a b)
  then show ?thesis using fl_look [OF inv t st, of a b] by (simp add: record_step_def)
next
  case (D_wait a)
  then show ?thesis using fl_look [OF inv t st, of a] by (simp add: record_step_def)
next
  case (D_item a)
  then show ?thesis using fl_look [OF inv t st, of a] by (simp add: record_step_def)
next
  case (E_load_read i)
  then show ?thesis using fl_look [OF inv t st, of _ _ i] by (simp add: record_step_def)
next
  case (E_load_missed i a)
  then show ?thesis using fl_look [OF inv t st, of a _ i] by (simp add: record_step_def)
next
  case (E_load_ahead i a b)
  then show ?thesis using fl_look [OF inv t st, of a b i] by (simp add: record_step_def)
next
  case (E_wait i a)
  then show ?thesis using fl_look [OF inv t st, of a _ i] by (simp add: record_step_def)
qed (use st in \<open>simp_all add: fl_step_def\<close>)

end
