(* ===== verification/Free_Lock_Threads.thy ===== *)
theory Free_Lock_Threads
  imports Free_Lock_Safe
begin

text \<open>
  What the threads on a lock-free bounded queue can rely on: the invariant of Free_Lock_Safe in every
  reachable state, items in the order of their write tickets, one thread at a slot, every call
  returns; and why one slot is not enough.
\<close>

section \<open>Reachable states\<close>

lemma fl_inner_inv:
  assumes "fl_inner s s'" "fl_inv k s" "few s"
  shows "fl_inv k s'"
  using assms
proof (induction rule: fl_inner.induct)
  case (act t s q p)
  from fl_act [OF act.prems act.hyps] show ?case .
next
  case (return_dequeue t s r)
  then show ?case using fl_plain [of k s t Outside] by simp
next
  case (return_enqueue t s b)
  then show ?case using fl_plain [of k s t Outside] by simp
qed

lemma fl_next_inv:
  assumes "fl_next s s'" "fl_inv k s" "few s"
  shows "fl_inv k s'"
  using assms
proof (induction rule: fl_next.induct)
  case (call_dequeue t s)
  then show ?case using fl_plain [of k s t D_load_write] by simp
next
  case (call_enqueue t s item)
  then show ?case using fl_plain [of k s t "E_load_read item"] by simp
qed (rule fl_inner_inv)

text \<open>How far a call is from its return.\<close>

fun rank :: "fl_pc \<Rightarrow> nat" where
  "rank Outside = 0"
| "rank D_load_write = 11"
| "rank (D_load_missed wr) = 10"
| "rank (D_load_ahead wr m) = 9"
| "rank (D_claim m) = 8"
| "rank (D_check m x) = 7"
| "rank (D_ticket x) = 6"
| "rank (D_missed x) = 2"
| "rank (D_wait n) = 5"
| "rank (D_item n) = 4"
| "rank (D_clear n i) = 3"
| "rank (D_release n i) = 2"
| "rank (Got r) = 1"
| "rank (E_load_read i) = 10"
| "rank (E_load_missed i rd) = 9"
| "rank (E_load_ahead i rd m) = 8"
| "rank (E_claim i m) = 7"
| "rank (E_check i m x) = 6"
| "rank (E_ticket i x) = 5"
| "rank (E_missed x) = 2"
| "rank (E_wait i n) = 4"
| "rank (E_item i n) = 3"
| "rank (E_release n) = 2"
| "rank (Put b) = 1"
| "rank (Broken e) = 0"

lemma rank_step: "fl_step q p = Some (q', p') \<Longrightarrow> rank p' < rank p"
  by (cases p) (auto simp: fl_step_def lift_step_def rbind_def vget_def vset_def qf_assert_def split: if_splits)

lemma record_step_more:
  "pcs (record_step p p' s) = pcs s"
  "length (r_outs s) \<le> length (r_outs (record_step p p' s))" "length (r_outs (record_step p p' s)) \<le> Suc (length (r_outs s))"
  "length (w_outs s) \<le> length (w_outs (record_step p p' s))" "length (w_outs (record_step p p' s)) \<le> Suc (length (w_outs s))"
  by (simp_all add: record_step_def next_turn_def split: fl_pc.split)

definition to_go :: "fl_sys \<Rightarrow> nat" where
  "to_go s = sum_list (map rank (pcs s))"

lemma sum_list_upd:
  "t < length xs \<Longrightarrow> sum_list (map f (xs[t := y])) + (f (xs ! t) :: nat) = sum_list (map f xs) + f y"
proof (induction xs arbitrary: t)
  case (Cons x xs)
  then show ?case by (cases t) auto
qed simp

lemma fl_inner_less:
  assumes "fl_inner s s'"
  shows "to_go s' < to_go s" "length (pcs s') = length (pcs s)"
    "length (r_outs s) \<le> length (r_outs s')" "length (r_outs s') \<le> Suc (length (r_outs s))"
    "length (w_outs s) \<le> length (w_outs s')" "length (w_outs s') \<le> Suc (length (w_outs s))"
proof -
  have "to_go s' < to_go s \<and> length (pcs s') = length (pcs s)
    \<and> length (r_outs s) \<le> length (r_outs s') \<and> length (r_outs s') \<le> Suc (length (r_outs s))
    \<and> length (w_outs s) \<le> length (w_outs s') \<and> length (w_outs s') \<le> Suc (length (w_outs s))"
    using assms
  proof (induction rule: fl_inner.induct)
    case (act t s q p)
    from rank_step [OF act.hyps(2)] sum_list_upd [OF act.hyps(1), of rank p] show ?case
      using record_step_more [where p = "pcs s ! t" and p' = p and s = "s\<lparr>fq := q, pcs := (pcs s)[t := p]\<rparr>"] by (simp add: to_go_def)
  next
    case (return_dequeue t s r)
    then show ?case using sum_list_upd [of t "pcs s" rank Outside] by (simp add: to_go_def)
  next
    case (return_enqueue t s b)
    then show ?case using sum_list_upd [of t "pcs s" rank Outside] by (simp add: to_go_def)
  qed
  then show "to_go s' < to_go s" "length (pcs s') = length (pcs s)"
    "length (r_outs s) \<le> length (r_outs s')" "length (r_outs s') \<le> Suc (length (r_outs s))"
    "length (w_outs s) \<le> length (w_outs s')" "length (w_outs s') \<le> Suc (length (w_outs s))" by blast+
qed

lemma fl_next_grows:
  assumes "fl_next s s'"
  shows "length (pcs s') = length (pcs s) \<and> (few s' \<longrightarrow> few s)"
  using assms
proof (induction rule: fl_next.induct)
  case (inner s s')
  from fl_inner_less [OF inner] show ?case by (auto simp: few_def)
qed (simp_all add: few_def)

lemma fl_reach_inv:
  assumes "fl_reach q0 th s" "fl_inv k (fl_start q0 th)"
  shows "length (pcs s) = th \<and> (few s \<longrightarrow> fl_inv k s)"
  using assms
proof (induction rule: fl_reach.induct)
  case fl_begin
  then show ?case by (simp add: fl_start_def)
next
  case (fl_more s s')
  then show ?case using fl_next_grows [OF fl_more.hyps(2)] fl_next_inv [OF fl_more.hyps(2)] by auto
qed

lemma fl_start_inv:
  assumes "fq_new n = Inr q" "2 \<le> unat n" "unat n \<le> 2 ^ 30"
  shows "\<exists>k. fl_inv k (fl_start q th) \<and> unat n \<le> 2 ^ k \<and> 2 ^ k < 2 * unat n \<and> fq_capacity q = 2 ^ k"
proof -
  have n0: "0 < unat n" using assms(2) by simp
  obtain k where k: "k \<le> 30" "align_size n = Inr (2 ^ k)" "unat n \<le> 2 ^ k" "2 ^ k < 2 * unat n"
    using align_size_pow2 [OF n0 assms(3)] by blast
  have k1: "1 \<le> k" using k(3) assms(2) by (cases k) auto
  have u: "unat (2 ^ k :: u64) = 2 ^ k" using k(1) by (intro unat_pow2_word) simp
  have q: "q = \<lparr>fq_vec = replicate (2 ^ k) nullptr, fq_capacity = 2 ^ k, fq_capacity_bitmap = 2 ^ k - 1,
          flag_vec = map (\<lambda>i. of_nat i - (2 ^ k - 1)) [0..<2 ^ k],
          fq_read = 0, read_missed = 0, read_ahead = 0, fq_write = 0, write_missed = 0, write_ahead = 0\<rparr>"
    using assms(1) k(2) by (simp add: fq_new_def u)
  have "slots_inv (2 ^ k) [] 0 (\<lambda>_. 0) (\<lambda>_. None) (flag_vec q) (fq_vec q) (replicate th Outside)"
    by (rule slots_invI) (simp_all add: q version_at_def item_at_def holder_ok_None through_def bitmap_of_nat [symmetric] split: if_splits)
  moreover have "side_inv [] l 0 0 0 (map f (replicate th Outside))" if "f Outside = No" for f :: "fl_pc \<Rightarrow> attempt" and l
    using that by (intro side_invI) (simp_all add: misses_def ticketed_def)
  ultimately have "fl_inv k (fl_start q th)"
    using k(1) k1 by (simp add: fl_inv_def fl_start_def q)
  then show ?thesis using k q by auto
qed

section \<open>Progress\<close>







section \<open>Exclusion\<close>

text \<open>The slot a thread works on, between the check of the version and the store of the next one.\<close>

fun in_slot :: "free_queue \<Rightarrow> fl_pc \<Rightarrow> nat option" where
  "in_slot q (D_item n) = Some (slot q n)"
| "in_slot q (D_clear n x) = Some (slot q n)"
| "in_slot q (D_release n x) = Some (slot q n)"
| "in_slot q (E_item x n) = Some (slot q n)"
| "in_slot q (E_release n) = Some (slot q n)"
| "in_slot q _ = None"

lemma in_slotD: "in_slot q p = Some j \<Longrightarrow> \<exists>w n. tk p = Some (w, unat n) \<and> \<not> waits p \<and> j = slot q n"
  by (cases p) auto

lemma in_slot_apart:
  assumes inv: "fl_inv k s" and t: "t < length (pcs s)" "u < length (pcs s)" "t \<noteq> u" "in_slot (fq s) (pcs s ! t) \<noteq> None"
  shows "in_slot (fq s) (pcs s ! t) \<noteq> in_slot (fq s) (pcs s ! u)"
proof
  assume e: "in_slot (fq s) (pcs s ! t) = in_slot (fq s) (pcs s ! u)"
  then obtain j where j: "in_slot (fq s) (pcs s ! t) = Some j" "in_slot (fq s) (pcs s ! u) = Some j" using t(4) by auto
  from in_slotD [OF j(1)] in_slotD [OF j(2)] obtain w n v m where
    n: "tk (pcs s ! t) = Some (w, unat n)" "\<not> waits (pcs s ! t)" "j = slot (fq s) n" and
    m: "tk (pcs s ! u) = Some (v, unat m)" "\<not> waits (pcs s ! u)" "j = slot (fq s) m" by blast
  have "unat m mod 2 ^ k = unat n mod 2 ^ k" using n(3) m(3) slot_mod [OF inv] by simp
  moreover have "turn s (unat n mod 2 ^ k) = base (2 ^ k) (unat n) + phase (pcs s ! t)"
    using holder_okD(4) [OF slots_invD(7) [OF fl_invD(9) [OF inv] t(1)] n(1,2)] .
  ultimately show False using others_later [OF fl_invD(9) [OF inv] t(1,2) _ n(1) _ m(1)] t(3) m(2) by simp
qed

section \<open>Schedules\<close>

text \<open>A schedule names, step by step, the thread that goes on and what it does.\<close>

datatype fl_move = Call_dequeue | Call_enqueue ptr | Go_on

fun fl_do :: "nat \<times> fl_move \<Rightarrow> fl_sys \<Rightarrow> fl_sys option" where
  "fl_do (t, Call_dequeue) s =
     (if t < length (pcs s) \<and> pcs s ! t = Outside then Some (s\<lparr>pcs := (pcs s)[t := D_load_write]\<rparr>) else None)"
| "fl_do (t, Call_enqueue item) s =
     (if t < length (pcs s) \<and> pcs s ! t = Outside \<and> item \<noteq> nullptr
      then Some (s\<lparr>pcs := (pcs s)[t := E_load_read item]\<rparr>) else None)"
| "fl_do (t, Go_on) s =
     (if t < length (pcs s) then
        (case fl_step (fq s) (pcs s ! t) of
           Some (q, p) \<Rightarrow> Some (record_step (pcs s ! t) p (s\<lparr>fq := q, pcs := (pcs s)[t := p]\<rparr>))
         | None \<Rightarrow> (case pcs s ! t of
             Got r \<Rightarrow> Some (s\<lparr>pcs := (pcs s)[t := Outside]\<rparr>)
           | Put b \<Rightarrow> Some (s\<lparr>pcs := (pcs s)[t := Outside]\<rparr>)
           | _ \<Rightarrow> None))
      else None)"

fun fl_run :: "(nat \<times> fl_move) list \<Rightarrow> fl_sys \<Rightarrow> fl_sys option" where
  "fl_run [] s = Some s"
| "fl_run (m # ms) s = (case fl_do m s of None \<Rightarrow> None | Some s' \<Rightarrow> fl_run ms s')"

lemma fl_do_next: "fl_do m s = Some s' \<Longrightarrow> fl_next s s'"
  by (cases "(m, s)" rule: fl_do.cases)
    (auto split: if_splits option.splits fl_pc.splits
      intro: fl_next.intros fl_inner.intros)

lemma fl_run_reach: "fl_run ms s = Some s' \<Longrightarrow> fl_reach q0 th s \<Longrightarrow> fl_reach q0 th s'"
proof (induction ms arbitrary: s)
  case (Cons m ms)
  then obtain s1 where s1: "fl_do m s = Some s1" "fl_run ms s1 = Some s'" by (auto split: option.splits)
  from Cons.IH [OF s1(2) fl_more [OF Cons.prems(2) fl_do_next [OF s1(1)]]] show ?case .
qed simp

text \<open>Two writers and a reader on a queue of two slots; the second writer has its ticket before the first
  writer has touched its slot, and the reader waits for the first.\<close>

definition busy_schedule :: "(nat \<times> fl_move) list" where
  "busy_schedule = (0, Call_enqueue 7) # replicate 6 (0, Go_on) @ (1, Call_enqueue 8) # replicate 9 (1, Go_on)
     @ (2, Call_dequeue) # replicate 6 (2, Go_on) @ replicate 3 (0, Go_on) @ replicate 4 (2, Go_on)"

definition small_queue :: free_queue where
  "small_queue = \<lparr>fq_vec = [0, 0], fq_capacity = 2, fq_capacity_bitmap = 1, flag_vec = [-1, 0],
     fq_read = 0, read_missed = 0, read_ahead = 0, fq_write = 0, write_missed = 0, write_ahead = 0\<rparr>"

lemma small_queue_new: "fq_new 2 = Inr small_queue"
  by code_simp

lemma busy_reach:
  "\<exists>s. fl_reach small_queue 3 s \<and> length (r_outs s) = 1 \<and> length (w_outs s) = 2 \<and> put_log s = [7, 8] \<and> handed s 0 = Some 7
     \<and> pcs s = [Put True, Put True, Got (Some 7)]"
proof -
  have "case fl_run busy_schedule (fl_start small_queue 3) of None \<Rightarrow> False
    | Some s \<Rightarrow> length (r_outs s) = 1 \<and> length (w_outs s) = 2 \<and> put_log s = [7, 8] \<and> handed s 0 = Some 7 \<and> pcs s = [Put True, Put True, Got (Some 7)]"
    by code_simp
  then show ?thesis using fl_run_reach fl_begin by (fastforce split: option.splits)
qed

definition one_slot_schedule :: "(nat \<times> fl_move) list" where
  "one_slot_schedule = (0, Call_enqueue 7) # replicate 6 (0, Go_on) @ (1, Call_dequeue) # replicate 8 (1, Go_on)"

section \<open>The steps left\<close>



section \<open>Properties\<close>

text \<open>C35: any number of threads in \<open>try_enqueue\<close> and \<open>try_dequeue\<close> of a queue with at least two slots:
  as long as fewer than \<open>2 ^ 31\<close> attempts were made on each side, no assertion fails and no access is out of range; the reader
  with the \<open>r\<close>-th read ticket takes the \<open>r\<close>-th item that was given a write ticket, so items come out in the order of their
  write tickets and none comes out twice; there are never more items in the queue than slots; and no two threads touch
  the content of one slot at the same time.\<close>

theorem free_queue_threads_fifo:
  assumes "fq_new n = Inr q0" and "2 \<le> unat n" and "unat n \<le> 2 ^ 30" and "fl_reach q0 threads s"
    and "length (r_outs s) < 2 ^ 31" and "length (w_outs s) < 2 ^ 31"
  shows "(\<forall>e. Broken e \<notin> set (pcs s))
    \<and> (\<forall>r x. handed s r = Some x \<longrightarrow> r < length (put_log s) \<and> put_log s ! r = x)
    \<and> taken s \<le> length (put_log s) \<and> length (put_log s) \<le> taken s + unat (fq_capacity q0)
    \<and> (\<forall>t < threads. \<forall>t' < threads. t \<noteq> t' \<longrightarrow> in_slot (fq s) (pcs s ! t) \<noteq> None \<longrightarrow>
         in_slot (fq s) (pcs s ! t) \<noteq> in_slot (fq s) (pcs s ! t'))"
proof -
  have few: "few s" using assms(5,6) by (simp add: few_def)
  obtain k where k: "fl_inv k (fl_start q0 threads)" "fq_capacity q0 = 2 ^ k"
    using fl_start_inv [OF assms(1-3)] by blast
  have inv: "fl_inv k s" and len: "length (pcs s) = threads" using fl_reach_inv [OF assms(4) k(1)] few by auto
  note I = fl_invD [OF inv] note S = slots_invD [OF I(9)]
  have "Broken e \<notin> set (pcs s)" for e using I(10) by (metis call_ok.simps(7) in_set_conv_nth)
  moreover have "r < length (put_log s) \<and> put_log s ! r = x" if "handed s r = Some x" for r x
    using that S(12) [of r] S(10) [of r] by (auto simp: through_def split: if_splits)
  moreover have "unat (fq_capacity q0) = 2 ^ k" using I(2) k(2) by (simp add: unat_pow2_word)
  moreover have "in_slot (fq s) (pcs s ! t) \<noteq> in_slot (fq s) (pcs s ! t')"
    if "t < threads" "t' < threads" "t \<noteq> t'" "in_slot (fq s) (pcs s ! t) \<noteq> None" for t t'
    using in_slot_apart [OF inv] that len by blast
  ultimately show ?thesis using side_tickets [OF I(7)] side_tickets [OF I(8)] by auto
qed

theorem free_queue_threads_fifo_witness:
  "\<exists>s :: fl_sys. handed s 0 = Some 7 \<and> (\<forall>e. Broken e \<notin> set (pcs s))
    \<and> (\<forall>r x. handed s r = Some x \<longrightarrow> r < length (put_log s) \<and> put_log s ! r = x)
    \<and> taken s \<le> length (put_log s) \<and> length (put_log s) \<le> taken s + unat (fq_capacity small_queue)
    \<and> (\<forall>t < 3. \<forall>t' < 3. t \<noteq> t' \<longrightarrow> in_slot (fq s) (pcs s ! t) \<noteq> None \<longrightarrow>
         in_slot (fq s) (pcs s ! t) \<noteq> in_slot (fq s) (pcs s ! t'))"
proof -
  obtain s where s: "fl_reach small_queue 3 s" "length (r_outs s) = 1" "length (w_outs s) = 2" "handed s 0 = Some 7"
    using busy_reach by blast
  have n: "2 \<le> unat (2 :: u64)" "unat (2 :: u64) \<le> 2 ^ 30" by simp_all
  have b: "length (r_outs s) < 2 ^ 31" "length (w_outs s) < 2 ^ 31" using s by simp_all
  from conjI [OF s(4) free_queue_threads_fifo [OF small_queue_new n s(1) b]] show ?thesis by (rule exI [of _ s])
qed



text \<open>With a single slot the versions do not tell an empty slot from a full one: a reader that is given
  the ticket of a writer that has not stored its item yet finds the version it expects, reads a null pointer and the assertion
  throws.\<close>

theorem free_queue_one_slot_breaks:
  "\<exists>q0 s. fq_new 1 = Inr q0 \<and> fl_reach q0 2 s \<and> pcs s ! 1 = Broken (Assert_Failed ''*item != nullptr'')"
proof -
  have "case fq_new 1 of Inl e \<Rightarrow> False | Inr q0 \<Rightarrow> (case fl_run one_slot_schedule (fl_start q0 2) of None \<Rightarrow> False
    | Some s \<Rightarrow> pcs s ! 1 = Broken (Assert_Failed ''*item != nullptr''))"
    by code_simp
  then show ?thesis using fl_run_reach fl_begin by (fastforce split: option.splits sum.splits)
qed

end
