(* ===== verification/Error_Rate.thy ===== *)
theory Error_Rate
  imports Util Complex_Main
begin

text \<open>
  head/error_rate.h and src/error_rate.cpp: \<open>LocalErrorRate\<close> keeps the outcomes of the last
  \<open>bit_size\<close> calls in a circular bit vector of 64-bit words; \<open>error_cnt\<close> counts the set bits
  byte by byte with a table.
\<close>

section \<open>State and operations\<close>

record error_rate =
  er_idx :: u64
  er_container :: "u64 list"
  er_bit_size :: u64
  er_high_bit :: i32

definition low_bit :: u64 where
  "low_bit = push_bit 6 1 - 1"

definition fast :: "nat list" where
  "fast = [
     0, 1, 1, 2, 1, 2, 2, 3, 1, 2, 2, 3, 2, 3, 3, 4,
     1, 2, 2, 3, 2, 3, 3, 4, 2, 3, 3, 4, 3, 4, 4, 5,
     1, 2, 2, 3, 2, 3, 3, 4, 2, 3, 3, 4, 3, 4, 4, 5,
     2, 3, 3, 4, 3, 4, 4, 5, 3, 4, 4, 5, 4, 5, 5, 6,
     1, 2, 2, 3, 2, 3, 3, 4, 2, 3, 3, 4, 3, 4, 4, 5,
     2, 3, 3, 4, 3, 4, 4, 5, 3, 4, 4, 5, 4, 5, 5, 6,
     2, 3, 3, 4, 3, 4, 4, 5, 3, 4, 4, 5, 4, 5, 5, 6,
     3, 4, 4, 5, 4, 5, 5, 6, 4, 5, 5, 6, 5, 6, 6, 7,
     1, 2, 2, 3, 2, 3, 3, 4, 2, 3, 3, 4, 3, 4, 4, 5,
     2, 3, 3, 4, 3, 4, 4, 5, 3, 4, 4, 5, 4, 5, 5, 6,
     2, 3, 3, 4, 3, 4, 4, 5, 3, 4, 4, 5, 4, 5, 5, 6,
     3, 4, 4, 5, 4, 5, 5, 6, 4, 5, 5, 6, 5, 6, 6, 7,
     2, 3, 3, 4, 3, 4, 4, 5, 3, 4, 4, 5, 4, 5, 5, 6,
     3, 4, 4, 5, 4, 5, 5, 6, 4, 5, 5, 6, 5, 6, 6, 7,
     3, 4, 4, 5, 4, 5, 5, 6, 4, 5, 5, 6, 5, 6, 6, 7,
     4, 5, 5, 6, 5, 6, 6, 7, 5, 6, 6, 7, 6, 7, 7, 8]"

text \<open>The constructor's \<open>int\<close> argument is converted to \<open>uint64_t\<close>; \<open>tmp\<close> is an \<open>int\<close>.\<close>

definition er_new :: "i32 \<Rightarrow> error_rate result" where
  "er_new bit_size' =
     rbind (align_size (to_u64 bit_size')) (\<lambda>bs.
       let tmp = (ucast (bs div 64) :: i32) in
       Inr \<lparr>er_idx = 0, er_container = replicate (unat (to_u64 tmp)) 0, er_bit_size = bs,
            er_high_bit = tmp - 1\<rparr>)"

definition er_slot :: "error_rate \<Rightarrow> nat" where
  "er_slot e = unat (drop_bit 6 (er_idx e) AND to_u64 (er_high_bit e))"

definition record_error :: "error_rate \<Rightarrow> error_rate result" where
  "record_error e =
     (let op = push_bit (unat (er_idx e AND low_bit)) 1 in
      rbind (vget (er_container e) (er_slot e)) (\<lambda>c.
      rbind (vset (er_container e) (er_slot e) (c OR op)) (\<lambda>v.
        Inr (e\<lparr>er_container := v, er_idx := er_idx e + 1\<rparr>))))"

definition record_success :: "error_rate \<Rightarrow> error_rate result" where
  "record_success e =
     (let op = NOT (push_bit (unat (er_idx e AND low_bit)) 1) in
      rbind (vget (er_container e) (er_slot e)) (\<lambda>c.
      rbind (vset (er_container e) (er_slot e) (c AND op)) (\<lambda>v.
        Inr (e\<lparr>er_container := v, er_idx := er_idx e + 1\<rparr>))))"

text \<open>The inner loop of \<open>error_cnt\<close>: add the table entry of each byte until no bit is left.\<close>

function byte_loop :: "u64 \<Rightarrow> nat \<Rightarrow> nat" where
  "byte_loop c res =
     (if c > 0 then byte_loop (drop_bit 8 c) (res + fast ! unat (c AND 0xff)) else res)"
  by pat_completeness auto
termination
proof (relation "measure (\<lambda>(c, res). unat c)")
  fix c :: u64 and res :: nat
  assume "0 < c"
  then have "0 < unat c" by (simp add: word_less_nat_alt)
  then show "((drop_bit 8 c, res + fast ! unat (c AND 0xff)), c, res) \<in> measure (\<lambda>(c, res). unat c)"
    by (simp add: drop_bit_eq_div unat_div)
qed simp

declare byte_loop.simps [simp del]

text \<open>\<open>high_bit\<close> is compared as a 64-bit unsigned number: \<open>- 1\<close> stands for \<open>2 ^ 64 - 1\<close>.\<close>

definition error_cnt :: "error_rate \<Rightarrow> nat result" where
  "error_cnt e = rfold (\<lambda>i res. rbind (vget (er_container e) i) (\<lambda>c. Inr (byte_loop c res)))
     [0..<Suc (unat (to_u64 (er_high_bit e)))] 0"

definition er_get :: "error_rate \<Rightarrow> real result" where
  "er_get e = rbind (error_cnt e) (\<lambda>n. Inr (real n / 128))"

definition record_all :: "bool list \<Rightarrow> error_rate \<Rightarrow> error_rate result" where
  "record_all = rfold (\<lambda>b. if b then record_error else record_success)"

section \<open>The table counts the bits of a byte\<close>

fun popcount :: "nat \<Rightarrow> nat" where
  "popcount n = (if n = 0 then 0 else n mod 2 + popcount (n div 2))"

declare popcount.simps [simp del]

lemma popcount_0 [simp]: "popcount 0 = 0"
  by (simp add: popcount.simps)

lemma popcount_step: "popcount n = n mod 2 + popcount (n div 2)"
  by (cases "n = 0") (auto simp: popcount.simps [of n])

lemma length_fast: "length fast = 256"
  by (simp add: fast_def)

lemma fast_popcount_all: "map popcount [0..<256] = fast"
  by (simp add: fast_def popcount.simps upt_rec)

lemma fast_popcount: "b < 256 \<Longrightarrow> fast ! b = popcount b"
  by (simp flip: fast_popcount_all)

lemma popcount_split: "popcount n = popcount (n mod 2 ^ k) + popcount (n div 2 ^ k)"
proof (induction k arbitrary: n)
  case (Suc k)
  have "popcount n = n mod 2 + (popcount (n div 2 mod 2 ^ k) + popcount (n div 2 div 2 ^ k))"
    using popcount_step [of n] Suc.IH [of "n div 2"] by simp
  moreover have "popcount (n mod 2 ^ Suc k) = n mod 2 + popcount (n div 2 mod 2 ^ k)"
    using popcount_step [of "n mod 2 ^ Suc k"]
    by (simp add: mod_mult2_eq)
  ultimately show ?case by (simp add: div_mult2_eq)
qed simp

lemma popcount_bits: "n < 2 ^ k \<Longrightarrow> popcount n = length (filter (bit n) [0..<k])"
proof (induction k arbitrary: n)
  case (Suc k)
  have "filter (bit n) [0..<Suc k] = (if odd n then [0] else []) @ map Suc (filter (bit (n div 2)) [0..<k])"
    by (simp add: upt_conv_Cons filter_map o_def bit_Suc bit_0 del: upt_Suc flip: map_Suc_upt)
  then have "length (filter (bit n) [0..<Suc k]) = n mod 2 + popcount (n div 2)"
    using Suc by (simp add: odd_iff_mod_2_eq_one)
  then show ?case using popcount_step [of n] by simp
qed simp

lemma byte_loop_popcount: "byte_loop c res = res + popcount (unat c)"
proof (induction c res rule: byte_loop.induct)
  case (1 c res)
  show ?case
  proof (cases "c > 0")
    case True
    have "unat (c AND 0xff) = unat c mod 2 ^ 8" by (rule unat_and_mask) simp_all
    moreover have "unat (drop_bit 8 c) = unat c div 2 ^ 8"
      by (simp add: drop_bit_eq_div unat_div)
    ultimately show ?thesis
      using 1 [OF True] True popcount_split [of "unat c" 8]
      by (simp add: byte_loop.simps [of c] fast_popcount)
  next
    case False
    then have "c = 0" by (simp add: word_neq_0_conv [symmetric])
    then show ?thesis by (simp add: byte_loop.simps [of 0])
  qed
qed

lemma byte_loop_bits: "byte_loop c res = res + length (filter (bit c) [0..<64])"
proof -
  have "unat c < 2 ^ 64" using unsigned_less [of c] by simp
  then have "popcount (unat c) = length (filter (bit (unat c)) [0..<64])" by (rule popcount_bits)
  also have "filter (bit (unat c)) [0..<64] = filter (bit c) [0..<64]"
    by (intro filter_cong) (auto simp: bit_unsigned_iff)
  finally show ?thesis by (simp add: byte_loop_popcount)
qed

section \<open>The bits as a ring\<close>

definition er_bits :: "error_rate \<Rightarrow> bool list" where
  "er_bits e = map (\<lambda>p. bit (er_container e ! (p div 64)) (p mod 64)) [0..<64 * length (er_container e)]"

definition er_shape :: "nat \<Rightarrow> error_rate \<Rightarrow> bool" where
  "er_shape j e \<longleftrightarrow> j \<le> 24 \<and> length (er_container e) = 2 ^ j
     \<and> er_high_bit e = of_nat (2 ^ j - 1) \<and> er_bit_size e = 2 ^ (j + 6)"

text \<open>After the history \<open>h\<close>, the ring holds the last \<open>bit_size\<close> outcomes, oldest first.\<close>

definition er_inv :: "nat \<Rightarrow> bool list \<Rightarrow> error_rate \<Rightarrow> bool" where
  "er_inv j h e \<longleftrightarrow> er_shape j e \<and> er_idx e = of_nat (length h)
     \<and> ring_span (er_bits e) (length h) (2 ^ (j + 6))
       = drop (length h) (replicate (2 ^ (j + 6)) False @ h)"

lemma length_er_bits: "er_shape j e \<Longrightarrow> length (er_bits e) = 2 ^ (j + 6)"
  by (simp add: er_bits_def er_shape_def power_add)

lemma er_high_mask:
  assumes "er_shape j e"
  shows "to_u64 (er_high_bit e) = 2 ^ j - 1"
proof -
  have "(2::nat) ^ j \<le> 2 ^ 24" using assms by (intro power_increasing) (auto simp: er_shape_def)
  then have "(2::nat) ^ j - 1 < 2 ^ 31" by simp
  then have "to_u64 (of_nat (2 ^ j - 1)) = of_nat (2 ^ j - 1)" by (rule to_u64_of_nat)
  with assms show ?thesis by (simp add: er_shape_def of_nat_diff)
qed

lemma er_slot_eq:
  assumes "er_shape j e"
  shows "er_slot e = unat (er_idx e) mod 2 ^ (j + 6) div 64"
proof -
  have "er_slot e = unat (drop_bit 6 (er_idx e)) mod 2 ^ j"
    unfolding er_slot_def er_high_mask [OF assms]
    using assms by (intro unat_and_mask) (auto simp: er_shape_def)
  moreover have "(2::nat) ^ (j + 6) = 64 * 2 ^ j" by (simp add: power_add)
  ultimately show ?thesis
    by (simp add: drop_bit_eq_div unat_div mod_mult2_eq [of _ 64])
qed

lemma er_bit_eq: "unat (er_idx e AND low_bit) = unat (er_idx e) mod 2 ^ (j + 6) mod 64"
proof -
  have "unat (er_idx e AND low_bit) = unat (er_idx e) mod 2 ^ 6"
    by (rule unat_and_mask) (simp_all add: low_bit_def)
  then show ?thesis by (simp add: power_add mod_mod_cancel)
qed

lemma er_bits_upd:
  assumes "p < 64 * length (er_container e)"
    and "\<And>i. i < 64 \<Longrightarrow> bit c i = (if i = p mod 64 then b else bit (er_container e ! (p div 64)) i)"
  shows "er_bits (e\<lparr>er_container := (er_container e)[p div 64 := c], er_idx := x\<rparr>)
    = (er_bits e)[p := b]"
proof (rule nth_equalityI)
  fix q assume "q < length (er_bits (e\<lparr>er_container := (er_container e)[p div 64 := c], er_idx := x\<rparr>))"
  then have q: "q < 64 * length (er_container e)" by (simp add: er_bits_def)
  have d: "p div 64 < length (er_container e)" using assms(1) by auto
  have eq: "q = p \<longleftrightarrow> q div 64 = p div 64 \<and> q mod 64 = p mod 64"
    by (metis div_mod_decomp)
  show "er_bits (e\<lparr>er_container := (er_container e)[p div 64 := c], er_idx := x\<rparr>) ! q
      = (er_bits e)[p := b] ! q"
    using q d assms(1) assms(2) [of "q mod 64"] eq
    by (cases "q div 64 = p div 64") (auto simp: er_bits_def nth_list_update)
qed (simp add: er_bits_def)

definition record_op :: "bool \<Rightarrow> error_rate \<Rightarrow> error_rate result" where
  "record_op b = (if b then record_error else record_success)"

lemma record_op_bits:
  assumes "er_shape j e"
  shows "\<exists>e'. record_op b e = Inr e' \<and> er_shape j e' \<and> er_idx e' = er_idx e + 1
    \<and> er_bits e' = (er_bits e)[unat (er_idx e) mod 2 ^ (j + 6) := b]"
proof -
  let ?p = "unat (er_idx e) mod 2 ^ (j + 6)"
  let ?c = "er_container e ! (?p div 64)"
  let ?m = "push_bit (?p mod 64) (1 :: u64)"
  let ?c' = "if b then ?c OR ?m else ?c AND NOT ?m"
  let ?e = "e\<lparr>er_container := (er_container e)[?p div 64 := ?c'], er_idx := er_idx e + 1\<rparr>"
  have len: "64 * length (er_container e) = 2 ^ (j + 6)"
    using assms by (simp add: er_shape_def power_add)
  then have p: "?p < 64 * length (er_container e)" by simp
  then have d: "?p div 64 < length (er_container e)" by auto
  have "record_op b e = Inr ?e"
    using d by (cases b) (simp_all add: record_op_def record_error_def record_success_def Let_def
        er_slot_eq [OF assms] er_bit_eq [of e j])
  moreover have "bit ?c' i = (if i = ?p mod 64 then b else bit ?c i)" if "i < 64" for i
    using that by (auto simp: bit_simps)
  then have "er_bits ?e = (er_bits e)[?p := b]" by (intro er_bits_upd [OF p]) auto
  moreover have "er_shape j ?e" using assms by (simp add: er_shape_def)
  ultimately show ?thesis by auto
qed

lemma record_op_inv:
  assumes "er_inv j h e"
  shows "\<exists>e'. record_op b e = Inr e' \<and> er_inv j (h @ [b]) e'"
proof -
  let ?N = "2 ^ (j + 6) :: nat" and ?n = "length h" and ?B = "er_bits e"
  have sh: "er_shape j e" and idx: "er_idx e = of_nat ?n"
    and span: "ring_span ?B ?n ?N = drop ?n (replicate ?N False @ h)"
    using assms by (auto simp: er_inv_def)
  obtain e' where e': "record_op b e = Inr e'" "er_shape j e'" "er_idx e' = er_idx e + 1"
    "er_bits e' = ?B[unat (er_idx e) mod ?N := b]"
    using record_op_bits [OF sh] by blast
  have "(2::nat) ^ (j + 6) dvd 2 ^ 64" using sh by (intro le_imp_power_dvd) (simp add: er_shape_def)
  then have pos: "unat (er_idx e) mod ?N = ?n mod ?N"
    by (simp add: idx unat_of_nat mod_mod_cancel)
  have len: "length ?B = ?N" by (rule length_er_bits [OF sh])
  obtain M where M: "?N = Suc M" by (metis not0_implies_Suc power_not_zero zero_neq_numeral)
  have "ring_span ?B ?n ?N = ?B ! (?n mod ?N) # ring_span ?B (Suc ?n) M"
    unfolding M using len M by (simp add: ring_span_Suc_front)
  then have tl: "ring_span ?B (Suc ?n) M = drop (Suc ?n) (replicate ?N False @ h)"
    using span by (metis drop_Suc list.sel(3) tl_drop)
  have "(Suc ?n + M) mod ?N = ?n mod ?N" using M by (metis add_Suc_shift mod_add_self2)
  then have "ring_span (er_bits e') (Suc ?n) ?N = ring_span ?B (Suc ?n) M @ [b]"
    unfolding e'(4) pos using ring_span_snoc [of M ?B "Suc ?n" b] len M by simp
  also have "\<dots> = drop (Suc ?n) (replicate ?N False @ h @ [b])"
    unfolding tl using M by simp
  finally have "er_inv j (h @ [b]) e'"
    using e'(2,3) idx by (simp add: er_inv_def)
  with e'(1) show ?thesis by blast
qed

lemma record_all_inv:
  assumes "er_inv j h e"
  shows "\<exists>e'. record_all bs e = Inr e' \<and> er_inv j (h @ bs) e'"
  using assms
proof (induction bs arbitrary: h e)
  case (Cons b bs)
  obtain e1 where "record_op b e = Inr e1" "er_inv j (h @ [b]) e1"
    using record_op_inv [OF Cons.prems] by blast
  with Cons.IH [of "h @ [b]" e1] show ?case
    by (auto simp: record_all_def record_op_def split: if_splits)
qed (simp add: record_all_def)

section \<open>The count\<close>

definition errors_in :: "bool list \<Rightarrow> nat" where
  "errors_in bs = length (filter id bs)"

lemma errors_in_append: "errors_in (xs @ ys) = errors_in xs + errors_in ys"
  by (simp add: errors_in_def)

text \<open>Read from any start position, the whole ring has the same number of errors.\<close>

lemma errors_in_ring_span:
  assumes "length v = n"
  shows "errors_in (ring_span v s n) = errors_in v"
proof -
  have "ring_span v s n = rotate s v"
    using assms by (intro nth_equalityI) (auto simp: ring_span_def nth_rotate)
  also have "\<dots> = drop (s mod n) v @ take (s mod n) v"
    using assms by (simp add: rotate_drop_take)
  also have "errors_in \<dots> = errors_in (take (s mod n) v @ drop (s mod n) v)"
    by (simp only: errors_in_append add.commute)
  finally show ?thesis by simp
qed

lemma error_cnt_words:
  "n \<le> length (er_container e) \<Longrightarrow>
   rfold (\<lambda>i res. rbind (vget (er_container e) i) (\<lambda>c. Inr (byte_loop c res))) [0..<n] 0
   = Inr (errors_in (map (\<lambda>p. bit (er_container e ! (p div 64)) (p mod 64)) [0..<64 * n]))"
proof (induction n)
  case (Suc n)
  let ?g = "\<lambda>p. bit (er_container e ! (p div 64)) (p mod 64)"
  have "[0..<64 * Suc n] = [0..<64 * n] @ map (\<lambda>i. i + 64 * n) [0..<64]"
    unfolding map_add_upt using upt_add_eq_append [of 0 "64 * n" 64] by (simp add: add.commute)
  moreover have "map ?g (map (\<lambda>i. i + 64 * n) [0..<64]) = map (bit (er_container e ! n)) [0..<64]"
    by simp
  ultimately have "errors_in (map ?g [0..<64 * Suc n])
      = errors_in (map ?g [0..<64 * n]) + errors_in (map (bit (er_container e ! n)) [0..<64])"
    by (simp only: map_append errors_in_append)
  moreover have "errors_in (map (bit c) [0..<64]) = length (filter (bit c) [0..<64])" for c :: u64
    by (simp add: errors_in_def filter_map o_def)
  ultimately show ?case
    using Suc by (simp add: rfold_append byte_loop_bits)
qed (simp add: errors_in_def)

lemma error_cnt_bits:
  assumes "er_shape j e"
  shows "error_cnt e = Inr (errors_in (er_bits e))"
proof -
  have "j < 64" using assms by (simp add: er_shape_def)
  then have "unat ((2::u64) ^ j - 1) = 2 ^ j - 1"
    by (subst unat_minus_one) (simp_all add: unat_pow2_word pow2_neq_0)
  then have "Suc (unat (to_u64 (er_high_bit e))) = length (er_container e)"
    unfolding er_high_mask [OF assms] using assms by (simp add: er_shape_def)
  then show ?thesis
    using error_cnt_words [of "length (er_container e)" e]
    by (simp add: error_cnt_def er_bits_def)
qed

lemma error_cnt_inv:
  assumes "er_inv j h e"
  shows "error_cnt e = Inr (errors_in (drop (length h) (replicate (2 ^ (j + 6)) False @ h)))"
proof -
  have sh: "er_shape j e" and span: "ring_span (er_bits e) (length h) (2 ^ (j + 6))
      = drop (length h) (replicate (2 ^ (j + 6)) False @ h)"
    using assms by (auto simp: er_inv_def)
  have "errors_in (er_bits e) = errors_in (ring_span (er_bits e) (length h) (2 ^ (j + 6)))"
    by (simp add: errors_in_ring_span length_er_bits [OF sh])
  with error_cnt_bits [OF sh] span show ?thesis by simp
qed

text \<open>The errors among the last \<open>n\<close> outcomes; calls before the first count as successes.\<close>

definition recent_errors :: "nat \<Rightarrow> bool list \<Rightarrow> nat" where
  "recent_errors n h = errors_in (drop (length h - n) h)"

lemma errors_in_window: "errors_in (drop (length h) (replicate n False @ h)) = recent_errors n h"
  by (simp add: errors_in_def recent_errors_def)

lemma er_new_inv:
  assumes "j \<le> 24"
  shows "\<exists>e. er_new (2 ^ (j + 6)) = Inr e \<and> er_inv j [] e"
proof -
  have bs: "align_size ((2::u64) ^ (j + 6)) = Inr (2 ^ (j + 6))"
    using assms by (intro align_size_of_pow2) simp
  have "unat ((2::u64) ^ (j + 6) div 64) = unat ((2::u64) ^ j)"
    unfolding unat_div using assms unat_pow2_word [of "j + 6"] unat_pow2_word [of j]
    by (simp del: power_add) (simp add: power_add)
  then have dv: "(2::u64) ^ (j + 6) div 64 = 2 ^ j" by (simp add: word_unat_eq_iff)
  have "(2::nat) ^ j \<le> 2 ^ 24" using assms by (intro power_increasing) simp_all
  then have "take_bit 64 ((2::nat) ^ j) = 2 ^ j" by (intro take_bit_nat_eq_self) simp
  moreover have "(ucast (of_nat (2 ^ j) :: u64) :: i32) = of_nat (take_bit 64 (2 ^ j))"
    by (simp only: unsigned_of_nat) simp
  ultimately have tmp: "(ucast ((2::u64) ^ j) :: i32) = 2 ^ j" by simp
  have sz: "to_u64 (2 ^ (j + 6)) = 2 ^ (j + 6)" "to_u64 (2 ^ j) = 2 ^ j"
    using assms by (auto intro: to_u64_pow2)
  let ?e = "\<lparr>er_idx = 0, er_container = replicate (2 ^ j) 0, er_bit_size = 2 ^ (j + 6),
      er_high_bit = 2 ^ j - 1\<rparr>"
  have "er_new (2 ^ (j + 6)) = Inr ?e"
    unfolding er_new_def sz bs using assms by (simp add: dv tmp sz unat_pow2_word Let_def)
  moreover have "er_shape j ?e" using assms by (simp add: er_shape_def of_nat_diff)
  moreover have "er_bits ?e = replicate (2 ^ (j + 6)) False"
    by (rule nth_equalityI) (auto simp: er_bits_def power_add)
  ultimately show ?thesis by (auto simp: er_inv_def ring_span_def intro!: nth_equalityI)
qed

lemma error_rate_history:
  assumes "j \<le> 24"
  shows "\<exists>e e'. er_new (2 ^ (j + 6)) = Inr e \<and> record_all h e = Inr e'
    \<and> error_cnt e' = Inr (recent_errors (2 ^ (j + 6)) h)
    \<and> er_get e' = Inr (real (recent_errors (2 ^ (j + 6)) h) / 128)"
proof -
  obtain e where e: "er_new (2 ^ (j + 6)) = Inr e" "er_inv j [] e"
    using er_new_inv [OF assms] by blast
  obtain e' where e': "record_all h e = Inr e'" "er_inv j h e'"
    using record_all_inv [OF e(2), of h] by auto
  then have "error_cnt e' = Inr (recent_errors (2 ^ (j + 6)) h)"
    using error_cnt_inv [OF e'(2)] by (simp only: errors_in_window)
  with e(1) e'(1) show ?thesis by (simp add: er_get_def)
qed

lemma recent_errors_all: "recent_errors n (replicate n True) = n"
  by (simp add: recent_errors_def errors_in_def)

section \<open>Properties\<close>

text \<open>C40: a new \<open>LocalErrorRate\<close> of \<open>2 ^ (j + 6)\<close> bits, after any history of recorded errors and
  successes, counts exactly the errors among the last \<open>2 ^ (j + 6)\<close> outcomes, and \<open>get\<close> is that
  count divided by 128.\<close>

theorem error_rate_counts_window:
  assumes "j \<le> 24"
  shows "\<exists>e e'. er_new (2 ^ (j + 6)) = Inr e \<and> record_all h e = Inr e'
    \<and> error_cnt e' = Inr (recent_errors (2 ^ (j + 6)) h)
    \<and> er_get e' = Inr (real (recent_errors (2 ^ (j + 6)) h) / 128)"
  by (rule error_rate_history [OF assms])

theorem error_rate_counts_window_witness:
  "\<exists>e e'. er_new (2 ^ (0 + 6)) = Inr e \<and> record_all [True, False, True] e = Inr e'
    \<and> error_cnt e' = Inr (recent_errors (2 ^ (0 + 6)) [True, False, True])
    \<and> er_get e' = Inr (real (recent_errors (2 ^ (0 + 6)) [True, False, True]) / 128)"
  by (rule error_rate_counts_window) simp

text \<open>The rate is a fraction only for the size 128. With 64 bits, a history of errors alone
  gives one half; with 256 bits it gives two.\<close>

theorem error_rate_scale:
  "(\<exists>e e'. er_new (2 ^ 6) = Inr e \<and> record_all (replicate 64 True) e = Inr e'
      \<and> er_get e' = Inr (1 / 2))
   \<and> (\<exists>e e'. er_new (2 ^ 8) = Inr e \<and> record_all (replicate 256 True) e = Inr e'
      \<and> er_get e' = Inr 2)"
  using error_rate_history [of 0 "replicate 64 True"] error_rate_history [of 2 "replicate 256 True"]
    recent_errors_all [of 64] recent_errors_all [of 256]
  by auto

end
