(* ===== verification/Spec2Isabelle.thy ===== *)
theory Spec2Isabelle
  imports Idle_Workers Coctx Stack_Pages Reports Limited_Run Aspect Futures Thread_Wait Node_Pool Dump Edge_Protocol Self_Queue Task_Queue Lock_Queue Free_Lock_Threads
    Error_Rate Time_Locks Util
begin

text \<open>
  quiet_flow: a scheduler for directed acyclic graphs of tasks that run as coroutines on a pool of
  worker threads.

  \<^bold>\<open>The program.\<close> A task is a \<open>Node\<close>. \<open>Graph::create_edges\<close> puts a node into a graph and makes it wait
  for other nodes; a node without open dependencies goes through \<open>Graph::ready\<close> (which holds nodes of a
  limited graph back in a \<open>SelfQueue\<close>) and \<open>Schedule::add_new_task\<close> into the task queue. Each worker runs
  \<open>jump_in_schedule\<close>: it takes a task, runs it, and \<open>Node::finish\<close> and \<open>Graph::finish\<close> count down the nodes behind it, hand
  one of those that become ready to the same worker and queue the rest. A running task may create graphs and
  nodes of its own and may wait for them with \<open>ScheduleAspect::require_node\<close> or \<open>wait_graph\<close>: the call puts a \<open>BackNode\<close>
  behind what it waits for, switches the worker to a new context, and the worker that later runs the
  \<open>BackNode\<close> switches back. \<open>FutureAspect\<close> does the same for futures, \<open>Node::block_thread_for_group\<close> for threads that
  are no workers.

  \<^bold>\<open>The theories\<close>, bottom up, and the source each one models. A struct is a record, an \<open>enum\<close> a datatype, a machine integer
  a word of its width; a function of the code is a HOL function of the same name, with a prefix where
  names clash (\<open>fq_try_enqueue\<close> is \<open>try_enqueue\<close> of the lock-free queue). Functions that can fail return a
  \<open>result\<close>: \<open>Assert_Failed\<close> is an exception of \<open>QuietFlowAssert\<close>, \<open>Undefined\<close> undefined behaviour (a
  dangling or null pointer, an index out of range, a shift too wide), \<open>Thrown\<close> another exception, \<open>Diverges\<close>
  a call that never returns.

  \<^item> QF_Prelude: the result type, folds of fallible steps, words and ring buffers.
  \<^item> Util (head/util.h, src/util.cpp): \<open>RunningStatus\<close> and its order, bit maps, \<open>align_size\<close>.
  \<^item> Queue_Interface (head/queue/interface.h): the contract of a queue as the locales \<open>abstract_queue\<close> and
    \<open>total_queue\<close>. Lock_Queue (queue/lock), Free_Lock_Queue (queue/free_lock, one thread at a time) interpret them;
    Task_Queue (queue/task) and Self_Queue (\<open>SelfQueue\<close> of src/graph.cpp) are clients, and Self_Queue
    states what a limited graph relies on as the locale \<open>admission\<close>.
  \<^item> Free_Lock_Conc, Free_Lock_Slots, Free_Lock_Safe, Free_Lock_Threads: the lock-free queue again, with any number of
    threads inside, one access to a shared member a step.
  \<^item> Idle_Workers: the counters and the futex of the task queue with any number of threads, one access a step.
  \<^item> Error_Rate (head/error_rate.h, src/error_rate.cpp), Time_Locks (locks/thread, head/time_cost.h).
  \<^item> Node_Graph (head/node.h, src/node.cpp, src/graph.cpp): the store of nodes and graphs, \<open>create_edges\<close>,
    \<open>add_downstream\<close>, \<open>finish\<close>. Lifecycle: \<open>release\<close>, destructors, \<open>clear_graph\<close>, \<open>run_task\<close> up to and from the body of
    a task. Dag_Inv, Dag_Edges, Dag_Finish: the invariant of the store and why these functions keep it. Dag_Exec: the
    step relation of workers and users over the store, and what holds in every reachable state.
  \<^item> Limited, Limited_Run (src/graph.cpp): \<open>Graph::ready\<close> and the second half of \<open>Graph::finish\<close> over any number of
    graphs with limits, whose queues are those of Self_Queue, and the step relation of a program that uses them.
  \<^item> Edge_Protocol: \<open>add_downstream\<close> and \<open>finish\<close> once more, access by access, as far as they share no lock.
  \<^item> Circle_Check (src/aspect.cpp): \<open>check_circle\<close>, whose loop need not end, as a \<open>partial_function\<close>.
  \<^item> Executor (head/executor.h, src/executor.cpp, part of src/schedule.cpp): contexts, stacks, pools of stacks.
    Stack_Inv, Coroutine: who owns a stack and where a context can be, as an invariant of a step relation over the
    switches. Scheduler (src/schedule.cpp): \<open>init\<close>, \<open>destroy\<close>, the loop of a worker.
  \<^item> Coctx (cpp3rd/libco): the instructions of \<open>coctx_swap\<close> and \<open>coctx_set\<close> on a model of the machine, \<open>coctx_make\<close>.
    Stack_Pages (src/executor.cpp): the memory \<open>shrink_physical_memory\<close> gives back.
  \<^item> Aspect (src/aspect.cpp): \<open>require_node\<close>, \<open>wait_graph\<close>, \<open>BackNode\<close>. Futures (head/cpp3rd/folly_future.h,
    async_extension/folly_future): futures and the wait for them. Thread_Wait (src/node.cpp): \<open>block_thread_for_group\<close>.
    A call that switches the context or sleeps is split there into two functions, \<open>_enter\<close> and \<open>_leave\<close>.
  \<^item> Node_Pool (src/graph.cpp): the pool of reused nodes, \<open>LambdaNode\<close>. Dump (src/graph.cpp): \<open>Graph::dump\<close>.
    Reports: \<open>StdOut\<close> and the metrics of finished tasks.

  \<^bold>\<open>What the theorems show.\<close> The queues answer as bounded FIFO queues (refinement), the lock-free one also with
  any number of threads, each call returning under every schedule. No schedule makes all workers sleep through a task. The store stays well-formed; every call of the
  scheduler on it succeeds, tasks start after what they wait for, once, and all of them end; a graph's \<open>wait_count\<close> is
  exact. A graph with a limit never has more nodes on their way than places, and hands each place on. Each edge is counted once under every interleaving of \<open>add_downstream\<close> and \<open>finish\<close>. No two workers
  share a context or a stack, no switch fails, a switch brings a context back with the registers it had, and \<open>destroy\<close> gives everything back. A task or thread that waits
  does block without fail, is woken by the last of what it waits for and not before, and frees what the wait allocated.
  Where the code breaks these promises, a theorem says when: an unguarded \<open>|=\<close> that loses an edge, a circle that makes
  \<open>check_circle\<close> run for ever, the \<open>int\<close> that hangs a queue after \<open>2 ^ 31\<close> items, a queue of one slot, the
  pointers left in \<open>down_streams\<close>, the value of a future that is set too early, a \<open>RootNode\<close> that cannot be run,
  a picture of nodes without sub-graphs, a \<open>finish\<close> that goes around the limit of another graph, a graph that is used
  again after \<open>clear_graph\<close>, a worker that gives back memory of others.

  \<^bold>\<open>Bounds and fuel.\<close> The loops of the code are structural recursion, recursion with a measure, or
  \<open>partial_function (option)\<close>, whose \<open>None\<close> is \<open>Diverges\<close>. Fuel is an argument of
  \<open>dump\<close>, one unit for each level of nested graphs, and the depth of the graph plus one is shown to be enough; of
  \<open>drain_pool\<close>, which the destructor of a worker calls with the length of its pool plus one, shown to be enough by \<open>drain_eff\<close>;
  and of \<open>run_loop\<close> and \<open>worker_tasks\<close>, one unit for each task a worker is handed in a row, of which there may be any
  number: in \<open>destroy\<close> one is enough, and Dag_Exec, where each task is a step, has no need of them. Hypotheses on sizes are those of the
  integers of the code: fewer than \<open>2 ^ 31\<close> dependencies of a node, workers, and dequeues of one lock-free
  queue (its \<open>cur_version\<close> is an \<open>int\<close>, and the theorem \<open>free_queue_hangs_after_int_max\<close> shows the bound is
  tight), queues of at most \<open>2 ^ 30\<close> slots.

  \<^bold>\<open>Memory and time.\<close> An address is a number, the store maps those that are allocated; what \<open>new\<close> and \<open>mmap\<close> return
  is an argument. Reading what is not in the store is undefined behaviour, so the theorems that
  calls succeed are theorems of memory safety. A critical section, or a function whose callers hold
  a lock, is one step; the theories that split functions into accesses say so. Memory is sequentially consistent.

  \<^bold>\<open>Not modelled.\<close>
  \<^item> The i386 branch of libco, an alternative for another machine. In the theories above Coctx a switch is where a function ends.
  \<^item> The names of nodes outside \<open>dump\<close> and all code under \<open>QUIET_FLOW_DEBUG\<close>: output only.
  \<^item> The reference counts of \<open>shared_ptr\<close>: a node is freed where the code drops its last pointer.
  \<^item> Relaxed memory: the code uses \<open>memory_order_relaxed\<close> for its counters; the interleavings here do not reorder.
  \<^item> Sleepers of the task queue outside Idle_Workers: there the wakes are recorded only. The wakes of
    free_lock.cpp wake every waiter; in Free_Lock_Conc a waiter goes on once the version lets it.
  \<^item> The bodies of tasks and callables, which belong to the user, are parameters.
  \<^item> Dag_Exec runs graphs without a limit. Limited_Run runs those with one, but takes the nodes that become ready as
    given: which nodes these are is the business of the edges, which limits do not touch.
  \<^item> Demos, benchmarks and unit tests.
\<close>

end
